(* ===== verification/ST_Prelude.thy ===== *)
theory ST_Prelude
  imports Main "HOL-Library.Word" "HOL-Library.Tree"
begin

text \<open>
  What the components of the development share: the machine types of the C code, the
  \<open>errno\<close> values it sets, single-bit flag tests on words, and generic lemmas on lists.
  The collection \<open>st_defs\<close> gathers the one-line definitions that component proofs unfold.
\<close>

unbundle bit_operations_syntax

named_theorems st_defs
named_theorems flag_simps

section \<open>Machine types\<close>

text \<open>\<open>st_utime_t\<close> is an \<open>unsigned long long\<close>; a \<open>short\<close> and an \<open>int\<close> used as a bit set are words.\<close>

type_synonym utime = "64 word"
type_synonym flagw = "32 word"
type_synonym eventw = "16 word"

text \<open>Untyped pointers (\<open>void *\<close>) are addresses, \<open>NULL\<close> is \<open>0\<close>.\<close>

type_synonym ptr = nat

definition NULLP :: ptr where
  "NULLP = 0"

section \<open>Error numbers\<close>

text \<open>
  A function of the library that fails stores a code in \<open>errno\<close> and returns \<open>-1\<close> (or
  \<open>NULL\<close>). Such a result is \<open>Inl e\<close>; \<open>EOTHER\<close> stands for a code the library never
  inspects and only passes on.
\<close>

datatype errno =
    EPERM | EINTR | EBADF | EAGAIN | ENOMEM | EBUSY | EEXIST | EINVAL | EMFILE | EDEADLK
  | ENOSYS | ETIME | EADDRINUSE | EINPROGRESS | EMSGSIZE | EOTHER nat

section \<open>Single-bit flags\<close>

text \<open>The C idioms \<open>w & f\<close> as a condition, \<open>w |= f\<close> and \<open>w &= ~f\<close>.\<close>

definition has_flag :: "'a::len word \<Rightarrow> 'a word \<Rightarrow> bool" where
  "has_flag w f \<longleftrightarrow> w AND f \<noteq> 0"

definition set_flag :: "'a::len word \<Rightarrow> 'a word \<Rightarrow> 'a word" where
  "set_flag w f = w OR f"

definition clear_flag :: "'a::len word \<Rightarrow> 'a word \<Rightarrow> 'a word" where
  "clear_flag w f = w AND NOT f"

lemma has_flag_0 [simp]: "\<not> has_flag 0 f"
  by (simp add: has_flag_def)

lemma has_flag_bit: "has_flag w f \<longleftrightarrow> (\<exists>n. bit w n \<and> bit f n)"
  using bit_imp_le_length by (auto simp: has_flag_def bit_eq_iff bit_and_iff)

lemma has_flag_set: "has_flag (set_flag w f) g \<longleftrightarrow> has_flag w g \<or> has_flag f g"
  by (auto simp: has_flag_bit set_flag_def bit_or_iff)

lemma has_flag_clear_self [simp]: "\<not> has_flag (clear_flag w f) f"
  by (auto simp: has_flag_bit clear_flag_def bit_and_iff bit_not_iff)

lemma has_flag_clear_other:
  "\<not> has_flag f g \<Longrightarrow> has_flag (clear_flag w f) g \<longleftrightarrow> has_flag w g"
  by (auto simp: has_flag_bit clear_flag_def bit_and_iff bit_not_iff bit_imp_le_length)

lemma has_flag_or: "has_flag (v OR w) g \<longleftrightarrow> has_flag v g \<or> has_flag w g"
  by (auto simp: has_flag_bit bit_or_iff)

section \<open>Lists\<close>

lemma remove1_middle [simp]: "x \<notin> set as \<Longrightarrow> remove1 x (as @ x # bs) = as @ bs"
  by (simp add: remove1_append)

lemma sum_list_remove1_nat:
  "x \<in> set xs \<Longrightarrow> (\<Sum>y\<leftarrow>xs. f y :: nat) = f x + (\<Sum>y\<leftarrow>remove1 x xs. f y)"
  by (induction xs) auto

end
