(* ===== verification/ST_Data.thy ===== *)
theory ST_Data
  imports ST_Prelude
begin

text \<open>
  The data of \<open>common.h\<close> and of the event systems in \<open>event.c\<close>: thread objects, condition
  variables, mutexes, poll requests, the per-thread key table of \<open>key.c\<close>, the stacks of
  \<open>stk.c\<close>, and one record \<open>st\<close> for the whole process: the virtual processor
  \<open>_st_this_vp\<close>, the other globals and the store of objects. Objects are named by their
  addresses (\<open>tid\<close>, \<open>cvid\<close>, \<open>mid\<close>); a pointer that may be \<open>NULL\<close> is an option.
  Queues linked through \<open>_st_clist_t\<close> are lists, as \<open>ST_CList\<close> justifies.
\<close>

section \<open>Thread states and flags\<close>

datatype thr_state =
    ST_RUNNING | ST_RUNNABLE | ST_IO_WAIT | ST_LOCK_WAIT | ST_COND_WAIT | ST_SLEEPING
  | ST_ZOMBIE | ST_SUSPENDED

definition FL_PRIMORDIAL :: flagw where "FL_PRIMORDIAL = 0x01"
definition FL_IDLE_THREAD :: flagw where "FL_IDLE_THREAD = 0x02"
definition FL_ON_SLEEPQ :: flagw where "FL_ON_SLEEPQ = 0x04"
definition FL_INTERRUPT :: flagw where "FL_INTERRUPT = 0x08"
definition FL_TIMEDOUT :: flagw where "FL_TIMEDOUT = 0x10"

lemmas FL_defs = FL_PRIMORDIAL_def FL_IDLE_THREAD_def FL_ON_SLEEPQ_def FL_INTERRUPT_def
  FL_TIMEDOUT_def

lemma has_flag_FL [flag_simps]:
  "has_flag FL_PRIMORDIAL FL_PRIMORDIAL" "has_flag FL_IDLE_THREAD FL_IDLE_THREAD"
  "has_flag FL_ON_SLEEPQ FL_ON_SLEEPQ" "has_flag FL_INTERRUPT FL_INTERRUPT"
  "has_flag FL_TIMEDOUT FL_TIMEDOUT"
  "\<not> has_flag FL_PRIMORDIAL FL_IDLE_THREAD" "\<not> has_flag FL_PRIMORDIAL FL_ON_SLEEPQ"
  "\<not> has_flag FL_PRIMORDIAL FL_INTERRUPT" "\<not> has_flag FL_PRIMORDIAL FL_TIMEDOUT"
  "\<not> has_flag FL_IDLE_THREAD FL_PRIMORDIAL" "\<not> has_flag FL_IDLE_THREAD FL_ON_SLEEPQ"
  "\<not> has_flag FL_IDLE_THREAD FL_INTERRUPT" "\<not> has_flag FL_IDLE_THREAD FL_TIMEDOUT"
  "\<not> has_flag FL_ON_SLEEPQ FL_PRIMORDIAL" "\<not> has_flag FL_ON_SLEEPQ FL_IDLE_THREAD"
  "\<not> has_flag FL_ON_SLEEPQ FL_INTERRUPT" "\<not> has_flag FL_ON_SLEEPQ FL_TIMEDOUT"
  "\<not> has_flag FL_INTERRUPT FL_PRIMORDIAL" "\<not> has_flag FL_INTERRUPT FL_IDLE_THREAD"
  "\<not> has_flag FL_INTERRUPT FL_ON_SLEEPQ" "\<not> has_flag FL_INTERRUPT FL_TIMEDOUT"
  "\<not> has_flag FL_TIMEDOUT FL_PRIMORDIAL" "\<not> has_flag FL_TIMEDOUT FL_IDLE_THREAD"
  "\<not> has_flag FL_TIMEDOUT FL_ON_SLEEPQ" "\<not> has_flag FL_TIMEDOUT FL_INTERRUPT"
  by (simp_all add: has_flag_def FL_defs)

lemma flag_upd [flag_simps]:
  "has_flag (set_flag w f) g \<longleftrightarrow> has_flag w g \<or> has_flag f g"
  "has_flag (clear_flag w FL_ON_SLEEPQ) FL_INTERRUPT = has_flag w FL_INTERRUPT"
  "has_flag (clear_flag w FL_ON_SLEEPQ) FL_TIMEDOUT = has_flag w FL_TIMEDOUT"
  "has_flag (clear_flag w FL_ON_SLEEPQ) FL_PRIMORDIAL = has_flag w FL_PRIMORDIAL"
  "has_flag (clear_flag w FL_ON_SLEEPQ) FL_IDLE_THREAD = has_flag w FL_IDLE_THREAD"
  "has_flag (clear_flag w FL_INTERRUPT) FL_ON_SLEEPQ = has_flag w FL_ON_SLEEPQ"
  "has_flag (clear_flag w FL_INTERRUPT) FL_TIMEDOUT = has_flag w FL_TIMEDOUT"
  "has_flag (clear_flag w FL_INTERRUPT) FL_PRIMORDIAL = has_flag w FL_PRIMORDIAL"
  "has_flag (clear_flag w FL_INTERRUPT) FL_IDLE_THREAD = has_flag w FL_IDLE_THREAD"
  "has_flag (clear_flag w FL_TIMEDOUT) FL_ON_SLEEPQ = has_flag w FL_ON_SLEEPQ"
  "has_flag (clear_flag w FL_TIMEDOUT) FL_INTERRUPT = has_flag w FL_INTERRUPT"
  "has_flag (clear_flag w FL_TIMEDOUT) FL_PRIMORDIAL = has_flag w FL_PRIMORDIAL"
  "has_flag (clear_flag w FL_TIMEDOUT) FL_IDLE_THREAD = has_flag w FL_IDLE_THREAD"
  by (simp_all add: has_flag_set has_flag_clear_other flag_simps)

section \<open>Poll descriptors\<close>

text \<open>The constants of \<open>poll.h\<close> and \<open>sys/epoll.h\<close>, with the values of Linux.\<close>

definition POLLIN :: eventw where "POLLIN = 0x01"
definition POLLPRI :: eventw where "POLLPRI = 0x02"
definition POLLOUT :: eventw where "POLLOUT = 0x04"
definition POLLERR :: eventw where "POLLERR = 0x08"
definition POLLHUP :: eventw where "POLLHUP = 0x10"
definition POLLNVAL :: eventw where "POLLNVAL = 0x20"

lemmas POLL_defs = POLLIN_def POLLPRI_def POLLOUT_def POLLERR_def POLLHUP_def POLLNVAL_def

record pollfd =
  fd :: int
  events :: eventw
  revents :: eventw

section \<open>Objects\<close>

type_synonym tid = nat
type_synonym cvid = nat
type_synonym mid = nat
type_synonym sid = nat

text \<open>
  A saved context (\<open>jmp_buf\<close>) is modelled by the point at which the thread will go on: the
  call of the library that switched away, with what its frame still needs.
\<close>

datatype kont =
    K_run \<comment> \<open>running code of its own\<close>
  | K_start \<comment> \<open>will enter \<open>_st_thread_main\<close>\<close>
  | K_idle \<comment> \<open>in the loop of the idle thread\<close>
  | K_usleep
  | K_cond cvid
  | K_join tid cvid
  | K_mutex mid
  | K_poll
  | K_zombie \<comment> \<open>in \<open>st_thread_exit\<close>, waiting to be joined\<close>
  | K_dead \<comment> \<open>past the end of \<open>st_thread_exit\<close>\<close>

record thread =
  state :: thr_state
  flags :: flagw
  start :: ptr
  arg :: ptr
  retval :: ptr
  stack :: "sid option"
  due :: utime
  left :: "tid option"
  right :: "tid option"
  heap_index :: nat
  private_data :: "ptr list"
  term_cv :: "cvid option"
  ctx :: kont

record mutex =
  owner :: "tid option"
  m_wait_q :: "tid list"

text \<open>
  A poll request is a local variable of \<open>st_poll\<close>. A thread is inside at most one call of
  it, so the request is named by the thread.
\<close>

record pollq =
  pq_thread :: tid
  pds :: "pollfd list"
  on_ioq :: bool

section \<open>Keys and stacks\<close>

definition ST_KEYS_MAX :: nat where "ST_KEYS_MAX = 16"

record keytab =
  destructors :: "ptr list"
  key_max :: nat

record stk =
  vaddr :: int
  vaddr_size :: int
  stk_size :: int
  stk_bottom :: int
  stk_top :: int
  sp :: int

record stacks =
  stk_of :: "sid \<Rightarrow> stk"
  free_stacks :: "sid list"
  num_free_stacks :: int
  randomize_stacks :: int

section \<open>Event systems\<close>

datatype eventsys = SELECT | POLL | KQUEUE | EPOLL

record seldata =
  fd_read_set :: "int \<Rightarrow> bool"
  fd_write_set :: "int \<Rightarrow> bool"
  fd_exception_set :: "int \<Rightarrow> bool"
  sel_read_cnt :: "int \<Rightarrow> int"
  sel_write_cnt :: "int \<Rightarrow> int"
  sel_excep_cnt :: "int \<Rightarrow> int"
  maxfd :: int

record polldata =
  pollfds_size :: int
  fdcnt :: int

datatype kq_filter = EVFILT_READ | EVFILT_WRITE
datatype kq_action = EV_ADD_ONESHOT | EV_DELETE

record kevent =
  ident :: int
  kfilter :: kq_filter
  kflags :: kq_action

record kqdata =
  kq_rd_ref_cnt :: "int \<Rightarrow> int"
  kq_wr_ref_cnt :: "int \<Rightarrow> int"
  kq_revents :: "int \<Rightarrow> eventw"
  kq_fd_data_size :: int
  kq_evtlist_size :: int
  addlist :: "kevent list"
  addlist_size :: int
  dellist :: "kevent list"
  dellist_size :: int
  kq :: int
  kq_pid :: int
  kq_deleted :: "kevent list" \<comment> \<open>delete requests handed to the kernel\<close>

datatype epoll_op = EPOLL_CTL_ADD | EPOLL_CTL_MOD | EPOLL_CTL_DEL

record epolldata =
  ep_rd_ref_cnt :: "int \<Rightarrow> int"
  ep_wr_ref_cnt :: "int \<Rightarrow> int"
  ep_ex_ref_cnt :: "int \<Rightarrow> int"
  ep_revents :: "int \<Rightarrow> flagw"
  ep_fd_data_size :: int
  evtlist_size :: int
  evtlist_cnt :: int
  fd_hint :: int
  epfd :: int
  ep_pid :: int
  ctl_log :: "(epoll_op \<times> int \<times> flagw) list" \<comment> \<open>the \<open>epoll_ctl\<close> calls made\<close>

section \<open>The process\<close>

record st =
  thr :: "tid \<Rightarrow> thread"
  this_thread :: tid
  active_count :: int
  curr_time :: int
  last_tset :: utime
  idle_thread :: tid
  last_clock :: utime
  run_q :: "tid list"
  io_q :: "tid list"
  zombie_q :: "tid list"
  thread_q :: "tid list"
  pagesize :: int
  sleep_q :: "tid option"
  sleepq_size :: nat
  switch_out_cb :: ptr
  switch_in_cb :: ptr
  conds :: "cvid \<rightharpoonup> tid list"
  mutexes :: "mid \<rightharpoonup> mutex"
  pollqs :: "tid \<Rightarrow> pollq"
  keys :: keytab
  stks :: stacks
  evsys :: "eventsys option"
  sel :: seldata
  pol :: polldata
  kqd :: kqdata
  epd :: epolldata
  calls :: "(ptr \<times> ptr) list" \<comment> \<open>user functions called (destructors, switch callbacks)\<close>

definition upd_thr :: "tid \<Rightarrow> (thread \<Rightarrow> thread) \<Rightarrow> st \<Rightarrow> st" where
  "upd_thr t f s = s\<lparr>thr := (thr s)(t := f (thr s t))\<rparr>"

definition NO_TIMEOUT :: utime where
  "NO_TIMEOUT = - 1"

lemma thr_upd_thr [simp]: "thr (upd_thr t f s) = (thr s)(t := f (thr s t))"
  by (simp add: upd_thr_def)

lemma upd_thr_frame [simp]:
  "this_thread (upd_thr t f s) = this_thread s" "active_count (upd_thr t f s) = active_count s"
  "curr_time (upd_thr t f s) = curr_time s" "last_tset (upd_thr t f s) = last_tset s"
  "idle_thread (upd_thr t f s) = idle_thread s" "last_clock (upd_thr t f s) = last_clock s"
  "run_q (upd_thr t f s) = run_q s" "io_q (upd_thr t f s) = io_q s"
  "zombie_q (upd_thr t f s) = zombie_q s" "thread_q (upd_thr t f s) = thread_q s"
  "pagesize (upd_thr t f s) = pagesize s" "sleep_q (upd_thr t f s) = sleep_q s"
  "sleepq_size (upd_thr t f s) = sleepq_size s" "conds (upd_thr t f s) = conds s"
  "mutexes (upd_thr t f s) = mutexes s" "pollqs (upd_thr t f s) = pollqs s"
  "keys (upd_thr t f s) = keys s" "stks (upd_thr t f s) = stks s"
  "evsys (upd_thr t f s) = evsys s" "sel (upd_thr t f s) = sel s" "pol (upd_thr t f s) = pol s"
  "kqd (upd_thr t f s) = kqd s" "epd (upd_thr t f s) = epd s" "calls (upd_thr t f s) = calls s"
  "switch_out_cb (upd_thr t f s) = switch_out_cb s" "switch_in_cb (upd_thr t f s) = switch_in_cb s"
  by (simp_all add: upd_thr_def)

section \<open>Before the start\<close>

text \<open>The process before \<open>st_init\<close>: every static object is zero.\<close>

definition static_thread :: thread where
  "static_thread = \<lparr>state = ST_RUNNING, flags = 0, start = NULLP, arg = NULLP, retval = NULLP, stack = None,
     due = 0, left = None, right = None, heap_index = 0, private_data = replicate ST_KEYS_MAX NULLP,
     term_cv = None, ctx = K_dead\<rparr>"

definition static_stk :: stk where
  "static_stk = \<lparr>vaddr = 0, vaddr_size = 0, stk_size = 0, stk_bottom = 0, stk_top = 0, sp = 0\<rparr>"

definition static_st :: st where
  "static_st = \<lparr>thr = (\<lambda>_. static_thread), this_thread = 0, active_count = 0, curr_time = 0, last_tset = 0,
     idle_thread = 0, last_clock = 0, run_q = [], io_q = [], zombie_q = [], thread_q = [], pagesize = 0,
     sleep_q = None, sleepq_size = 0, switch_out_cb = NULLP, switch_in_cb = NULLP, conds = Map.empty,
     mutexes = Map.empty, pollqs = (\<lambda>t. \<lparr>pq_thread = t, pds = [], on_ioq = False\<rparr>),
     keys = \<lparr>destructors = replicate ST_KEYS_MAX NULLP, key_max = 0\<rparr>,
     stks = \<lparr>stk_of = (\<lambda>_. static_stk), free_stacks = [], num_free_stacks = 0, randomize_stacks = 0\<rparr>,
     evsys = None,
     sel = \<lparr>fd_read_set = (\<lambda>_. False), fd_write_set = (\<lambda>_. False), fd_exception_set = (\<lambda>_. False),
       sel_read_cnt = (\<lambda>_. 0), sel_write_cnt = (\<lambda>_. 0), sel_excep_cnt = (\<lambda>_. 0), maxfd = 0\<rparr>,
     pol = \<lparr>pollfds_size = 0, fdcnt = 0\<rparr>,
     kqd = \<lparr>kq_rd_ref_cnt = (\<lambda>_. 0), kq_wr_ref_cnt = (\<lambda>_. 0), kq_revents = (\<lambda>_. 0), kq_fd_data_size = 0,
       kq_evtlist_size = 0, addlist = [], addlist_size = 0, dellist = [], dellist_size = 0, kq = 0, kq_pid = 0,
       kq_deleted = []\<rparr>,
     epd = \<lparr>ep_rd_ref_cnt = (\<lambda>_. 0), ep_wr_ref_cnt = (\<lambda>_. 0), ep_ex_ref_cnt = (\<lambda>_. 0), ep_revents = (\<lambda>_. 0),
       ep_fd_data_size = 0, evtlist_size = 0, evtlist_cnt = 0, fd_hint = 0, epfd = 0, ep_pid = 0, ctl_log = []\<rparr>,
     calls = []\<rparr>"

end
