(* ===== verification/ST_Keys.thy ===== *)
theory ST_Keys
  imports ST_Data
begin

text \<open>
  Per-thread private data (\<open>key.c\<close>): the table of destructors \<open>_st_destructors\<close> with \<open>key_max\<close>,
  and the \<open>private_data\<close> array of each thread. A call of a destructor is recorded in \<open>calls\<close>;
  destructors do not call back into this component.
\<close>

section \<open>Operations\<close>

definition call_destructor :: "ptr \<Rightarrow> ptr \<Rightarrow> st \<Rightarrow> st" where
  "call_destructor d v s = s\<lparr>calls := calls s @ [(d, v)]\<rparr>"

definition set_private :: "tid \<Rightarrow> nat \<Rightarrow> ptr \<Rightarrow> st \<Rightarrow> st" where
  "set_private t k v s = upd_thr t (\<lambda>x. x\<lparr>private_data := (private_data x)[k := v]\<rparr>) s"

definition st_key_create :: "ptr \<Rightarrow> st \<Rightarrow> (errno + int) \<times> st" where
  "st_key_create destructor s =
     (let k = keys s in
      if key_max k \<ge> ST_KEYS_MAX then (Inl EAGAIN, s)
      else (Inr (int (key_max k)),
            s\<lparr>keys := k\<lparr>key_max := key_max k + 1,
                        destructors := (destructors k)[key_max k := destructor]\<rparr>\<rparr>))"

definition st_key_getlimit :: "int" where
  "st_key_getlimit = int ST_KEYS_MAX"

definition st_thread_setspecific :: "int \<Rightarrow> ptr \<Rightarrow> st \<Rightarrow> (errno + unit) \<times> st" where
  "st_thread_setspecific key v s =
     (let me = this_thread s in
      if key < 0 \<or> key \<ge> int (key_max (keys s)) then (Inl EINVAL, s)
      else
        let k = nat key; old = private_data (thr s me) ! k; d = destructors (keys s) ! k in
        if v \<noteq> old
        then (Inr (), set_private me k v
                        (if old \<noteq> NULLP \<and> d \<noteq> NULLP then call_destructor d old s else s))
        else (Inr (), s))"

definition st_thread_getspecific :: "int \<Rightarrow> st \<Rightarrow> ptr" where
  "st_thread_getspecific key s =
     (if key < 0 \<or> key \<ge> int (key_max (keys s)) then NULLP
      else private_data (thr s (this_thread s)) ! nat key)"

text \<open>The loop of \<open>_st_thread_cleanup\<close>, from \<open>key\<close> on; the first argument is what is left of it.\<close>

fun cleanup_loop :: "nat \<Rightarrow> nat \<Rightarrow> tid \<Rightarrow> st \<Rightarrow> st" where
  "cleanup_loop 0 key t s = s"
| "cleanup_loop (Suc n) key t s =
     (let v = private_data (thr s t) ! key; d = destructors (keys s) ! key
      in cleanup_loop n (key + 1) t
           (if v \<noteq> NULLP \<and> d \<noteq> NULLP then set_private t key NULLP (call_destructor d v s) else s))"

definition st_thread_cleanup :: "tid \<Rightarrow> st \<Rightarrow> st" where
  "st_thread_cleanup t s = cleanup_loop (key_max (keys s)) 0 t s"

section \<open>Invariant\<close>

text \<open>
  The tables have \<open>ST_KEYS_MAX\<close> entries, and a slot of a thread that belongs to a key not yet
  created is \<open>NULL\<close>.
\<close>

definition slots_ok :: "nat \<Rightarrow> ptr list \<Rightarrow> bool" where
  "slots_ok m vs \<longleftrightarrow> length vs = ST_KEYS_MAX \<and> (\<forall>k. m \<le> k \<longrightarrow> k < ST_KEYS_MAX \<longrightarrow> vs ! k = NULLP)"

definition keys_ok :: "st \<Rightarrow> bool" where
  "keys_ok s \<longleftrightarrow> length (destructors (keys s)) = ST_KEYS_MAX \<and> key_max (keys s) \<le> ST_KEYS_MAX"

lemma call_destructor_frame [simp]:
  "thr (call_destructor d v s) = thr s" "keys (call_destructor d v s) = keys s"
  "this_thread (call_destructor d v s) = this_thread s"
  "calls (call_destructor d v s) = calls s @ [(d, v)]"
  by (simp_all add: call_destructor_def)

lemma set_private_frame [simp]:
  "keys (set_private t k v s) = keys s" "calls (set_private t k v s) = calls s"
  "this_thread (set_private t k v s) = this_thread s"
  "thr (set_private t k v s) = (thr s)(t := (thr s t)\<lparr>private_data := (private_data (thr s t))[k := v]\<rparr>)"
  by (simp_all add: set_private_def)

lemma slots_ok_upd: "slots_ok m vs \<Longrightarrow> k < m \<Longrightarrow> slots_ok m (vs[k := v])"
  by (auto simp: slots_ok_def nth_list_update)

lemma slots_ok_NULL: "slots_ok m vs \<Longrightarrow> slots_ok m (vs[k := NULLP])"
  by (cases "k < length vs") (auto simp: slots_ok_def nth_list_update)

lemma slots_ok_mono: "slots_ok m vs \<Longrightarrow> m \<le> m' \<Longrightarrow> slots_ok m' vs"
  by (auto simp: slots_ok_def)

lemma setspecific_slots:
  assumes "keys_ok s" "slots_ok (key_max (keys s)) (private_data (thr s t))"
  shows "slots_ok (key_max (keys s)) (private_data (thr (snd (st_thread_setspecific key v s)) t))"
  using assms by (auto simp: st_thread_setspecific_def Let_def intro!: slots_ok_upd)

section \<open>Cleanup\<close>

text \<open>What a cleanup does to one slot, and the calls it makes.\<close>

definition cleared :: "keytab \<Rightarrow> nat \<Rightarrow> ptr list \<Rightarrow> nat \<Rightarrow> ptr" where
  "cleared kt m vs k = (if k < m \<and> destructors kt ! k \<noteq> NULLP then NULLP else vs ! k)"

definition cleanup_calls :: "keytab \<Rightarrow> ptr list \<Rightarrow> nat list \<Rightarrow> (ptr \<times> ptr) list" where
  "cleanup_calls kt vs ks = map (\<lambda>k. (destructors kt ! k, vs ! k))
     (filter (\<lambda>k. vs ! k \<noteq> NULLP \<and> destructors kt ! k \<noteq> NULLP) ks)"

lemma cleanup_calls_cong:
  "(\<And>k. k \<in> set ks \<Longrightarrow> vs ! k = vs' ! k) \<Longrightarrow> cleanup_calls kt vs ks = cleanup_calls kt vs' ks"
  by (induction ks) (auto simp: cleanup_calls_def)

lemma cleanup_calls_Cons:
  "cleanup_calls kt vs (k # ks) = cleanup_calls kt vs [k] @ cleanup_calls kt vs ks"
  by (simp add: cleanup_calls_def)

lemma cleanup_loop_frame [simp]:
  "keys (cleanup_loop n k t s) = keys s" "this_thread (cleanup_loop n k t s) = this_thread s"
  "active_count (cleanup_loop n k t s) = active_count s"
  by (induction n k t s rule: cleanup_loop.induct)
    (auto simp: Let_def set_private_def call_destructor_def)

lemma cleanup_loop_thr [simp]:
  "u \<noteq> t \<Longrightarrow> thr (cleanup_loop n k t s) u = thr s u"
  "state (thr (cleanup_loop n k t s) u) = state (thr s u)"
  "flags (thr (cleanup_loop n k t s) u) = flags (thr s u)"
  "stack (thr (cleanup_loop n k t s) u) = stack (thr s u)"
  "term_cv (thr (cleanup_loop n k t s) u) = term_cv (thr s u)"
  "ctx (thr (cleanup_loop n k t s) u) = ctx (thr s u)"
  "retval (thr (cleanup_loop n k t s) u) = retval (thr s u)"
  by (induction n k t s rule: cleanup_loop.induct) (auto simp: Let_def)

lemma cleanup_loop_spec:
  assumes "k + n \<le> length (private_data (thr s t))"
  shows "length (private_data (thr (cleanup_loop n k t s) t)) = length (private_data (thr s t)) \<and>
    (\<forall>j. private_data (thr (cleanup_loop n k t s) t) ! j =
       (if k \<le> j \<and> j < k + n \<and> destructors (keys s) ! j \<noteq> NULLP then NULLP
        else private_data (thr s t) ! j)) \<and>
    calls (cleanup_loop n k t s) = calls s @ cleanup_calls (keys s) (private_data (thr s t)) [k ..< k + n]"
  using assms
proof (induction n arbitrary: k s)
  case (Suc n)
  define v where "v = private_data (thr s t) ! k"
  define d where "d = destructors (keys s) ! k"
  define s1 where "s1 = (if v \<noteq> NULLP \<and> d \<noteq> NULLP then set_private t k NULLP (call_destructor d v s) else s)"
  have l: "cleanup_loop (Suc n) k t s = cleanup_loop n (k + 1) t s1"
    by (simp add: s1_def v_def d_def Let_def)
  have len: "length (private_data (thr s1 t)) = length (private_data (thr s t))" and k1: "keys s1 = keys s"
    by (simp_all add: s1_def)
  have pd: "private_data (thr s1 t) ! j =
      (if j = k \<and> v \<noteq> NULLP \<and> d \<noteq> NULLP then NULLP else private_data (thr s t) ! j)" for j
    using Suc.prems by (auto simp: s1_def nth_list_update)
  have c: "cleanup_calls (keys s) (private_data (thr s1 t)) [k + 1 ..< k + 1 + n] =
      cleanup_calls (keys s) (private_data (thr s t)) [k + 1 ..< k + 1 + n]"
    by (rule cleanup_calls_cong) (auto simp: pd)
  have u: "[k ..< k + Suc n] = k # [k + 1 ..< k + 1 + n]"
    by (simp add: upt_conv_Cons)
  have "calls s1 = calls s @ cleanup_calls (keys s) (private_data (thr s t)) [k]"
    by (simp add: s1_def cleanup_calls_def v_def d_def)
  then have cc: "calls s1 @ cleanup_calls (keys s) (private_data (thr s1 t)) [k + 1 ..< k + 1 + n] =
      calls s @ cleanup_calls (keys s) (private_data (thr s t)) [k ..< k + Suc n]"
    unfolding c u cleanup_calls_Cons [of _ _ k "[k + 1 ..< k + 1 + n]"] by (simp only: append_assoc)
  have nth: "(if k + 1 \<le> j \<and> j < k + 1 + n \<and> destructors (keys s) ! j \<noteq> NULLP then NULLP
        else private_data (thr s1 t) ! j) =
      (if k \<le> j \<and> j < k + Suc n \<and> destructors (keys s) ! j \<noteq> NULLP then NULLP
        else private_data (thr s t) ! j)" for j
    by (cases "j = k") (auto simp: pd d_def v_def)
  have "k + 1 + n \<le> length (private_data (thr s1 t))"
    using Suc.prems len by simp
  note IH = Suc.IH [OF this, unfolded len k1 nth cc]
  show ?case
    unfolding l using IH .
qed (simp add: cleanup_calls_def)

lemma cleanup_slots:
  assumes "keys_ok s" "slots_ok (key_max (keys s)) (private_data (thr s t))"
  shows "slots_ok (key_max (keys s)) (private_data (thr (st_thread_cleanup t s) t))"
  using cleanup_loop_spec [of 0 "key_max (keys s)" s t] assms
  by (auto simp: slots_ok_def keys_ok_def st_thread_cleanup_def)

section \<open>Properties\<close>

text \<open>
  C38: \<open>st_key_create\<close> fails with \<open>EAGAIN\<close> exactly when \<open>ST_KEYS_MAX\<close> keys are in use, and then
  changes nothing; otherwise it returns the next key, within the limit, whose destructor
  is the given one, leaves the other destructors alone and keeps the invariant; and the
  slot of the new key is \<open>NULL\<close> in every thread.
\<close>

theorem key_create_correct:
  assumes "keys_ok s" "slots_ok (key_max (keys s)) (private_data (thr s t))"
  shows "case st_key_create d s of
      (Inl e, s') \<Rightarrow> e = EAGAIN \<and> key_max (keys s) = ST_KEYS_MAX \<and> s' = s
    | (Inr k, s') \<Rightarrow> 0 \<le> k \<and> k < st_key_getlimit \<and> int (key_max (keys s')) = k + 1 \<and> keys_ok s' \<and>
        destructors (keys s') ! nat k = d \<and>
        (\<forall>j. j \<noteq> nat k \<longrightarrow> destructors (keys s') ! j = destructors (keys s) ! j) \<and>
        private_data (thr s' t) ! nat k = NULLP \<and>
        slots_ok (key_max (keys s')) (private_data (thr s' t))"
  using assms
  by (auto simp: st_key_create_def Let_def keys_ok_def st_key_getlimit_def nth_list_update slots_ok_def)


theorem key_create_correct_witness:
  "\<exists>k s'. st_key_create 7 static_st = (Inr k, s') \<and> destructors (keys s') ! nat k = 7"
  using key_create_correct [of static_st 0 7]
  by (simp add: keys_ok_def slots_ok_def static_st_def static_thread_def st_key_create_def ST_KEYS_MAX_def)

text \<open>
  after a successful \<open>st_thread_setspecific\<close> the calling thread reads the value back, every
  other slot and every other thread keeps theirs, and the destructor of the key has run exactly
  once, on the old value, if and only if the value changed and the old one and the destructor
  are not \<open>NULL\<close>; with a key out of range it fails with \<open>EINVAL\<close> and changes nothing.
\<close>

theorem setspecific_correct:
  assumes "keys_ok s" "slots_ok (key_max (keys s)) (private_data (thr s (this_thread s)))"
  shows "case st_thread_setspecific key v s of
      (Inl e, s') \<Rightarrow> e = EINVAL \<and> s' = s \<and> (key < 0 \<or> int (key_max (keys s)) \<le> key)
    | (Inr _, s') \<Rightarrow> 0 \<le> key \<and> key < int (key_max (keys s)) \<and> st_thread_getspecific key s' = v \<and>
        (\<forall>k. k \<noteq> key \<longrightarrow> st_thread_getspecific k s' = st_thread_getspecific k s) \<and>
        (\<forall>t. t \<noteq> this_thread s \<longrightarrow> thr s' t = thr s t) \<and>
        calls s' = calls s @
          (if v \<noteq> st_thread_getspecific key s \<and> st_thread_getspecific key s \<noteq> NULLP \<and>
              destructors (keys s) ! nat key \<noteq> NULLP
           then [(destructors (keys s) ! nat key, st_thread_getspecific key s)] else [])"
  using assms
  by (auto simp: st_thread_setspecific_def st_thread_getspecific_def Let_def keys_ok_def slots_ok_def
      nth_list_update nat_eq_iff)


theorem setspecific_correct_witness:
  "st_thread_getspecific 0 (snd (st_thread_setspecific 0 5 (snd (st_key_create 7 static_st)))) = 5"
proof -
  define s where "s = snd (st_key_create 7 static_st)"
  have "keys_ok s" "slots_ok (key_max (keys s)) (private_data (thr s (this_thread s)))" "key_max (keys s) = 1"
    by (simp_all add: s_def keys_ok_def slots_ok_def static_st_def static_thread_def st_key_create_def
        ST_KEYS_MAX_def)
  then show ?thesis
    using setspecific_correct [of s 0 5] unfolding s_def [symmetric]
    by (auto split: prod.splits sum.splits)
qed

text \<open>
  C32: when a thread ends, \<open>_st_thread_cleanup\<close> calls, in the order of the keys, the destructor of
  each key created so far on the value of the thread, where neither is \<open>NULL\<close>, and no other;
  afterwards every slot with a destructor is \<open>NULL\<close> and the others are as they were, so that a
  second cleanup calls nothing.
\<close>

theorem cleanup_correct:
  assumes "keys_ok s" "length (private_data (thr s t)) = ST_KEYS_MAX"
  shows "let s' = st_thread_cleanup t s; vs = private_data (thr s t); ds = destructors (keys s);
             m = key_max (keys s)
         in calls s' = calls s @ map (\<lambda>k. (ds ! k, vs ! k))
              (filter (\<lambda>k. vs ! k \<noteq> NULLP \<and> ds ! k \<noteq> NULLP) [0 ..< m]) \<and>
            (\<forall>k. private_data (thr s' t) ! k = (if k < m \<and> ds ! k \<noteq> NULLP then NULLP else vs ! k)) \<and>
            calls (st_thread_cleanup t s') = calls s'"
proof -
  define s' where "s' = st_thread_cleanup t s"
  have l: "0 + key_max (keys s) \<le> length (private_data (thr s t))"
    using assms by (simp add: keys_ok_def)
  note C = cleanup_loop_spec [OF l, folded st_thread_cleanup_def, folded s'_def]
  have ks: "keys s' = keys s" by (simp add: s'_def st_thread_cleanup_def)
  have "cleanup_calls (keys s) (private_data (thr s' t)) [0 ..< key_max (keys s)] = []"
    using C by (auto simp: cleanup_calls_def filter_empty_conv)
  moreover have "0 + key_max (keys s) \<le> length (private_data (thr s' t))"
    using C l by simp
  ultimately have "calls (st_thread_cleanup t s') = calls s'"
    using cleanup_loop_spec [of 0 "key_max (keys s')" s' t] by (simp add: st_thread_cleanup_def ks)
  then show ?thesis
    using C by (simp add: Let_def s'_def [symmetric] cleanup_calls_def)
qed


theorem cleanup_correct_witness:
  "calls (st_thread_cleanup 0 (snd (st_thread_setspecific 0 5 (snd (st_key_create 7 static_st))))) = [(7, 5)]"
proof -
  define s where "s = snd (st_thread_setspecific 0 5 (snd (st_key_create 7 static_st)))"
  have "keys_ok s" "length (private_data (thr s 0)) = ST_KEYS_MAX" "key_max (keys s) = 1" "calls s = []"
    "private_data (thr s 0) ! 0 = 5" "destructors (keys s) ! 0 = 7"
    by (simp_all add: s_def keys_ok_def static_st_def static_thread_def st_key_create_def
        st_thread_setspecific_def ST_KEYS_MAX_def NULLP_def)
  then show ?thesis
    using cleanup_correct [of s 0] unfolding s_def [symmetric]
    by (simp add: Let_def NULLP_def)
qed

end
