(* ===== verification/ST_CList.thy ===== *)
theory ST_CList
  imports ST_Prelude
begin

text \<open>
  The circular doubly linked lists of \<open>common.h\<close> at the level of their \<open>next\<close> and \<open>prev\<close>
  pointers, and the proof that the macros implement operations on sequences. Every queue
  of the scheduler (run, I/O, zombie, condition and mutex wait queues, the list of free
  stacks) is such a list; the other theories model them as Isabelle lists, which the
  lemmas here justify. A list is its head cell and the cells linked behind it.
\<close>

section \<open>The links and the macros\<close>

record 'a clinks =
  nxt :: "'a \<Rightarrow> 'a"
  prv :: "'a \<Rightarrow> 'a"

definition set_next :: "'a \<Rightarrow> 'a \<Rightarrow> 'a clinks \<Rightarrow> 'a clinks" where
  "set_next a b s = s\<lparr>nxt := (nxt s)(a := b)\<rparr>"

definition set_prev :: "'a \<Rightarrow> 'a \<Rightarrow> 'a clinks \<Rightarrow> 'a clinks" where
  "set_prev a b s = s\<lparr>prv := (prv s)(a := b)\<rparr>"

definition ST_INSERT_BEFORE :: "'a \<Rightarrow> 'a \<Rightarrow> 'a clinks \<Rightarrow> 'a clinks" where
  "ST_INSERT_BEFORE e l s =
     (let s1 = set_next e l s;
          s2 = set_prev e (prv s1 l) s1;
          s3 = set_next (prv s2 l) e s2
      in set_prev l e s3)"

definition ST_INSERT_AFTER :: "'a \<Rightarrow> 'a \<Rightarrow> 'a clinks \<Rightarrow> 'a clinks" where
  "ST_INSERT_AFTER e l s =
     (let s1 = set_next e (nxt s l) s;
          s2 = set_prev e l s1;
          s3 = set_prev (nxt s2 l) e s2
      in set_next l e s3)"

definition ST_APPEND_LINK :: "'a \<Rightarrow> 'a \<Rightarrow> 'a clinks \<Rightarrow> 'a clinks" where
  "ST_APPEND_LINK e l s = ST_INSERT_BEFORE e l s"

definition ST_INSERT_LINK :: "'a \<Rightarrow> 'a \<Rightarrow> 'a clinks \<Rightarrow> 'a clinks" where
  "ST_INSERT_LINK e l s = ST_INSERT_AFTER e l s"

definition ST_REMOVE_LINK :: "'a \<Rightarrow> 'a clinks \<Rightarrow> 'a clinks" where
  "ST_REMOVE_LINK e s =
     (let s1 = set_next (prv s e) (nxt s e) s
      in set_prev (nxt s1 e) (prv s1 e) s1)"

definition ST_CLIST_IS_EMPTY :: "'a \<Rightarrow> 'a clinks \<Rightarrow> bool" where
  "ST_CLIST_IS_EMPTY l s \<longleftrightarrow> nxt s l = l"

definition ST_INIT_CLIST :: "'a \<Rightarrow> 'a clinks \<Rightarrow> 'a clinks" where
  "ST_INIT_CLIST l s = set_prev l l (set_next l l s)"

definition ST_LIST_HEAD :: "'a \<Rightarrow> 'a clinks \<Rightarrow> 'a" where
  "ST_LIST_HEAD l s = nxt s l"

definition ST_LIST_TAIL :: "'a \<Rightarrow> 'a clinks \<Rightarrow> 'a" where
  "ST_LIST_TAIL l s = prv s l"

text \<open>
  The loop \<open>for (q = l.next; q != &l; q = q->next)\<close> as the cells it visits. The first
  argument bounds the number of iterations; \<open>None\<close> says that it was not enough.
\<close>

fun clist_walk :: "nat \<Rightarrow> 'a \<Rightarrow> 'a \<Rightarrow> 'a clinks \<Rightarrow> 'a list option" where
  "clist_walk 0 q l s = None"
| "clist_walk (Suc n) q l s =
     (if q = l then Some [] else map_option ((#) q) (clist_walk n (nxt s q) l s))"

section \<open>The sequence a head stands for\<close>

fun chain :: "'a clinks \<Rightarrow> 'a list \<Rightarrow> bool" where
  "chain s (a # b # xs) \<longleftrightarrow> nxt s a = b \<and> prv s b = a \<and> chain s (b # xs)"
| "chain s _ \<longleftrightarrow> True"

definition clist :: "'a clinks \<Rightarrow> 'a \<Rightarrow> 'a list \<Rightarrow> bool" where
  "clist s l xs \<longleftrightarrow> distinct (l # xs) \<and> chain s (l # xs @ [l])"

lemma set_next_simps [simp]:
  "nxt (set_next a b s) = (nxt s)(a := b)" "prv (set_next a b s) = prv s"
  "prv (set_prev a b s) = (prv s)(a := b)" "nxt (set_prev a b s) = nxt s"
  by (simp_all add: set_next_def set_prev_def)

lemma chain_append:
  "chain s (as @ x # bs) \<longleftrightarrow> chain s (as @ [x]) \<and> chain s (x # bs)"
proof (induction as)
  case (Cons a as)
  then show ?case by (cases as) auto
qed simp

lemma chain_append2:
  "chain s (as @ x # y # bs) \<longleftrightarrow>
     chain s (as @ [x]) \<and> nxt s x = y \<and> prv s y = x \<and> chain s (y # bs)"
  using chain_append [of s as x "y # bs"] by simp

lemma chain_cong:
  "chain s xs \<Longrightarrow> (\<And>a. a \<in> set (butlast xs) \<Longrightarrow> nxt t a = nxt s a) \<Longrightarrow>
   (\<And>a. a \<in> set (tl xs) \<Longrightarrow> prv t a = prv s a) \<Longrightarrow> chain t xs"
  by (induction s xs rule: chain.induct) auto

text \<open>The cell before position \<open>x\<close> of the ring, as the last of what precedes it.\<close>

lemma chain_last: "chain s (l # xs @ [x]) \<Longrightarrow> nxt s (last (l # xs)) = x \<and> prv s x = last (l # xs)"
  by (cases xs rule: rev_cases) (auto simp: chain_append2 [of _ "_ # _", simplified])

section \<open>The macros on sequences\<close>

lemma clist_INIT: "clist (ST_INIT_CLIST l s) l []"
  by (simp add: clist_def ST_INIT_CLIST_def)

lemma clist_IS_EMPTY: "clist s l xs \<Longrightarrow> ST_CLIST_IS_EMPTY l s \<longleftrightarrow> xs = []"
  by (cases xs) (auto simp: clist_def ST_CLIST_IS_EMPTY_def)

lemma clist_HEAD: "clist s l (x # xs) \<Longrightarrow> ST_LIST_HEAD l s = x"
  by (simp add: clist_def ST_LIST_HEAD_def)

lemma clist_TAIL: "clist s l (xs @ [x]) \<Longrightarrow> ST_LIST_TAIL l s = x"
  using chain_last [of s l "xs @ [x]" l] by (simp add: clist_def ST_LIST_TAIL_def)

lemma set_tlD: "a \<in> set (tl xs) \<Longrightarrow> a \<in> set xs"
  by (cases xs) auto

text \<open>One cell spliced into a chain, or out of it, between \<open>x\<close> and \<open>y\<close>.\<close>

lemma chain_splice_in:
  assumes "chain s (P @ x # y # Q)" "e \<notin> set (P @ x # y # Q)"
    and "x \<notin> set P" "x \<notin> set (butlast (y # Q))" "y \<notin> set (tl (P @ [x]))" "y \<notin> set Q"
    and "nxt t = (nxt s)(e := y, x := e)" "prv t = (prv s)(e := x, y := e)"
  shows "chain t (P @ x # e # y # Q)"
proof -
  have "chain t (P @ [x])"
    by (rule chain_cong [of s]) (use assms in \<open>auto simp: chain_append2 dest: set_tlD\<close>)
  moreover have "chain t (y # Q)"
    by (rule chain_cong [of s]) (use assms in \<open>auto simp: chain_append2 dest: in_set_butlastD split: if_splits\<close>)
  ultimately show ?thesis
    using assms by (auto simp: chain_append2)
qed

lemma chain_splice_out:
  assumes "chain s (P @ x # e # y # Q)"
    and "x \<notin> set P" "x \<notin> set (butlast (y # Q))" "y \<notin> set (tl (P @ [x]))" "y \<notin> set Q"
    and "nxt t = (nxt s)(x := y)" "prv t = (prv s)(y := x)"
  shows "chain t (P @ x # y # Q)"
proof -
  have s: "chain s (P @ [x])" "chain s (y # Q)"
    using assms(1) by (auto simp: chain_append2)
  have "chain t (P @ [x])"
    by (rule chain_cong [OF s(1)]) (use assms in auto)
  moreover have "chain t (y # Q)"
    by (rule chain_cong [OF s(2)]) (use assms in auto)
  ultimately show ?thesis
    using assms by (auto simp: chain_append2)
qed

lemma INSERT_BEFORE_links:
  assumes "prv s l = x" "e \<noteq> l" "e \<noteq> x"
  shows "nxt (ST_INSERT_BEFORE e l s) = (nxt s)(e := l, x := e)"
    and "prv (ST_INSERT_BEFORE e l s) = (prv s)(e := x, l := e)"
  using assms by (auto simp: ST_INSERT_BEFORE_def Let_def)

lemma INSERT_AFTER_links:
  assumes "nxt s l = y" "e \<noteq> l" "e \<noteq> y"
  shows "nxt (ST_INSERT_AFTER e l s) = (nxt s)(e := y, l := e)"
    and "prv (ST_INSERT_AFTER e l s) = (prv s)(e := l, y := e)"
  using assms by (auto simp: ST_INSERT_AFTER_def Let_def)

lemma REMOVE_LINK_links:
  assumes "prv s e = x" "nxt s e = y" "x \<noteq> e"
  shows "nxt (ST_REMOVE_LINK e s) = (nxt s)(x := y)"
    and "prv (ST_REMOVE_LINK e s) = (prv s)(y := x)"
  using assms by (auto simp: ST_REMOVE_LINK_def Let_def)

text \<open>
  Where the cell before the one of interest is the head or the last cell of a sequence, a
  case split on that sequence from the right gives the shape the splice lemmas need.
\<close>

lemma clist_INSERT_BEFORE_inner:
  assumes c: "clist s l (as @ y # bs)" and e: "e \<notin> set (l # as @ y # bs)"
  shows "clist (ST_INSERT_BEFORE e y s) l (as @ e # y # bs)"
proof (cases as rule: rev_cases)
  case Nil
  have "chain (ST_INSERT_BEFORE e y s) ([] @ l # e # y # (bs @ [l]))"
    by (rule chain_splice_in [of s])
       (use c e Nil in \<open>auto simp: clist_def butlast_append INSERT_BEFORE_links\<close>)
  then show ?thesis
    using c e Nil by (auto simp: clist_def)
next
  case (snoc P x)
  have x: "prv s y = x"
    using c snoc chain_append2 [of s "l # P" x y "bs @ [l]"] by (simp add: clist_def)
  have "chain (ST_INSERT_BEFORE e y s) ((l # P) @ x # e # y # (bs @ [l]))"
    by (rule chain_splice_in [of s])
       (use c e snoc in \<open>auto simp: clist_def butlast_append INSERT_BEFORE_links [OF x]\<close>)
  then show ?thesis
    using c e snoc by (auto simp: clist_def)
qed

lemma clist_APPEND:
  assumes c: "clist s l xs" and e: "e \<notin> set (l # xs)"
  shows "clist (ST_APPEND_LINK e l s) l (xs @ [e])"
proof (cases xs rule: rev_cases)
  case Nil
  have "chain (ST_INSERT_BEFORE e l s) ([] @ l # e # l # [])"
    by (rule chain_splice_in [of s])
       (use c e Nil in \<open>auto simp: clist_def INSERT_BEFORE_links\<close>)
  then show ?thesis
    using c e Nil by (auto simp: clist_def ST_APPEND_LINK_def)
next
  case (snoc P x)
  have x: "prv s l = x"
    using c snoc chain_append2 [of s "l # P" x l "[]"] by (simp add: clist_def)
  have "chain (ST_INSERT_BEFORE e l s) ((l # P) @ x # e # l # [])"
    by (rule chain_splice_in [of s])
       (use c e snoc in \<open>auto simp: clist_def INSERT_BEFORE_links [OF x]\<close>)
  then show ?thesis
    using c e snoc by (auto simp: clist_def ST_APPEND_LINK_def)
qed

lemma clist_INSERT_LINK:
  assumes c: "clist s l xs" and e: "e \<notin> set (l # xs)"
  shows "clist (ST_INSERT_LINK e l s) l (e # xs)"
proof (cases xs)
  case Nil
  have "chain (ST_INSERT_AFTER e l s) ([] @ l # e # l # [])"
    by (rule chain_splice_in [of s])
       (use c e Nil in \<open>auto simp: clist_def INSERT_AFTER_links\<close>)
  then show ?thesis
    using c e Nil by (auto simp: clist_def ST_INSERT_LINK_def)
next
  case (Cons y ys)
  have "chain (ST_INSERT_AFTER e l s) ([] @ l # e # y # (ys @ [l]))"
    by (rule chain_splice_in [of s])
       (use c e Cons in \<open>auto simp: clist_def butlast_append INSERT_AFTER_links\<close>)
  then show ?thesis
    using c e Cons by (auto simp: clist_def ST_INSERT_LINK_def)
qed

lemma clist_REMOVE_aux:
  assumes ring: "chain s (P @ x # e # y # Q)"
    and d: "x \<noteq> e" "x \<notin> set P" "x \<notin> set (butlast (y # Q))" "y \<notin> set (tl (P @ [x]))" "y \<notin> set Q"
  shows "chain (ST_REMOVE_LINK e s) (P @ x # y # Q)"
proof -
  have "prv s e = x" "nxt s e = y"
    using ring by (simp_all add: chain_append2)
  note l = REMOVE_LINK_links [OF this d(1)]
  show ?thesis
    by (rule chain_splice_out [OF ring d(2-5) l])
qed

lemma clist_REMOVE:
  assumes c: "clist s l (as @ e # bs)"
  shows "clist (ST_REMOVE_LINK e s) l (as @ bs)"
proof -
  obtain y Q where yQ: "bs @ [l] = y # Q" "y = (case bs of [] \<Rightarrow> l | b # _ \<Rightarrow> b)"
    "Q = (case bs of [] \<Rightarrow> [] | _ # bs' \<Rightarrow> bs' @ [l])"
    by (cases bs) auto
  show ?thesis
  proof (cases as rule: rev_cases)
    case Nil
    have "chain (ST_REMOVE_LINK e s) ([] @ l # y # Q)"
      by (rule clist_REMOVE_aux)
         (use c Nil yQ in \<open>auto simp: clist_def butlast_append split: list.splits\<close>)
    then show ?thesis
      using c Nil yQ by (auto simp: clist_def)
  next
    case (snoc P x)
    have "chain (ST_REMOVE_LINK e s) ((l # P) @ x # y # Q)"
      by (rule clist_REMOVE_aux)
         (use c snoc yQ in \<open>auto simp: clist_def butlast_append split: list.splits\<close>)
    then show ?thesis
      using c snoc yQ by (auto simp: clist_def)
  qed
qed

text \<open>Operations on one list leave a list over other cells alone.\<close>

lemma clist_frame_INSERT:
  assumes "clist s l xs" "clist s m ys" "set (l # xs) \<inter> set (m # ys) = {}" "e \<notin> set (m # ys)"
  shows "clist (ST_APPEND_LINK e l s) m ys"
proof -
  obtain x where x: "prv s l = x" "x \<in> set (l # xs)"
    using assms(1) chain_last [of s l xs l] last_in_set [of "l # xs"] by (auto simp: clist_def)
  have "chain (ST_INSERT_BEFORE e l s) (m # ys @ [m])"
  proof (rule chain_cong)
    show "chain s (m # ys @ [m])"
      using assms(2) by (simp add: clist_def)
  qed (use assms x in \<open>auto simp: ST_INSERT_BEFORE_def Let_def butlast_append\<close>)
  then show ?thesis
    using assms(2) by (simp add: clist_def ST_APPEND_LINK_def)
qed

lemma clist_frame_REMOVE:
  assumes "clist s l (as @ e # bs)" "clist s m ys" "set (l # as @ e # bs) \<inter> set (m # ys) = {}"
  shows "clist (ST_REMOVE_LINK e s) m ys"
proof -
  have "chain s ((l # as) @ e # bs @ [l])"
    using assms(1) by (simp add: clist_def)
  then have a: "chain s (l # as @ [e])" and b: "chain s (e # bs @ [l])"
    using chain_append [of s "l # as" e "bs @ [l]"] by simp_all
  have x: "prv s e \<in> set (l # as)"
    using chain_last [OF a] last_in_set [of "l # as"] by auto
  have y: "nxt s e \<in> set (l # bs)"
    using b by (cases bs) auto
  have "chain (ST_REMOVE_LINK e s) (m # ys @ [m])"
  proof (rule chain_cong)
    show "chain s (m # ys @ [m])"
      using assms(2) by (simp add: clist_def)
  qed (use assms x y in \<open>auto simp: ST_REMOVE_LINK_def Let_def butlast_append\<close>)
  then show ?thesis
    using assms(2) by (simp add: clist_def)
qed

text \<open>
  A removed cell keeps its own pointers, so a traversal that unlinks the cell it stands on
  (as the dispatch loops do) still finds the next one.
\<close>

lemma REMOVE_keeps_next:
  assumes "clist s l (as @ e # bs)"
  shows "nxt (ST_REMOVE_LINK e s) e = (case bs of [] \<Rightarrow> l | b # _ \<Rightarrow> b)"
proof -
  have "chain s ((l # as) @ e # bs @ [l])"
    using assms by (simp add: clist_def)
  then have a: "chain s (l # as @ [e])" and b: "chain s (e # bs @ [l])"
    using chain_append [of s "l # as" e "bs @ [l]"] by simp_all
  then have "prv s e \<noteq> e"
    using chain_last [OF a] last_in_set [of "l # as"] assms by (auto simp: clist_def)
  then show ?thesis
    using b by (cases bs) (simp_all add: ST_REMOVE_LINK_def Let_def)
qed

lemma walk_chain:
  "chain s (xs @ [l]) \<Longrightarrow> l \<notin> set xs \<Longrightarrow> length xs < n \<Longrightarrow>
   clist_walk n (hd (xs @ [l])) l s = Some xs"
proof (induction xs arbitrary: n)
  case (Cons a xs)
  then obtain k where "n = Suc k" by (cases n) auto
  with Cons show ?case by (cases xs) auto
qed (use less_iff_Suc_add in auto)

text \<open>The loop over a list visits its elements, in order, once each, and returns.\<close>

lemma clist_walk_correct:
  assumes "clist s l xs" "length xs < n"
  shows "clist_walk n (ST_LIST_HEAD l s) l s = Some xs"
proof -
  have "chain s (xs @ [l])" "ST_LIST_HEAD l s = hd (xs @ [l])" "l \<notin> set xs"
    using assms(1) by (cases xs; simp add: clist_def ST_LIST_HEAD_def)+
  then show ?thesis
    using walk_chain [of s xs l n] assms(2) by simp
qed

section \<open>The interface of the queues\<close>

text \<open>
  What the scheduler relies on: \<open>rep q l xs\<close> says that in store \<open>q\<close> the head \<open>l\<close> heads the
  sequence \<open>xs\<close>; appending, unlinking and taking the head act on that sequence.
\<close>

locale link_queue =
  fixes rep :: "'q \<Rightarrow> 'a \<Rightarrow> 'a list \<Rightarrow> bool"
    and append_link :: "'a \<Rightarrow> 'a \<Rightarrow> 'q \<Rightarrow> 'q"
    and remove_link :: "'a \<Rightarrow> 'q \<Rightarrow> 'q"
    and list_head :: "'a \<Rightarrow> 'q \<Rightarrow> 'a"
    and is_empty :: "'a \<Rightarrow> 'q \<Rightarrow> bool"
  assumes rep_distinct: "rep q l xs \<Longrightarrow> distinct (l # xs)"
    and rep_append: "rep q l xs \<Longrightarrow> e \<notin> set (l # xs) \<Longrightarrow> rep (append_link e l q) l (xs @ [e])"
    and rep_remove: "rep q l (as @ e # bs) \<Longrightarrow> rep (remove_link e q) l (as @ bs)"
    and rep_head: "rep q l (x # xs) \<Longrightarrow> list_head l q = x"
    and rep_empty: "rep q l xs \<Longrightarrow> is_empty l q \<longleftrightarrow> xs = []"
begin

lemma remove_member:
  assumes "rep q l xs" "e \<in> set xs"
  shows "rep (remove_link e q) l (remove1 e xs)"
proof -
  obtain as bs where "xs = as @ e # bs" "e \<notin> set as"
    using split_list_first [OF assms(2)] by blast
  with rep_remove [of q l as e bs] assms(1) show ?thesis by simp
qed

lemma pop_head:
  assumes "rep q l (x # xs)"
  shows "list_head l q = x \<and> rep (remove_link (list_head l q) q) l xs"
  using rep_head [OF assms] rep_remove [of q l "[]" x xs] assms by simp

text \<open>First in, first out: elements appended come out in the order they went in.\<close>

fun append_all :: "'a list \<Rightarrow> 'a \<Rightarrow> 'q \<Rightarrow> 'q" where
  "append_all [] l q = q"
| "append_all (e # es) l q = append_all es l (append_link e l q)"

fun pop_n :: "nat \<Rightarrow> 'a \<Rightarrow> 'q \<Rightarrow> 'a list" where
  "pop_n 0 l q = []"
| "pop_n (Suc n) l q = list_head l q # pop_n n l (remove_link (list_head l q) q)"

lemma rep_append_all:
  "rep q l xs \<Longrightarrow> distinct (l # xs @ es) \<Longrightarrow> rep (append_all es l q) l (xs @ es)"
proof (induction es arbitrary: q xs)
  case (Cons e es)
  have "rep (append_link e l q) l (xs @ [e])"
    using Cons.prems by (intro rep_append) auto
  from Cons.IH [OF this] show ?case
    using Cons.prems by simp
qed simp

lemma pop_n_rep: "rep q l (xs @ ys) \<Longrightarrow> pop_n (length xs) l q = xs"
proof (induction xs arbitrary: q)
  case (Cons x xs)
  then have "list_head l q = x" "rep (remove_link x q) l (xs @ ys)"
    using pop_head [of q l x "xs @ ys"] by auto
  then show ?case
    using Cons.IH by simp
qed simp

lemma fifo:
  "rep q l [] \<Longrightarrow> distinct (l # es) \<Longrightarrow> pop_n (length es) l (append_all es l q) = es"
  using rep_append_all [of q l "[]" es] pop_n_rep [of "append_all es l q" l es "[]"] by simp

end

interpretation clq: link_queue clist ST_APPEND_LINK ST_REMOVE_LINK ST_LIST_HEAD ST_CLIST_IS_EMPTY
  by unfold_locales
     (auto simp: clist_APPEND clist_REMOVE clist_HEAD clist_IS_EMPTY, auto simp: clist_def)

end
