(* ===== verification/ST_Stacks.thy ===== *)
theory ST_Stacks
  imports ST_Data ST_CList "HOL-Library.Signed_Division"
begin

text \<open>
  Thread stacks (\<open>stk.c\<close>) and the layout that \<open>st_thread_create\<close> gives a stack (\<open>sched.c\<close>, the
  branch \<open>MD_STACK_GROWS_DOWN\<close>). Answers of the environment are arguments: the address of the
  object returned by \<open>calloc\<close>, the segment returned by \<open>mmap\<close> or \<open>malloc\<close> and the number
  returned by \<open>random\<close>. Addresses are integers; sizes are assumed to stay within \<open>int\<close>.
\<close>

section \<open>The free list and new stacks\<close>

fun first_fit :: "(sid \<Rightarrow> stk) \<Rightarrow> int \<Rightarrow> sid list \<Rightarrow> sid option" where
  "first_fit obj stack_size [] = None"
| "first_fit obj stack_size (ts # q) =
     (if stk_size (obj ts) \<ge> stack_size then Some ts else first_fit obj stack_size q)"

definition new_stack :: "int \<Rightarrow> int \<Rightarrow> int \<Rightarrow> int \<Rightarrow> int \<Rightarrow> stk" where
  "new_stack page randomize random_answer segment stack_size =
     (let redzone = page;
          extra = (if randomize \<noteq> 0 then page else 0);
          bottom = segment + redzone;
          top = bottom + stack_size;
          offset = (if extra \<noteq> 0
                    then (let r = random_answer mod extra in r - r mod 16) else 0)
      in \<lparr>vaddr = segment, vaddr_size = stack_size + 2 * redzone + extra, stk_size = stack_size,
          stk_bottom = bottom + offset, stk_top = top + offset, sp = 0\<rparr>)"

definition st_stack_new ::
    "int \<Rightarrow> sid option \<Rightarrow> int option \<Rightarrow> int \<Rightarrow> st \<Rightarrow> sid option \<times> st" where
  "st_stack_new stack_size object segment random_answer s =
     (let k = stks s in
      case first_fit (stk_of k) stack_size (free_stacks k) of
        Some ts \<Rightarrow> (Some ts, s\<lparr>stks := k\<lparr>free_stacks := remove1 ts (free_stacks k),
                                         num_free_stacks := num_free_stacks k - 1\<rparr>\<rparr>)
      | None \<Rightarrow>
         (case object of
            None \<Rightarrow> (None, s)
          | Some ts \<Rightarrow>
             (case segment of
                None \<Rightarrow> (None, s)
              | Some v \<Rightarrow> (Some ts, s\<lparr>stks := k\<lparr>stk_of := (stk_of k)
                   (ts := new_stack (pagesize s) (randomize_stacks k) random_answer v stack_size)\<rparr>\<rparr>))))"

text \<open>
  \<open>ST_APPEND_LINK(&ts->links, _st_free_stacks.prev)\<close>: the link goes in front of the last element
  of the free list, not behind it.
\<close>

definition insert_before_tail :: "'a \<Rightarrow> 'a list \<Rightarrow> 'a list" where
  "insert_before_tail x xs = (if xs = [] then [x] else butlast xs @ [x, last xs])"

definition st_stack_free :: "sid option \<Rightarrow> st \<Rightarrow> st" where
  "st_stack_free p s =
     (case p of
        None \<Rightarrow> s
      | Some ts \<Rightarrow> s\<lparr>stks := (stks s)\<lparr>free_stacks := insert_before_tail ts (free_stacks (stks s)),
                                          num_free_stacks := num_free_stacks (stks s) + 1\<rparr>\<rparr>)"

definition st_randomize_stacks :: "int \<Rightarrow> st \<Rightarrow> int \<times> st" where
  "st_randomize_stacks on s =
     (randomize_stacks (stks s), s\<lparr>stks := (stks s)\<lparr>randomize_stacks := on\<rparr>\<rparr>)"

section \<open>The layout of a thread's stack\<close>

definition ST_DEFAULT_STACK_SIZE :: int where "ST_DEFAULT_STACK_SIZE = 64 * 1024"
definition ST_STACK_PAD_SIZE :: int where "ST_STACK_PAD_SIZE = 128"
definition SIZEOF_PTR :: int where "SIZEOF_PTR = 8"

definition adjust_stk_size :: "int \<Rightarrow> int \<Rightarrow> int" where
  "adjust_stk_size page n =
     ((if n = 0 then ST_DEFAULT_STACK_SIZE else n) + page - 1) sdiv page * page"

record layout =
  l_ptds :: int
  l_thread :: int
  l_sp :: int

text \<open>The argument \<open>size_thread\<close> is \<open>sizeof(_st_thread_t)\<close>, which depends on \<open>jmp_buf\<close>.\<close>

definition carve_stack :: "int \<Rightarrow> int \<Rightarrow> layout" where
  "carve_stack size_thread stktop =
     (let sp1 = stktop - int ST_KEYS_MAX * SIZEOF_PTR;
          sp2 = sp1 - size_thread;
          sp3 = (if sp2 mod 64 \<noteq> 0 then sp2 - sp2 mod 64 else sp2)
      in \<lparr>l_ptds = sp1, l_thread = sp2, l_sp = sp3 - ST_STACK_PAD_SIZE\<rparr>)"

section \<open>Lemmas\<close>

lemma first_fit_eq: "first_fit f n xs = find (\<lambda>ts. stk_size (f ts) \<ge> n) xs"
  by (induction xs) auto

lemma set_insert_before_tail [simp]: "set (insert_before_tail x xs) = insert x (set xs)"
  by (cases xs rule: rev_cases) (auto simp: insert_before_tail_def)

lemma distinct_insert_before_tail [simp]:
  "distinct (insert_before_tail x xs) \<longleftrightarrow> distinct xs \<and> x \<notin> set xs"
  by (cases xs rule: rev_cases) (auto simp: insert_before_tail_def)

lemma length_insert_before_tail [simp]: "length (insert_before_tail x xs) = Suc (length xs)"
  by (cases xs rule: rev_cases) (auto simp: insert_before_tail_def)

text \<open>The list operation is what the macro does to the links.\<close>

lemma insert_before_tail_links:
  assumes "clist s l xs" "e \<notin> set (l # xs)"
  shows "clist (ST_APPEND_LINK e (ST_LIST_TAIL l s) s) l (insert_before_tail e xs)"
proof (cases xs rule: rev_cases)
  case Nil
  then have "ST_LIST_TAIL l s = l" using assms(1) by (simp add: clist_def ST_LIST_TAIL_def)
  then show ?thesis
    using clist_APPEND [OF assms] Nil by (simp add: insert_before_tail_def)
next
  case (snoc ys y)
  then have "ST_LIST_TAIL l s = y" using assms(1) by (simp add: clist_TAIL)
  then show ?thesis
    using clist_INSERT_BEFORE_inner [of s l ys y "[]" e] assms snoc
    by (simp add: insert_before_tail_def ST_APPEND_LINK_def)
qed

definition stacks_ok :: "stacks \<Rightarrow> bool" where
  "stacks_ok k \<longleftrightarrow> distinct (free_stacks k) \<and> num_free_stacks k = int (length (free_stacks k))"

lemma stacks_ok_free: "stacks_ok (stks s) \<Longrightarrow> ts \<notin> set (free_stacks (stks s)) \<Longrightarrow>
    stacks_ok (stks (st_stack_free (Some ts) s))"
  by (simp add: st_stack_free_def stacks_ok_def)

lemma find_SomeD: "find P xs = Some x \<Longrightarrow> x \<in> set xs \<and> P x"
  by (induction xs) (auto split: if_splits)

lemma find_filter: "find P xs = (case filter P xs of [] \<Rightarrow> None | x # _ \<Rightarrow> Some x)"
  by (induction xs) auto

section \<open>Properties\<close>

text \<open>
  C31: a new stack is the first one of the free list that is large enough, which leaves the list; only
  if there is none, a fresh one of exactly the requested size; only a failing allocation gives
  none, and then nothing changes. The free list and its counter stay consistent, and the
  stack handed out is not on the list.
\<close>

theorem stack_new_correct:
  assumes "stacks_ok (stks s)" "\<And>ts. object = Some ts \<Longrightarrow> ts \<notin> set (free_stacks (stks s))"
  shows "case st_stack_new n object segment r s of
      (None, s') \<Rightarrow> s' = s \<and> (object = None \<or> segment = None) \<and>
        filter (\<lambda>f. n \<le> stk_size (stk_of (stks s) f)) (free_stacks (stks s)) = []
    | (Some ts, s') \<Rightarrow> stacks_ok (stks s') \<and> n \<le> stk_size (stk_of (stks s') ts) \<and>
        ts \<notin> set (free_stacks (stks s')) \<and>
        (case filter (\<lambda>f. n \<le> stk_size (stk_of (stks s) f)) (free_stacks (stks s)) of
           [] \<Rightarrow> object = Some ts \<and> stk_size (stk_of (stks s') ts) = n \<and>
                  free_stacks (stks s') = free_stacks (stks s)
         | f # _ \<Rightarrow> ts = f \<and> stk_of (stks s') = stk_of (stks s) \<and>
                  free_stacks (stks s') = remove1 f (free_stacks (stks s)))"
proof (cases "first_fit (stk_of (stks s)) n (free_stacks (stks s))")
  case None
  then have "filter (\<lambda>f. n \<le> stk_size (stk_of (stks s) f)) (free_stacks (stks s)) = []"
    by (simp add: first_fit_eq find_None_iff filter_empty_conv)
  with None assms show ?thesis
    by (auto simp: st_stack_new_def Let_def stacks_ok_def new_stack_def split: option.split)
next
  case (Some f)
  then obtain fs where "filter (\<lambda>f. n \<le> stk_size (stk_of (stks s) f)) (free_stacks (stks s)) = f # fs"
    by (auto simp: first_fit_eq find_filter split: list.splits)
  moreover from this have "f \<in> set (free_stacks (stks s)) \<and> n \<le> stk_size (stk_of (stks s) f)"
    using filter_eq_ConsD by fastforce
  ultimately show ?thesis
    using Some assms(1) length_pos_if_in_set [of f "free_stacks (stks s)"]
    by (auto simp: st_stack_new_def Let_def stacks_ok_def length_remove1 of_nat_diff Suc_le_eq)
qed


theorem stack_new_correct_witness:
  "\<exists>s'. st_stack_new 4096 (Some 3) (Some 65536) 0 static_st = (Some 3, s') \<and> stacks_ok (stks s')"
  using stack_new_correct [where s = static_st and object = "Some 3" and n = 4096 and segment = "Some 65536" and r = 0]
  by (auto simp: static_st_def stacks_ok_def st_stack_new_def Let_def split: prod.splits option.splits)

text \<open>
  freeing a stack and asking for one of its size gives a stack back without any allocation; it is
  the freed stack itself when no other free stack is large enough.
\<close>

theorem stack_free_new_roundtrip:
  assumes "ts \<notin> set (free_stacks (stks s))"
  shows "\<exists>ts' s'. st_stack_new (stk_size (stk_of (stks s) ts)) None None r (st_stack_free (Some ts) s)
      = (Some ts', s') \<and> stk_size (stk_of (stks s) ts) \<le> stk_size (stk_of (stks s) ts') \<and>
      (filter (\<lambda>f. stk_size (stk_of (stks s) ts) \<le> stk_size (stk_of (stks s) f))
        (free_stacks (stks s)) = [] \<longrightarrow> ts' = ts \<and> stks s' = stks s)"
proof -
  define P where "P f \<longleftrightarrow> stk_size (stk_of (stks s) ts) \<le> stk_size (stk_of (stks s) f)" for f
  define q where "q = insert_before_tail ts (free_stacks (stks s))"
  have "\<exists>f. find P q = Some f"
    using find_None_iff [of P q] by (cases "find P q") (auto simp: P_def q_def)
  then obtain f where f: "find P q = Some f" by blast
  have "st_stack_new (stk_size (stk_of (stks s) ts)) None None r (st_stack_free (Some ts) s) =
      (Some f, s\<lparr>stks := (stks s)\<lparr>free_stacks := remove1 f q\<rparr>\<rparr>)"
    using f unfolding P_def [abs_def] q_def
    by (simp add: st_stack_new_def st_stack_free_def Let_def first_fit_eq)
  moreover have "P f" and fq: "f \<in> set q"
    using find_SomeD [OF f] by auto
  moreover have "f = ts \<and> remove1 f q = free_stacks (stks s)"
    if "filter P (free_stacks (stks s)) = []"
  proof -
    have "f = ts"
      using fq that \<open>P f\<close> by (auto simp: q_def filter_empty_conv)
    moreover have "remove1 ts q = free_stacks (stks s)"
      using assms by (cases "free_stacks (stks s)" rule: rev_cases)
        (auto simp: q_def insert_before_tail_def remove1_append)
    ultimately show ?thesis by simp
  qed
  moreover have "(\<lambda>f. stk_size (stk_of (stks s) ts) \<le> stk_size (stk_of (stks s) f)) = P"
    by (simp add: P_def [abs_def])
  ultimately show ?thesis
    by (intro exI [of _ f] exI [of _ "s\<lparr>stks := (stks s)\<lparr>free_stacks := remove1 f q\<rparr>\<rparr>"])
      (auto simp flip: P_def)
qed


theorem stack_free_new_roundtrip_witness:
  "\<exists>ts' s'. st_stack_new 0 None None 0 (st_stack_free (Some 3) static_st) = (Some ts', s')"
  using stack_free_new_roundtrip [of 3 static_st 0]
  by (auto simp: static_st_def static_stk_def)

text \<open>
  A stack keeps one page free at either end of its segment whatever the random offset, is
  exactly as large as asked, and the offset is a multiple of 16.
\<close>

theorem new_stack_redzones:
  assumes "0 < page"
  shows "let k = new_stack page on r v n in
     v + page \<le> stk_bottom k \<and> stk_top k = stk_bottom k + n \<and>
     stk_top k + page \<le> vaddr k + vaddr_size k \<and> (stk_bottom k - (v + page)) mod 16 = 0 \<and>
     stk_bottom k - (v + page) < (if on \<noteq> 0 then page else 1)"
proof -
  have r: "0 \<le> r mod page" "r mod page < page" using assms by simp_all
  have "0 \<le> r mod page - r mod page mod 16" "r mod page - r mod page mod 16 < page"
    using r pos_mod_sign [of 16 "r mod page"] zmod_le_nonneg_dividend [of "r mod page" 16] by linarith+
  moreover have "(r mod page - r mod page mod 16) mod 16 = 0"
    by (simp add: minus_mod_eq_mult_div)
  ultimately show ?thesis
    using assms by (simp add: new_stack_def Let_def)
qed


theorem new_stack_redzones_witness:
  "65536 + 4096 \<le> stk_bottom (new_stack 4096 1 1000 65536 8192)"
  using new_stack_redzones [where page = 4096 and v = 65536 and on = 1 and r = 1000 and n = 8192] by (simp add: Let_def)

text \<open>
  \<open>st_thread_create\<close> rounds the stack size up to whole pages, to the next multiple and not beyond
  it (64 kB when asked for 0); and whenever the stack is large enough for the thread object, the
  private data and the padding, all three lie inside the stack without overlapping, with the
  initial stack pointer 64-byte aligned below them.
\<close>

theorem thread_layout:
  assumes "0 < page" "0 \<le> n" "0 < size_thread"
    and "size_thread + int ST_KEYS_MAX * SIZEOF_PTR + 63 + ST_STACK_PAD_SIZE \<le> adjust_stk_size page n"
  shows "let m = adjust_stk_size page n; k = new_stack page on r v m; l = carve_stack size_thread (stk_top k)
     in m mod page = 0 \<and> (if n = 0 then ST_DEFAULT_STACK_SIZE else n) \<le> m \<and>
        m < (if n = 0 then ST_DEFAULT_STACK_SIZE else n) + page \<and>
        stk_bottom k \<le> l_sp l \<and> l_sp l mod 64 = 0 \<and> l_sp l + ST_STACK_PAD_SIZE \<le> l_thread l \<and>
        l_thread l + size_thread = l_ptds l \<and> l_ptds l + int ST_KEYS_MAX * SIZEOF_PTR = stk_top k"
proof -
  define n' where "n' = (if n = 0 then ST_DEFAULT_STACK_SIZE else n)"
  define m where "m = adjust_stk_size page n"
  have "0 < n'" using assms(2) by (simp add: n'_def ST_DEFAULT_STACK_SIZE_def)
  then have m: "m = (n' + page - 1) div page * page"
    using assms(1) by (simp add: m_def adjust_stk_size_def n'_def [symmetric] signed_divide_int_def sgn_if)
  have e: "m = n' + page - 1 - (n' + page - 1) mod page"
    by (simp add: m minus_mod_eq_div_mult)
  have r: "0 \<le> (n' + page - 1) mod page" "(n' + page - 1) mod page < page"
    using assms(1) by simp_all
  then have "m mod page = 0" "n' \<le> m" "m < n' + page"
    using e by (simp_all add: m)
  moreover
  define k where "k = new_stack page on r v m"
  have k: "stk_top k = stk_bottom k + m"
    by (simp add: k_def new_stack_def Let_def)
  define sp2 where "sp2 = stk_top k - int ST_KEYS_MAX * SIZEOF_PTR - size_thread"
  have "(sp2 - sp2 mod 64 - ST_STACK_PAD_SIZE) mod 64 = 0"
    by (simp add: minus_mod_eq_mult_div ST_STACK_PAD_SIZE_def mod_diff_eq)
  moreover have "0 \<le> sp2 mod 64" "sp2 mod 64 \<le> 63"
    using pos_mod_bound [of 64 sp2] by simp_all
  moreover have l: "carve_stack size_thread (stk_top k) = \<lparr>l_ptds = stk_top k - int ST_KEYS_MAX * SIZEOF_PTR,
      l_thread = sp2, l_sp = sp2 - sp2 mod 64 - ST_STACK_PAD_SIZE\<rparr>"
    by (simp add: carve_stack_def sp2_def Let_def)
  ultimately show ?thesis
    using assms(4) k unfolding Let_def m_def [symmetric] k_def [symmetric] n'_def [symmetric] l
    by (simp add: sp2_def)
qed


theorem thread_layout_witness:
  "l_sp (carve_stack 400 (stk_top (new_stack 4096 0 0 65536 (adjust_stk_size 4096 0)))) mod 64 = 0"
  using thread_layout [where page = 4096 and n = 0 and size_thread = 400 and on = 0 and r = 0 and v = 65536]
  by (simp add: Let_def ST_KEYS_MAX_def SIZEOF_PTR_def ST_STACK_PAD_SIZE_def ST_DEFAULT_STACK_SIZE_def adjust_stk_size_def
      signed_divide_int_def)

end
