(* ===== verification/ST_HeapTree.thy ===== *)
theory ST_HeapTree
  imports ST_Prelude "HOL-Library.Tree_Multiset"
begin

text \<open>
  The abstract side of the timeout heap: binary trees of names with a due time \<open>d\<close>, nodes
  numbered as in \<open>docs/timeout_heap.txt\<close> (the root is 1, the children of \<open>N\<close> are \<open>2N\<close> and
  \<open>2N+1\<close>), and the two operations as functions on trees. \<open>ST_HeapRefine\<close> shows that the
  pointer code of \<open>ST_Heap\<close> computes them.
\<close>

section \<open>Node numbers and paths\<close>

text \<open>\<open>while (s) { s >>= 1; bits++; }\<close>\<close>

fun num_bits :: "nat \<Rightarrow> nat" where
  "num_bits s = (if s = 0 then 0 else Suc (num_bits (s div 2)))"

declare num_bits.simps [simp del]

lemma num_bits_0 [simp]: "num_bits 0 = 0"
  by (simp add: num_bits.simps)

lemma num_bits_pos: "n > 0 \<Longrightarrow> num_bits n > 0"
  by (simp add: num_bits.simps)

lemma num_bits_bounds: "n > 0 \<Longrightarrow> 2 ^ (num_bits n - 1) \<le> n \<and> n < 2 ^ num_bits n"
proof (induction n rule: num_bits.induct)
  case (1 n)
  show ?case
  proof (cases "n div 2 = 0")
    case True
    with 1 have "n = 1" by simp
    then show ?thesis by (simp add: num_bits.simps)
  next
    case False
    then have IH: "2 ^ (num_bits (n div 2) - 1) \<le> n div 2 \<and> n div 2 < 2 ^ num_bits (n div 2)"
      and p: "num_bits (n div 2) > 0"
      using 1 num_bits_pos by auto
    have "num_bits n = Suc (num_bits (n div 2))"
      using 1 by (simp add: num_bits.simps [of n])
    with IH p show ?thesis
      by (cases "num_bits (n div 2)") auto
  qed
qed

text \<open>The turns of the walk to node \<open>n\<close> over its \<open>k\<close> low bits, and the number a walk reaches.\<close>

fun path :: "nat \<Rightarrow> nat \<Rightarrow> bool list" where
  "path 0 n = []"
| "path (Suc k) n = odd (n div 2 ^ k) # path k n"

fun idx :: "nat \<Rightarrow> bool list \<Rightarrow> nat" where
  "idx i [] = i"
| "idx i (b # bs) = idx (2 * i + of_bool b) bs"

abbreviation path_to :: "nat \<Rightarrow> bool list" where
  "path_to n \<equiv> path (num_bits n - 1) n"

lemma length_path [simp]: "length (path k n) = k"
  by (induction k) auto

lemma idx_path: "idx i (path k n) = i * 2 ^ k + n mod 2 ^ k"
proof (induction k arbitrary: i)
  case (Suc k)
  have "n mod 2 ^ Suc k = n mod (2 ^ k * 2)"
    by (simp add: mult.commute)
  also have "\<dots> = 2 ^ k * of_bool (odd (n div 2 ^ k)) + n mod 2 ^ k"
    by (simp only: mod_mult2_eq mod_2_eq_odd)
  finally have "n mod 2 ^ Suc k = 2 ^ k * of_bool (odd (n div 2 ^ k)) + n mod 2 ^ k" .
  with Suc show ?case by (simp add: algebra_simps)
qed simp

lemma idx_path_to: "n > 0 \<Longrightarrow> idx 1 (path_to n) = n"
proof -
  assume n: "n > 0"
  obtain m where "num_bits n = Suc m"
    using num_bits_pos [OF n] gr0_implies_Suc by blast
  then have "n div 2 ^ (num_bits n - 1) = 1"
    using num_bits_bounds [OF n] by (intro div_nat_eqI) auto
  then have "n = 2 ^ (num_bits n - 1) + n mod 2 ^ (num_bits n - 1)"
    by (metis div_mult_mod_eq mult_1)
  then show ?thesis by (simp add: idx_path)
qed

lemma idx_ge: "i \<le> idx i bs"
  by (induction i bs rule: idx.induct) (auto intro: order.trans [rotated])

lemma div_pow_Suc: "(k::nat) div 2 ^ Suc n = k div 2 ^ n div 2"
  by (metis div_mult2_eq power_Suc2)

lemma idx_div: "idx i bs div 2 ^ length bs = i"
proof (induction i bs rule: idx.induct)
  case (2 i b bs)
  have "idx i (b # bs) div 2 ^ length (b # bs) = idx (2 * i + of_bool b) bs div 2 ^ length bs div 2"
    by (simp only: list.size add_Suc_right add_0_right div_pow_Suc idx.simps)
  also have "\<dots> = (2 * i + of_bool b) div 2"
    using "2.IH" by simp
  finally show ?case by (cases b) simp_all
qed simp

section \<open>Subtrees\<close>

fun tsub :: "bool list \<Rightarrow> 'a tree \<Rightarrow> 'a tree option" where
  "tsub [] t = Some t"
| "tsub (b # bs) Leaf = None"
| "tsub (b # bs) (Node l a r) = tsub bs (if b then r else l)"

fun indices :: "nat \<Rightarrow> 'a tree \<Rightarrow> nat set" where
  "indices i Leaf = {}"
| "indices i (Node l a r) = insert i (indices (2 * i) l \<union> indices (2 * i + 1) r)"

lemma indices_ge: "k \<in> indices i t \<Longrightarrow> i \<le> k"
  by (induction i t rule: indices.induct) fastforce+

lemma indices_prefix: "k \<in> indices i t \<Longrightarrow> \<exists>n. k div 2 ^ n = i"
proof (induction i t rule: indices.induct)
  case (2 i l a r)
  then consider "k = i" | n where "k div 2 ^ n = 2 * i" | n where "k div 2 ^ n = 2 * i + 1"
    by auto
  then show ?case
  proof cases
    case 1 then show ?thesis by (intro exI [of _ 0]) simp
  next
    case (2 n)
    then have "k div 2 ^ Suc n = i"
      by (simp only: div_pow_Suc)
    then show ?thesis ..
  next
    case (3 n)
    then have "k div 2 ^ Suc n = i"
      by (simp only: div_pow_Suc)
    then show ?thesis ..
  qed
qed simp

lemma div_pow_later: "m < n \<Longrightarrow> (k::nat) div 2 ^ n \<le> k div 2 ^ m div 2"
proof -
  assume "m < n"
  then have "(2::nat) ^ Suc m \<le> 2 ^ n"
    by (intro power_increasing) auto
  then have "k div 2 ^ n \<le> k div 2 ^ Suc m"
    by (intro div_le_mono2) auto
  then show ?thesis by (simp only: div_pow_Suc)
qed

lemma prefix_sides:
  assumes "k div 2 ^ n = 2 * i + of_bool b" "k div 2 ^ m = 2 * i + of_bool (\<not> b)" "(i::nat) > 0"
  shows False
proof (cases m n rule: linorder_cases)
  case less
  then have "k div 2 ^ n \<le> k div 2 ^ m div 2" by (rule div_pow_later)
  with assms show False by (cases b) auto
next
  case greater
  then have "k div 2 ^ m \<le> k div 2 ^ n div 2" by (rule div_pow_later)
  with assms show False by (cases b) auto
qed (use assms in \<open>cases b; auto\<close>)

lemma idx_in_side:
  assumes "i > 0"
  shows "idx (2 * i + of_bool b) bs \<notin> indices (2 * i + of_bool (\<not> b)) t"
proof
  assume "idx (2 * i + of_bool b) bs \<in> indices (2 * i + of_bool (\<not> b)) t"
  then obtain n where "idx (2 * i + of_bool b) bs div 2 ^ n = 2 * i + of_bool (\<not> b)"
    using indices_prefix by blast
  then show False
    using prefix_sides [OF idx_div _ assms] by blast
qed

lemma idx_in_indices:
  "i > 0 \<Longrightarrow> idx i bs \<in> indices i t \<longleftrightarrow> (\<exists>l a r. tsub bs t = Some (Node l a r))"
proof (induction bs arbitrary: i t)
  case Nil
  then show ?case by (cases t) auto
next
  case (Cons b bs)
  show ?case
  proof (cases t)
    case (Node l a r)
    have "idx (2 * i + of_bool b) bs \<noteq> i"
      using idx_ge [of "2 * i + of_bool b" bs] Cons.prems by auto
    then show ?thesis
      using Cons.IH [of "2 * i + of_bool b"] Cons.prems Node
        idx_in_side [OF Cons.prems, of b bs "if b then l else r"]
      by (cases b) auto
  qed simp
qed

lemma idx_snoc: "idx i (bs @ [b]) = 2 * idx i bs + of_bool b"
  by (induction i bs rule: idx.induct) auto

lemma tsub_snoc: "tsub (bs @ [b]) t =
    (case tsub bs t of Some (Node l a r) \<Rightarrow> Some (if b then r else l) | _ \<Rightarrow> None)"
  by (induction bs t rule: tsub.induct) (auto split: tree.splits)

text \<open>
  A tree of \<open>n\<close> nodes is left-adjusted when its nodes are numbered \<open>1\<close> to \<open>n\<close>: node \<open>k \<le> n\<close> is
  where the digits of \<open>k\<close> lead, and the digits of \<open>n + 1\<close> lead to the next free place.
\<close>

definition complete :: "nat \<Rightarrow> 'a tree \<Rightarrow> bool" where
  "complete n t \<longleftrightarrow> indices 1 t = {1..n}"

lemma complete_node:
  assumes "complete n t" "0 < k" "k \<le> n"
  obtains l a r where "tsub (path_to k) t = Some (Node l a r)"
  using assms idx_in_indices [of 1 "path_to k" t] idx_path_to [of k]
  by (auto simp: complete_def)

lemma complete_free:
  assumes "complete n t"
  shows "tsub (path_to (Suc n)) t = Some Leaf"
proof (cases "path_to (Suc n)" rule: rev_cases)
  case Nil
  then have "idx 1 (path_to (Suc n)) = 1" by simp
  then have "n = 0" using idx_path_to [of "Suc n"] by simp
  then have "t = Leaf"
    using assms by (cases t) (auto simp: complete_def)
  with Nil show ?thesis by simp
next
  case (snoc cs b)
  then have i: "2 * idx 1 cs + of_bool b = Suc n"
    using idx_path_to [of "Suc n"] idx_snoc [of 1 cs b] by simp
  moreover have "idx 1 cs \<ge> 1"
    by (rule idx_ge)
  ultimately have "idx 1 cs \<in> {1..n}"
    by (cases b) auto
  then obtain l a r where n: "tsub cs t = Some (Node l a r)"
    using idx_in_indices [of 1 cs t] assms by (auto simp: complete_def)
  have "Suc n \<notin> indices 1 t"
    using assms by (simp add: complete_def)
  then have "\<not> (\<exists>l a r. tsub (path_to (Suc n)) t = Some (Node l a r))"
    using idx_in_indices [of 1 "path_to (Suc n)" t] idx_path_to [of "Suc n"] by simp
  then show ?thesis
    using n snoc by (auto simp: tsub_snoc) (metis tree.exhaust)+
qed

section \<open>Pushing an element along a path\<close>

text \<open>
  \<open>tput f d bs x t\<close>: walk from the root along \<open>bs\<close>, exchanging \<open>x\<close> with every node due later;
  where the path ends, the subtree \<open>u\<close> there becomes \<open>f x u\<close> for the element then carried.
\<close>

fun tput :: "('a \<Rightarrow> 'a tree \<Rightarrow> 'a tree) \<Rightarrow> ('a \<Rightarrow> 'b::linorder) \<Rightarrow> bool list \<Rightarrow> 'a \<Rightarrow> 'a tree \<Rightarrow> 'a tree" where
  "tput f d [] x t = f x t"
| "tput f d (b # bs) x Leaf = Leaf"
| "tput f d (b # bs) x (Node l a r) =
     (let u = (if d x < d a then x else a); v = (if d x < d a then a else x)
      in if b then Node l u (tput f d bs v r) else Node (tput f d bs v l) u r)"

fun hp :: "('a \<Rightarrow> 'b::linorder) \<Rightarrow> 'a tree \<Rightarrow> bool" where
  "hp d Leaf \<longleftrightarrow> True"
| "hp d (Node l a r) \<longleftrightarrow> (\<forall>b \<in> set_tree l \<union> set_tree r. d a \<le> d b) \<and> hp d l \<and> hp d r"

lemma mset_tput:
  assumes "tsub bs t = Some u" "\<And>v. mset_tree (f v u) = {#v#} + M"
  shows "mset_tree (tput f d bs x t) + mset_tree u = mset_tree t + {#x#} + M"
  using assms(1)
proof (induction bs t arbitrary: x rule: tsub.induct)
  case (1 t)
  then show ?case using assms(2) by simp
next
  case (3 b bs l a r)
  then show ?case
    by (cases b) (simp_all add: Let_def add.assoc add.left_commute add_mset_commute)
qed simp

lemma set_tput:
  assumes "tsub bs t = Some u" "\<And>v. set_tree (f v u) \<subseteq> insert v (set_tree u)"
  shows "set_tree (tput f d bs x t) \<subseteq> insert x (set_tree t)"
  using assms(1)
proof (induction bs t arbitrary: x rule: tsub.induct)
  case (3 b bs l a r)
  then show ?case
    by (cases b; cases "d x < d a") (auto dest!: subsetD)
qed (use assms(2) in auto)

lemma hp_tput:
  assumes "tsub bs t = Some u" "hp d t"
    and "\<And>v. set_tree (f v u) \<subseteq> insert v (set_tree u)" "\<And>v. hp d (f v u)"
  shows "hp d (tput f d bs x t)"
  using assms(1,2)
proof (induction bs t arbitrary: x rule: tsub.induct)
  case (3 b bs l a r)
  define u v where uv: "u = (if d x < d a then x else a)" "v = (if d x < d a then a else x)"
  have le: "d u \<le> d a" "d u \<le> d v"
    by (auto simp: uv)
  have S: "set_tree (tput f d bs v (if b then r else l)) \<subseteq> insert v (set_tree (if b then r else l))"
    using set_tput [of bs "if b then r else l" _ f d v] 3 assms(3) by simp
  have "d u \<le> d c" if "c \<in> set_tree l \<union> set_tree r" for c
    using le(1) 3(3) that by (auto intro: order.trans)
  then show ?case
    using 3 S le(2) by (cases b) (auto simp: uv [symmetric] Let_def)
qed (use assms(4) in auto)

lemma indices_tput:
  assumes "tsub bs t = Some u" "\<And>v j. indices j (f v u) = indices j u \<union> K j"
  shows "indices i (tput f d bs x t) = indices i t \<union> K (idx i bs)"
  using assms(1)
proof (induction bs t arbitrary: x i rule: tsub.induct)
  case (3 b bs l a r)
  then show ?case by (cases b) (auto simp: Let_def)
qed (use assms(2) in auto)

section \<open>Replacing a subtree\<close>

fun trep :: "bool list \<Rightarrow> 'a tree \<Rightarrow> 'a tree \<Rightarrow> 'a tree" where
  "trep [] w t = w"
| "trep (b # bs) w Leaf = Leaf"
| "trep (b # bs) w (Node l a r) =
     (if b then Node l a (trep bs w r) else Node (trep bs w l) a r)"

lemma mset_trep:
  "tsub bs t = Some u \<Longrightarrow> mset_tree (trep bs w t) + mset_tree u = mset_tree t + mset_tree w"
proof (induction bs t rule: tsub.induct)
  case (3 b bs l a r)
  then show ?case
    by (cases b) (simp_all add: add.assoc add.left_commute add_mset_commute)
qed (simp_all add: add.commute)

lemma set_trep_Leaf: "set_tree (trep bs Leaf t) \<subseteq> set_tree t"
  by (induction bs t rule: tsub.induct) auto

lemma hp_trep_Leaf: "hp d t \<Longrightarrow> hp d (trep bs Leaf t)"
proof (induction bs t rule: tsub.induct)
  case (3 b bs l a r)
  then show ?case
    using set_trep_Leaf [of bs l] set_trep_Leaf [of bs r] by (cases b) auto
qed simp_all

lemma hp_tsub: "tsub bs t = Some u \<Longrightarrow> hp d t \<Longrightarrow> hp d u"
  by (induction bs t rule: tsub.induct) (auto split: if_splits)

lemma indices_disjoint: "i > 0 \<Longrightarrow> indices (2 * i) l \<inter> indices (2 * i + 1) r = {}"
proof -
  assume i: "i > 0"
  have False if k: "k \<in> indices (2 * i) l" "k \<in> indices (2 * i + 1) r" for k
  proof -
    obtain n m where "k div 2 ^ n = 2 * i" "k div 2 ^ m = 2 * i + 1"
      using k indices_prefix by metis
    then show False
      using prefix_sides [of k n i False m] i by simp
  qed
  then show ?thesis by blast
qed

lemma indices_tsub: "tsub bs t = Some u \<Longrightarrow> indices (idx i bs) u \<subseteq> indices i t"
proof (induction bs t arbitrary: i rule: tsub.induct)
  case (3 b bs l a r)
  then show ?case by (cases b) fastforce+
qed simp_all

lemma indices_trep_Leaf:
  "tsub bs t = Some u \<Longrightarrow> i > 0 \<Longrightarrow> indices i (trep bs Leaf t) = indices i t - indices (idx i bs) u"
proof (induction bs t arbitrary: i rule: tsub.induct)
  case (3 b bs l a r)
  have "i \<notin> indices (idx (2 * i + of_bool b) bs) u"
    using indices_ge [of i "idx (2 * i + of_bool b) bs" u] idx_ge [of "2 * i + of_bool b" bs] 3(3)
    by auto
  then show ?case
    using 3 indices_disjoint [OF 3(3), of l r] indices_tsub [of bs "if b then r else l" u]
    by (cases b) fastforce+
qed simp_all

lemma indices_empty: "indices i t = {} \<longleftrightarrow> t = Leaf"
  by (cases t) auto

lemma complete_last:
  assumes "complete n t" "n > 0"
  obtains a where "tsub (path_to n) t = Some (Node Leaf a Leaf)"
proof -
  obtain l a r where u: "tsub (path_to n) t = Some (Node l a r)"
    using complete_node [OF assms(1), of n] assms(2) by auto
  then have sub: "indices n (Node l a r) \<subseteq> {1..n}"
    using indices_tsub [OF u, of 1] idx_path_to [OF assms(2)] assms(1) by (simp add: complete_def)
  have "indices (2 * n) l = {}" "indices (2 * n + 1) r = {}"
    using sub indices_ge [of _ "2 * n" l] indices_ge [of _ "2 * n + 1" r] assms(2) by fastforce+
  then have "l = Leaf" "r = Leaf"
    by (simp_all add: indices_empty)
  with u that show ?thesis by blast
qed

lemma complete_cut:
  assumes "complete n t" "n > 0"
  shows "complete (n - 1) (trep (path_to n) Leaf t)"
proof -
  obtain a where a: "tsub (path_to n) t = Some (Node Leaf a Leaf)"
    using complete_last [OF assms] .
  have "{1..n} - {n} = {1..n - 1}"
    using assms(2) by auto
  then show ?thesis
    using indices_trep_Leaf [OF a, of 1] idx_path_to [OF assms(2)] assms(1)
    by (simp add: complete_def)
qed

lemma tsub_trep_root:
  assumes "tsub bs t = Some (Node l a r)" "\<nexists>ds. bs = cs @ ds"
  obtains l' r' where "tsub bs (trep cs w t) = Some (Node l' a r')"
  using assms
proof (induction cs arbitrary: bs t thesis)
  case (Cons c cs)
  show ?case
  proof (cases bs)
    case Nil
    then show ?thesis using Cons.prems by (cases c) auto
  next
    case (Cons b bs')
    then obtain l0 a0 r0 where "t = Node l0 a0 r0"
      using Cons.prems(2) by (cases t) auto
    then show ?thesis
      using Cons Cons.prems Cons.IH [of bs' "if b then r0 else l0"] by (cases "b = c"; cases b) auto
  qed
qed simp

lemma path_to_not_prefix:
  assumes "0 < k" "k < n"
  shows "\<nexists>ds. path_to k = path_to n @ ds"
proof
  assume "\<exists>ds. path_to k = path_to n @ ds"
  then obtain ds where "path_to k = path_to n @ ds" ..
  moreover have "idx 1 (xs @ ds) \<ge> idx 1 xs" for xs
    using idx_ge by (induction ds rule: rev_induct) (auto simp: idx_snoc simp flip: append_assoc intro: order.trans)
  ultimately show False
    using idx_path_to [of k] idx_path_to [of n] assms by (metis leD order.strict_trans)
qed

text \<open>Every node carries its number.\<close>

fun numbered :: "('a \<Rightarrow> nat) \<Rightarrow> nat \<Rightarrow> 'a tree \<Rightarrow> bool" where
  "numbered h i Leaf \<longleftrightarrow> True"
| "numbered h i (Node l a r) \<longleftrightarrow> h a = i \<and> numbered h (2 * i) l \<and> numbered h (2 * i + 1) r"

lemma numbered_cong:
  "numbered h i t \<Longrightarrow> (\<And>a. a \<in> set_tree t \<Longrightarrow> h' a = h a) \<Longrightarrow> numbered h' i t"
  by (induction h i t rule: numbered.induct) auto

lemma numbered_tsub: "tsub bs t = Some u \<Longrightarrow> numbered h i t \<Longrightarrow> numbered h (idx i bs) u"
proof (induction bs t arbitrary: i rule: tsub.induct)
  case (3 b bs l a r)
  then show ?case by (cases b) auto
qed auto

lemma numbered_trep:
  "tsub bs t = Some u \<Longrightarrow> numbered h i t \<Longrightarrow> numbered h (idx i bs) w \<Longrightarrow> numbered h i (trep bs w t)"
proof (induction bs t arbitrary: i rule: tsub.induct)
  case (3 b bs l a r)
  then show ?case by (cases b) auto
qed auto

lemma set_tsub: "tsub bs t = Some u \<Longrightarrow> set_tree u \<subseteq> set_tree t"
  by (induction bs t rule: tsub.induct) (auto split: if_splits)

lemma numbered_trep_upd:
  assumes "tsub bs t = Some u" "distinct (inorder t)" "numbered h i t" "numbered h' (idx i bs) w"
    and "\<And>a. a \<in> set_tree t - set_tree u \<Longrightarrow> h' a = h a"
  shows "numbered h' i (trep bs w t)"
  using assms
proof (induction bs t arbitrary: i rule: tsub.induct)
  case (3 b bs l a r)
  have u: "set_tree u \<subseteq> set_tree (if b then r else l)"
    using set_tsub "3.prems"(1) by fastforce
  then have o: "h' a = h a" "numbered h' (if b then 2 * i else 2 * i + 1) (if b then l else r)"
    using "3.prems" by (auto intro!: numbered_cong [of h _ _ h'] split: if_splits)
  then show ?case
    using 3 by (cases b) auto
qed auto

lemma numbered_in_indices: "numbered h i t \<Longrightarrow> a \<in> set_tree t \<Longrightarrow> h a \<in> indices i t"
  by (induction h i t rule: numbered.induct) auto

lemma numbered_inj:
  assumes "numbered h 1 t" "a \<in> set_tree t" "b \<in> set_tree t" "h a = h b"
  shows "a = b"
proof -
  have "i > 0 \<Longrightarrow> numbered h i t \<Longrightarrow> inj_on h (set_tree t)" for i and t :: "'a tree"
  proof (induction t arbitrary: i)
    case (Node l c r)
    have inj: "inj_on h (set_tree l)" "inj_on h (set_tree r)"
      using Node.IH(1) [of "2 * i"] Node.IH(2) [of "2 * i + 1"] Node.prems by auto
    have lr: "h x \<noteq> h y" if "x \<in> set_tree l" "y \<in> set_tree r" for x y
      using indices_disjoint [OF Node.prems(1), of l r] that Node.prems(2)
        numbered_in_indices [of h "2 * i" l x] numbered_in_indices [of h "2 * i + 1" r y] by auto
    have "2 * i \<le> h x" if "x \<in> set_tree l \<union> set_tree r" for x
      using that Node.prems(2) numbered_in_indices [of h "2 * i" l x]
        numbered_in_indices [of h "2 * i + 1" r x] indices_ge [of "h x" "2 * i" l]
        indices_ge [of "h x" "2 * i + 1" r] by auto
    then have ne: "h x \<noteq> h c" if "x \<in> set_tree l \<union> set_tree r" for x
      using that Node.prems by fastforce
    show ?case
    proof (rule inj_onI)
      fix x y
      assume xy: "x \<in> set_tree (Node l c r)" "y \<in> set_tree (Node l c r)" "h x = h y"
      consider "x = c" "y = c" | "x = c" "y \<in> set_tree l \<union> set_tree r" | "y = c" "x \<in> set_tree l \<union> set_tree r"
        | "x \<in> set_tree l" "y \<in> set_tree l" | "x \<in> set_tree r" "y \<in> set_tree r"
        | "x \<in> set_tree l" "y \<in> set_tree r" | "x \<in> set_tree r" "y \<in> set_tree l"
        using xy(1,2) by auto
      then show "x = y"
        using xy(3) ne [of x] ne [of y] lr [of x y] lr [of y x] inj by cases (auto dest: inj_onD)
    qed
  qed simp
  from this [of 1 t] assms show ?thesis by (auto simp: inj_on_def)
qed

lemma distinct_swap:
  assumes "mset_tree t + {#x#} = mset_tree t' + {#x'#}" "distinct (inorder t)" "x \<notin> set_tree t"
  shows "distinct (inorder t')" "x' \<notin> set_tree t'" "insert x' (set_tree t') = insert x (set_tree t)"
proof -
  have "mset (x # inorder t) = mset (x' # inorder t')"
    using assms(1) by simp
  then have "distinct (x' # inorder t')"
    using mset_eq_imp_distinct_iff [of "x # inorder t" "x' # inorder t'"] assms(2,3) by simp
  then show "distinct (inorder t')" "x' \<notin> set_tree t'" by simp_all
  show "insert x' (set_tree t') = insert x (set_tree t)"
    using arg_cong [OF assms(1), of set_mset] by simp
qed

lemma distinct_tsub: "tsub bs t = Some u \<Longrightarrow> distinct (inorder t) \<Longrightarrow> distinct (inorder u)"
  by (induction bs t rule: tsub.induct) (auto split: if_splits)

text \<open>The number of a node is the path to it: the digits of \<open>h a\<close> lead to \<open>a\<close>.\<close>

lemma numbered_path:
  assumes "complete n t" "numbered h 1 t" "a \<in> set_tree t" "distinct (inorder t)"
  obtains l r where "tsub (path_to (h a)) t = Some (Node l a r)" "0 < h a" "h a \<le> n"
proof -
  have r: "0 < h a" "h a \<le> n"
    using numbered_in_indices [OF assms(2,3)] assms(1) by (auto simp: complete_def)
  then obtain l b r' where u: "tsub (path_to (h a)) t = Some (Node l b r')"
    using complete_node [OF assms(1)] by metis
  then have "h b = h a"
    using numbered_tsub [OF u assms(2)] idx_path_to [OF r(1)] by simp
  moreover have "b \<in> set_tree t"
    using set_tsub [OF u] by auto
  ultimately have "b = a"
    using numbered_inj [OF assms(2)] assms(3) by auto
  with u r that show ?thesis by blast
qed

section \<open>Sinking the root\<close>

fun sink :: "('a \<Rightarrow> 'b::linorder) \<Rightarrow> 'a tree \<Rightarrow> 'a tree" where
  "sink d Leaf = Leaf"
| "sink d (Node Leaf x r) = Node Leaf x r"
| "sink d (Node (Node ll y lr) x Leaf) =
     (if d x > d y then Node (sink d (Node ll x lr)) y Leaf else Node (Node ll y lr) x Leaf)"
| "sink d (Node (Node ll y lr) x (Node rl z rr)) =
     (if d y < d z
      then (if d x > d y then Node (sink d (Node ll x lr)) y (Node rl z rr)
            else Node (Node ll y lr) x (Node rl z rr))
      else (if d x > d z then Node (Node ll y lr) z (sink d (Node rl x rr))
            else Node (Node ll y lr) x (Node rl z rr)))"

lemma mset_sink [simp]: "mset_tree (sink d t) = mset_tree t"
  by (induction d t rule: sink.induct) (auto simp: ac_simps)

lemma set_sink [simp]: "set_tree (sink d t) = set_tree t"
  using mset_sink [of d t] by (metis set_mset_tree)

lemma indices_sink [simp]: "indices i (sink d t) = indices i t"
  by (induction d t arbitrary: i rule: sink.induct) auto

text \<open>A node without a left child has no right child either; sinking stops at such a node.\<close>

fun lfull :: "'a tree \<Rightarrow> bool" where
  "lfull Leaf \<longleftrightarrow> True"
| "lfull (Node l a r) \<longleftrightarrow> (l = Leaf \<longrightarrow> r = Leaf) \<and> lfull l \<and> lfull r"

lemma lfullI: "(\<And>bs a r. tsub bs t = Some (Node Leaf a r) \<Longrightarrow> r = Leaf) \<Longrightarrow> lfull t"
proof (induction t)
  case (Node l a r)
  have "lfull l"
  proof (rule Node.IH(1))
    fix bs b r'
    assume "tsub bs l = Some (Node Leaf b r')"
    then show "r' = Leaf" using Node.prems [of "False # bs" b r'] by simp
  qed
  moreover have "lfull r"
  proof (rule Node.IH(2))
    fix bs b r'
    assume "tsub bs r = Some (Node Leaf b r')"
    then show "r' = Leaf" using Node.prems [of "True # bs" b r'] by simp
  qed
  ultimately show ?case
    using Node.prems [of "[]"] by auto
qed simp

lemma complete_lfull: "complete n t \<Longrightarrow> lfull t"
proof (rule lfullI, rule ccontr)
  fix bs a r
  assume c: "complete n t" and u: "tsub bs t = Some (Node Leaf a r)" and r: "r \<noteq> Leaf"
  have "idx 1 (bs @ [True]) \<in> indices 1 t"
    using u r by (subst idx_in_indices) (auto simp: tsub_snoc neq_Leaf_iff)
  moreover have "idx 1 bs \<ge> 1"
    by (rule idx_ge)
  ultimately have "idx 1 (bs @ [False]) \<in> indices 1 t"
    using c by (auto simp: complete_def idx_snoc)
  then show False
    using u idx_in_indices [of 1 "bs @ [False]" t] by (auto simp: tsub_snoc)
qed

lemma lfull_tsub: "tsub bs t = Some u \<Longrightarrow> lfull t \<Longrightarrow> lfull u"
  by (induction bs t rule: tsub.induct) (auto split: if_splits)

lemma hp_sink: "hp d l \<Longrightarrow> hp d r \<Longrightarrow> lfull (Node l x r) \<Longrightarrow> hp d (sink d (Node l x r))"
proof (induction d "Node l x r" arbitrary: l x r rule: sink.induct)
  case (3 d ll y lr x)
  then show ?case
    by (auto simp: not_less intro: order.trans less_imp_le)
next
  case (4 d ll y lr x rl z rr)
  then show ?case
    by (auto simp: not_less intro: order.trans less_imp_le)
qed auto

section \<open>The two operations on the heap\<close>

definition leaf_at :: "'a \<Rightarrow> 'a tree \<Rightarrow> 'a tree" where
  "leaf_at v u = Node Leaf v Leaf"

definition sink_at :: "('a \<Rightarrow> 'b::linorder) \<Rightarrow> 'a \<Rightarrow> 'a tree \<Rightarrow> 'a tree" where
  "sink_at d v u = (case u of Leaf \<Rightarrow> Leaf | Node l _ r \<Rightarrow> sink d (Node l v r))"

definition t_insert :: "('a \<Rightarrow> 'b::linorder) \<Rightarrow> nat \<Rightarrow> 'a \<Rightarrow> 'a tree \<Rightarrow> 'a tree" where
  "t_insert d n x t = tput leaf_at d (path_to (Suc n)) x t"

definition t_delete :: "('a \<Rightarrow> 'b::linorder) \<Rightarrow> nat \<Rightarrow> nat \<Rightarrow> 'a tree \<Rightarrow> 'a tree" where
  "t_delete d n k t =
     (let t1 = trep (path_to n) Leaf t
      in case tsub (path_to n) t of
           Some (Node _ x _) \<Rightarrow> if k = n then t1 else tput (sink_at d) d (path_to k) x t1
         | _ \<Rightarrow> t)"

lemma t_insert_correct:
  assumes "complete n t" "hp d t"
  shows "complete (Suc n) (t_insert d n x t)" "hp d (t_insert d n x t)"
    "mset_tree (t_insert d n x t) = add_mset x (mset_tree t)"
proof -
  note u = complete_free [OF assms(1)]
  show "complete (Suc n) (t_insert d n x t)"
    using indices_tput [OF u, of leaf_at "\<lambda>j. {j}" 1 d x] idx_path_to [of "Suc n"] assms(1)
    by (auto simp: leaf_at_def complete_def t_insert_def)
  show "hp d (t_insert d n x t)"
    unfolding t_insert_def by (rule hp_tput [OF u assms(2)]) (simp_all add: leaf_at_def)
  show "mset_tree (t_insert d n x t) = add_mset x (mset_tree t)"
    using mset_tput [OF u, of leaf_at "{#}" d x] by (simp add: leaf_at_def t_insert_def)
qed

lemma t_delete_correct:
  assumes "complete n t" "hp d t" and k: "0 < k" "k \<le> n"
    and a: "tsub (path_to k) t = Some (Node l a r)"
  shows "complete (n - 1) (t_delete d n k t)" "hp d (t_delete d n k t)"
    "mset_tree t = add_mset a (mset_tree (t_delete d n k t))"
proof -
  define t1 where "t1 = trep (path_to n) Leaf t"
  have n: "n > 0" using k by simp
  obtain x where x: "tsub (path_to n) t = Some (Node Leaf x Leaf)"
    using complete_last [OF assms(1) n] .
  have c1: "complete (n - 1) t1" and h1: "hp d t1"
    using complete_cut [OF assms(1) n] hp_trep_Leaf [OF assms(2)] by (simp_all add: t1_def)
  have m1: "mset_tree t = add_mset x (mset_tree t1)"
    using mset_trep [OF x, of Leaf] by (simp add: t1_def)
  have "complete (n - 1) (t_delete d n k t) \<and> hp d (t_delete d n k t) \<and>
      mset_tree t = add_mset a (mset_tree (t_delete d n k t))"
  proof (cases "k = n")
    case True
    then show ?thesis
      using x a c1 h1 m1 by (simp add: t_delete_def t1_def)
  next
    case False
    then obtain l' r' where u: "tsub (path_to k) t1 = Some (Node l' a r')"
      using tsub_trep_root [OF a path_to_not_prefix, of n Leaf] k unfolding t1_def by auto
    have td: "t_delete d n k t = tput (sink_at d) d (path_to k) x t1"
      using x False by (simp add: t_delete_def t1_def)
    have hu: "hp d l'" "hp d r'" "lfull (Node l' v r')" for v
      using hp_tsub [OF u h1] lfull_tsub [OF u complete_lfull [OF c1]] by simp_all
    have "complete (n - 1) (tput (sink_at d) d (path_to k) x t1)"
      using indices_tput [OF u, of "sink_at d" "\<lambda>_. {}" 1 d x] c1
      by (simp add: sink_at_def complete_def)
    moreover have "hp d (tput (sink_at d) d (path_to k) x t1)"
      by (rule hp_tput [OF u h1]) (auto simp: sink_at_def intro: hp_sink hu)
    moreover have "mset_tree t = add_mset a (mset_tree (tput (sink_at d) d (path_to k) x t1))"
      using mset_tput [OF u, of "sink_at d" "mset_tree l' + mset_tree r'" d x] m1
      by (simp add: sink_at_def)
    ultimately show ?thesis
      by (simp add: td)
  qed
  then show "complete (n - 1) (t_delete d n k t)" "hp d (t_delete d n k t)"
    "mset_tree t = add_mset a (mset_tree (t_delete d n k t))"
    by auto
qed

end
