(* ===== verification/ST_Heap.thy ===== *)
theory ST_Heap
  imports ST_Data ST_HeapTree
begin

text \<open>
  The timeout heap of \<open>sched.c\<close> (see \<open>docs/timeout_heap.txt\<close>): the sleeping threads form a
  left-adjusted binary tree, linked through \<open>left\<close> and \<open>right\<close> of the thread objects and
  rooted in \<open>sleep_q\<close>. \<open>heap_insert\<close> and \<open>heap_delete\<close> walk it with a pointer \<open>p\<close> to the
  pointer they will overwrite; such a \<open>p\<close> is the address of \<open>sleep_q\<close> or of a \<open>left\<close> or
  \<open>right\<close> field. A result \<open>None\<close> is the dereference of a \<open>NULL\<close> pointer (or a loop that
  never ends); that it does not happen is part of what is proved.
\<close>

section \<open>The code\<close>

datatype loc = Root | LeftOf tid | RightOf tid

fun rd_loc :: "st \<Rightarrow> loc \<Rightarrow> tid option" where
  "rd_loc s Root = sleep_q s"
| "rd_loc s (LeftOf t) = left (thr s t)"
| "rd_loc s (RightOf t) = right (thr s t)"

fun wr_loc :: "loc \<Rightarrow> tid option \<Rightarrow> st \<Rightarrow> st" where
  "wr_loc Root v s = s\<lparr>sleep_q := v\<rparr>"
| "wr_loc (LeftOf t) v s = upd_thr t (\<lambda>x. x\<lparr>left := v\<rparr>) s"
| "wr_loc (RightOf t) v s = upd_thr t (\<lambda>x. x\<lparr>right := v\<rparr>) s"

text \<open>
  The loop \<open>for (bit = bits - 2; bit >= 0; bit--)\<close> of \<open>heap_insert\<close>: the first argument is
  \<open>bit + 1\<close>, the last ones the local variables \<open>p\<close>, \<open>index\<close> and \<open>thread\<close>.
\<close>

fun heap_insert_loop ::
    "nat \<Rightarrow> nat \<Rightarrow> loc \<Rightarrow> nat \<Rightarrow> tid \<Rightarrow> st \<Rightarrow> (loc \<times> nat \<times> tid \<times> st) option" where
  "heap_insert_loop 0 target p index thread s = Some (p, index, thread, s)"
| "heap_insert_loop (Suc bt) target p index thread s =
     (case rd_loc s p of
        None \<Rightarrow> None
      | Some t \<Rightarrow>
         let (thread', s') =
               (if due (thr s thread) < due (thr s t)
                then (t, upd_thr thread (\<lambda>x. x\<lparr>heap_index := index\<rparr>)
                           (wr_loc p (Some thread)
                             (upd_thr thread (\<lambda>x. x\<lparr>left := left (thr s t),
                                                    right := right (thr s t)\<rparr>) s)))
                else (thread, s))
         in (case rd_loc s' p of
               None \<Rightarrow> None
             | Some q \<Rightarrow>
                (if odd (target div 2 ^ bt)
                 then heap_insert_loop bt target (RightOf q) (2 * index + 1) thread' s'
                 else heap_insert_loop bt target (LeftOf q) (2 * index) thread' s')))"

definition heap_insert :: "tid \<Rightarrow> st \<Rightarrow> (loc \<times> st) option" where
  "heap_insert thread s =
     (let target = heap_index (thr s thread);
          bits = num_bits target
      in (case heap_insert_loop (bits - 1) target Root 1 thread s of
            None \<Rightarrow> None
          | Some (p, index, thread', s1) \<Rightarrow>
             let s2 = upd_thr thread' (\<lambda>x. x\<lparr>heap_index := index\<rparr>) s1;
                 s3 = wr_loc p (Some thread') s2;
                 s4 = upd_thr thread' (\<lambda>x. x\<lparr>left := None, right := None\<rparr>) s3
             in Some (p, s4)))"

text \<open>The walk of \<open>heap_delete\<close> to the pointer to the last element.\<close>

fun heap_last_loop :: "nat \<Rightarrow> nat \<Rightarrow> loc \<Rightarrow> st \<Rightarrow> loc option" where
  "heap_last_loop 0 sz p s = Some p"
| "heap_last_loop (Suc bt) sz p s =
     (case rd_loc s p of
        None \<Rightarrow> None
      | Some q \<Rightarrow> heap_last_loop bt sz (if odd (sz div 2 ^ bt) then RightOf q else LeftOf q) s)"

text \<open>\<open>for (;;)\<close> at the end of \<open>heap_delete\<close>: \<open>t\<close> sinks below \<open>p\<close> while a child is due earlier.\<close>

partial_function (option) heap_sink :: "tid \<Rightarrow> loc \<Rightarrow> st \<Rightarrow> st option" where
  "heap_sink t p s =
     (case left (thr s t) of
        None \<Rightarrow> Some s
      | Some tl0 \<Rightarrow>
         let y = (case right (thr s t) of
                    None \<Rightarrow> tl0
                  | Some tr0 \<Rightarrow> if due (thr s tl0) < due (thr s tr0) then tl0 else tr0)
         in if due (thr s t) > due (thr s y)
            then let yl = left (thr s y);
                     yr = right (thr s y);
                     s1 = wr_loc p (Some y) s;
                     (s2, p') =
                       (if y = tl0
                        then (upd_thr y (\<lambda>x. x\<lparr>left := Some t, right := right (thr s1 t)\<rparr>) s1, LeftOf y)
                        else (upd_thr y (\<lambda>x. x\<lparr>left := left (thr s1 t), right := Some t\<rparr>) s1, RightOf y));
                     s3 = upd_thr t (\<lambda>x. x\<lparr>left := yl, right := yr\<rparr>) s2;
                     index_tmp = heap_index (thr s3 t);
                     s4 = upd_thr t (\<lambda>x. x\<lparr>heap_index := heap_index (thr s3 y)\<rparr>) s3;
                     s5 = upd_thr y (\<lambda>x. x\<lparr>heap_index := index_tmp\<rparr>) s4
                 in heap_sink t p' s5
            else Some s)"

definition heap_delete :: "tid \<Rightarrow> st \<Rightarrow> st option" where
  "heap_delete thread s =
     (case heap_last_loop (num_bits (sleepq_size s) - 1) (sleepq_size s) Root s of
        None \<Rightarrow> None
      | Some p \<Rightarrow>
         (case rd_loc s p of
            None \<Rightarrow> None
          | Some t \<Rightarrow>
             let s1 = (wr_loc p None s)\<lparr>sleepq_size := sleepq_size s - 1\<rparr>;
                 finish = (\<lambda>s'. upd_thr thread (\<lambda>x. x\<lparr>left := None, right := None\<rparr>) s')
             in if t = thread then Some (finish s1)
                else (case heap_insert t (upd_thr t (\<lambda>x. x\<lparr>heap_index := heap_index (thr s1 thread)\<rparr>) s1) of
                        None \<Rightarrow> None
                      | Some (p', s2) \<Rightarrow>
                         (case rd_loc s2 p' of
                            None \<Rightarrow> None
                          | Some t' \<Rightarrow>
                             map_option finish
                               (heap_sink t' p'
                                 (upd_thr t' (\<lambda>x. x\<lparr>left := left (thr s2 thread),
                                                    right := right (thr s2 thread)\<rparr>) s2))))))"

definition st_add_sleep_q :: "tid \<Rightarrow> utime \<Rightarrow> st \<Rightarrow> st option" where
  "st_add_sleep_q thread timeout s =
     (let s1 = upd_thr thread (\<lambda>x. x\<lparr>due := last_clock s + timeout,
                                     flags := set_flag (flags x) FL_ON_SLEEPQ\<rparr>) s;
          s2 = s1\<lparr>sleepq_size := sleepq_size s1 + 1\<rparr>;
          s3 = upd_thr thread (\<lambda>x. x\<lparr>heap_index := sleepq_size s2\<rparr>) s2
      in map_option snd (heap_insert thread s3))"

definition st_del_sleep_q :: "tid \<Rightarrow> st \<Rightarrow> st option" where
  "st_del_sleep_q thread s =
     map_option (upd_thr thread (\<lambda>x. x\<lparr>flags := clear_flag (flags x) FL_ON_SLEEPQ\<rparr>))
       (heap_delete thread s)"

end
