(* ===== verification/ST_HeapRefine.thy ===== *)
theory ST_HeapRefine
  imports ST_Heap
begin

text \<open>
  The pointer code of \<open>ST_Heap\<close> computes the tree operations of \<open>ST_HeapTree\<close>:
  \<open>ptree s p t\<close> says that the pointer stored at \<open>p\<close> is the root of \<open>t\<close> in the store of \<open>s\<close>.
  Frame conditions: \<open>agrees X q\<close> (only the cell \<open>q\<close> and the cells of \<open>X\<close> changed) and
  \<open>unlink\<close> (what is left of a state without the fields of the heap).
\<close>

section \<open>Trees in the store\<close>

fun ptree :: "st \<Rightarrow> loc \<Rightarrow> tid tree \<Rightarrow> bool" where
  "ptree s p Leaf \<longleftrightarrow> rd_loc s p = None"
| "ptree s p (Node l a r) \<longleftrightarrow> rd_loc s p = Some a \<and> ptree s (LeftOf a) l \<and> ptree s (RightOf a) r"

fun owner_of :: "loc \<Rightarrow> tid set" where
  "owner_of Root = {}"
| "owner_of (LeftOf t) = {t}"
| "owner_of (RightOf t) = {t}"

definition agrees :: "tid set \<Rightarrow> loc \<Rightarrow> st \<Rightarrow> st \<Rightarrow> bool" where
  "agrees X q s s' \<longleftrightarrow> (\<forall>l. l \<noteq> q \<longrightarrow> owner_of l \<inter> X = {} \<longrightarrow> rd_loc s' l = rd_loc s l)"

definition unlink :: "st \<Rightarrow> st" where
  "unlink s = s\<lparr>thr := (\<lambda>t. (thr s t)\<lparr>left := None, right := None, heap_index := 0\<rparr>),
                sleep_q := None\<rparr>"

definition hidx :: "st \<Rightarrow> tid \<Rightarrow> nat" where
  "hidx s t = heap_index (thr s t)"

lemma rd_wr [simp]: "rd_loc (wr_loc p v s) l = (if l = p then v else rd_loc s l)"
  by (cases p; cases l) auto

lemma rd_upd [simp]:
  "rd_loc (upd_thr x (\<lambda>t. t\<lparr>left := a, right := b\<rparr>) s) l =
     (if l = LeftOf x then a else if l = RightOf x then b else rd_loc s l)"
  "rd_loc (upd_thr x (\<lambda>t. t\<lparr>heap_index := n\<rparr>) s) l = rd_loc s l"
  "rd_loc (upd_thr x (\<lambda>t. t\<lparr>due := u, flags := w t\<rparr>) s) l = rd_loc s l"
  "rd_loc (s\<lparr>sleepq_size := k\<rparr>) l = rd_loc s l"
  by (cases l; auto)+

lemma rd_left [simp]: "left (thr s t) = rd_loc s (LeftOf t)" and
  rd_right [simp]: "right (thr s t) = rd_loc s (RightOf t)"
  by simp_all

declare rd_loc.simps [simp del]

lemma unlink_wr [simp]: "unlink (wr_loc p v s) = unlink s"
  by (cases p) (auto simp: unlink_def intro!: st.equality ext)

lemma unlink_upd [simp]:
  "unlink (upd_thr x (\<lambda>t. t\<lparr>left := a, right := b\<rparr>) s) = unlink s"
  "unlink (upd_thr x (\<lambda>t. t\<lparr>heap_index := n\<rparr>) s) = unlink s"
  "unlink (s\<lparr>sleepq_size := k\<rparr>) = (unlink s)\<lparr>sleepq_size := k\<rparr>"
  by (auto simp: unlink_def intro!: st.equality ext)

lemma hidx_simps [simp]:
  "hidx (wr_loc p v s) t = hidx s t"
  "hidx (upd_thr x (\<lambda>y. y\<lparr>left := a, right := b\<rparr>) s) t = hidx s t"
  "hidx (upd_thr x (\<lambda>y. y\<lparr>heap_index := n\<rparr>) s) t = (if t = x then n else hidx s t)"
  "hidx (s\<lparr>sleepq_size := k\<rparr>) t = hidx s t"
  by (cases p; simp add: hidx_def)+

lemma due_simps [simp]:
  "due (thr (wr_loc p v s) t) = due (thr s t)"
  by (cases p) auto

lemma unlinkD:
  assumes "unlink s' = unlink s"
  shows "due (thr s' t) = due (thr s t)" "flags (thr s' t) = flags (thr s t)"
    "state (thr s' t) = state (thr s t)" "sleepq_size s' = sleepq_size s"
proof -
  have "(\<lambda>t. (thr s' t)\<lparr>left := None, right := None, heap_index := 0\<rparr>) =
        (\<lambda>t. (thr s t)\<lparr>left := None, right := None, heap_index := 0\<rparr>)"
    using arg_cong [OF assms, of thr] by (simp add: unlink_def)
  from fun_cong [OF this, of t]
  have "(thr s' t)\<lparr>left := None, right := None, heap_index := 0\<rparr> =
        (thr s t)\<lparr>left := None, right := None, heap_index := 0\<rparr>" .
  from arg_cong [OF this, of due] arg_cong [OF this, of flags] arg_cong [OF this, of state]
  show "due (thr s' t) = due (thr s t)" "flags (thr s' t) = flags (thr s t)"
    "state (thr s' t) = state (thr s t)" by simp_all
  show "sleepq_size s' = sleepq_size s"
    using arg_cong [OF assms, of sleepq_size] by (simp add: unlink_def)
qed

lemma ptree_cong:
  "ptree s p t \<Longrightarrow> rd_loc s' q = rd_loc s p \<Longrightarrow>
   (\<And>l. owner_of l \<inter> set_tree t \<noteq> {} \<Longrightarrow> rd_loc s' l = rd_loc s l) \<Longrightarrow> ptree s' q t"
proof (cases t)
  case (Node l a r)
  assume p: "ptree s p t" and q: "rd_loc s' q = rd_loc s p"
    and *: "\<And>l. owner_of l \<inter> set_tree t \<noteq> {} \<Longrightarrow> rd_loc s' l = rd_loc s l"
  have st: "rd_loc s' (LeftOf z) = rd_loc s (LeftOf z)" "rd_loc s' (RightOf z) = rd_loc s (RightOf z)"
    if "z \<in> set_tree t" for z
    using that by (simp_all add: *)
  then have "ptree s' c w" if "ptree s c w" "rd_loc s' c = rd_loc s c" "set_tree w \<subseteq> set_tree t" for c w
    using that by (induction w arbitrary: c) auto
  from this [of "LeftOf a" l] this [of "RightOf a" r] show "ptree s' q t"
    using p q st [of a] Node by auto
qed auto

lemma ptree_agrees:
  assumes "ptree s p t" "agrees X q s s'" "X \<inter> set_tree t = {}" "p \<noteq> q" "owner_of p \<inter> X = {}"
    "owner_of q \<inter> set_tree t = {}"
  shows "ptree s' p t"
  using assms(1)
proof (rule ptree_cong)
  show "rd_loc s' p = rd_loc s p"
    using assms(2,4,5) by (simp add: agrees_def)
  fix l assume l: "owner_of l \<inter> set_tree t \<noteq> {}"
  then have "l \<noteq> q" "owner_of l \<inter> X = {}"
    using assms(3,6) by (auto, (cases l; auto))
  then show "rd_loc s' l = rd_loc s l"
    using assms(2) by (simp add: agrees_def)
qed

lemma agrees_refl [simp]: "agrees X q s s"
  by (simp add: agrees_def)

lemma agrees_trans:
  "agrees X q s s' \<Longrightarrow> agrees Y r s' s'' \<Longrightarrow> X \<subseteq> Z \<Longrightarrow> Y \<subseteq> Z \<Longrightarrow> r = q \<or> owner_of r \<inter> Z \<noteq> {} \<Longrightarrow>
   agrees Z q s s''"
  unfolding agrees_def by (metis Int_commute Int_empty_right Int_left_commute inf.absorb_iff1)

text \<open>The pointer at which a path ends.\<close>

fun tloc :: "loc \<Rightarrow> bool list \<Rightarrow> tid tree \<Rightarrow> loc" where
  "tloc p [] t = p"
| "tloc p (b # bs) Leaf = p"
| "tloc p (b # bs) (Node l a r) = (if b then tloc (RightOf a) bs r else tloc (LeftOf a) bs l)"

definition inside :: "loc \<Rightarrow> tid tree \<Rightarrow> bool" where
  "inside q t \<longleftrightarrow> (\<exists>x \<in> set_tree t. q = LeftOf x \<or> q = RightOf x)"

lemma tloc_inside: "tsub bs t = Some u \<Longrightarrow> tloc p bs t = p \<or> inside (tloc p bs t) t"
proof (induction bs t arbitrary: p rule: tsub.induct)
  case (3 b bs l a r)
  then show ?case
    by (cases b) (fastforce simp: inside_def)+
qed auto

lemma inside_owner: "inside q t \<Longrightarrow> owner_of q \<subseteq> set_tree t \<and> owner_of q \<noteq> {}"
  by (auto simp: inside_def)

lemma tloc_not_sub:
  assumes "tsub bs t = Some u" "distinct (inorder t)" "owner_of p \<inter> set_tree t = {}"
  shows "owner_of (tloc p bs t) \<inter> set_tree u = {}"
  using assms
proof (induction bs t arbitrary: p rule: tsub.induct)
  case (3 b bs l a r)
  then show ?case
    using "3.IH" [of "RightOf a"] "3.IH" [of "LeftOf a"] by (cases b) auto
qed auto

lemma rd_tloc: "ptree s p t \<Longrightarrow> tsub bs t = Some u \<Longrightarrow> ptree s (tloc p bs t) u"
proof (induction bs t arbitrary: p rule: tsub.induct)
  case (3 b bs l a r)
  then show ?case by (cases b) auto
qed auto

text \<open>Replacing the subtree at the end of a path by overwriting the pointer to it.\<close>

lemma ptree_replace:
  assumes "ptree s p t" "tsub bs t = Some u" "distinct (inorder t)"
    and "owner_of p \<inter> set_tree t = {}" "owner_of p \<inter> X = {}"
    and "X \<inter> set_tree t \<subseteq> set_tree u"
    and "agrees X (tloc p bs t) s s'" "ptree s' (tloc p bs t) w"
  shows "ptree s' p (trep bs w t)"
  using assms
proof (induction bs t arbitrary: p rule: tsub.induct)
  case (3 b bs l a r)
  define q where "q = tloc p (b # bs) (Node l a r)"
  have u: "set_tree u \<subseteq> (if b then set_tree r else set_tree l)"
    using set_tsub [of bs "if b then r else l" u] "3.prems"(2) by (auto split: if_splits)
  have d: "a \<notin> set_tree l" "a \<notin> set_tree r" "set_tree l \<inter> set_tree r = {}"
    using "3.prems"(3) by auto
  have aX: "a \<notin> X"
    using "3.prems"(6) u d by (auto split: if_splits)
  have ag: "agrees X q s s'" and rd: "rd_loc s p = Some a"
    using "3.prems"(1,7) by (simp_all add: q_def)
  show ?case
  proof (cases b)
    case True
    then have q: "q = RightOf a \<or> inside q r"
      using tloc_inside [of bs r u "RightOf a"] "3.prems"(2) by (simp add: q_def)
    then have qp: "q \<noteq> p" and qo: "owner_of q \<subseteq> insert a (set_tree r)"
      using "3.prems"(4) by (auto dest!: inside_owner)
    have "ptree s' (LeftOf a) l"
      by (rule ptree_agrees [OF _ ag])
         (use "3.prems"(1,6) True u d aX q qo in \<open>auto simp: inside_def\<close>)
    moreover have "ptree s' (RightOf a) (trep bs w r)"
      using "3.IH" [of "RightOf a"] "3.prems" True d aX by auto
    moreover have "rd_loc s' p = Some a"
      using ag rd qp "3.prems"(5) by (simp add: agrees_def)
    ultimately show ?thesis using True by simp
  next
    case False
    then have q: "q = LeftOf a \<or> inside q l"
      using tloc_inside [of bs l u "LeftOf a"] "3.prems"(2) by (simp add: q_def)
    then have qp: "q \<noteq> p" and qo: "owner_of q \<subseteq> insert a (set_tree l)"
      using "3.prems"(4) by (auto dest!: inside_owner)
    have "ptree s' (RightOf a) r"
      by (rule ptree_agrees [OF _ ag])
         (use "3.prems"(1,6) False u d aX q qo in \<open>auto simp: inside_def\<close>)
    moreover have "ptree s' (LeftOf a) (trep bs w l)"
      using "3.IH" [of "LeftOf a"] "3.prems" False d aX by auto
    moreover have "rd_loc s' p = Some a"
      using ag rd qp "3.prems"(5) by (simp add: agrees_def)
    ultimately show ?thesis using False by simp
  qed
qed auto

section \<open>The loop of \<open>heap_insert\<close>\<close>

text \<open>
  What the loop leaves behind: the walked tree \<open>t'\<close> with the earlier elements moved up, the
  element \<open>x'\<close> still carried, the pointer where the walk ends. Whatever \<open>f\<close> then puts there,
  the result is \<open>tput f\<close>.
\<close>

definition pushed :: "st \<Rightarrow> loc \<Rightarrow> nat \<Rightarrow> bool list \<Rightarrow> tid \<Rightarrow> tid tree \<Rightarrow> tid tree \<Rightarrow> st \<Rightarrow> tid tree \<Rightarrow> tid \<Rightarrow> bool" where
  "pushed s p i bs x t u s' t' x' \<longleftrightarrow>
     (\<forall>f. tput f (\<lambda>a. due (thr s a)) bs x t = trep bs (f x' u) t') \<and> tsub bs t' = Some u \<and>
     ptree s' p t' \<and> numbered (hidx s') i t' \<and>
     mset_tree t' + {#x'#} = mset_tree t + {#x#} \<and>
     agrees (insert x (set_tree t)) p s s' \<and> unlink s' = unlink s \<and>
     (\<forall>a. a \<notin> insert x (set_tree t) \<longrightarrow> hidx s' a = hidx s a)"

lemma pushed_sets:
  assumes "pushed s p i bs x t u s' t' x'"
  shows "insert x' (set_tree t') = insert x (set_tree t)"
  using arg_cong [where f = set_mset] assms unfolding pushed_def
  by (metis set_mset_add_mset_insert add_mset_add_single set_mset_tree)

lemma insert_loop:
  assumes "ptree s p t" "distinct (inorder t)" "x \<notin> set_tree t"
    and "owner_of p \<inter> insert x (set_tree t) = {}"
    and "tsub (path k n) t = Some u" "numbered (hidx s) i t"
  shows "\<exists>s' t' x'. heap_insert_loop k n p i x s = Some (tloc p (path k n) t', idx i (path k n), x', s') \<and>
      pushed s p i (path k n) x t u s' t' x'"
  using assms
proof (induction k arbitrary: p i x s t)
  case 0
  then show ?case by (auto simp: pushed_def)
next
  case (Suc k)
  define b where "b = odd (n div 2 ^ k)"
  have pk: "path (Suc k) n = b # path k n" by (simp add: b_def)
  obtain l a r where t: "t = Node l a r"
    using Suc.prems(5) by (cases t) auto
  define w where "w = (if b then r else l)"
  have rd: "rd_loc s p = Some a" and pl: "ptree s (LeftOf a) l" "ptree s (RightOf a) r"
    using Suc.prems(1) t by auto
  have d: "a \<notin> set_tree l" "a \<notin> set_tree r" "set_tree l \<inter> set_tree r = {}" "distinct (inorder w)"
    using Suc.prems(2) t by (auto simp: w_def)
  have x: "x \<noteq> a" "x \<notin> set_tree l" "x \<notin> set_tree r"
    using Suc.prems(3) t by auto
  have u: "tsub (path k n) w = Some u"
    using Suc.prems(5) by (simp add: t w_def b_def)
  let ?lt = "due (thr s x) < due (thr s a)"
  define y where "y = (if ?lt then x else a)" \<comment> \<open>stays at this node\<close>
  define v where "v = (if ?lt then a else x)" \<comment> \<open>is carried on\<close>
  define s1 where "s1 = (if ?lt then upd_thr x (\<lambda>z. z\<lparr>heap_index := i\<rparr>)
      (wr_loc p (Some x) (upd_thr x (\<lambda>z. z\<lparr>left := rd_loc s (LeftOf a), right := rd_loc s (RightOf a)\<rparr>) s)) else s)"
  define p1 where "p1 = (if b then RightOf y else LeftOf y)"
  have po: "owner_of p \<inter> set_tree (Node l a r) = {}" "x \<notin> owner_of p"
    using Suc.prems(4) t by auto
  then have pne: "p \<noteq> LeftOf x" "p \<noteq> RightOf x" "p \<noteq> LeftOf a" "p \<noteq> RightOf a"
    by auto
  have rd1: "rd_loc s1 p = Some y" "rd_loc s1 (LeftOf y) = rd_loc s (LeftOf a)"
      "rd_loc s1 (RightOf y) = rd_loc s (RightOf a)"
    using rd pne by (auto simp: s1_def y_def)
  have ag1: "agrees {x} p s s1" and ul1: "unlink s1 = unlink s"
    by (auto simp: s1_def agrees_def)
  have fr: "rd_loc s1 c = rd_loc s c" if "owner_of c \<inter> (set_tree l \<union> set_tree r) \<noteq> {}" for c
  proof -
    have "c \<noteq> p" "owner_of c \<inter> {x} = {}"
      using that po x by (cases c; auto)+
    then show ?thesis using ag1 by (simp add: agrees_def)
  qed
  have pl1: "ptree s1 (LeftOf y) l" "ptree s1 (RightOf y) r"
    by (rule ptree_cong [OF pl(1) rd1(2)], rule fr, blast)
       (rule ptree_cong [OF pl(2) rd1(3)], rule fr, blast)
  have yv: "y \<noteq> v" "y \<notin> set_tree l" "y \<notin> set_tree r" "v \<notin> set_tree l" "v \<notin> set_tree r"
    "insert y {v} = {x, a}"
    using x d by (auto simp: y_def v_def)
  have wsub: "set_tree w \<subseteq> set_tree l \<union> set_tree r"
    by (auto simp: w_def)
  have h1: "hidx s1 z = (if z = x \<and> ?lt then i else hidx s z)" for z
    by (simp add: s1_def)
  have n: "hidx s a = i" "numbered (hidx s1) (2 * i) l" "numbered (hidx s1) (2 * i + 1) r"
    using Suc.prems(6) x unfolding t by (auto simp: h1 elim!: numbered_cong)
  have "ptree s1 p1 w" "owner_of p1 \<inter> insert v (set_tree w) = {}" "v \<notin> set_tree w"
      "numbered (hidx s1) (2 * i + of_bool b) w"
    using pl1 yv n by (auto simp: p1_def w_def)
  from Suc.IH [OF this(1) d(4) this(3,2) u this(4)]
  obtain s' w' x' where
    L: "heap_insert_loop k n p1 (2 * i + of_bool b) v s1 =
          Some (tloc p1 (path k n) w', idx (2 * i + of_bool b) (path k n), x', s')"
    and P: "pushed s1 p1 (2 * i + of_bool b) (path k n) v w u s' w' x'"
    by blast
  define t' where "t' = (if b then Node l y w' else Node w' y r)"
  have ag2: "agrees (insert v (set_tree w)) p1 s1 s'" and ul2: "unlink s' = unlink s1"
    using P by (simp_all add: pushed_def)
  have due1: "due (thr s1 z) = due (thr s z)" for z
    by (rule unlinkD [OF ul1])
  have "heap_insert_loop (Suc k) n p i x s = heap_insert_loop k n p1 (2 * i + of_bool b) v s1"
    using rd rd1(1) by (simp add: b_def [symmetric] p1_def s1_def v_def y_def Let_def)
  moreover have "tloc p (path (Suc k) n) t' = tloc p1 (path k n) w'"
    unfolding pk t'_def p1_def by simp
  ultimately have run: "heap_insert_loop (Suc k) n p i x s =
      Some (tloc p (path (Suc k) n) t', idx i (path (Suc k) n), x', s')"
    using L pk by simp
  have "tput f (\<lambda>a. due (thr s a)) (path (Suc k) n) x t = trep (path (Suc k) n) (f x' u) t'" for f
  proof -
    have "tput f (\<lambda>a. due (thr s a)) (path k n) v w = trep (path k n) (f x' u) w'"
      using P by (simp add: pushed_def due1)
    moreover have "tput f (\<lambda>a. due (thr s a)) (b # path k n) x (Node l a r) =
        (if b then Node l y (tput f (\<lambda>a. due (thr s a)) (path k n) v r)
         else Node (tput f (\<lambda>a. due (thr s a)) (path k n) v l) y r)"
      by (simp add: y_def v_def Let_def)
    ultimately show ?thesis
      unfolding pk t t'_def by (cases b) (simp_all add: w_def)
  qed
  moreover have "tsub (path (Suc k) n) t' = Some u"
    using P unfolding pushed_def pk t'_def by simp
  moreover have "ptree s' p t'"
  proof -
    have "rd_loc s' p = Some y"
    proof -
      have "p \<noteq> p1" "owner_of p \<inter> insert v (set_tree w) = {}"
        using po wsub pne by (auto simp: p1_def y_def v_def)
      then show ?thesis
        using ag2 rd1(1) by (simp add: agrees_def)
    qed
    moreover have "ptree s' (if b then LeftOf y else RightOf y) (if b then l else r)"
      by (rule ptree_agrees [OF _ ag2]) (use pl1 yv d in \<open>auto simp: p1_def w_def\<close>)
    moreover have "ptree s' p1 w'"
      using P by (simp add: pushed_def)
    ultimately show ?thesis
      by (auto simp: t'_def p1_def split: if_splits)
  qed
  moreover have "numbered (hidx s') i t'"
  proof -
    have h2: "hidx s' z = hidx s1 z" if "z \<notin> insert v (set_tree w)" for z
      using P that by (simp add: pushed_def)
    have "hidx s' y = i"
    proof -
      have "y \<notin> insert v (set_tree w)"
        using yv wsub by blast
      then show ?thesis
        using h2 [of y] n(1) by (simp add: h1 y_def)
    qed
    moreover have "numbered (hidx s') (2 * i) l" if b
      using n(2) by (rule numbered_cong) (use that yv d in \<open>auto intro!: h2 simp: w_def\<close>)
    moreover have "numbered (hidx s') (2 * i + 1) r" if "\<not> b"
      using n(3) by (rule numbered_cong) (use that yv d in \<open>auto intro!: h2 simp: w_def\<close>)
    moreover have "numbered (hidx s') (2 * i + of_bool b) w'"
      using P by (simp add: pushed_def)
    ultimately show ?thesis by (cases b) (auto simp: t'_def)
  qed
  moreover have "mset_tree t' + {#x'#} = mset_tree t + {#x#}"
    using P by (cases b) (auto simp: pushed_def t'_def t w_def y_def v_def add_mset_commute)
  moreover have "agrees (insert x (set_tree t)) p s s'"
    by (rule agrees_trans [OF ag1 ag2]) (auto simp: t w_def v_def p1_def y_def)
  moreover have "unlink s' = unlink s"
    using ul1 ul2 by simp
  moreover have "\<forall>z. z \<notin> insert x (set_tree t) \<longrightarrow> hidx s' z = hidx s z"
    using P by (auto simp: pushed_def h1 t w_def v_def)
  ultimately have "pushed s p i (path (Suc k) n) x t u s' t' x'"
    by (simp add: pushed_def)
  with run show ?case by blast
qed

section \<open>The sinking loop of \<open>heap_delete\<close>\<close>

definition sunk :: "st \<Rightarrow> loc \<Rightarrow> nat \<Rightarrow> tid tree \<Rightarrow> st \<Rightarrow> bool" where
  "sunk s p i t s' \<longleftrightarrow>
     ptree s' p (sink (\<lambda>a. due (thr s a)) t) \<and>
     numbered (hidx s') i (sink (\<lambda>a. due (thr s a)) t) \<and>
     agrees (set_tree t) p s s' \<and> unlink s' = unlink s \<and>
     (\<forall>a. a \<notin> set_tree t \<longrightarrow> hidx s' a = hidx s a)"

text \<open>One turn of the loop: \<open>y\<close>, the child on side \<open>b\<close>, changes places with its parent \<open>t\<close>.\<close>

definition sink_step :: "bool \<Rightarrow> tid \<Rightarrow> tid \<Rightarrow> loc \<Rightarrow> st \<Rightarrow> st" where
  "sink_step b t y p s =
     (let s1 = wr_loc p (Some y) s;
          s2 = (if b then upd_thr y (\<lambda>x. x\<lparr>left := rd_loc s1 (LeftOf t), right := Some t\<rparr>) s1
                else upd_thr y (\<lambda>x. x\<lparr>left := Some t, right := rd_loc s1 (RightOf t)\<rparr>) s1);
          s3 = upd_thr t (\<lambda>x. x\<lparr>left := rd_loc s (LeftOf y), right := rd_loc s (RightOf y)\<rparr>) s2;
          s4 = upd_thr t (\<lambda>x. x\<lparr>heap_index := hidx s3 y\<rparr>) s3
      in upd_thr y (\<lambda>x. x\<lparr>heap_index := hidx s3 t\<rparr>) s4)"

lemma heap_sink_simps:
  "rd_loc s (LeftOf t) = None \<Longrightarrow> heap_sink t p s = Some s"
  "rd_loc s (LeftOf t) = Some y \<Longrightarrow> rd_loc s (RightOf t) = None \<Longrightarrow>
   heap_sink t p s = (if due (thr s t) > due (thr s y) then heap_sink t (LeftOf y) (sink_step False t y p s)
                      else Some s)"
  "rd_loc s (LeftOf t) = Some y \<Longrightarrow> rd_loc s (RightOf t) = Some z \<Longrightarrow> y \<noteq> z \<Longrightarrow>
   heap_sink t p s =
     (if due (thr s y) < due (thr s z)
      then (if due (thr s t) > due (thr s y) then heap_sink t (LeftOf y) (sink_step False t y p s) else Some s)
      else (if due (thr s t) > due (thr s z) then heap_sink t (RightOf z) (sink_step True t z p s) else Some s))"
  by (subst heap_sink.simps, simp add: sink_step_def Let_def hidx_def)+

lemma rd_sink_step:
  assumes "p \<noteq> LeftOf t" "p \<noteq> RightOf t" "t \<noteq> y"
  shows "rd_loc (sink_step b t y p s) c =
    (if c = LeftOf t then rd_loc s (LeftOf y) else if c = RightOf t then rd_loc s (RightOf y)
     else if c = LeftOf y then (if b then rd_loc s (LeftOf t) else Some t)
     else if c = RightOf y then (if b then Some t else rd_loc s (RightOf t))
     else if c = p then Some y else rd_loc s c)"
  using assms by (cases b) (simp_all add: sink_step_def Let_def)

lemma sink_step_facts:
  assumes "owner_of p \<inter> {t, y} = {}" "t \<noteq> y"
  shows "rd_loc (sink_step b t y p s) p = Some y"
    "rd_loc (sink_step b t y p s) (LeftOf t) = rd_loc s (LeftOf y)"
    "rd_loc (sink_step b t y p s) (RightOf t) = rd_loc s (RightOf y)"
    "rd_loc (sink_step b t y p s) (LeftOf y) = (if b then rd_loc s (LeftOf t) else Some t)"
    "rd_loc (sink_step b t y p s) (RightOf y) = (if b then Some t else rd_loc s (RightOf t))"
    "agrees {t, y} p s (sink_step b t y p s)"
    "unlink (sink_step b t y p s) = unlink s"
    "hidx (sink_step b t y p s) a = (if a = t then hidx s y else if a = y then hidx s t else hidx s a)"
proof -
  have p: "p \<noteq> LeftOf t" "p \<noteq> RightOf t" "p \<noteq> LeftOf y" "p \<noteq> RightOf y"
    using assms(1) by auto
  note r = rd_sink_step [OF p(1,2) assms(2)]
  show "rd_loc (sink_step b t y p s) p = Some y"
    "rd_loc (sink_step b t y p s) (LeftOf t) = rd_loc s (LeftOf y)"
    "rd_loc (sink_step b t y p s) (RightOf t) = rd_loc s (RightOf y)"
    "rd_loc (sink_step b t y p s) (LeftOf y) = (if b then rd_loc s (LeftOf t) else Some t)"
    "rd_loc (sink_step b t y p s) (RightOf y) = (if b then Some t else rd_loc s (RightOf t))"
    using assms(2) p by (simp_all add: r)
  show "agrees {t, y} p s (sink_step b t y p s)"
    unfolding agrees_def r by auto
  show "unlink (sink_step b t y p s) = unlink s"
    by (cases b) (simp_all add: sink_step_def Let_def)
  show "hidx (sink_step b t y p s) a = (if a = t then hidx s y else if a = y then hidx s t else hidx s a)"
    using assms(2) by (cases b) (simp_all add: sink_step_def Let_def)
qed

text \<open>
  The induction step, for either side: after the turn, the subtree at the new place of \<open>t\<close>
  is sunk in turn, the other subtree and the rest of the store stay.
\<close>

lemma sink_turn:
  assumes pt: "rd_loc s p = Some t" "ptree s (LeftOf t) l" "ptree s (RightOf t) r"
    and d: "distinct (inorder (Node l t r))" and po: "owner_of p \<inter> set_tree (Node l t r) = {}"
    and nb: "numbered (hidx s) i (Node l t r)"
    and sub: "(if b then r else l) = Node cl y cr"
    and sk: "sink (\<lambda>a. due (thr s a)) (Node l t r) =
      (if b then Node l y (sink (\<lambda>a. due (thr s a)) (Node cl t cr))
       else Node (sink (\<lambda>a. due (thr s a)) (Node cl t cr)) y r)"
    and IH: "\<And>s p i. rd_loc s p = Some t \<Longrightarrow> ptree s p (Node cl t cr) \<Longrightarrow>
      distinct (inorder (Node cl t cr)) \<Longrightarrow> owner_of p \<inter> set_tree (Node cl t cr) = {} \<Longrightarrow>
      numbered (hidx s) i (Node cl t cr) \<Longrightarrow> \<forall>a. due (thr s a) = D a \<Longrightarrow>
      \<exists>s'. heap_sink t p s = Some s' \<and> sunk s p i (Node cl t cr) s'"
    and D: "\<forall>a. due (thr s a) = D a"
    and run: "heap_sink t p s = heap_sink t (if b then RightOf y else LeftOf y) (sink_step b t y p s)"
  shows "\<exists>s'. heap_sink t p s = Some s' \<and> sunk s p i (Node l t r) s'"
proof -
  define s1 where "s1 = sink_step b t y p s"
  define p1 where "p1 = (if b then RightOf y else LeftOf y)"
  define w where "w = Node cl t cr"
  have set: "set_tree (Node l t r) = insert t (insert y (set_tree cl \<union> set_tree cr \<union> set_tree (if b then l else r)))"
    using sub by (cases b) auto
  have ty: "t \<noteq> y" and dist: "t \<notin> set_tree cl" "t \<notin> set_tree cr" "y \<notin> set_tree cl" "y \<notin> set_tree cr"
    "distinct (inorder w)" "t \<notin> set_tree (if b then l else r)" "y \<notin> set_tree (if b then l else r)"
    "set_tree (if b then l else r) \<inter> (set_tree cl \<union> set_tree cr) = {}"
    using d sub by (cases b; auto simp: w_def)+
  have po': "owner_of p \<inter> {t, y} = {}"
    using po set by auto
  note F = sink_step_facts [OF po' ty, where b = b and s = s, folded s1_def]
  have fr: "rd_loc s1 c = rd_loc s c" if "owner_of c \<inter> A \<noteq> {}" "A \<inter> {t, y} = {}" "A \<subseteq> set_tree (Node l t r)" for c A
  proof -
    have "c \<noteq> p" using that po by blast
    moreover have "owner_of c \<inter> {t, y} = {}" using that by (cases c) auto
    ultimately show ?thesis using F(6) by (simp add: agrees_def)
  qed
  have ch: "ptree s (LeftOf y) cl" "ptree s (RightOf y) cr"
    using pt sub by (cases b; auto)+
  have c1: "ptree s1 (LeftOf t) cl" "ptree s1 (RightOf t) cr"
  proof -
    have A: "set_tree cl \<inter> {t, y} = {}" "set_tree cl \<subseteq> set_tree (Node l t r)"
      "set_tree cr \<inter> {t, y} = {}" "set_tree cr \<subseteq> set_tree (Node l t r)"
      using dist unfolding set by auto
    show "ptree s1 (LeftOf t) cl" "ptree s1 (RightOf t) cr"
      by (rule ptree_cong [OF ch(1) F(2)], erule fr [OF _ A(1,2)])
         (rule ptree_cong [OF ch(2) F(3)], erule fr [OF _ A(3,4)])
  qed
  have o1: "ptree s1 (if b then LeftOf y else RightOf y) (if b then l else r)"
  proof (rule ptree_cong [of s "if b then LeftOf t else RightOf t"])
    show "ptree s (if b then LeftOf t else RightOf t) (if b then l else r)"
      using pt by simp
    show "rd_loc s1 (if b then LeftOf y else RightOf y) = rd_loc s (if b then LeftOf t else RightOf t)"
      using F(4,5) by simp
    show "rd_loc s1 c = rd_loc s c" if "owner_of c \<inter> set_tree (if b then l else r) \<noteq> {}" for c
      using that by (rule fr) (use dist in \<open>auto simp: set\<close>)
  qed
  have h1: "hidx s1 a = (if a = t then hidx s y else if a = y then hidx s t else hidx s a)" for a
    by (rule F(8))
  have n1: "numbered (hidx s1) (2 * i + of_bool b) w" "hidx s1 y = i"
    "numbered (hidx s1) (if b then 2 * i else 2 * i + 1) (if b then l else r)"
    using nb sub dist ty by (cases b; auto simp: w_def h1 intro: numbered_cong)+
  have D1: "\<forall>a. due (thr s1 a) = D a"
    using D unlinkD(1) [OF F(7)] by simp
  have rp1: "rd_loc s1 p1 = Some t"
    using F(4,5) by (simp add: p1_def)
  obtain s' where L: "heap_sink t p1 s1 = Some s'" and S: "sunk s1 p1 (2 * i + of_bool b) w s'"
  proof -
    have "ptree s1 p1 w" "owner_of p1 \<inter> set_tree w = {}"
      using c1 rp1 dist ty by (auto simp: w_def p1_def)
    then show thesis
      using IH [OF rp1 _ _ _ _ D1, of "2 * i + of_bool b", folded w_def] dist(5) n1(1) that by blast
  qed
  have dd: "(\<lambda>a. due (thr s1 a)) = (\<lambda>a. due (thr s a))"
    using D D1 by auto
  have ag: "agrees (set_tree w) p1 s1 s'" and h2: "a \<notin> set_tree w \<Longrightarrow> hidx s' a = hidx s1 a" for a
    using S by (simp_all add: sunk_def)
  have "rd_loc s' p = Some y"
  proof -
    have "p \<noteq> p1" "owner_of p \<inter> set_tree w = {}"
      using po' po unfolding set by (auto simp: w_def p1_def)
    then show ?thesis
      using ag F(1) by (simp add: agrees_def)
  qed
  moreover have "ptree s' (if b then LeftOf y else RightOf y) (if b then l else r)"
    by (rule ptree_agrees [OF o1 ag]) (use dist ty in \<open>auto simp: p1_def w_def\<close>)
  moreover have "numbered (hidx s') (if b then 2 * i else 2 * i + 1) (if b then l else r)"
    by (rule numbered_cong [OF n1(3)]) (use dist in \<open>auto intro!: h2 simp: w_def split: if_splits\<close>)
  moreover have "hidx s' y = i"
    using h2 [of y] n1(2) dist ty by (simp add: w_def)
  moreover have "agrees (set_tree (Node l t r)) p s s'"
    by (rule agrees_trans [OF F(6) ag]) (use set in \<open>auto simp: w_def p1_def split: if_splits\<close>)
  moreover have "\<forall>a. a \<notin> set_tree (Node l t r) \<longrightarrow> hidx s' a = hidx s a"
    using h2 h1 set by (auto simp: w_def)
  ultimately have "sunk s p i (Node l t r) s'"
    using S F(7) unfolding sunk_def sk dd w_def p1_def by (cases b) auto
  then show ?thesis
    using L run by (auto simp: s1_def p1_def)
qed

lemma sink_code:
  assumes "rd_loc s p = Some t" "ptree s p (Node l t r)" "distinct (inorder (Node l t r))"
    and "owner_of p \<inter> set_tree (Node l t r) = {}" "numbered (hidx s) i (Node l t r)"
    and "\<forall>a. due (thr s a) = D a"
  shows "\<exists>s'. heap_sink t p s = Some s' \<and> sunk s p i (Node l t r) s'"
  using assms
proof (induction D "Node l t r" arbitrary: l t r s p i rule: sink.induct)
  case (2 d x r)
  then show ?case by (simp add: heap_sink_simps sunk_def)
next
  case (3 d ll y lr x)
  have D: "(\<lambda>a. due (thr s a)) = d"
    using 3(7) by auto
  have rd: "rd_loc s (LeftOf x) = Some y" "rd_loc s (RightOf x) = None"
    and pt: "ptree s (LeftOf x) (Node ll y lr)" "ptree s (RightOf x) Leaf"
    using 3(3) by simp_all
  show ?case
  proof (cases "d x > d y")
    case True
    show ?thesis
      by (rule sink_turn [where b = False and D = d and cl = ll and y = y and cr = lr, OF 3(2) pt 3(4,5,6)])
         (simp, simp add: True D, rule 3(1) [OF True], assumption+, rule 3(7),
          use True 3(7) in \<open>simp add: heap_sink_simps(2) [OF rd]\<close>)
  next
    case False
    then show ?thesis
      using 3 by (simp add: heap_sink_simps(2) [OF rd] sunk_def D)
  qed
next
  case (4 d ll y lr x rl z rr)
  have D: "(\<lambda>a. due (thr s a)) = d"
    using 4(8) by auto
  have rd: "rd_loc s (LeftOf x) = Some y" "rd_loc s (RightOf x) = Some z"
    and pt: "ptree s (LeftOf x) (Node ll y lr)" "ptree s (RightOf x) (Node rl z rr)"
    and yz: "y \<noteq> z"
    using 4(4,5) by auto
  consider "d y < d z" "d x > d y" | "\<not> d y < d z" "d x > d z"
    | "\<not> (if d y < d z then d x > d y else d x > d z)" by (cases "d y < d z") auto
  then show ?case
  proof cases
    case 1
    show ?thesis
      by (rule sink_turn [where b = False and D = d and cl = ll and y = y and cr = lr, OF 4(3) pt 4(5,6,7)])
         (simp, simp add: 1 D, rule 4(1) [OF 1], assumption+, rule 4(8),
          use 1 4(8) in \<open>simp add: heap_sink_simps(3) [OF rd yz]\<close>)
  next
    case 2
    show ?thesis
      by (rule sink_turn [where b = True and D = d and cl = rl and y = z and cr = rr, OF 4(3) pt 4(5,6,7)])
         (simp, simp add: 2 D, rule 4(2) [OF 2], assumption+, rule 4(8),
          use 2 4(8) in \<open>simp add: heap_sink_simps(3) [OF rd yz]\<close>)
  next
    case 3
    then show ?thesis
      using 4 by (auto simp: heap_sink_simps(3) [OF rd yz] sunk_def D split: if_splits)
  qed
qed

section \<open>The heap invariant and the two operations\<close>

definition sleepq_tree :: "st \<Rightarrow> tid tree \<Rightarrow> bool" where
  "sleepq_tree s t \<longleftrightarrow> ptree s Root t \<and> distinct (inorder t) \<and> complete (sleepq_size s) t \<and>
     hp (\<lambda>a. due (thr s a)) t \<and> numbered (hidx s) 1 t"

lemma tloc_outside: "tsub bs t = Some u \<Longrightarrow> x \<notin> set_tree t \<Longrightarrow> owner_of (tloc Root bs t) \<inter> {x} = {}"
  using tloc_inside [of bs t u Root] by (auto simp: inside_def)

text \<open>The state in which \<open>heap_insert\<close> leaves the store, for the walk \<open>bs\<close> it made.\<close>

definition placed :: "loc \<Rightarrow> nat \<Rightarrow> tid \<Rightarrow> st \<Rightarrow> st" where
  "placed q i x s = upd_thr x (\<lambda>z. z\<lparr>left := None, right := None\<rparr>)
     (wr_loc q (Some x) (upd_thr x (\<lambda>z. z\<lparr>heap_index := i\<rparr>) s))"

lemma placed_facts:
  assumes "owner_of q \<inter> {x} = {}"
  shows "ptree (placed q i x s) q (Node Leaf x Leaf)" "rd_loc (placed q i x s) q = Some x"
    "agrees {x} q s (placed q i x s)"
    "unlink (placed q i x s) = unlink s" "hidx (placed q i x s) a = (if a = x then i else hidx s a)"
proof -
  have "q \<noteq> LeftOf x" "q \<noteq> RightOf x" using assms by auto
  then show "ptree (placed q i x s) q (Node Leaf x Leaf)" "rd_loc (placed q i x s) q = Some x"
    by (simp_all add: placed_def)
  show "agrees {x} q s (placed q i x s)"
    by (auto simp: placed_def agrees_def)
qed (simp_all add: placed_def)

lemma heap_insert_run:
  assumes "ptree s Root t" "distinct (inorder t)" "x \<notin> set_tree t"
    and "tsub (path_to (hidx s x)) t = Some u" "numbered (hidx s) 1 t" "hidx s x > 0"
  shows "\<exists>s' t' x'. pushed s Root 1 (path_to (hidx s x)) x t u s' t' x' \<and>
    heap_insert x s = Some (tloc Root (path_to (hidx s x)) t',
      placed (tloc Root (path_to (hidx s x)) t') (hidx s x) x' s')"
proof -
  obtain s' t' x' where
    "heap_insert_loop (num_bits (hidx s x) - 1) (hidx s x) Root 1 x s =
       Some (tloc Root (path_to (hidx s x)) t', idx 1 (path_to (hidx s x)), x', s')"
    "pushed s Root 1 (path_to (hidx s x)) x t u s' t' x'"
    using insert_loop [OF assms(1-3) _ assms(4,5)] by auto
  then show ?thesis
    using idx_path_to [OF assms(6)]
    by (auto simp: heap_insert_def placed_def hidx_def [symmetric] Let_def)
qed

text \<open>The invariant of the heap after a walk whose end is overwritten by the subtree \<open>w\<close>.\<close>

lemma sleepq_tree_after:
  assumes P: "pushed s Root 1 bs x t u s1 t1 x1" and t: "distinct (inorder t)" "x \<notin> set_tree t"
    and q: "q = tloc Root bs t1"
    and X: "X \<inter> set_tree t1 \<subseteq> set_tree u" "agrees X q s1 s2" "ptree s2 q w"
    and n: "numbered (hidx s2) (idx 1 bs) w" "\<And>a. a \<notin> X \<Longrightarrow> hidx s2 a = hidx s1 a"
  shows "ptree s2 Root (trep bs w t1)" "numbered (hidx s2) 1 (trep bs w t1)"
proof -
  have "mset_tree t + {#x#} = mset_tree t1 + {#x1#}" and u: "tsub bs t1 = Some u"
    and p: "ptree s1 Root t1" "numbered (hidx s1) 1 t1"
    using P by (simp_all add: pushed_def)
  from distinct_swap(1) [OF this(1) t] have d: "distinct (inorder t1)" .
  show "ptree s2 Root (trep bs w t1)"
    by (rule ptree_replace [OF p(1) u d _ _ X(1)]) (use q X in auto)
  show "numbered (hidx s2) 1 (trep bs w t1)"
    by (rule numbered_trep_upd [OF u d p(2) n(1)]) (use n(2) X(1) in blast)
qed

lemma inorder_mset_distinct:
  "mset_tree t = mset_tree t' \<Longrightarrow> distinct (inorder t) \<longleftrightarrow> distinct (inorder t')"
  using mset_eq_imp_distinct_iff [of "inorder t" "inorder t'"] by simp

lemma inorder_add_distinct:
  "mset_tree t = add_mset a (mset_tree t') \<Longrightarrow>
   distinct (inorder t) \<longleftrightarrow> distinct (inorder t') \<and> a \<notin> set_tree t'"
  using mset_eq_imp_distinct_iff [of "inorder t" "a # inorder t'"] by auto

lemma hp_cong: "hp d t \<Longrightarrow> (\<And>a. a \<in> set_tree t \<Longrightarrow> d' a = d a) \<Longrightarrow> hp d' t"
  by (induction d t rule: hp.induct) auto

theorem add_sleep_q_tree:
  assumes t: "sleepq_tree s t" and x: "x \<notin> set_tree t"
  shows "\<exists>s'. st_add_sleep_q x timeout s = Some s' \<and>
    sleepq_tree s' (t_insert (\<lambda>a. due (thr s' a)) (sleepq_size s) x t) \<and>
    unlink s' = unlink ((upd_thr x (\<lambda>z. z\<lparr>due := last_clock s + timeout,
      flags := set_flag (flags z) FL_ON_SLEEPQ\<rparr>) s)\<lparr>sleepq_size := Suc (sleepq_size s)\<rparr>)"
proof -
  define n where "n = sleepq_size s"
  define s3 where "s3 = upd_thr x (\<lambda>z. z\<lparr>heap_index := Suc n\<rparr>)
    ((upd_thr x (\<lambda>z. z\<lparr>due := last_clock s + timeout, flags := set_flag (flags z) FL_ON_SLEEPQ\<rparr>) s)
       \<lparr>sleepq_size := Suc n\<rparr>)"
  have rd: "rd_loc s3 c = rd_loc s c" for c
    by (simp add: s3_def)
  have hx: "hidx s3 a = (if a = x then Suc n else hidx s a)" for a
    by (simp add: s3_def) (simp add: hidx_def)
  have s: "ptree s Root t" "distinct (inorder t)" "complete n t" "hp (\<lambda>a. due (thr s a)) t"
      "numbered (hidx s) 1 t"
    using t by (simp_all add: sleepq_tree_def n_def)
  have pt: "ptree s3 Root t"
    by (rule ptree_cong [OF s(1)]) (simp_all add: rd)
  have nb: "numbered (hidx s3) 1 t"
    by (rule numbered_cong [OF s(5)]) (use x in \<open>auto simp: hx\<close>)
  have h: "hp (\<lambda>a. due (thr s3 a)) t"
    by (rule hp_cong [OF s(4)]) (use x in \<open>auto simp: s3_def\<close>)
  have hxx: "hidx s3 x = Suc n" by (simp add: hx)
  have u: "tsub (path_to (Suc n)) t = Some Leaf"
    by (rule complete_free [OF s(3)])
  obtain s1 t1 x1 where P: "pushed s3 Root 1 (path_to (Suc n)) x t Leaf s1 t1 x1"
    and R: "heap_insert x s3 = Some (tloc Root (path_to (Suc n)) t1,
          placed (tloc Root (path_to (Suc n)) t1) (Suc n) x1 s1)"
    using heap_insert_run [OF pt s(2) x, unfolded hxx, OF u nb] by auto
  define q where "q = tloc Root (path_to (Suc n)) t1"
  define s' where "s' = placed q (Suc n) x1 s1"
  define bs where "bs = path_to (Suc n)"
  have m1: "mset_tree t + {#x#} = mset_tree t1 + {#x1#}" and u1: "tsub bs t1 = Some Leaf"
    and ul1: "unlink s1 = unlink s3"
    and tp: "tput f (\<lambda>a. due (thr s3 a)) bs x t = trep bs (f x1 Leaf) t1" for f
    using P by (simp_all add: pushed_def bs_def)
  note x1 = distinct_swap [OF m1 s(2) x]
  have qo: "owner_of q \<inter> {x1} = {}"
    using tloc_outside [OF u1 x1(2)] by (simp add: q_def bs_def)
  note F = placed_facts [OF qo, where i = "Suc n" and s = s1, folded s'_def]
  have ul: "unlink s' = unlink s3" using F(4) ul1 by simp
  have ti: "t_insert (\<lambda>a. due (thr s' a)) n x t = trep bs (Node Leaf x1 Leaf) t1"
    unfolding t_insert_def bs_def [symmetric] tp unlinkD(1) [OF ul] by (simp add: leaf_at_def)
  have A: "ptree s' Root (trep bs (Node Leaf x1 Leaf) t1)"
    "numbered (hidx s') 1 (trep bs (Node Leaf x1 Leaf) t1)"
    using x1(2) idx_path_to [of "Suc n"]
    by (intro sleepq_tree_after [OF P [folded bs_def] s(2) x _ _ F(3,1)];
        simp add: q_def bs_def F(5))+
  have h': "hp (\<lambda>a. due (thr s' a)) t"
    using h by (simp add: unlinkD(1) [OF ul])
  note C = t_insert_correct [OF s(3) h', of x]
  have "sleepq_tree s' (t_insert (\<lambda>a. due (thr s' a)) n x t)"
    unfolding sleepq_tree_def
    using A C s(2) x inorder_add_distinct [OF C(3)] unlinkD(4) [OF ul]
    by (simp add: ti s3_def)
  moreover have "st_add_sleep_q x timeout s = Some s'"
    using R by (simp add: st_add_sleep_q_def Let_def s3_def n_def s'_def q_def)
  moreover have "unlink s3 = unlink ((upd_thr x (\<lambda>z. z\<lparr>due := last_clock s + timeout,
      flags := set_flag (flags z) FL_ON_SLEEPQ\<rparr>) s)\<lparr>sleepq_size := Suc n\<rparr>)"
    by (simp add: s3_def)
  ultimately show ?thesis
    using ul by (auto simp: n_def)
qed

section \<open>Deletion\<close>

lemma heap_last_run:
  "ptree s p t \<Longrightarrow> tsub (path k n) t = Some u \<Longrightarrow> heap_last_loop k n p s = Some (tloc p (path k n) t)"
proof (induction k arbitrary: p t)
  case (Suc k)
  then obtain l a r where "t = Node l a r" by (cases t) auto
  with Suc show ?case by auto
qed simp

text \<open>Deleting an inner element: what happens after the last leaf has been cut off.\<close>

lemma delete_inner:
  assumes pt: "ptree s Root t" and d: "distinct (inorder t)" and x: "x \<notin> set_tree t"
    and hx: "hidx s x = k" "k > 0" and u: "tsub (path_to k) t = Some (Node l a r)"
    and nb: "numbered (hidx s) 1 t"
  shows "\<exists>s4 p' s6 t'. heap_insert x s = Some (p', s4) \<and> rd_loc s4 p' = Some t' \<and>
      heap_sink t' p' (upd_thr t' (\<lambda>z. z\<lparr>left := rd_loc s4 (LeftOf a), right := rd_loc s4 (RightOf a)\<rparr>) s4) = Some s6 \<and>
      ptree s6 Root (tput (sink_at (\<lambda>b. due (thr s b))) (\<lambda>b. due (thr s b)) (path_to k) x t) \<and>
      numbered (hidx s6) 1 (tput (sink_at (\<lambda>b. due (thr s b))) (\<lambda>b. due (thr s b)) (path_to k) x t) \<and>
      unlink s6 = unlink s"
proof -
  define bs where "bs = path_to k"
  let ?d = "\<lambda>b. due (thr s b)"
  obtain s1 t1 x1 where P: "pushed s Root 1 bs x t (Node l a r) s1 t1 x1"
    and R: "heap_insert x s = Some (tloc Root bs t1, placed (tloc Root bs t1) k x1 s1)"
    using heap_insert_run [OF pt d x, unfolded hx(1), OF u nb hx(2)] by (auto simp: bs_def)
  define q where "q = tloc Root bs t1"
  define s4 where "s4 = placed q k x1 s1"
  define s5 where "s5 = upd_thr x1 (\<lambda>z. z\<lparr>left := rd_loc s4 (LeftOf a), right := rd_loc s4 (RightOf a)\<rparr>) s4"
  have m1: "mset_tree t + {#x#} = mset_tree t1 + {#x1#}" and u1: "tsub bs t1 = Some (Node l a r)"
    and p1: "ptree s1 Root t1" and n1: "numbered (hidx s1) 1 t1" and ul1: "unlink s1 = unlink s"
    and tp: "tput f ?d bs x t = trep bs (f x1 (Node l a r)) t1" for f
    using P by (simp_all add: pushed_def)
  note x1 = distinct_swap [OF m1 d x]
  have dn: "distinct (inorder (Node l a r))" and sub: "set_tree (Node l a r) \<subseteq> set_tree t1"
    using distinct_tsub [OF u1 x1(1)] set_tsub [OF u1] .
  then have xa: "x1 \<noteq> a" "x1 \<notin> set_tree l" "x1 \<notin> set_tree r"
    using x1(2) by auto
  have qo: "owner_of q \<inter> {x1} = {}"
    using tloc_outside [OF u1 x1(2)] by (simp add: q_def)
  have qn: "owner_of q \<inter> set_tree (Node l a r) = {}"
    unfolding q_def by (rule tloc_not_sub [OF u1 x1(1)]) simp
  note F = placed_facts [OF qo, where i = k and s = s1, folded s4_def]
  have pl: "ptree s1 (LeftOf a) l" "ptree s1 (RightOf a) r"
    using rd_tloc [OF p1 u1] by simp_all
  have fr4: "rd_loc s4 c = rd_loc s1 c" if "owner_of c \<inter> set_tree (Node l a r) \<noteq> {}" for c
  proof -
    have "c \<noteq> q" using that qn by blast
    moreover have "owner_of c \<inter> {x1} = {}" using that xa by (cases c) auto
    ultimately show ?thesis using F(3) by (simp add: agrees_def)
  qed
  have qne: "q \<noteq> LeftOf x1" "q \<noteq> RightOf x1" using qo by auto
  have rd5: "rd_loc s5 c = (if c = LeftOf x1 then rd_loc s1 (LeftOf a) else
      if c = RightOf x1 then rd_loc s1 (RightOf a) else rd_loc s4 c)" for c
    using fr4 [of "LeftOf a"] fr4 [of "RightOf a"] by (simp add: s5_def)
  have fr5: "rd_loc s5 c = rd_loc s1 c" if "owner_of c \<inter> (set_tree l \<union> set_tree r) \<noteq> {}" for c
    using that xa fr4 [of c] by (auto simp: rd5)
  have p5: "ptree s5 q (Node l x1 r)"
  proof -
    have "ptree s5 (LeftOf x1) l"
    proof (rule ptree_cong [OF pl(1)])
      show "rd_loc s5 (LeftOf x1) = rd_loc s1 (LeftOf a)" by (simp add: rd5)
    qed (rule fr5, blast)
    moreover have "ptree s5 (RightOf x1) r"
    proof (rule ptree_cong [OF pl(2)])
      show "rd_loc s5 (RightOf x1) = rd_loc s1 (RightOf a)" by (simp add: rd5)
    qed (rule fr5, blast)
    ultimately show ?thesis
      using F(2) qne by (simp add: rd5)
  qed
  have ul5: "unlink s5 = unlink s"
    using ul1 F(4) by (simp add: s5_def)
  have h5: "hidx s5 b = (if b = x1 then k else hidx s1 b)" for b
    using F(5) by (simp add: s5_def)
  have n5: "numbered (hidx s5) k (Node l x1 r)"
    using numbered_tsub [OF u1 n1] idx_path_to [OF hx(2)] xa
    by (auto simp: bs_def h5 elim!: numbered_cong)
  have "rd_loc s5 q = Some x1" "distinct (inorder (Node l x1 r))"
      "owner_of q \<inter> set_tree (Node l x1 r) = {}"
    using p5 dn xa qo qn by auto
  from sink_code [OF this(1) p5 this(2,3) n5, of "\<lambda>b. due (thr s5 b)"]
  obtain s6 where S: "heap_sink x1 q s5 = Some s6" "sunk s5 q k (Node l x1 r) s6"
    by auto
  have ul6: "unlink s6 = unlink s" and ag6: "agrees (set_tree (Node l x1 r)) q s5 s6"
    and p6: "ptree s6 q (sink ?d (Node l x1 r))" "numbered (hidx s6) k (sink ?d (Node l x1 r))"
    and h6: "\<And>b. b \<notin> set_tree (Node l x1 r) \<Longrightarrow> hidx s6 b = hidx s5 b"
    using S(2) ul5 unlinkD(1) [OF ul5] by (simp_all add: sunk_def)
  have "agrees {x1} q s1 s5"
    using F(3) by (auto simp: agrees_def rd5)
  from agrees_trans [OF this ag6, of "set_tree (Node l x1 r)"]
  have ag: "agrees (set_tree (Node l x1 r)) q s1 s6" by simp
  have A: "ptree s6 Root (trep bs (sink ?d (Node l x1 r)) t1)"
    "numbered (hidx s6) 1 (trep bs (sink ?d (Node l x1 r)) t1)"
    using x1(2) idx_path_to [OF hx(2)]
    by (intro sleepq_tree_after [OF P d x _ _ ag p6(1)];
        use p6(2) h6 h5 in \<open>auto simp: q_def bs_def\<close>)+
  have "tput (sink_at ?d) ?d bs x t = trep bs (sink ?d (Node l x1 r)) t1"
    by (simp add: tp sink_at_def)
  then show ?thesis
    unfolding bs_def [symmetric]
    using R S(1) A ul6 F(2)
    by (intro exI [of _ s4] exI [of _ q] exI [of _ s6] exI [of _ x1]) (simp add: s5_def s4_def q_def)
qed

lemma upd_flags_heap [simp]:
  "rd_loc (upd_thr a (\<lambda>z. z\<lparr>flags := g z\<rparr>) s) l = rd_loc s l"
  "hidx (upd_thr a (\<lambda>z. z\<lparr>flags := g z\<rparr>) s) b = hidx s b"
  by (cases l; simp add: rd_loc.simps del: rd_left rd_right) (simp add: hidx_def)

lemma upd_flags_unlink:
  "unlink (upd_thr a (\<lambda>z. z\<lparr>flags := g (flags z)\<rparr>) s) =
   upd_thr a (\<lambda>z. z\<lparr>flags := g (flags z)\<rparr>) (unlink s)"
  by (auto simp: unlink_def upd_thr_def intro!: st.equality ext)

theorem del_sleep_q_tree:
  assumes t: "sleepq_tree s t" and a: "a \<in> set_tree t"
  shows "\<exists>s'. st_del_sleep_q a s = Some s' \<and>
    sleepq_tree s' (t_delete (\<lambda>b. due (thr s b)) (sleepq_size s) (hidx s a) t) \<and>
    unlink s' = unlink ((upd_thr a (\<lambda>z. z\<lparr>flags := clear_flag (flags z) FL_ON_SLEEPQ\<rparr>) s)
      \<lparr>sleepq_size := sleepq_size s - 1\<rparr>)"
proof -
  define n where "n = sleepq_size s"
  let ?d = "\<lambda>b. due (thr s b)"
  have s: "ptree s Root t" "distinct (inorder t)" "complete n t" "hp ?d t" "numbered (hidx s) 1 t"
    using t by (simp_all add: sleepq_tree_def n_def)
  obtain l r where k: "tsub (path_to (hidx s a)) t = Some (Node l a r)" "0 < hidx s a" "hidx s a \<le> n"
    using numbered_path [OF s(3,5) a s(2)] .
  then have n0: "0 < n" by simp
  obtain x where x: "tsub (path_to n) t = Some (Node Leaf x Leaf)"
    using complete_last [OF s(3) n0] .
  define q where "q = tloc Root (path_to n) t"
  define s1 where "s1 = (wr_loc q None s)\<lparr>sleepq_size := n - 1\<rparr>"
  define t1 where "t1 = trep (path_to n) Leaf t"
  have ag: "agrees {} q s s1"
    by (auto simp: agrees_def s1_def)
  have p1: "ptree s1 Root t1"
    unfolding t1_def
    by (rule ptree_replace [OF s(1) x s(2) _ _ _ ag [unfolded q_def]]) (auto simp: s1_def q_def)
  have m1: "mset_tree t = add_mset x (mset_tree t1)"
    using mset_trep [OF x, of Leaf] by (simp add: t1_def)
  have d1: "distinct (inorder t1)" "x \<notin> set_tree t1"
    using inorder_add_distinct [OF m1] s(2) by auto
  have h1: "hidx s1 = hidx s"
    by (auto simp: s1_def)
  have nb1: "numbered (hidx s1) 1 t1"
    unfolding t1_def h1 by (rule numbered_trep [OF x s(5)]) simp
  have ul1: "unlink s1 = (unlink s)\<lparr>sleepq_size := n - 1\<rparr>"
    by (simp add: s1_def)
  have last: "heap_last_loop (num_bits (sleepq_size s) - 1) (sleepq_size s) Root s = Some q"
    using heap_last_run [OF s(1), of "num_bits n - 1" n] x by (simp add: q_def n_def)
  have rq: "rd_loc s q = Some x"
    using rd_tloc [OF s(1) x] by (simp add: q_def)
  define T where "T = t_delete ?d n (hidx s a) t"
  note C = t_delete_correct [OF s(3,4) k(2,3,1), folded T_def]
  have "\<exists>s2. heap_delete a s = Some (upd_thr a (\<lambda>z. z\<lparr>left := None, right := None\<rparr>) s2) \<and>
      ptree s2 Root T \<and> numbered (hidx s2) 1 T \<and> unlink s2 = (unlink s)\<lparr>sleepq_size := n - 1\<rparr>"
  proof (cases "x = a")
    case True
    then have "hidx s a = n"
      using numbered_tsub [OF x s(5)] idx_path_to [OF n0] by simp
    then have "T = t1"
      using x by (simp add: T_def t_delete_def t1_def)
    then show ?thesis
      using last rq True p1 nb1 ul1
      by (auto simp: heap_delete_def Let_def s1_def n_def)
  next
    case False
    define s2 where "s2 = upd_thr x (\<lambda>z. z\<lparr>heap_index := hidx s a\<rparr>) s1"
    have kn: "hidx s a \<noteq> n"
      using False x k(1) by auto
    have p2: "ptree s2 Root t1"
      by (rule ptree_cong [OF p1]) (simp_all add: s2_def)
    have h2: "hidx s2 b = (if b = x then hidx s a else hidx s b)" for b
      by (simp add: s2_def h1)
    have nb2: "numbered (hidx s2) 1 t1"
      by (rule numbered_cong [OF nb1]) (use d1 in \<open>auto simp: h2 h1\<close>)
    have ul2: "unlink s2 = (unlink s)\<lparr>sleepq_size := n - 1\<rparr>"
      by (simp add: s2_def ul1)
    have dd: "(\<lambda>b. due (thr s2 b)) = ?d"
      by (auto simp: s2_def s1_def)
    obtain l' r' where u: "tsub (path_to (hidx s a)) t1 = Some (Node l' a r')"
      using tsub_trep_root [OF k(1) path_to_not_prefix [OF k(2)], of n Leaf] k(3) kn
      unfolding t1_def by auto
    have T: "T = tput (sink_at ?d) ?d (path_to (hidx s a)) x t1"
      using x kn by (simp add: T_def t_delete_def t1_def)
    from delete_inner [OF p2 d1 _ k(2) u nb2, unfolded dd, folded T]
    obtain s4 p' s6 t' where D: "heap_insert x s2 = Some (p', s4)" "rd_loc s4 p' = Some t'"
      "heap_sink t' p' (upd_thr t' (\<lambda>z. z\<lparr>left := rd_loc s4 (LeftOf a),
         right := rd_loc s4 (RightOf a)\<rparr>) s4) = Some s6"
      "ptree s6 Root T" "numbered (hidx s6) 1 T" "unlink s6 = unlink s2"
      using h2 by auto
    have "heap_delete a s = (case heap_insert x s2 of None \<Rightarrow> None
        | Some (p', s4) \<Rightarrow> (case rd_loc s4 p' of None \<Rightarrow> None
          | Some t' \<Rightarrow> map_option (upd_thr a (\<lambda>x. x\<lparr>left := None, right := None\<rparr>))
              (heap_sink t' p' (upd_thr t' (\<lambda>z. z\<lparr>left := rd_loc s4 (LeftOf a),
                 right := rd_loc s4 (RightOf a)\<rparr>) s4))))"
      using False h1
      by (simp only: heap_delete_def last rq option.case Let_def s1_def [unfolded n_def, symmetric]
          s2_def if_False rd_loc.simps hidx_def fun_eq_iff)
    then show ?thesis
      using D ul2 by (intro exI [of _ s6]) simp
  qed
  then obtain s2 where s2: "heap_delete a s = Some (upd_thr a (\<lambda>z. z\<lparr>left := None, right := None\<rparr>) s2)"
      "ptree s2 Root T" "numbered (hidx s2) 1 T" "unlink s2 = (unlink s)\<lparr>sleepq_size := n - 1\<rparr>"
    by blast
  define s3 where "s3 = upd_thr a (\<lambda>z. z\<lparr>left := None, right := None\<rparr>) s2"
  define s' where "s' = upd_thr a (\<lambda>z. z\<lparr>flags := clear_flag (flags z) FL_ON_SLEEPQ\<rparr>) s3"
  have aT: "a \<notin> set_tree T" "distinct (inorder T)"
    using inorder_add_distinct [OF C(3)] s(2) by auto
  have ul3: "unlink s3 = unlink (s\<lparr>sleepq_size := n - 1\<rparr>)"
    by (simp add: s3_def s2(4))
  have ul': "unlink s' = unlink ((upd_thr a (\<lambda>z. z\<lparr>flags := clear_flag (flags z) FL_ON_SLEEPQ\<rparr>) s)
      \<lparr>sleepq_size := n - 1\<rparr>)"
    unfolding s'_def upd_flags_unlink [where g = "\<lambda>w. clear_flag w FL_ON_SLEEPQ"] ul3 n_def unlink_upd
    by (simp add: upd_thr_def)
  have "st_del_sleep_q a s = Some s'"
    by (simp add: st_del_sleep_q_def s2(1) s3_def s'_def)
  moreover have "ptree s' Root T"
    by (rule ptree_cong [OF s2(2)]) (use aT in \<open>auto simp: s'_def s3_def\<close>)
  moreover have "numbered (hidx s') 1 T"
    by (rule numbered_cong [OF s2(3)]) (simp add: s'_def s3_def)
  moreover have "hp (\<lambda>b. due (thr s' b)) T"
    by (rule hp_cong [OF C(2)]) (simp add: unlinkD(1) [OF ul'])
  ultimately show ?thesis
    using C(1) aT ul' unlinkD(4) [OF ul']
    by (auto simp: sleepq_tree_def T_def n_def)
qed

end
