(* ===== verification/ST_Timeouts.thy ===== *)
theory ST_Timeouts
  imports ST_HeapRefine
begin

text \<open>
  What the rest of the library relies on of the timeout heap: it holds a set of threads, a
  thread can be added and taken out in any order, the head is a thread with the smallest
  \<open>due\<close>, and nothing outside the heap changes but \<open>due\<close> and the \<open>FL_ON_SLEEPQ\<close> flag of the
  thread concerned. The locale \<open>timeout_queue\<close> states this contract and what follows from it;
  it is interpreted on \<open>st_add_sleep_q\<close> and \<open>st_del_sleep_q\<close>.
\<close>

section \<open>Views of the state\<close>

text \<open>The state without the heap.\<close>

definition noheap :: "st \<Rightarrow> st" where
  "noheap s = (unlink s)\<lparr>sleepq_size := 0\<rparr>"

text \<open>The part of the state the heap lives in.\<close>

definition heap_part :: "st \<Rightarrow> tid option \<times> nat \<times> (tid \<Rightarrow> tid option \<times> tid option \<times> nat \<times> utime)" where
  "heap_part s = (sleep_q s, sleepq_size s,
     \<lambda>t. (left (thr s t), right (thr s t), heap_index (thr s t), due (thr s t)))"

definition sleepq_is :: "st \<Rightarrow> tid set \<Rightarrow> bool" where
  "sleepq_is s T \<longleftrightarrow> (\<exists>t. sleepq_tree s t \<and> set_tree t = T)"

definition set_due :: "tid \<Rightarrow> utime \<Rightarrow> st \<Rightarrow> st" where
  "set_due x timeout s = upd_thr x (\<lambda>z. z\<lparr>due := last_clock s + timeout,
     flags := set_flag (flags z) FL_ON_SLEEPQ\<rparr>) s"

definition unset_due :: "tid \<Rightarrow> st \<Rightarrow> st" where
  "unset_due x s = upd_thr x (\<lambda>z. z\<lparr>flags := clear_flag (flags z) FL_ON_SLEEPQ\<rparr>) s"

lemma noheap_frame [simp]:
  "this_thread (noheap s) = this_thread s" "active_count (noheap s) = active_count s"
  "curr_time (noheap s) = curr_time s" "last_tset (noheap s) = last_tset s"
  "idle_thread (noheap s) = idle_thread s" "last_clock (noheap s) = last_clock s"
  "run_q (noheap s) = run_q s" "io_q (noheap s) = io_q s"
  "zombie_q (noheap s) = zombie_q s" "thread_q (noheap s) = thread_q s"
  "pagesize (noheap s) = pagesize s" "conds (noheap s) = conds s"
  "mutexes (noheap s) = mutexes s" "pollqs (noheap s) = pollqs s"
  "keys (noheap s) = keys s" "stks (noheap s) = stks s"
  "evsys (noheap s) = evsys s" "sel (noheap s) = sel s" "pol (noheap s) = pol s"
  "kqd (noheap s) = kqd s" "epd (noheap s) = epd s" "calls (noheap s) = calls s"
  "switch_out_cb (noheap s) = switch_out_cb s" "switch_in_cb (noheap s) = switch_in_cb s"
  by (simp_all add: noheap_def unlink_def)

lemma noheap_thr [simp]:
  "state (thr (noheap s) t) = state (thr s t)" "flags (thr (noheap s) t) = flags (thr s t)"
  "start (thr (noheap s) t) = start (thr s t)" "arg (thr (noheap s) t) = arg (thr s t)"
  "retval (thr (noheap s) t) = retval (thr s t)" "stack (thr (noheap s) t) = stack (thr s t)"
  "due (thr (noheap s) t) = due (thr s t)" "private_data (thr (noheap s) t) = private_data (thr s t)"
  "term_cv (thr (noheap s) t) = term_cv (thr s t)" "ctx (thr (noheap s) t) = ctx (thr s t)"
  by (simp_all add: noheap_def unlink_def)

lemma noheap_eqD:
  assumes "noheap s = noheap s'"
  shows "this_thread s = this_thread s'" "active_count s = active_count s'"
  "curr_time s = curr_time s'" "last_tset s = last_tset s'"
  "idle_thread s = idle_thread s'" "last_clock s = last_clock s'"
  "run_q s = run_q s'" "io_q s = io_q s'"
  "zombie_q s = zombie_q s'" "thread_q s = thread_q s'"
  "pagesize s = pagesize s'" "conds s = conds s'"
  "mutexes s = mutexes s'" "pollqs s = pollqs s'"
  "keys s = keys s'" "stks s = stks s'"
  "evsys s = evsys s'" "sel s = sel s'" "pol s = pol s'"
  "kqd s = kqd s'" "epd s = epd s'" "calls s = calls s'"
  "switch_out_cb s = switch_out_cb s'" "switch_in_cb s = switch_in_cb s'"
  "state (thr s t) = state (thr s' t)" "flags (thr s t) = flags (thr s' t)"
  "start (thr s t) = start (thr s' t)" "arg (thr s t) = arg (thr s' t)"
  "retval (thr s t) = retval (thr s' t)" "stack (thr s t) = stack (thr s' t)"
  "due (thr s t) = due (thr s' t)" "private_data (thr s t) = private_data (thr s' t)"
  "term_cv (thr s t) = term_cv (thr s' t)" "ctx (thr s t) = ctx (thr s' t)"
  by (metis assms noheap_frame noheap_thr)+

lemma noheap_unlink: "unlink s' = unlink s \<Longrightarrow> noheap s' = noheap s"
  by (simp add: noheap_def)

lemma noheap_size [simp]: "noheap (s\<lparr>sleepq_size := n\<rparr>) = noheap s"
  by (simp add: noheap_def)

section \<open>The contract\<close>

locale timeout_queue =
  fixes add :: "tid \<Rightarrow> utime \<Rightarrow> st \<Rightarrow> st option"
    and del :: "tid \<Rightarrow> st \<Rightarrow> st option"
    and peek :: "st \<Rightarrow> tid option"
    and holds :: "st \<Rightarrow> tid set \<Rightarrow> bool"
  assumes add_law: "holds s T \<Longrightarrow> x \<notin> T \<Longrightarrow>
      \<exists>s'. add x d s = Some s' \<and> holds s' (insert x T) \<and> noheap s' = noheap (set_due x d s)"
    and del_law: "holds s T \<Longrightarrow> x \<in> T \<Longrightarrow>
      \<exists>s'. del x s = Some s' \<and> holds s' (T - {x}) \<and> noheap s' = noheap (unset_due x s)"
    and peek_empty: "holds s T \<Longrightarrow> peek s = None \<longleftrightarrow> T = {}"
    and peek_min: "holds s T \<Longrightarrow> peek s = Some a \<Longrightarrow> a \<in> T \<and> (\<forall>b\<in>T. due (thr s a) \<le> due (thr s b))"
    and frame: "holds s T \<Longrightarrow> heap_part s' = heap_part s \<Longrightarrow> holds s' T"
begin

lemma add_run:
  assumes "holds s T" "x \<notin> T"
  obtains s' where "add x d s = Some s'" "holds s' (insert x T)" "noheap s' = noheap (set_due x d s)"
  using add_law [OF assms] by blast

lemma del_run:
  assumes "holds s T" "x \<in> T"
  obtains s' where "del x s = Some s'" "holds s' (T - {x})" "noheap s' = noheap (unset_due x s)"
  using del_law [OF assms] by blast

text \<open>A head that is not due yet means that nothing is.\<close>

lemma nothing_due:
  "holds s T \<Longrightarrow> peek s = Some a \<Longrightarrow> now < due (thr s a) \<Longrightarrow> b \<in> T \<Longrightarrow> now < due (thr s b)"
  using peek_min by fastforce

text \<open>A thread that is added and taken out again leaves the queue as it was.\<close>

lemma add_del:
  assumes "holds s T" "x \<notin> T"
  shows "\<exists>s1 s2. add x d s = Some s1 \<and> del x s1 = Some s2 \<and> holds s2 T"
proof -
  obtain s1 where 1: "add x d s = Some s1" "holds s1 (insert x T)"
    using assms by (rule add_run)
  moreover obtain s2 where "del x s1 = Some s2" "holds s2 (insert x T - {x})"
    by (rule del_run [OF 1(2)]) auto
  ultimately show ?thesis using assms(2) by auto
qed

end

section \<open>The heap implements it\<close>

lemma heap_partD:
  assumes "heap_part s' = heap_part s"
  shows "rd_loc s' l = rd_loc s l" "hidx s' = hidx s" "due (thr s' a) = due (thr s a)"
    "sleepq_size s' = sleepq_size s" "sleep_q s' = sleep_q s"
proof -
  note h = assms [unfolded heap_part_def prod.inject]
  have t: "(left (thr s' t), right (thr s' t), heap_index (thr s' t), due (thr s' t)) =
    (left (thr s t), right (thr s t), heap_index (thr s t), due (thr s t))" for t
    using h by (blast dest: fun_cong)
  note t' = t [unfolded prod.inject]
  show "due (thr s' a) = due (thr s a)" "sleepq_size s' = sleepq_size s" "sleep_q s' = sleep_q s"
    using t' [of a] h by blast+
  show "hidx s' = hidx s"
    unfolding hidx_def using t' by blast
  show "rd_loc s' l = rd_loc s l"
    using t' h by (cases l) (simp_all only: rd_loc.simps)
qed

lemma ptree_frame:
  "ptree s p t \<Longrightarrow> heap_part s' = heap_part s \<Longrightarrow> ptree s' p t"
  by (erule ptree_cong) (rule heap_partD(1), assumption)+

lemma sleepq_is_frame:
  assumes "sleepq_is s T" "heap_part s' = heap_part s"
  shows "sleepq_is s' T"
  using assms(1) ptree_frame [OF _ assms(2)]
  unfolding sleepq_is_def sleepq_tree_def heap_partD(2-5) [OF assms(2)] by blast

lemma hp_min: "hp d t \<Longrightarrow> t = Node l a r \<Longrightarrow> b \<in> set_tree t \<Longrightarrow> d a \<le> d b"
  by auto

lemma sleepq_peek:
  assumes "sleepq_is s T"
  shows "sleep_q s = None \<longleftrightarrow> T = {}"
    and "sleep_q s = Some a \<Longrightarrow> a \<in> T \<and> (\<forall>b\<in>T. due (thr s a) \<le> due (thr s b))"
proof -
  obtain t where t: "sleepq_tree s t" "set_tree t = T"
    using assms by (auto simp: sleepq_is_def)
  have r: "sleep_q s = rd_loc s Root" by (simp add: rd_loc.simps)
  show "sleep_q s = None \<longleftrightarrow> T = {}"
    using t r by (cases t) (auto simp: sleepq_tree_def)
  show "a \<in> T \<and> (\<forall>b\<in>T. due (thr s a) \<le> due (thr s b))" if "sleep_q s = Some a"
    using t r that hp_min [of "\<lambda>a. due (thr s a)" t]
    by (cases t) (auto simp: sleepq_tree_def)
qed

lemma sleepq_add:
  assumes "sleepq_is s T" "x \<notin> T"
  shows "\<exists>s'. st_add_sleep_q x d s = Some s' \<and> sleepq_is s' (insert x T) \<and>
    noheap s' = noheap (set_due x d s)"
proof -
  obtain t where t: "sleepq_tree s t" "set_tree t = T"
    using assms by (auto simp: sleepq_is_def)
  obtain s' where s': "st_add_sleep_q x d s = Some s'"
    "sleepq_tree s' (t_insert (\<lambda>a. due (thr s' a)) (sleepq_size s) x t)"
    "unlink s' = unlink ((upd_thr x (\<lambda>z. z\<lparr>due := last_clock s + d,
      flags := set_flag (flags z) FL_ON_SLEEPQ\<rparr>) s)\<lparr>sleepq_size := Suc (sleepq_size s)\<rparr>)"
    using add_sleep_q_tree [OF t(1), of x d] assms(2) t(2) by auto
  have "hp (\<lambda>a. due (thr s' a)) t"
  proof (rule hp_cong)
    show "hp (\<lambda>a. due (thr s a)) t" using t(1) by (simp add: sleepq_tree_def)
    show "due (thr s' a) = due (thr s a)" if "a \<in> set_tree t" for a
      using that t(2) assms(2) unlinkD(1) [OF s'(3)] by auto
  qed
  then have "mset_tree (t_insert (\<lambda>a. due (thr s' a)) (sleepq_size s) x t) = add_mset x (mset_tree t)"
    using t_insert_correct(3) t(1) unfolding sleepq_tree_def by fastforce
  then have "set_tree (t_insert (\<lambda>a. due (thr s' a)) (sleepq_size s) x t) = insert x T"
    using t(2) by (metis set_mset_add_mset_insert set_mset_tree)
  then show ?thesis
    using s' noheap_unlink [OF s'(3)] by (auto simp: sleepq_is_def set_due_def)
qed

lemma sleepq_del:
  assumes "sleepq_is s T" "x \<in> T"
  shows "\<exists>s'. st_del_sleep_q x s = Some s' \<and> sleepq_is s' (T - {x}) \<and>
    noheap s' = noheap (unset_due x s)"
proof -
  obtain t where t: "sleepq_tree s t" "set_tree t = T"
    using assms by (auto simp: sleepq_is_def)
  define t' where "t' = t_delete (\<lambda>b. due (thr s b)) (sleepq_size s) (hidx s x) t"
  obtain s' where s': "st_del_sleep_q x s = Some s'" "sleepq_tree s' t'"
    "unlink s' = unlink ((upd_thr x (\<lambda>z. z\<lparr>flags := clear_flag (flags z) FL_ON_SLEEPQ\<rparr>) s)
      \<lparr>sleepq_size := sleepq_size s - 1\<rparr>)"
    using del_sleep_q_tree [OF t(1), of x] assms(2) t(2) by (auto simp: t'_def)
  have tt: "numbered (hidx s) 1 t" "complete (sleepq_size s) t" "hp (\<lambda>b. due (thr s b)) t"
      "distinct (inorder t)"
    using t(1) by (simp_all add: sleepq_tree_def)
  obtain l r where k: "tsub (path_to (hidx s x)) t = Some (Node l x r)" "0 < hidx s x"
      "hidx s x \<le> sleepq_size s"
    using numbered_path [OF tt(2,1) _ tt(4), of x] assms(2) t(2) by auto
  have "mset_tree t = add_mset x (mset_tree t')"
    unfolding t'_def by (rule t_delete_correct(3) [OF tt(2,3) k(2,3,1)])
  then have "x \<notin> set_tree t'" "insert x (set_tree t') = T"
    using inorder_add_distinct [of t x t'] tt(4) t(2)
    by (auto simp flip: set_mset_tree)
  then show ?thesis
    using s' noheap_unlink [OF s'(3)] by (auto simp: sleepq_is_def unset_due_def)
qed

interpretation tq: timeout_queue st_add_sleep_q st_del_sleep_q sleep_q sleepq_is
  by unfold_locales
    (blast intro: sleepq_add sleepq_del sleepq_is_frame | simp add: sleepq_peek | blast dest: sleepq_peek)+

end
