(* ===== verification/ST_Switch.thy ===== *)
theory ST_Switch
  imports ST_Timeouts "HOL-Library.Monad_Syntax"
begin

text \<open>
  Context switches: the macros of \<open>common.h\<close> and \<open>_st_vp_schedule\<close> of \<open>sched.c\<close>. A function that
  blocks is two definitions: one up to \<open>_ST_SWITCH_CONTEXT\<close>, which leaves in \<open>ctx\<close> the point
  where the thread stopped, and one, named \<open>..._resume\<close>, for the code after it, which runs when
  the thread has been picked again. \<open>None\<close> is a failed assertion, or an access through a pointer
  that is \<open>NULL\<close> or to an object that was freed.
\<close>

section \<open>Queues and thread fields\<close>

definition set_state :: "tid \<Rightarrow> thr_state \<Rightarrow> st \<Rightarrow> st" where
  "set_state t x s = upd_thr t (\<lambda>z. z\<lparr>state := x\<rparr>) s"

definition set_fl :: "tid \<Rightarrow> flagw \<Rightarrow> st \<Rightarrow> st" where
  "set_fl t f s = upd_thr t (\<lambda>z. z\<lparr>flags := set_flag (flags z) f\<rparr>) s"

definition clear_fl :: "tid \<Rightarrow> flagw \<Rightarrow> st \<Rightarrow> st" where
  "clear_fl t f s = upd_thr t (\<lambda>z. z\<lparr>flags := clear_flag (flags z) f\<rparr>) s"

definition set_ctx :: "tid \<Rightarrow> kont \<Rightarrow> st \<Rightarrow> st" where
  "set_ctx t k s = upd_thr t (\<lambda>z. z\<lparr>ctx := k\<rparr>) s"

definition ST_ADD_RUNQ :: "tid \<Rightarrow> st \<Rightarrow> st" where
  "ST_ADD_RUNQ t s = s\<lparr>run_q := run_q s @ [t]\<rparr>"

definition ST_DEL_RUNQ :: "tid \<Rightarrow> st \<Rightarrow> st" where
  "ST_DEL_RUNQ t s = s\<lparr>run_q := remove1 t (run_q s)\<rparr>"

definition ST_ADD_IOQ :: "tid \<Rightarrow> st \<Rightarrow> st" where
  "ST_ADD_IOQ t s = s\<lparr>io_q := io_q s @ [t]\<rparr>"

definition ST_DEL_IOQ :: "tid \<Rightarrow> st \<Rightarrow> st" where
  "ST_DEL_IOQ t s = s\<lparr>io_q := remove1 t (io_q s)\<rparr>"

definition ST_ADD_ZOMBIEQ :: "tid \<Rightarrow> st \<Rightarrow> st" where
  "ST_ADD_ZOMBIEQ t s = s\<lparr>zombie_q := zombie_q s @ [t]\<rparr>"

definition ST_DEL_ZOMBIEQ :: "tid \<Rightarrow> st \<Rightarrow> st" where
  "ST_DEL_ZOMBIEQ t s = s\<lparr>zombie_q := remove1 t (zombie_q s)\<rparr>"

definition ST_ADD_THREADQ :: "tid \<Rightarrow> st \<Rightarrow> st" where
  "ST_ADD_THREADQ t s = s\<lparr>thread_q := thread_q s @ [t]\<rparr>"

definition ST_DEL_THREADQ :: "tid \<Rightarrow> st \<Rightarrow> st" where
  "ST_DEL_THREADQ t s = s\<lparr>thread_q := remove1 t (thread_q s)\<rparr>"

text \<open>The two lines ``Make thread runnable'' that end most wake-ups.\<close>

definition make_runnable :: "tid \<Rightarrow> st \<Rightarrow> st" where
  "make_runnable t s = ST_ADD_RUNQ t (set_state t ST_RUNNABLE s)"

text \<open>\<open>if (thread->flags & _ST_FL_ON_SLEEPQ) _ST_DEL_SLEEPQ(thread)\<close>\<close>

definition off_sleepq :: "tid \<Rightarrow> st \<Rightarrow> st option" where
  "off_sleepq t s = (if has_flag (flags (thr s t)) FL_ON_SLEEPQ then st_del_sleep_q t s else Some s)"

section \<open>Switching\<close>

definition ST_SWITCH_OUT_CB :: "tid \<Rightarrow> st \<Rightarrow> st" where
  "ST_SWITCH_OUT_CB t s =
     (if switch_out_cb s \<noteq> NULLP \<and> t \<noteq> idle_thread s \<and> state (thr s t) \<noteq> ST_ZOMBIE
      then s\<lparr>calls := calls s @ [(switch_out_cb s, NULLP)]\<rparr> else s)"

definition ST_SWITCH_IN_CB :: "tid \<Rightarrow> st \<Rightarrow> st" where
  "ST_SWITCH_IN_CB t s =
     (if switch_in_cb s \<noteq> NULLP \<and> t \<noteq> idle_thread s \<and> state (thr s t) \<noteq> ST_ZOMBIE
      then s\<lparr>calls := calls s @ [(switch_in_cb s, NULLP)]\<rparr> else s)"

definition st_set_switch_in_cb :: "ptr \<Rightarrow> st \<Rightarrow> ptr \<times> st" where
  "st_set_switch_in_cb cb s = (switch_in_cb s, s\<lparr>switch_in_cb := cb\<rparr>)"

definition st_set_switch_out_cb :: "ptr \<Rightarrow> st \<Rightarrow> ptr \<times> st" where
  "st_set_switch_out_cb cb s = (switch_out_cb s, s\<lparr>switch_out_cb := cb\<rparr>)"

definition st_vp_schedule :: "st \<Rightarrow> st option" where
  "st_vp_schedule s =
     (let (thread, s1) = (case run_q s of
                            t # _ \<Rightarrow> (t, ST_DEL_RUNQ t s)
                          | [] \<Rightarrow> (idle_thread s, s))
      in if state (thr s1 thread) = ST_RUNNABLE
         then Some ((set_state thread ST_RUNNING s1)\<lparr>this_thread := thread\<rparr>)
         else None)"

definition ST_SWITCH_CONTEXT :: "kont \<Rightarrow> tid \<Rightarrow> st \<Rightarrow> st option" where
  "ST_SWITCH_CONTEXT k t s = st_vp_schedule (set_ctx t k (ST_SWITCH_OUT_CB t s))"

text \<open>The thread goes on after \<open>_ST_SWITCH_CONTEXT\<close>.\<close>

definition switched_in :: "st \<Rightarrow> st" where
  "switched_in s = (let me = this_thread s in set_ctx me K_run (ST_SWITCH_IN_CB me s))"

section \<open>Results of calls\<close>

datatype 'a outcome = Returned "errno + 'a" | Blocked

text \<open>
  The test at the head of the functions that block:
  \<open>if (me->flags & _ST_FL_INTERRUPT) { me->flags &= ~_ST_FL_INTERRUPT; errno = EINTR; return -1; }\<close>
\<close>

definition check_interrupt :: "(st \<Rightarrow> ('a outcome \<times> st) option) \<Rightarrow> st \<Rightarrow> ('a outcome \<times> st) option" where
  "check_interrupt k s =
     (let me = this_thread s in
      if has_flag (flags (thr s me)) FL_INTERRUPT
      then Some (Returned (Inl EINTR), clear_fl me FL_INTERRUPT s)
      else k s)"

lemmas queue_defs = ST_ADD_RUNQ_def ST_DEL_RUNQ_def ST_ADD_IOQ_def ST_DEL_IOQ_def ST_ADD_ZOMBIEQ_def
  ST_DEL_ZOMBIEQ_def ST_ADD_THREADQ_def ST_DEL_THREADQ_def

lemmas field_defs = set_state_def set_fl_def clear_fl_def set_ctx_def

end
