(* ===== verification/ST_Event.thy ===== *)
theory ST_Event
  imports ST_Switch "HOL-Library.Signed_Division"
begin

text \<open>
  What the four event systems of \<open>event.c\<close> share: the time to wait, the walk over the queue of
  poll requests, and the wake-up of a request. What the operating system answers (\<open>select\<close>,
  \<open>poll\<close>, \<open>kevent\<close>, \<open>epoll_wait\<close>, \<open>epoll_ctl\<close>, allocation) is an argument of the definitions.
\<close>

section \<open>Time to wait\<close>

text \<open>\<open>None\<close>: no thread sleeps, wait without a limit.\<close>

definition min_timeout :: "st \<Rightarrow> utime option" where
  "min_timeout s =
     (case sleep_q s of
        None \<Rightarrow> None
      | Some t \<Rightarrow> Some (if due (thr s t) \<le> last_clock s then 0 else due (thr s t) - last_clock s))"

text \<open>\<open>(int) x\<close> of a 64-bit value.\<close>

definition int_cast :: "utime \<Rightarrow> int" where
  "int_cast x = sint (ucast x :: 32 word)"

text \<open>The argument of \<open>poll\<close> and \<open>epoll_wait\<close>, in milliseconds.\<close>

definition msec_timeout :: "st \<Rightarrow> int" where
  "msec_timeout s = (case min_timeout s of None \<Rightarrow> - 1 | Some m \<Rightarrow> int_cast (m div 1000))"

text \<open>The argument of \<open>select\<close>: seconds and microseconds.\<close>

definition timeval_timeout :: "st \<Rightarrow> (int \<times> int) option" where
  "timeval_timeout s = map_option (\<lambda>m. (int_cast (m div 1000000), int_cast (m mod 1000000))) (min_timeout s)"

text \<open>The argument of \<open>kevent\<close>: seconds and nanoseconds, both 64 bits wide.\<close>

definition timespec_timeout :: "st \<Rightarrow> (int \<times> int) option" where
  "timespec_timeout s =
     map_option (\<lambda>m. (sint (m div 1000000), sint (m mod 1000000 * 1000))) (min_timeout s)"

section \<open>Poll requests\<close>

fun ioq_loop :: "(tid \<Rightarrow> st \<Rightarrow> st option) \<Rightarrow> tid list \<Rightarrow> st \<Rightarrow> st option" where
  "ioq_loop body [] s = Some s"
| "ioq_loop body (q # qs) s = do { s' \<leftarrow> body q s; ioq_loop body qs s' }"

definition set_pds :: "tid \<Rightarrow> pollfd list \<Rightarrow> st \<Rightarrow> st" where
  "set_pds q ps s = s\<lparr>pollqs := (pollqs s)(q := (pollqs s q)\<lparr>pds := ps\<rparr>)\<rparr>"

text \<open>\<open>ST_REMOVE_LINK(&pq->links); pq->on_ioq = 0;\<close>\<close>

definition unlink_pollq :: "tid \<Rightarrow> st \<Rightarrow> st" where
  "unlink_pollq q s =
     (let s1 = ST_DEL_IOQ q s in s1\<lparr>pollqs := (pollqs s1)(q := (pollqs s1 q)\<lparr>on_ioq := False\<rparr>)\<rparr>)"

text \<open>
  \<open>if (pq->thread->flags & _ST_FL_ON_SLEEPQ) _ST_DEL_SLEEPQ(pq->thread);
  pq->thread->state = _ST_ST_RUNNABLE; _ST_ADD_RUNQ(pq->thread);\<close>
\<close>

definition wake_pollq :: "tid \<Rightarrow> st \<Rightarrow> st option" where
  "wake_pollq q s =
     (let t = pq_thread (pollqs s q) in do { s1 \<leftarrow> off_sleepq t s; Some (make_runnable t s1) })"

definition wants :: "pollfd \<Rightarrow> eventw \<Rightarrow> bool" where
  "wants pd e \<longleftrightarrow> events pd AND e \<noteq> 0"

section \<open>Growth of tables\<close>

text \<open>\<open>while (maxfd >= n) n <<= 1;\<close>, which does not end when \<open>n\<close> is 0.\<close>

partial_function (option) grow :: "int \<Rightarrow> int \<Rightarrow> int option" where
  "grow n top_fd = (if top_fd \<ge> n then grow (2 * n) top_fd else Some n)"

lemma grow_total: "n > 0 \<Longrightarrow> \<exists>m. grow n x = Some m \<and> x < m \<and> n \<le> m \<and> (x < n \<longrightarrow> m = n) \<and>
    (n \<le> x \<longrightarrow> m \<le> 2 * x)"
proof (induction "nat (x + 1 - n)" arbitrary: n rule: less_induct)
  case less
  show ?case
  proof (cases "n \<le> x")
    case True
    then obtain m where "grow (2 * n) x = Some m" "x < m" "2 * n \<le> m" "x < 2 * n \<longrightarrow> m = 2 * n"
        "2 * n \<le> x \<longrightarrow> m \<le> 2 * x"
      using less(1) [of "2 * n"] less(2) by auto
    then show ?thesis
      using True less(2) by (auto simp: grow.simps [of n])
  qed (simp add: grow.simps [of n])
qed

lemma grow_id: "x < n \<Longrightarrow> grow n x = Some n"
  by (simp add: grow.simps)

section \<open>Frames\<close>

text \<open>Two states that differ in the data of the event systems and in poll requests only.\<close>

definition same_but_events :: "st \<Rightarrow> st \<Rightarrow> bool" where
  "same_but_events s s' \<longleftrightarrow>
     s'\<lparr>sel := sel s, pol := pol s, kqd := kqd s, epd := epd s\<rparr> = s"

lemma same_but_events_upd [simp]:
  "same_but_events s (s\<lparr>sel := a\<rparr>)" "same_but_events s (s\<lparr>pol := b\<rparr>)"
  "same_but_events s (s\<lparr>kqd := c\<rparr>)" "same_but_events s (s\<lparr>epd := d\<rparr>)"
  "same_but_events s s"
  by (simp_all add: same_but_events_def)

lemma same_but_eventsD:
  assumes "same_but_events s s'"
  shows "thr s' = thr s" "this_thread s' = this_thread s" "active_count s' = active_count s"
    "idle_thread s' = idle_thread s" "last_clock s' = last_clock s" "run_q s' = run_q s"
    "io_q s' = io_q s" "zombie_q s' = zombie_q s" "thread_q s' = thread_q s"
    "sleep_q s' = sleep_q s" "sleepq_size s' = sleepq_size s" "conds s' = conds s"
    "mutexes s' = mutexes s" "pollqs s' = pollqs s" "keys s' = keys s" "stks s' = stks s"
    "evsys s' = evsys s" "calls s' = calls s" "pagesize s' = pagesize s"
    "switch_out_cb s' = switch_out_cb s" "switch_in_cb s' = switch_in_cb s"
    "heap_part s' = heap_part s" "curr_time s' = curr_time s" "last_tset s' = last_tset s"
proof -
  have *: "s = s'\<lparr>sel := sel s, pol := pol s, kqd := kqd s, epd := epd s\<rparr>"
    using assms by (simp add: same_but_events_def)
  show "thr s' = thr s" "this_thread s' = this_thread s" "active_count s' = active_count s"
    "idle_thread s' = idle_thread s" "last_clock s' = last_clock s" "run_q s' = run_q s"
    "io_q s' = io_q s" "zombie_q s' = zombie_q s" "thread_q s' = thread_q s"
    "sleep_q s' = sleep_q s" "sleepq_size s' = sleepq_size s" "conds s' = conds s"
    "mutexes s' = mutexes s" "pollqs s' = pollqs s" "keys s' = keys s" "stks s' = stks s"
    "evsys s' = evsys s" "calls s' = calls s" "pagesize s' = pagesize s"
    "switch_out_cb s' = switch_out_cb s" "switch_in_cb s' = switch_in_cb s"
    "curr_time s' = curr_time s" "last_tset s' = last_tset s"
    by (subst *, simp)+
  then show "heap_part s' = heap_part s"
    by (simp add: heap_part_def)
qed

end
