(* ===== verification/ST_EvSelect.thy ===== *)
theory ST_EvSelect
  imports ST_Event
begin

text \<open>
  The event system over \<open>select\<close> (\<open>event.c\<close>, \<open>_st_select_*\<close>): three sets of descriptors, a
  reference count per descriptor and kind of event, and the largest descriptor in use.
\<close>

section \<open>The sets and their counts\<close>

definition FD_SETSIZE :: int where "FD_SETSIZE = 1024"

definition st_select_init :: "bool \<Rightarrow> st \<Rightarrow> (errno + unit) \<times> st" where
  "st_select_init malloc_ok s =
     (if \<not> malloc_ok then (Inl ENOMEM, s)
      else (Inr (), s\<lparr>sel := \<lparr>fd_read_set = (\<lambda>_. False), fd_write_set = (\<lambda>_. False),
              fd_exception_set = (\<lambda>_. False), sel_read_cnt = (\<lambda>_. 0), sel_write_cnt = (\<lambda>_. 0),
              sel_excep_cnt = (\<lambda>_. 0), maxfd = - 1\<rparr>\<rparr>))"

definition sel_pd_ok :: "pollfd \<Rightarrow> bool" where
  "sel_pd_ok pd \<longleftrightarrow> \<not> (fd pd < 0 \<or> fd pd \<ge> FD_SETSIZE \<or> events pd = 0 \<or>
     events pd AND NOT (POLLIN OR POLLOUT OR POLLPRI) \<noteq> 0)"

text \<open>One turn of the loop of \<open>_st_select_pollset_add\<close>.\<close>

definition sel_add1 :: "pollfd \<Rightarrow> seldata \<Rightarrow> seldata" where
  "sel_add1 pd d =
     (let f = fd pd;
          d1 = (if wants pd POLLIN
                then d\<lparr>fd_read_set := (fd_read_set d)(f := True),
                       sel_read_cnt := (sel_read_cnt d)(f := sel_read_cnt d f + 1)\<rparr> else d);
          d2 = (if wants pd POLLOUT
                then d1\<lparr>fd_write_set := (fd_write_set d1)(f := True),
                        sel_write_cnt := (sel_write_cnt d1)(f := sel_write_cnt d1 f + 1)\<rparr> else d1);
          d3 = (if wants pd POLLPRI
                then d2\<lparr>fd_exception_set := (fd_exception_set d2)(f := True),
                        sel_excep_cnt := (sel_excep_cnt d2)(f := sel_excep_cnt d2 f + 1)\<rparr> else d2)
      in if maxfd d3 < f then d3\<lparr>maxfd := f\<rparr> else d3)"

definition st_select_pollset_add :: "pollfd list \<Rightarrow> st \<Rightarrow> (errno + unit) \<times> st" where
  "st_select_pollset_add ps s =
     (if \<not> list_all sel_pd_ok ps then (Inl EINVAL, s)
      else (Inr (), s\<lparr>sel := fold sel_add1 ps (sel s)\<rparr>))"

definition sel_del1 :: "pollfd \<Rightarrow> seldata \<Rightarrow> seldata" where
  "sel_del1 pd d =
     (let f = fd pd;
          d1 = (if wants pd POLLIN
                then (let n = sel_read_cnt d f - 1; d' = d\<lparr>sel_read_cnt := (sel_read_cnt d)(f := n)\<rparr>
                      in if n = 0 then d'\<lparr>fd_read_set := (fd_read_set d')(f := False)\<rparr> else d')
                else d);
          d2 = (if wants pd POLLOUT
                then (let n = sel_write_cnt d1 f - 1; d' = d1\<lparr>sel_write_cnt := (sel_write_cnt d1)(f := n)\<rparr>
                      in if n = 0 then d'\<lparr>fd_write_set := (fd_write_set d')(f := False)\<rparr> else d')
                else d1)
      in if wants pd POLLPRI
         then (let n = sel_excep_cnt d2 f - 1; d' = d2\<lparr>sel_excep_cnt := (sel_excep_cnt d2)(f := n)\<rparr>
               in if n = 0 then d'\<lparr>fd_exception_set := (fd_exception_set d')(f := False)\<rparr> else d')
         else d2)"

definition st_select_pollset_del :: "pollfd list \<Rightarrow> st \<Rightarrow> st" where
  "st_select_pollset_del ps s = s\<lparr>sel := fold sel_del1 ps (sel s)\<rparr>"

section \<open>Dispatch\<close>

text \<open>The largest descriptor of a request, from \<open>pq_max_osfd = -1\<close>.\<close>

fun max_osfd :: "int \<Rightarrow> pollfd list \<Rightarrow> int" where
  "max_osfd m [] = m"
| "max_osfd m (pd # ps) = max_osfd (if fd pd > m then fd pd else m) ps"

definition raise_maxfd :: "int \<Rightarrow> st \<Rightarrow> st" where
  "raise_maxfd m s = (if maxfd (sel s) < m then s\<lparr>sel := (sel s)\<lparr>maxfd := m\<rparr>\<rparr> else s)"

text \<open>What both loops over the queue do with a request once its \<open>revents\<close> are known.\<close>

definition sel_notify :: "bool \<Rightarrow> int \<Rightarrow> tid \<Rightarrow> st \<Rightarrow> st option" where
  "sel_notify notify m q s =
     (if notify
      then (let s1 = unlink_pollq q s; s2 = st_select_pollset_del (pds (pollqs s1 q)) s1
            in wake_pollq q s2)
      else Some (raise_maxfd m s))"

record sel_answer =
  sa_nfd :: int
  sa_errno :: errno
  sa_read :: "int \<Rightarrow> bool"
  sa_write :: "int \<Rightarrow> bool"
  sa_excep :: "int \<Rightarrow> bool"
  sa_fcntl_ok :: "int \<Rightarrow> bool"

definition sel_bad_revents :: "sel_answer \<Rightarrow> pollfd \<Rightarrow> pollfd" where
  "sel_bad_revents a pd =
     pd\<lparr>revents := (if events pd = 0 then 0 else if \<not> sa_fcntl_ok a (fd pd) then POLLNVAL else 0)\<rparr>"

definition find_bad_body :: "sel_answer \<Rightarrow> tid \<Rightarrow> st \<Rightarrow> st option" where
  "find_bad_body a q s =
     (let ps = map (sel_bad_revents a) (pds (pollqs s q));
          notify = list_ex (\<lambda>pd. events pd \<noteq> 0 \<and> \<not> sa_fcntl_ok a (fd pd)) ps;
          m = max_osfd (- 1) (filter (\<lambda>pd. events pd \<noteq> 0) ps)
      in sel_notify notify m q (set_pds q ps s))"

definition st_select_find_bad_fd :: "sel_answer \<Rightarrow> st \<Rightarrow> st option" where
  "st_select_find_bad_fd a s =
     ioq_loop (find_bad_body a) (io_q s) (s\<lparr>sel := (sel s)\<lparr>maxfd := - 1\<rparr>\<rparr>)"

definition sel_revents :: "sel_answer \<Rightarrow> pollfd \<Rightarrow> eventw" where
  "sel_revents a pd =
     (let r0 = 0;
          r1 = (if wants pd POLLIN \<and> sa_read a (fd pd) then r0 OR POLLIN else r0);
          r2 = (if wants pd POLLOUT \<and> sa_write a (fd pd) then r1 OR POLLOUT else r1)
      in if wants pd POLLPRI \<and> sa_excep a (fd pd) then r2 OR POLLPRI else r2)"

definition sel_body :: "sel_answer \<Rightarrow> tid \<Rightarrow> st \<Rightarrow> st option" where
  "sel_body a q s =
     (let ps = map (\<lambda>pd. pd\<lparr>revents := sel_revents a pd\<rparr>) (pds (pollqs s q));
          notify = list_ex (\<lambda>pd. revents pd \<noteq> 0) ps
      in sel_notify notify (max_osfd (- 1) ps) q (set_pds q ps s))"

text \<open>The call of \<open>select\<close>: its arguments are the largest descriptor plus 1, the sets and the timeout.\<close>

definition select_args :: "st \<Rightarrow> int \<times> (int \<Rightarrow> bool) \<times> (int \<Rightarrow> bool) \<times> (int \<Rightarrow> bool) \<times> (int \<times> int) option" where
  "select_args s = (maxfd (sel s) + 1, fd_read_set (sel s), fd_write_set (sel s),
     fd_exception_set (sel s), timeval_timeout s)"

definition st_select_dispatch :: "sel_answer \<Rightarrow> st \<Rightarrow> st option" where
  "st_select_dispatch a s =
     (if sa_nfd a > 0
      then ioq_loop (sel_body a) (io_q s) (s\<lparr>sel := (sel s)\<lparr>maxfd := - 1\<rparr>\<rparr>)
      else if sa_nfd a < 0 \<and> sa_errno a = EBADF then st_select_find_bad_fd a s
      else Some s)"

definition st_select_fd_new :: "int \<Rightarrow> errno + unit" where
  "st_select_fd_new osfd = (if osfd \<ge> FD_SETSIZE then Inl EMFILE else Inr ())"

definition st_select_fd_close :: "int \<Rightarrow> st \<Rightarrow> errno + unit" where
  "st_select_fd_close osfd s =
     (if sel_read_cnt (sel s) osfd \<noteq> 0 \<or> sel_write_cnt (sel s) osfd \<noteq> 0 \<or> sel_excep_cnt (sel s) osfd \<noteq> 0
      then Inl EBUSY else Inr ())"

definition st_select_fd_getlimit :: int where
  "st_select_fd_getlimit = FD_SETSIZE"

end
