(* ===== verification/ST_EvPoll.thy ===== *)
theory ST_EvPoll
  imports ST_Event
begin

text \<open>
  The event system over \<open>poll\<close> (\<open>event.c\<close>, \<open>_st_poll_*\<close>): only the number of descriptors of all
  requests is kept; each dispatch gathers them into one array.
\<close>

definition ST_MIN_POLLFDS_SIZE :: int where "ST_MIN_POLLFDS_SIZE = 64"

definition st_poll_init :: "bool \<Rightarrow> bool \<Rightarrow> st \<Rightarrow> (errno + unit) \<times> st" where
  "st_poll_init malloc_ok malloc_fds_ok s =
     (if \<not> malloc_ok \<or> \<not> malloc_fds_ok then (Inl ENOMEM, s)
      else (Inr (), s\<lparr>pol := \<lparr>pollfds_size = ST_MIN_POLLFDS_SIZE, fdcnt = 0\<rparr>\<rparr>))"

definition st_poll_pollset_add :: "pollfd list \<Rightarrow> st \<Rightarrow> (errno + unit) \<times> st" where
  "st_poll_pollset_add ps s =
     (if list_ex (\<lambda>pd. fd pd < 0 \<or> events pd = 0) ps then (Inl EINVAL, s)
      else (Inr (), s\<lparr>pol := (pol s)\<lparr>fdcnt := fdcnt (pol s) + int (length ps)\<rparr>\<rparr>))"

definition st_poll_pollset_del :: "pollfd list \<Rightarrow> st \<Rightarrow> st option" where
  "st_poll_pollset_del ps s =
     (let n = fdcnt (pol s) - int (length ps)
      in if n \<ge> 0 then Some (s\<lparr>pol := (pol s)\<lparr>fdcnt := n\<rparr>\<rparr>) else None)"

text \<open>The array handed to \<open>poll\<close>, and the place of each request in it.\<close>

definition gathered :: "st \<Rightarrow> pollfd list" where
  "gathered s = concat (map (\<lambda>q. pds (pollqs s q)) (io_q s))"

text \<open>\<open>poll\<close> answers a number and the \<open>revents\<close> of each element of the array; it changes nothing else.\<close>

record poll_answer =
  pa_nfd :: int
  pa_revents :: "eventw list"
  pa_malloc_ok :: bool

definition answered :: "poll_answer \<Rightarrow> pollfd list \<Rightarrow> pollfd list" where
  "answered a ps = map2 (\<lambda>pd r. pd\<lparr>revents := r\<rparr>) ps (pa_revents a)"

text \<open>The second loop over the queue; the first argument is the array from \<open>pollfds\<close> on.\<close>

fun poll_notify_loop :: "pollfd list \<Rightarrow> tid list \<Rightarrow> st \<Rightarrow> st option" where
  "poll_notify_loop fds [] s = Some s"
| "poll_notify_loop fds (q # qs) s =
     (let n = length (pds (pollqs s q)); mine = take n fds in
      if list_ex (\<lambda>pd. revents pd \<noteq> 0) mine
      then do {
        s1 \<leftarrow> wake_pollq q (unlink_pollq q (set_pds q mine s));
        s2 \<leftarrow> st_poll_pollset_del mine s1;
        poll_notify_loop (drop n fds) qs s2
      }
      else poll_notify_loop (drop n fds) qs s)"

definition poll_grow :: "poll_answer \<Rightarrow> st \<Rightarrow> st option" where
  "poll_grow a s =
     (if fdcnt (pol s) < 0 then None
      else if fdcnt (pol s) > pollfds_size (pol s)
      then if pa_malloc_ok a then Some (s\<lparr>pol := (pol s)\<lparr>pollfds_size := fdcnt (pol s) + 10\<rparr>\<rparr>) else None
      else Some s)"

definition st_poll_dispatch :: "poll_answer \<Rightarrow> st \<Rightarrow> st option" where
  "st_poll_dispatch a s =
     do {
       s1 \<leftarrow> poll_grow a s;
       (if int (length (gathered s1)) > pollfds_size (pol s1) then None
        else if pa_nfd a > 0 then poll_notify_loop (answered a (gathered s1)) (io_q s1) s1
        else Some s1)
     }"

definition st_poll_fd_new :: "int \<Rightarrow> errno + unit" where
  "st_poll_fd_new osfd = Inr ()"

definition st_poll_fd_close :: "int \<Rightarrow> st \<Rightarrow> errno + unit" where
  "st_poll_fd_close osfd s = Inr ()"

definition st_poll_fd_getlimit :: int where
  "st_poll_fd_getlimit = 0"

end
