(* ===== verification/ST_EvKq.thy ===== *)
theory ST_EvKq
  imports ST_Event
begin

text \<open>
  The event system over \<open>kqueue\<close> (\<open>event.c\<close>, \<open>_st_kq_*\<close>). Registrations (\<open>EV_ADD | EV_ONESHOT\<close>)
  are collected in \<open>addlist\<close> and handed over with the next wait; deletions are handed over at
  once, which \<open>kq_deleted\<close> records. The counters \<open>addlist_cnt\<close> and \<open>dellist_cnt\<close> are the lengths
  of the lists. The argument \<open>mem i n\<close> says whether the allocation of \<open>n\<close> elements for table \<open>i\<close>
  succeeds.
\<close>

definition ST_KQ_MIN_EVTLIST_SIZE :: int where "ST_KQ_MIN_EVTLIST_SIZE = 64"
definition KQ_FD_SETSIZE :: int where "KQ_FD_SETSIZE = 1024"

section \<open>Tables\<close>

definition st_kq_init :: "(nat \<Rightarrow> int \<Rightarrow> bool) \<Rightarrow> errno + int \<Rightarrow> int \<Rightarrow> st \<Rightarrow> (errno + unit) \<times> st" where
  "st_kq_init mem kqueue_answer pid s =
     (if \<not> mem 4 1 then (Inl ENOMEM, s)
      else (case kqueue_answer of
        Inl e \<Rightarrow> (Inl e, s)
      | Inr k \<Rightarrow>
         if \<not> mem 0 KQ_FD_SETSIZE then (Inl ENOMEM, s)
         else if \<not> mem 2 ST_KQ_MIN_EVTLIST_SIZE \<or> \<not> mem 1 ST_KQ_MIN_EVTLIST_SIZE \<or>
            \<not> mem 3 ST_KQ_MIN_EVTLIST_SIZE then (Inl ENOMEM, s)
         else (Inr (), s\<lparr>kqd := \<lparr>kq_rd_ref_cnt = (\<lambda>_. 0), kq_wr_ref_cnt = (\<lambda>_. 0), kq_revents = (\<lambda>_. 0),
                 kq_fd_data_size = KQ_FD_SETSIZE, kq_evtlist_size = ST_KQ_MIN_EVTLIST_SIZE,
                 addlist = [], addlist_size = ST_KQ_MIN_EVTLIST_SIZE,
                 dellist = [], dellist_size = ST_KQ_MIN_EVTLIST_SIZE, kq = k, kq_pid = pid,
                 kq_deleted = []\<rparr>\<rparr>)))"

text \<open>Zero the new part of a table that grew from \<open>a\<close> to \<open>b\<close>.\<close>

definition zero_new :: "int \<Rightarrow> int \<Rightarrow> (int \<Rightarrow> 'a::zero) \<Rightarrow> int \<Rightarrow> 'a" where
  "zero_new a b f = (\<lambda>i. if a \<le> i \<and> i < b then 0 else f i)"

definition st_kq_fd_data_expand :: "(nat \<Rightarrow> int \<Rightarrow> bool) \<Rightarrow> int \<Rightarrow> kqdata \<Rightarrow> (bool \<times> kqdata) option" where
  "st_kq_fd_data_expand mem top_fd d =
     do {
       n \<leftarrow> grow (kq_fd_data_size d) top_fd;
       (if \<not> mem 0 n then Some (False, d)
        else let z = (kq_fd_data_size d) in
          Some (True, d\<lparr>kq_rd_ref_cnt := zero_new z n (kq_rd_ref_cnt d),
                        kq_wr_ref_cnt := zero_new z n (kq_wr_ref_cnt d),
                        kq_revents := zero_new z n (kq_revents d),
                        kq_fd_data_size := n\<rparr>))
     }"

text \<open>\<open>while (avail > n - addlist_cnt) n <<= 1;\<close>\<close>

definition st_kq_addlist_expand :: "(nat \<Rightarrow> int \<Rightarrow> bool) \<Rightarrow> int \<Rightarrow> kqdata \<Rightarrow> (bool \<times> kqdata) option" where
  "st_kq_addlist_expand mem avail d =
     do {
       n \<leftarrow> grow (addlist_size d) (avail + int (length (addlist d)) - 1);
       (if \<not> mem 1 n then Some (False, d)
        else let d1 = d\<lparr>addlist_size := n\<rparr>
             in Some (True, if mem 2 n then d1\<lparr>kq_evtlist_size := n\<rparr> else d1))
     }"

definition st_kq_addlist_add :: "kevent \<Rightarrow> kqdata \<Rightarrow> kqdata option" where
  "st_kq_addlist_add kev d =
     (if int (length (addlist d)) < addlist_size d then Some (d\<lparr>addlist := addlist d @ [kev]\<rparr>) else None)"

definition st_kq_dellist_add :: "(nat \<Rightarrow> int \<Rightarrow> bool) \<Rightarrow> kevent \<Rightarrow> kqdata \<Rightarrow> kqdata" where
  "st_kq_dellist_add mem kev d =
     (let n = dellist_size d in
      if int (length (dellist d)) \<ge> n
      then (if \<not> mem 3 (2 * n) then d
            else d\<lparr>dellist_size := 2 * n, dellist := dellist d @ [kev]\<rparr>)
      else d\<lparr>dellist := dellist d @ [kev]\<rparr>)"

section \<open>Poll sets\<close>

fun kq_check :: "(nat \<Rightarrow> int \<Rightarrow> bool) \<Rightarrow> pollfd list \<Rightarrow> kqdata \<Rightarrow> ((errno + unit) \<times> kqdata) option" where
  "kq_check mem [] d = Some (Inr (), d)"
| "kq_check mem (pd # ps) d =
     (if fd pd < 0 \<or> events pd = 0 \<or> events pd AND NOT (POLLIN OR POLLOUT) \<noteq> 0
      then Some (Inl EINVAL, d)
      else if fd pd \<ge> kq_fd_data_size d
      then do {
        (ok, d1) \<leftarrow> st_kq_fd_data_expand mem (fd pd) d;
        (if ok then kq_check mem ps d1 else Some (Inl ENOMEM, d1))
      }
      else kq_check mem ps d)"

definition kq_add1 :: "pollfd \<Rightarrow> kqdata \<Rightarrow> kqdata option" where
  "kq_add1 pd d =
     (let f = fd pd in
      do {
        d2 \<leftarrow> (if wants pd POLLIN
                then let n = kq_rd_ref_cnt d f; d1 = d\<lparr>kq_rd_ref_cnt := (kq_rd_ref_cnt d)(f := n + 1)\<rparr>
                     in if n = 0 then st_kq_addlist_add \<lparr>ident = f, kfilter = EVFILT_READ, kflags = EV_ADD_ONESHOT\<rparr> d1
                        else Some d1
                else Some d);
        (if wants pd POLLOUT
         then let n = kq_wr_ref_cnt d2 f; d3 = d2\<lparr>kq_wr_ref_cnt := (kq_wr_ref_cnt d2)(f := n + 1)\<rparr>
              in if n = 0 then st_kq_addlist_add \<lparr>ident = f, kfilter = EVFILT_WRITE, kflags = EV_ADD_ONESHOT\<rparr> d3
                 else Some d3
         else Some d2)
      })"

fun kq_add_loop :: "pollfd list \<Rightarrow> kqdata \<Rightarrow> kqdata option" where
  "kq_add_loop [] d = Some d"
| "kq_add_loop (pd # ps) d = do { d1 \<leftarrow> kq_add1 pd d; kq_add_loop ps d1 }"

definition kq_pollset_add :: "(nat \<Rightarrow> int \<Rightarrow> bool) \<Rightarrow> pollfd list \<Rightarrow> kqdata \<Rightarrow> ((errno + unit) \<times> kqdata) option" where
  "kq_pollset_add mem ps d =
     do {
       (r, d1) \<leftarrow> kq_check mem ps d;
       (case r of
          Inl e \<Rightarrow> Some (Inl e, d1)
        | Inr _ \<Rightarrow>
           let n = 2 * int (length ps) in
           do {
             (ok, d2) \<leftarrow> (if n > addlist_size d1 - int (length (addlist d1))
                            then st_kq_addlist_expand mem n d1 else Some (True, d1));
             (if \<not> ok then Some (Inl ENOMEM, d2)
              else do { d3 \<leftarrow> kq_add_loop ps d2; Some (Inr (), d3) })
           })
     }"

definition st_kq_pollset_add :: "(nat \<Rightarrow> int \<Rightarrow> bool) \<Rightarrow> pollfd list \<Rightarrow> st \<Rightarrow> ((errno + unit) \<times> st) option" where
  "st_kq_pollset_add mem ps s =
     do { (r, d) \<leftarrow> kq_pollset_add mem ps (kqd s); Some (r, s\<lparr>kqd := d\<rparr>) }"

text \<open>The body of the loops that drop a descriptor; \<open>fired\<close> are the events that need no deletion.\<close>

definition kq_del1 :: "(nat \<Rightarrow> int \<Rightarrow> bool) \<Rightarrow> eventw \<Rightarrow> pollfd \<Rightarrow> kqdata \<Rightarrow> kqdata" where
  "kq_del1 mem fired pd d =
     (let f = fd pd;
          d2 = (if wants pd POLLIN
                then let n = kq_rd_ref_cnt d f - 1; d1 = d\<lparr>kq_rd_ref_cnt := (kq_rd_ref_cnt d)(f := n)\<rparr>
                     in if n = 0 \<and> fired AND POLLIN = 0
                        then st_kq_dellist_add mem \<lparr>ident = f, kfilter = EVFILT_READ, kflags = EV_DELETE\<rparr> d1
                        else d1
                else d)
      in if wants pd POLLOUT
         then let n = kq_wr_ref_cnt d2 f - 1; d3 = d2\<lparr>kq_wr_ref_cnt := (kq_wr_ref_cnt d2)(f := n)\<rparr>
              in if n = 0 \<and> fired AND POLLOUT = 0
                 then st_kq_dellist_add mem \<lparr>ident = f, kfilter = EVFILT_WRITE, kflags = EV_DELETE\<rparr> d3
                 else d3
         else d2)"

text \<open>Hand the delete list to the kernel; the answer is not used.\<close>

definition kq_submit :: "kqdata \<Rightarrow> kqdata" where
  "kq_submit d = (if length (dellist d) > 0 then d\<lparr>kq_deleted := kq_deleted d @ dellist d\<rparr> else d)"

definition kq_pollset_del :: "(nat \<Rightarrow> int \<Rightarrow> bool) \<Rightarrow> pollfd list \<Rightarrow> kqdata \<Rightarrow> kqdata" where
  "kq_pollset_del mem ps d = kq_submit (fold (kq_del1 mem 0) ps (d\<lparr>dellist := []\<rparr>))"

definition st_kq_pollset_del :: "(nat \<Rightarrow> int \<Rightarrow> bool) \<Rightarrow> pollfd list \<Rightarrow> st \<Rightarrow> st" where
  "st_kq_pollset_del mem ps s = s\<lparr>kqd := kq_pollset_del mem ps (kqd s)\<rparr>"

section \<open>Dispatch\<close>

record kq_event =
  ke_ident :: int
  ke_filter :: kq_filter
  ke_error :: "errno option" \<comment> \<open>\<open>data\<close>, when \<open>EV_ERROR\<close> is set\<close>

datatype kq_answer = Kq_ready "kq_event list" | Kq_failed errno

definition kq_mark :: "kq_event \<Rightarrow> kqdata \<Rightarrow> kqdata" where
  "kq_mark e d =
     (let f = ke_ident e;
          r1 = kq_revents d f OR (case ke_filter e of EVFILT_READ \<Rightarrow> POLLIN | EVFILT_WRITE \<Rightarrow> POLLOUT);
          r2 = (case ke_error e of
                  None \<Rightarrow> r1
                | Some EBADF \<Rightarrow> r1 OR POLLNVAL
                | Some _ \<Rightarrow> r1 OR POLLERR)
      in d\<lparr>kq_revents := (kq_revents d)(f := r2)\<rparr>)"

definition kq_unmark :: "kq_event \<Rightarrow> kqdata \<Rightarrow> kqdata" where
  "kq_unmark e d = d\<lparr>kq_revents := (kq_revents d)(ke_ident e := 0)\<rparr>"

definition kq_pd_revents :: "kqdata \<Rightarrow> pollfd \<Rightarrow> eventw" where
  "kq_pd_revents d pd =
     (let rv = kq_revents d (fd pd);
          r0 = rv AND NOT (POLLIN OR POLLOUT);
          r1 = (if wants pd POLLIN \<and> rv AND POLLIN \<noteq> 0 then r0 OR POLLIN else r0)
      in if wants pd POLLOUT \<and> rv AND POLLOUT \<noteq> 0 then r1 OR POLLOUT else r1)"

definition kq_body :: "(nat \<Rightarrow> int \<Rightarrow> bool) \<Rightarrow> tid \<Rightarrow> st \<Rightarrow> st option" where
  "kq_body mem q s =
     (let ps = map (\<lambda>pd. pd\<lparr>revents := kq_pd_revents (kqd s) pd\<rparr>) (pds (pollqs s q));
          s1 = set_pds q ps s
      in if list_ex (\<lambda>pd. revents pd \<noteq> 0) ps
         then (let s2 = unlink_pollq q s1;
                   s3 = s2\<lparr>kqd := fold (\<lambda>pd d. kq_del1 mem (kq_revents d (fd pd)) pd d) ps (kqd s2)\<rparr>
               in wake_pollq q s3)
         else Some s1)"

text \<open>Registering the requests of the queue anew, after a fork; failures are not looked at.\<close>

fun kq_readd :: "(nat \<Rightarrow> int \<Rightarrow> bool) \<Rightarrow> tid list \<Rightarrow> st \<Rightarrow> st option" where
  "kq_readd mem [] s = Some s"
| "kq_readd mem (q # qs) s =
     do { (_, s1) \<leftarrow> st_kq_pollset_add mem (pds (pollqs s q)) s; kq_readd mem qs s1 }"

record kq_env =
  kv_mem :: "nat \<Rightarrow> int \<Rightarrow> bool"
  kv_pid :: int
  kv_first :: kq_answer
  kv_kqueue :: "errno + int"
  kv_second :: kq_answer

text \<open>From the call of \<open>kevent\<close> on; \<open>Inr\<close> is \<open>goto retry_kevent\<close>.\<close>

definition kq_wait :: "kq_env \<Rightarrow> kq_answer \<Rightarrow> st \<Rightarrow> (st + st) option" where
  "kq_wait e a s0 =
     (let s = s0\<lparr>kqd := (kqd s0)\<lparr>addlist := []\<rparr>\<rparr> in
      case a of
        Kq_ready evs \<Rightarrow>
          if evs = [] then Some (Inl s)
          else do {
            let s1 = s\<lparr>kqd := (fold kq_mark evs (kqd s))\<lparr>dellist := []\<rparr>\<rparr>;
            s2 \<leftarrow> ioq_loop (kq_body (kv_mem e)) (io_q s1) s1;
            let s3 = s2\<lparr>kqd := kq_submit (kqd s2)\<rparr>;
            Some (Inl (s3\<lparr>kqd := fold kq_unmark evs (kqd s3)\<rparr>))
          }
      | Kq_failed err \<Rightarrow>
          if err = EBADF \<and> kq_pid (kqd s) \<noteq> kv_pid e
          then (case kv_kqueue e of
                  Inl _ \<Rightarrow> Some (Inl (s\<lparr>kqd := (kqd s)\<lparr>kq := - 1\<rparr>\<rparr>))
                | Inr k \<Rightarrow>
                   do {
                     s1 \<leftarrow> kq_readd (kv_mem e) (io_q s)
                       (s\<lparr>kqd := (kqd s)\<lparr>kq := k, kq_pid := kv_pid e, kq_rd_ref_cnt := (\<lambda>_. 0),
                                         kq_wr_ref_cnt := (\<lambda>_. 0), kq_revents := (\<lambda>_. 0)\<rparr>\<rparr>);
                     Some (Inr s1)
                   })
          else Some (Inl s))"

definition st_kq_dispatch :: "kq_env \<Rightarrow> st \<Rightarrow> st option" where
  "st_kq_dispatch e s =
     do {
       r \<leftarrow> kq_wait e (kv_first e) s;
       (case r of
          Inl s1 \<Rightarrow> Some s1
        | Inr s1 \<Rightarrow> do { r' \<leftarrow> kq_wait e (kv_second e) s1;
                         (case r' of Inl s2 \<Rightarrow> Some s2 | Inr _ \<Rightarrow> None) })
     }"

definition st_kq_fd_new :: "(nat \<Rightarrow> int \<Rightarrow> bool) \<Rightarrow> int \<Rightarrow> st \<Rightarrow> ((errno + unit) \<times> st) option" where
  "st_kq_fd_new mem osfd s =
     (if osfd \<ge> kq_fd_data_size (kqd s)
      then do { (ok, d) \<leftarrow> st_kq_fd_data_expand mem osfd (kqd s);
                Some (if ok then Inr () else Inl ENOMEM, s\<lparr>kqd := d\<rparr>) }
      else Some (Inr (), s))"

definition st_kq_fd_close :: "int \<Rightarrow> st \<Rightarrow> errno + unit" where
  "st_kq_fd_close osfd s =
     (if kq_rd_ref_cnt (kqd s) osfd \<noteq> 0 \<or> kq_wr_ref_cnt (kqd s) osfd \<noteq> 0 then Inl EBUSY else Inr ())"

definition st_kq_fd_getlimit :: int where
  "st_kq_fd_getlimit = 0"

end
