(* ===== verification/ST_EvEpoll.thy ===== *)
theory ST_EvEpoll
  imports ST_Event
begin

text \<open>
  The event system over \<open>epoll\<close> (\<open>event.c\<close>, \<open>_st_epoll_*\<close>): a reference count per descriptor and
  kind of event, mirrored into the kernel by \<open>epoll_ctl\<close>. \<open>ctl_log\<close> holds the calls of \<open>epoll_ctl\<close>
  made on the present epoll set; the answer to a call (\<open>None\<close>: it succeeds) may depend on all calls before it. The
  argument \<open>mem n\<close> says whether an allocation of \<open>n\<close> elements succeeds.
\<close>

definition EPOLLIN :: flagw where "EPOLLIN = 0x01"
definition EPOLLPRI :: flagw where "EPOLLPRI = 0x02"
definition EPOLLOUT :: flagw where "EPOLLOUT = 0x04"
definition EPOLLERR :: flagw where "EPOLLERR = 0x08"
definition EPOLLHUP :: flagw where "EPOLLHUP = 0x10"

lemmas EPOLL_defs = EPOLLIN_def EPOLLPRI_def EPOLLOUT_def EPOLLERR_def EPOLLHUP_def

definition ST_EPOLL_EVTLIST_SIZE :: int where "ST_EPOLL_EVTLIST_SIZE = 4096"

type_synonym ctl_oracle = "(epoll_op \<times> int \<times> flagw) list \<Rightarrow> errno option"

section \<open>Tables\<close>

definition epoll_fd_hint :: "int \<Rightarrow> int" where
  "epoll_fd_hint fdlim = (if fdlim > 0 \<and> fdlim < ST_EPOLL_EVTLIST_SIZE then fdlim else ST_EPOLL_EVTLIST_SIZE)"

definition st_epoll_init ::
    "(nat \<Rightarrow> int \<Rightarrow> bool) \<Rightarrow> int \<Rightarrow> errno + int \<Rightarrow> int \<Rightarrow> st \<Rightarrow> (errno + unit) \<times> st" where
  "st_epoll_init mem fdlim epoll_create_answer pid s =
     (if \<not> mem 0 1 then (Inl ENOMEM, s)
      else let hint = epoll_fd_hint fdlim in
        (case epoll_create_answer of
           Inl e \<Rightarrow> (Inl e, s)
         | Inr f \<Rightarrow>
            if \<not> mem 1 hint then (Inl ENOMEM, s)
            else if \<not> mem 2 hint then (Inl ENOMEM, s)
            else (Inr (), s\<lparr>epd := \<lparr>ep_rd_ref_cnt = (\<lambda>_. 0), ep_wr_ref_cnt = (\<lambda>_. 0), ep_ex_ref_cnt = (\<lambda>_. 0),
                    ep_revents = (\<lambda>_. 0), ep_fd_data_size = hint, evtlist_size = hint, evtlist_cnt = 0,
                    fd_hint = hint, epfd = f, ep_pid = pid, ctl_log = []\<rparr>\<rparr>)))"

definition st_epoll_fd_data_expand :: "(int \<Rightarrow> bool) \<Rightarrow> int \<Rightarrow> epolldata \<Rightarrow> (bool \<times> epolldata) option" where
  "st_epoll_fd_data_expand mem top_fd d =
     do {
       n \<leftarrow> grow (ep_fd_data_size d) top_fd;
       (if \<not> mem n then Some (False, d)
        else let z = (\<lambda>f i. if ep_fd_data_size d \<le> i \<and> i < n then 0 else f i);
                 zr = (\<lambda>f i. if ep_fd_data_size d \<le> i \<and> i < n then 0 else f i) in
          Some (True, d\<lparr>ep_rd_ref_cnt := z (ep_rd_ref_cnt d), ep_wr_ref_cnt := z (ep_wr_ref_cnt d),
                        ep_ex_ref_cnt := z (ep_ex_ref_cnt d), ep_revents := zr (ep_revents d),
                        ep_fd_data_size := n\<rparr>))
     }"

text \<open>\<open>while (evtlist_cnt > n) n <<= 1;\<close>\<close>

definition st_epoll_evtlist_expand :: "(int \<Rightarrow> bool) \<Rightarrow> epolldata \<Rightarrow> epolldata option" where
  "st_epoll_evtlist_expand mem d =
     do {
       n \<leftarrow> grow (evtlist_size d) (evtlist_cnt d - 1);
       Some (if mem n then d\<lparr>evtlist_size := n\<rparr> else d)
     }"

section \<open>Poll sets\<close>

definition ep_events :: "epolldata \<Rightarrow> int \<Rightarrow> flagw" where
  "ep_events d f =
     (if ep_rd_ref_cnt d f \<noteq> 0 then EPOLLIN else 0) OR
     (if ep_wr_ref_cnt d f \<noteq> 0 then EPOLLOUT else 0) OR
     (if ep_ex_ref_cnt d f \<noteq> 0 then EPOLLPRI else 0)"

definition epoll_ctl :: "ctl_oracle \<Rightarrow> epoll_op \<Rightarrow> int \<Rightarrow> flagw \<Rightarrow> epolldata \<Rightarrow> errno option \<times> epolldata" where
  "epoll_ctl ctl op f ev d =
     (let l = ctl_log d @ [(op, f, ev)] in (ctl l, d\<lparr>ctl_log := l\<rparr>))"

definition ep_count :: "(int \<Rightarrow> int) \<Rightarrow> pollfd \<Rightarrow> epolldata \<Rightarrow> epolldata" where
  "ep_count upd pd d =
     (let f = fd pd;
          d1 = (if wants pd POLLIN
                then d\<lparr>ep_rd_ref_cnt := (ep_rd_ref_cnt d)(f := upd (ep_rd_ref_cnt d f))\<rparr> else d);
          d2 = (if wants pd POLLOUT
                then d1\<lparr>ep_wr_ref_cnt := (ep_wr_ref_cnt d1)(f := upd (ep_wr_ref_cnt d1 f))\<rparr> else d1)
      in if wants pd POLLPRI
         then d2\<lparr>ep_ex_ref_cnt := (ep_ex_ref_cnt d2)(f := upd (ep_ex_ref_cnt d2 f))\<rparr> else d2)"

definition ep_del1 :: "ctl_oracle \<Rightarrow> pollfd \<Rightarrow> epolldata \<Rightarrow> epolldata" where
  "ep_del1 ctl pd d =
     (let f = fd pd;
          old_events = ep_events d f;
          d1 = ep_count (\<lambda>n. n - 1) pd d;
          evs = ep_events d1 f
      in if evs \<noteq> old_events \<and> ep_revents d1 f = 0
         then (let op = (if evs \<noteq> 0 then EPOLL_CTL_MOD else EPOLL_CTL_DEL);
                   (r, d2) = epoll_ctl ctl op f evs d1
               in if r = None \<and> op = EPOLL_CTL_DEL then d2\<lparr>evtlist_cnt := evtlist_cnt d2 - 1\<rparr> else d2)
         else d1)"

definition ep_pollset_del :: "ctl_oracle \<Rightarrow> pollfd list \<Rightarrow> epolldata \<Rightarrow> epolldata" where
  "ep_pollset_del ctl ps d = fold (ep_del1 ctl) ps d"

definition st_epoll_pollset_del :: "ctl_oracle \<Rightarrow> pollfd list \<Rightarrow> st \<Rightarrow> st" where
  "st_epoll_pollset_del ctl ps s = s\<lparr>epd := ep_pollset_del ctl ps (epd s)\<rparr>"

fun ep_check :: "(int \<Rightarrow> bool) \<Rightarrow> pollfd list \<Rightarrow> epolldata \<Rightarrow> ((errno + unit) \<times> epolldata) option" where
  "ep_check mem [] d = Some (Inr (), d)"
| "ep_check mem (pd # ps) d =
     (if fd pd < 0 \<or> events pd = 0 \<or> events pd AND NOT (POLLIN OR POLLOUT OR POLLPRI) \<noteq> 0
      then Some (Inl EINVAL, d)
      else if fd pd \<ge> ep_fd_data_size d
      then do {
        (ok, d1) \<leftarrow> st_epoll_fd_data_expand mem (fd pd) d;
        (if ok then ep_check mem ps d1 else Some (Inl ENOMEM, d1))
      }
      else ep_check mem ps d)"

text \<open>
  One turn of the second loop of \<open>_st_epoll_pollset_add\<close>; \<open>Inl e\<close> is the \<open>break\<close>, with \<open>errno\<close>.
\<close>

definition ep_add1 :: "(int \<Rightarrow> bool) \<Rightarrow> ctl_oracle \<Rightarrow> pollfd \<Rightarrow> epolldata \<Rightarrow> ((errno + unit) \<times> epolldata) option" where
  "ep_add1 mem ctl pd d =
     (let f = fd pd;
          old_events = ep_events d f;
          d1 = ep_count (\<lambda>n. n + 1) pd d;
          evs = ep_events d1 f
      in if evs \<noteq> old_events
         then (let op = (if old_events \<noteq> 0 then EPOLL_CTL_MOD else EPOLL_CTL_ADD);
                   (r, d2) = epoll_ctl ctl op f evs d1
               in if r \<noteq> None \<and> (op \<noteq> EPOLL_CTL_ADD \<or> r \<noteq> Some EEXIST) then Some (Inl (the r), d2)
                  else if op = EPOLL_CTL_ADD
                  then (let d3 = d2\<lparr>evtlist_cnt := evtlist_cnt d2 + 1\<rparr>
                        in if evtlist_cnt d3 > evtlist_size d3
                           then do { d4 \<leftarrow> st_epoll_evtlist_expand mem d3; Some (Inr (), d4) }
                           else Some (Inr (), d3))
                  else Some (Inr (), d2))
         else Some (Inr (), d1))"

text \<open>The loop; \<open>done\<close> are the descriptors dealt with, \<open>i\<close> of them.\<close>

fun ep_add_loop :: "(int \<Rightarrow> bool) \<Rightarrow> ctl_oracle \<Rightarrow> pollfd list \<Rightarrow> pollfd list \<Rightarrow> epolldata \<Rightarrow>
    ((errno + unit) \<times> epolldata) option" where
  "ep_add_loop mem ctl dn [] d = Some (Inr (), d)"
| "ep_add_loop mem ctl dn (pd # ps) d =
     do {
       (r, d1) \<leftarrow> ep_add1 mem ctl pd d;
       (case r of
          Inl e \<Rightarrow> Some (Inl e, ep_pollset_del ctl (dn @ [pd]) d1)
        | Inr _ \<Rightarrow> ep_add_loop mem ctl (dn @ [pd]) ps d1)
     }"

definition ep_pollset_add :: "(int \<Rightarrow> bool) \<Rightarrow> ctl_oracle \<Rightarrow> pollfd list \<Rightarrow> epolldata \<Rightarrow>
    ((errno + unit) \<times> epolldata) option" where
  "ep_pollset_add mem ctl ps d =
     do {
       (r, d1) \<leftarrow> ep_check mem ps d;
       (case r of Inl e \<Rightarrow> Some (Inl e, d1) | Inr _ \<Rightarrow> ep_add_loop mem ctl [] ps d1)
     }"

definition st_epoll_pollset_add :: "(int \<Rightarrow> bool) \<Rightarrow> ctl_oracle \<Rightarrow> pollfd list \<Rightarrow> st \<Rightarrow>
    ((errno + unit) \<times> st) option" where
  "st_epoll_pollset_add mem ctl ps s =
     do { (r, d) \<leftarrow> ep_pollset_add mem ctl ps (epd s); Some (r, s\<lparr>epd := d\<rparr>) }"

section \<open>Dispatch\<close>

record ep_event =
  ee_fd :: int
  ee_events :: flagw

record ep_env =
  ev_mem :: "int \<Rightarrow> bool"
  ev_ctl :: ctl_oracle
  ev_pid :: int
  ev_create :: int
  ev_wait :: "ep_event list" \<comment> \<open>empty when \<open>epoll_wait\<close> times out or fails\<close>

fun ep_readd :: "(int \<Rightarrow> bool) \<Rightarrow> ctl_oracle \<Rightarrow> tid list \<Rightarrow> st \<Rightarrow> st option" where
  "ep_readd mem ctl [] s = Some s"
| "ep_readd mem ctl (q # qs) s =
     do { (_, s1) \<leftarrow> st_epoll_pollset_add mem ctl (pds (pollqs s q)) s; ep_readd mem ctl qs s1 }"

text \<open>The start of the dispatch after a fork; \<open>Inl\<close> is the \<open>return\<close>.\<close>

definition ep_reinit :: "ep_env \<Rightarrow> st \<Rightarrow> (st + st) option" where
  "ep_reinit e s =
     (if ep_pid (epd s) \<noteq> ev_pid e
      then let s1 = s\<lparr>epd := (epd s)\<lparr>epfd := ev_create e\<rparr>\<rparr> in
        if ev_create e < 0 then Some (Inl s1)
        else do {
          s2 \<leftarrow> ep_readd (ev_mem e) (ev_ctl e) (io_q s1)
            (s1\<lparr>epd := (epd s1)\<lparr>ep_pid := ev_pid e, ep_rd_ref_cnt := (\<lambda>_. 0), ep_wr_ref_cnt := (\<lambda>_. 0),
                               ep_ex_ref_cnt := (\<lambda>_. 0), ep_revents := (\<lambda>_. 0), evtlist_cnt := 0,
                               ctl_log := []\<rparr>\<rparr>);
          Some (Inr s2)
        }
      else Some (Inr s))"

definition ep_mark :: "ep_event \<Rightarrow> epolldata \<Rightarrow> epolldata" where
  "ep_mark e d =
     (let f = ee_fd e; r = ee_events e;
          r' = (if r AND (EPOLLERR OR EPOLLHUP) \<noteq> 0 then r OR ep_events d f else r)
      in d\<lparr>ep_revents := (ep_revents d)(f := r')\<rparr>)"

definition ep_pd_revents :: "epolldata \<Rightarrow> pollfd \<Rightarrow> eventw" where
  "ep_pd_revents d pd =
     (let rv = ep_revents d (fd pd) in
      if rv = 0 then 0
      else let r0 = 0;
               r1 = (if wants pd POLLIN \<and> rv AND EPOLLIN \<noteq> 0 then r0 OR POLLIN else r0);
               r2 = (if wants pd POLLOUT \<and> rv AND EPOLLOUT \<noteq> 0 then r1 OR POLLOUT else r1);
               r3 = (if wants pd POLLPRI \<and> rv AND EPOLLPRI \<noteq> 0 then r2 OR POLLPRI else r2);
               r4 = (if rv AND EPOLLERR \<noteq> 0 then r3 OR POLLERR else r3)
           in if rv AND EPOLLHUP \<noteq> 0 then r4 OR POLLHUP else r4)"

definition ep_body :: "ctl_oracle \<Rightarrow> tid \<Rightarrow> st \<Rightarrow> st option" where
  "ep_body ctl q s =
     (let ps = map (\<lambda>pd. pd\<lparr>revents := ep_pd_revents (epd s) pd\<rparr>) (pds (pollqs s q));
          s1 = set_pds q ps s
      in if list_ex (\<lambda>pd. revents pd \<noteq> 0) ps
         then wake_pollq q (st_epoll_pollset_del ctl ps (unlink_pollq q s1))
         else Some s1)"

text \<open>One turn of the last loop of the dispatch, for a descriptor that fired.\<close>

definition ep_rearm :: "ctl_oracle \<Rightarrow> ep_event \<Rightarrow> epolldata \<Rightarrow> epolldata" where
  "ep_rearm ctl e d =
     (let f = ee_fd e;
          d1 = d\<lparr>ep_revents := (ep_revents d)(f := 0)\<rparr>;
          evs = ep_events d1 f;
          op = (if evs \<noteq> 0 then EPOLL_CTL_MOD else EPOLL_CTL_DEL);
          (r, d2) = epoll_ctl ctl op f evs d1
      in if r = None \<and> op = EPOLL_CTL_DEL then d2\<lparr>evtlist_cnt := evtlist_cnt d2 - 1\<rparr> else d2)"

definition st_epoll_dispatch :: "ep_env \<Rightarrow> st \<Rightarrow> st option" where
  "st_epoll_dispatch e s =
     do {
       r \<leftarrow> ep_reinit e s;
       (case r of
          Inl s1 \<Rightarrow> Some s1
        | Inr s1 \<Rightarrow>
           if ev_wait e = [] then Some s1
           else do {
             let s2 = s1\<lparr>epd := fold ep_mark (ev_wait e) (epd s1)\<rparr>;
             s3 \<leftarrow> ioq_loop (ep_body (ev_ctl e)) (io_q s2) s2;
             Some (s3\<lparr>epd := fold (ep_rearm (ev_ctl e)) (ev_wait e) (epd s3)\<rparr>)
           })
     }"

definition st_epoll_fd_new :: "(int \<Rightarrow> bool) \<Rightarrow> int \<Rightarrow> st \<Rightarrow> ((errno + unit) \<times> st) option" where
  "st_epoll_fd_new mem osfd s =
     (if osfd \<ge> ep_fd_data_size (epd s)
      then do { (ok, d) \<leftarrow> st_epoll_fd_data_expand mem osfd (epd s);
                Some (if ok then Inr () else Inl ENOMEM, s\<lparr>epd := d\<rparr>) }
      else Some (Inr (), s))"

definition st_epoll_fd_close :: "int \<Rightarrow> st \<Rightarrow> errno + unit" where
  "st_epoll_fd_close osfd s =
     (if ep_rd_ref_cnt (epd s) osfd \<noteq> 0 \<or> ep_wr_ref_cnt (epd s) osfd \<noteq> 0 \<or> ep_ex_ref_cnt (epd s) osfd \<noteq> 0
      then Inl EBUSY else Inr ())"

definition st_epoll_fd_getlimit :: int where
  "st_epoll_fd_getlimit = 0"

text \<open>The probe \<open>epoll_ctl(-1, EPOLL_CTL_ADD, -1, &ev)\<close> always fails, with the given \<open>errno\<close>.\<close>

definition st_epoll_is_supported :: "errno \<Rightarrow> bool" where
  "st_epoll_is_supported probe \<longleftrightarrow> probe \<noteq> ENOSYS"

end
