(* ===== verification/ST_EventSys.thy ===== *)
theory ST_EventSys
  imports ST_EvSelect ST_EvPoll ST_EvKq ST_EvEpoll
begin

text \<open>
  The choice of the event system (\<open>st_set_eventsys\<close>) and the calls through \<open>_st_eventsys\<close>: a call
  is dispatched on the system chosen; without one it would go through a \<open>NULL\<close> pointer.
  \<open>config\<close> holds the options of the build, \<open>world\<close> the answers of the operating system to one call.
\<close>

record config =
  USE_POLL :: bool
  MD_HAVE_POLL :: bool
  MD_HAVE_KQUEUE :: bool
  MD_HAVE_EPOLL :: bool

definition ST_EVENTSYS_DEFAULT :: int where "ST_EVENTSYS_DEFAULT = 0"
definition ST_EVENTSYS_SELECT :: int where "ST_EVENTSYS_SELECT = 1"
definition ST_EVENTSYS_POLL :: int where "ST_EVENTSYS_POLL = 2"
definition ST_EVENTSYS_ALT :: int where "ST_EVENTSYS_ALT = 3"

definition st_set_eventsys :: "config \<Rightarrow> errno \<Rightarrow> int \<Rightarrow> st \<Rightarrow> (errno + unit) \<times> st" where
  "st_set_eventsys c probe n s =
     (if evsys s \<noteq> None then (Inl EBUSY, s)
      else if n = ST_EVENTSYS_DEFAULT
      then (Inr (), s\<lparr>evsys := Some (if USE_POLL c then POLL else SELECT)\<rparr>)
      else if n = ST_EVENTSYS_SELECT then (Inr (), s\<lparr>evsys := Some SELECT\<rparr>)
      else if n = ST_EVENTSYS_POLL \<and> MD_HAVE_POLL c then (Inr (), s\<lparr>evsys := Some POLL\<rparr>)
      else if n = ST_EVENTSYS_ALT
      then (Inr (), if MD_HAVE_KQUEUE c then s\<lparr>evsys := Some KQUEUE\<rparr>
                    else if MD_HAVE_EPOLL c \<and> st_epoll_is_supported probe then s\<lparr>evsys := Some EPOLL\<rparr>
                    else s)
      else (Inl EINVAL, s))"

fun eventsys_val :: "eventsys \<Rightarrow> int" where
  "eventsys_val SELECT = ST_EVENTSYS_SELECT"
| "eventsys_val POLL = ST_EVENTSYS_POLL"
| "eventsys_val KQUEUE = ST_EVENTSYS_ALT"
| "eventsys_val EPOLL = ST_EVENTSYS_ALT"

fun eventsys_name :: "eventsys \<Rightarrow> string" where
  "eventsys_name SELECT = ''select''"
| "eventsys_name POLL = ''poll''"
| "eventsys_name KQUEUE = ''kqueue''"
| "eventsys_name EPOLL = ''epoll''"

definition st_get_eventsys :: "st \<Rightarrow> int" where
  "st_get_eventsys s = (case evsys s of None \<Rightarrow> - 1 | Some e \<Rightarrow> eventsys_val e)"

definition st_get_eventsys_name :: "st \<Rightarrow> string" where
  "st_get_eventsys_name s = (case evsys s of None \<Rightarrow> [] | Some e \<Rightarrow> eventsys_name e)"

record world =
  w_sel :: sel_answer
  w_poll :: poll_answer
  w_kq :: kq_env
  w_ep :: ep_env
  w_init_mem :: "nat \<Rightarrow> int \<Rightarrow> bool"
  w_fdlim :: int
  w_queue_fd :: "errno + int" \<comment> \<open>\<open>kqueue\<close> or \<open>epoll_create\<close> at the start\<close>

definition ev_init :: "world \<Rightarrow> st \<Rightarrow> ((errno + unit) \<times> st) option" where
  "ev_init w s =
     (case evsys s of
        None \<Rightarrow> None
      | Some SELECT \<Rightarrow> Some (st_select_init (w_init_mem w 0 1) s)
      | Some POLL \<Rightarrow> Some (st_poll_init (w_init_mem w 0 1) (w_init_mem w 1 ST_MIN_POLLFDS_SIZE) s)
      | Some KQUEUE \<Rightarrow> Some (st_kq_init (w_init_mem w) (w_queue_fd w) (kv_pid (w_kq w)) s)
      | Some EPOLL \<Rightarrow> Some (st_epoll_init (w_init_mem w) (w_fdlim w) (w_queue_fd w) (ev_pid (w_ep w)) s))"

definition ev_pollset_add :: "world \<Rightarrow> pollfd list \<Rightarrow> st \<Rightarrow> ((errno + unit) \<times> st) option" where
  "ev_pollset_add w ps s =
     (case evsys s of
        None \<Rightarrow> None
      | Some SELECT \<Rightarrow> Some (st_select_pollset_add ps s)
      | Some POLL \<Rightarrow> Some (st_poll_pollset_add ps s)
      | Some KQUEUE \<Rightarrow> st_kq_pollset_add (kv_mem (w_kq w)) ps s
      | Some EPOLL \<Rightarrow> st_epoll_pollset_add (ev_mem (w_ep w)) (ev_ctl (w_ep w)) ps s)"

definition ev_pollset_del :: "world \<Rightarrow> pollfd list \<Rightarrow> st \<Rightarrow> st option" where
  "ev_pollset_del w ps s =
     (case evsys s of
        None \<Rightarrow> None
      | Some SELECT \<Rightarrow> Some (st_select_pollset_del ps s)
      | Some POLL \<Rightarrow> st_poll_pollset_del ps s
      | Some KQUEUE \<Rightarrow> Some (st_kq_pollset_del (kv_mem (w_kq w)) ps s)
      | Some EPOLL \<Rightarrow> Some (st_epoll_pollset_del (ev_ctl (w_ep w)) ps s))"

definition ev_dispatch :: "world \<Rightarrow> st \<Rightarrow> st option" where
  "ev_dispatch w s =
     (case evsys s of
        None \<Rightarrow> None
      | Some SELECT \<Rightarrow> st_select_dispatch (w_sel w) s
      | Some POLL \<Rightarrow> st_poll_dispatch (w_poll w) s
      | Some KQUEUE \<Rightarrow> st_kq_dispatch (w_kq w) s
      | Some EPOLL \<Rightarrow> st_epoll_dispatch (w_ep w) s)"

definition ev_fd_new :: "world \<Rightarrow> int \<Rightarrow> st \<Rightarrow> ((errno + unit) \<times> st) option" where
  "ev_fd_new w osfd s =
     (case evsys s of
        None \<Rightarrow> None
      | Some SELECT \<Rightarrow> Some (st_select_fd_new osfd, s)
      | Some POLL \<Rightarrow> Some (st_poll_fd_new osfd, s)
      | Some KQUEUE \<Rightarrow> st_kq_fd_new (kv_mem (w_kq w)) osfd s
      | Some EPOLL \<Rightarrow> st_epoll_fd_new (ev_mem (w_ep w)) osfd s)"

definition ev_fd_close :: "int \<Rightarrow> st \<Rightarrow> (errno + unit) option" where
  "ev_fd_close osfd s =
     (case evsys s of
        None \<Rightarrow> None
      | Some SELECT \<Rightarrow> Some (st_select_fd_close osfd s)
      | Some POLL \<Rightarrow> Some (st_poll_fd_close osfd s)
      | Some KQUEUE \<Rightarrow> Some (st_kq_fd_close osfd s)
      | Some EPOLL \<Rightarrow> Some (st_epoll_fd_close osfd s))"

definition ev_fd_getlimit :: "st \<Rightarrow> int option" where
  "ev_fd_getlimit s =
     (case evsys s of
        None \<Rightarrow> None
      | Some SELECT \<Rightarrow> Some st_select_fd_getlimit
      | Some POLL \<Rightarrow> Some st_poll_fd_getlimit
      | Some KQUEUE \<Rightarrow> Some st_kq_fd_getlimit
      | Some EPOLL \<Rightarrow> Some st_epoll_fd_getlimit)"

end
