(* ===== verification/ST_Sync.thy ===== *)
theory ST_Sync
  imports ST_Switch
begin

text \<open>
  Time, sleeping, condition variables and mutexes (\<open>sync.c\<close>). The clock (\<open>st_utime\<close>), \<open>time\<close> and
  the addresses returned by \<open>calloc\<close> are arguments. A condition variable or mutex that has been
  freed is \<open>None\<close> in \<open>conds\<close> or \<open>mutexes\<close>; using it is undefined.
\<close>

section \<open>Time\<close>

text \<open>
  The clock: the function set by \<open>st_set_utime_function\<close>, if there is one, and otherwise \<open>gettimeofday\<close>, which
  gives seconds and microseconds (\<open>MD_GET_UTIME\<close>).
\<close>

definition st_utime :: "utime option \<Rightarrow> utime \<times> utime \<Rightarrow> utime" where
  "st_utime func tv = (case func of Some t \<Rightarrow> t | None \<Rightarrow> fst tv * 1000000 + snd tv)"

definition st_set_utime_function :: "ptr \<Rightarrow> st \<Rightarrow> ptr \<Rightarrow> (errno + unit) \<times> ptr" where
  "st_set_utime_function func s current =
     (if active_count s \<noteq> 0 then (Inl EINVAL, current) else (Inr (), func))"

definition st_utime_last_clock :: "st \<Rightarrow> utime" where
  "st_utime_last_clock s = last_clock s"

definition st_timecache_set :: "bool \<Rightarrow> int \<Rightarrow> utime \<Rightarrow> st \<Rightarrow> int \<times> st" where
  "st_timecache_set on time_now utime_now s =
     (let wason = (if curr_time s \<noteq> 0 then 1 else 0) in
      if on then (wason, s\<lparr>curr_time := time_now, last_tset := utime_now\<rparr>)
      else (wason, s\<lparr>curr_time := 0\<rparr>))"

definition st_time :: "int \<Rightarrow> st \<Rightarrow> int" where
  "st_time time_now s = (if curr_time s \<noteq> 0 then curr_time s else time_now)"

definition st_usleep :: "utime \<Rightarrow> st \<Rightarrow> (unit outcome \<times> st) option" where
  "st_usleep usecs = check_interrupt (\<lambda>s.
     let me = this_thread s in
     do {
       s1 \<leftarrow> (if usecs \<noteq> NO_TIMEOUT
               then st_add_sleep_q me usecs (set_state me ST_SLEEPING s)
               else Some (set_state me ST_SUSPENDED s));
       s2 \<leftarrow> ST_SWITCH_CONTEXT K_usleep me s1;
       Some (Blocked, s2)
     })"

definition st_usleep_resume :: "st \<Rightarrow> (unit outcome \<times> st) option" where
  "st_usleep_resume s = check_interrupt (\<lambda>s. Some (Returned (Inr ()), s)) (switched_in s)"

definition sleep_usecs :: "int \<Rightarrow> utime" where
  "sleep_usecs secs = (if secs \<ge> 0 then word_of_int secs * 1000000 else NO_TIMEOUT)"

definition st_sleep :: "int \<Rightarrow> st \<Rightarrow> (unit outcome \<times> st) option" where
  "st_sleep secs = st_usleep (sleep_usecs secs)"

section \<open>Condition variables\<close>

definition st_cond_new :: "cvid option \<Rightarrow> st \<Rightarrow> cvid option \<times> st" where
  "st_cond_new object s =
     (case object of None \<Rightarrow> (None, s) | Some c \<Rightarrow> (Some c, s\<lparr>conds := (conds s)(c \<mapsto> [])\<rparr>))"

definition st_cond_destroy :: "cvid \<Rightarrow> st \<Rightarrow> ((errno + unit) \<times> st) option" where
  "st_cond_destroy c s =
     (case conds s c of
        None \<Rightarrow> None
      | Some q \<Rightarrow> if q \<noteq> [] then Some (Inl EBUSY, s)
                  else Some (Inr (), s\<lparr>conds := (conds s)(c := None)\<rparr>))"

text \<open>
  \<open>st_cond_timedwait\<close> is called by the user and by \<open>st_thread_join\<close>; \<open>k\<close> says by whom.
\<close>

definition cond_wait_enter :: "kont \<Rightarrow> cvid \<Rightarrow> utime \<Rightarrow> st \<Rightarrow> ('a outcome \<times> st) option" where
  "cond_wait_enter k c timeout = check_interrupt (\<lambda>s.
     let me = this_thread s; s1 = set_state me ST_COND_WAIT s in
     do {
       q \<leftarrow> conds s1 c;
       s3 \<leftarrow> (let s2 = s1\<lparr>conds := (conds s1)(c \<mapsto> q @ [me])\<rparr> in
               if timeout \<noteq> NO_TIMEOUT then st_add_sleep_q me timeout s2 else Some s2);
       s4 \<leftarrow> ST_SWITCH_CONTEXT k me s3;
       Some (Blocked, s4)
     })"

definition st_cond_timedwait :: "cvid \<Rightarrow> utime \<Rightarrow> st \<Rightarrow> (unit outcome \<times> st) option" where
  "st_cond_timedwait c = cond_wait_enter (K_cond c) c"

definition st_cond_wait :: "cvid \<Rightarrow> st \<Rightarrow> (unit outcome \<times> st) option" where
  "st_cond_wait c = st_cond_timedwait c NO_TIMEOUT"

definition st_cond_timedwait_resume :: "cvid \<Rightarrow> st \<Rightarrow> ((errno + unit) \<times> st) option" where
  "st_cond_timedwait_resume c s0 =
     (let s = switched_in s0; me = this_thread s in
      do {
        q \<leftarrow> conds s c;
        let s1 = s\<lparr>conds := (conds s)(c \<mapsto> remove1 me q)\<rparr>;
        let (rv, s2) = (if has_flag (flags (thr s1 me)) FL_TIMEDOUT
                        then (Inl ETIME, clear_fl me FL_TIMEDOUT s1) else (Inr (), s1));
        let (rv', s3) = (if has_flag (flags (thr s2 me)) FL_INTERRUPT
                         then (Inl EINTR, clear_fl me FL_INTERRUPT s2) else (rv, s2));
        Some (rv', s3)
      })"

text \<open>The loop of \<open>_st_cond_signal\<close> over what is left of the wait queue.\<close>

fun cond_signal_loop :: "bool \<Rightarrow> tid list \<Rightarrow> st \<Rightarrow> st option" where
  "cond_signal_loop broadcast [] s = Some s"
| "cond_signal_loop broadcast (t # q) s =
     (if state (thr s t) = ST_COND_WAIT
      then do {
        s1 \<leftarrow> off_sleepq t s;
        let s2 = make_runnable t s1;
        (if broadcast then cond_signal_loop broadcast q s2 else Some s2)
      }
      else cond_signal_loop broadcast q s)"

definition cond_signal_gen :: "bool \<Rightarrow> cvid \<Rightarrow> st \<Rightarrow> st option" where
  "cond_signal_gen broadcast c s = do { q \<leftarrow> conds s c; cond_signal_loop broadcast q s }"

definition st_cond_signal :: "cvid \<Rightarrow> st \<Rightarrow> st option" where
  "st_cond_signal = cond_signal_gen False"

definition st_cond_broadcast :: "cvid \<Rightarrow> st \<Rightarrow> st option" where
  "st_cond_broadcast = cond_signal_gen True"

section \<open>Mutexes\<close>

definition set_mutex :: "mid \<Rightarrow> mutex \<Rightarrow> st \<Rightarrow> st" where
  "set_mutex m x s = s\<lparr>mutexes := (mutexes s)(m \<mapsto> x)\<rparr>"

definition st_mutex_new :: "mid option \<Rightarrow> st \<Rightarrow> mid option \<times> st" where
  "st_mutex_new object s =
     (case object of
        None \<Rightarrow> (None, s)
      | Some m \<Rightarrow> (Some m, set_mutex m \<lparr>owner = None, m_wait_q = []\<rparr> s))"

definition st_mutex_destroy :: "mid \<Rightarrow> st \<Rightarrow> ((errno + unit) \<times> st) option" where
  "st_mutex_destroy m s =
     do {
       l \<leftarrow> mutexes s m;
       (if owner l \<noteq> None \<or> m_wait_q l \<noteq> [] then Some (Inl EBUSY, s)
        else Some (Inr (), s\<lparr>mutexes := (mutexes s)(m := None)\<rparr>))
     }"

definition st_mutex_lock :: "mid \<Rightarrow> st \<Rightarrow> (unit outcome \<times> st) option" where
  "st_mutex_lock m = check_interrupt (\<lambda>s.
     let me = this_thread s in
     do {
       l \<leftarrow> mutexes s m;
       (if owner l = None then Some (Returned (Inr ()), set_mutex m (l\<lparr>owner := Some me\<rparr>) s)
        else if owner l = Some me then Some (Returned (Inl EDEADLK), s)
        else do {
          let s1 = set_state me ST_LOCK_WAIT s;
          let s2 = set_mutex m (l\<lparr>m_wait_q := m_wait_q l @ [me]\<rparr>) s1;
          s3 \<leftarrow> ST_SWITCH_CONTEXT (K_mutex m) me s2;
          Some (Blocked, s3)
        })
     })"

definition st_mutex_lock_resume :: "mid \<Rightarrow> st \<Rightarrow> ((errno + unit) \<times> st) option" where
  "st_mutex_lock_resume m s0 =
     (let s = switched_in s0; me = this_thread s in
      do {
        l \<leftarrow> mutexes s m;
        let l1 = l\<lparr>m_wait_q := remove1 me (m_wait_q l)\<rparr>;
        let s1 = set_mutex m l1 s;
        (if has_flag (flags (thr s1 me)) FL_INTERRUPT \<and> owner l1 \<noteq> Some me
         then Some (Inl EINTR, clear_fl me FL_INTERRUPT s1)
         else Some (Inr (), s1))
      })"

text \<open>The loop of \<open>st_mutex_unlock\<close> over what is left of the wait queue.\<close>

fun unlock_loop :: "mid \<Rightarrow> mutex \<Rightarrow> tid list \<Rightarrow> st \<Rightarrow> st" where
  "unlock_loop m l [] s = set_mutex m (l\<lparr>owner := None\<rparr>) s"
| "unlock_loop m l (t # q) s =
     (if state (thr s t) = ST_LOCK_WAIT
      then make_runnable t (set_mutex m (l\<lparr>owner := Some t\<rparr>) s)
      else unlock_loop m l q s)"

definition st_mutex_unlock :: "mid \<Rightarrow> st \<Rightarrow> ((errno + unit) \<times> st) option" where
  "st_mutex_unlock m s =
     do {
       l \<leftarrow> mutexes s m;
       (if owner l \<noteq> Some (this_thread s) then Some (Inl EPERM, s)
        else Some (Inr (), unlock_loop m l (m_wait_q l) s))
     }"

definition st_mutex_trylock :: "mid \<Rightarrow> st \<Rightarrow> ((errno + unit) \<times> st) option" where
  "st_mutex_trylock m s =
     do {
       l \<leftarrow> mutexes s m;
       (if owner l \<noteq> None then Some (Inl EBUSY, s)
        else Some (Inr (), set_mutex m (l\<lparr>owner := Some (this_thread s)\<rparr>) s))
     }"

end
