(* ===== verification/ST_Threads.thy ===== *)
theory ST_Threads
  imports ST_Sync ST_Keys ST_Stacks
begin

text \<open>
  Threads (\<open>sched.c\<close>): the clock check that wakes sleepers, interruption, creation, exit and join.
  \<open>thread_q\<close>, the list of all threads that the debug build keeps, is modelled, and so are the
  assertions: a failed one is \<open>None\<close>. A thread is named by the address of its object, which
  \<open>st_thread_create\<close> carves out of the thread's stack.
\<close>

section \<open>The clock\<close>

partial_function (option) check_clock_loop :: "utime \<Rightarrow> st \<Rightarrow> st option" where
  "check_clock_loop now s =
     (case sleep_q s of
        None \<Rightarrow> Some s
      | Some t \<Rightarrow>
         if \<not> has_flag (flags (thr s t)) FL_ON_SLEEPQ then None
         else if due (thr s t) > now then Some s
         else Option.bind (st_del_sleep_q t s) (\<lambda>s1.
           let s2 = (if state (thr s1 t) = ST_COND_WAIT then set_fl t FL_TIMEDOUT s1 else s1)
           in if has_flag (flags (thr s2 t)) FL_IDLE_THREAD then None
              else check_clock_loop now (make_runnable t s2)))"

definition refresh_time :: "utime \<Rightarrow> int \<Rightarrow> st \<Rightarrow> st" where
  "refresh_time now time_now s =
     (if curr_time s \<noteq> 0 \<and> now - last_tset s > 999000
      then s\<lparr>curr_time := time_now, last_tset := now\<rparr> else s)"

definition st_vp_check_clock :: "utime \<Rightarrow> int \<Rightarrow> st \<Rightarrow> st option" where
  "st_vp_check_clock now time_now s =
     check_clock_loop now (refresh_time now time_now (s\<lparr>last_clock := now\<rparr>))"

section \<open>Interruption\<close>

definition st_thread_interrupt :: "tid \<Rightarrow> st \<Rightarrow> st option" where
  "st_thread_interrupt t s =
     (if state (thr s t) = ST_ZOMBIE then Some s
      else let s1 = set_fl t FL_INTERRUPT s in
        if state (thr s1 t) = ST_RUNNING \<or> state (thr s1 t) = ST_RUNNABLE then Some s1
        else do { s2 \<leftarrow> off_sleepq t s1; Some (make_runnable t s2) })"

section \<open>Creation\<close>

record create_env =
  ce_size_thread :: int
  ce_stack :: "sid option"
  ce_segment :: "int option"
  ce_random :: int
  ce_cond :: "cvid option"

definition blank_thread :: "ptr \<Rightarrow> ptr \<Rightarrow> sid \<Rightarrow> thread" where
  "blank_thread f a ts =
     \<lparr>state = ST_RUNNING, flags = 0, start = f, arg = a, retval = NULLP, stack = Some ts, due = 0,
      left = None, right = None, heap_index = 0, private_data = replicate ST_KEYS_MAX NULLP,
      term_cv = None, ctx = K_start\<rparr>"

definition st_thread_create ::
    "create_env \<Rightarrow> ptr \<Rightarrow> ptr \<Rightarrow> bool \<Rightarrow> int \<Rightarrow> st \<Rightarrow> tid option \<times> st" where
  "st_thread_create e f a joinable stk_sz s =
     (let n = adjust_stk_size (pagesize s) stk_sz in
      case st_stack_new n (ce_stack e) (ce_segment e) (ce_random e) s of
        (None, s1) \<Rightarrow> (None, s1)
      | (Some ts, s1) \<Rightarrow>
         let l = carve_stack (ce_size_thread e) (stk_top (stk_of (stks s1) ts));
             s2 = s1\<lparr>stks := (stks s1)\<lparr>stk_of := (stk_of (stks s1))
                      (ts := (stk_of (stks s1) ts)\<lparr>sp := l_sp l\<rparr>)\<rparr>\<rparr>;
             t = nat (l_thread l);
             s3 = upd_thr t (\<lambda>_. blank_thread f a ts) s2;
             (ok, s4) = (if joinable
                         then (case st_cond_new (ce_cond e) s3 of
                                 (None, s') \<Rightarrow> (False, st_stack_free (Some ts) s')
                               | (Some c, s') \<Rightarrow> (True, upd_thr t (\<lambda>z. z\<lparr>term_cv := Some c\<rparr>) s'))
                         else (True, s3))
         in if \<not> ok then (None, s4)
            else (Some t, ST_ADD_THREADQ t (ST_ADD_RUNQ t
                   ((set_state t ST_RUNNABLE s4)\<lparr>active_count := active_count s4 + 1\<rparr>))))"

definition st_thread_self :: "st \<Rightarrow> tid" where
  "st_thread_self s = this_thread s"

section \<open>Exit\<close>

text \<open>The end of \<open>st_thread_exit\<close>, from the removal from \<open>thread_q\<close> on.\<close>

definition exit_finish :: "st \<Rightarrow> st option" where
  "exit_finish s =
     (let me = this_thread s;
          s1 = ST_DEL_THREADQ me s;
          s2 = (if has_flag (flags (thr s1 me)) FL_PRIMORDIAL then s1
                else st_stack_free (stack (thr s1 me)) s1)
      in ST_SWITCH_CONTEXT K_dead me s2)"

definition st_thread_exit :: "ptr \<Rightarrow> st \<Rightarrow> st option" where
  "st_thread_exit rv s =
     (let me = this_thread s;
          s1 = upd_thr me (\<lambda>z. z\<lparr>retval := rv\<rparr>) s;
          s2 = st_thread_cleanup me s1;
          s3 = s2\<lparr>active_count := active_count s2 - 1\<rparr>
      in (case term_cv (thr s3 me) of
            None \<Rightarrow> exit_finish s3
          | Some c \<Rightarrow>
             do {
               s4 \<leftarrow> st_cond_signal c (ST_ADD_ZOMBIEQ me (set_state me ST_ZOMBIE s3));
               ST_SWITCH_CONTEXT K_zombie me s4
             }))"

definition st_thread_exit_resume :: "st \<Rightarrow> st option" where
  "st_thread_exit_resume s0 =
     (let s = switched_in s0; me = this_thread s in
      do {
        c \<leftarrow> term_cv (thr s me);
        (_, s1) \<leftarrow> st_cond_destroy c s;
        exit_finish (upd_thr me (\<lambda>z. z\<lparr>term_cv := None\<rparr>) s1)
      })"

text \<open>\<open>_st_thread_main\<close> is the start function, whose result the program gives, and then the exit.\<close>

definition st_thread_main_enter :: "st \<Rightarrow> ptr \<times> ptr \<times> st" where
  "st_thread_main_enter s =
     (let me = this_thread s in (start (thr s me), arg (thr s me), set_ctx me K_run s))"

definition st_thread_main_return :: "ptr \<Rightarrow> st \<Rightarrow> st option" where
  "st_thread_main_return rv s =
     (let me = this_thread s; s1 = upd_thr me (\<lambda>z. z\<lparr>retval := rv\<rparr>) s
      in st_thread_exit (retval (thr s1 me)) s1)"

section \<open>Join\<close>

text \<open>
  The rest of \<open>st_thread_join\<close> from the test of the \<open>while\<close> loop on. It waits at most once before
  it blocks, so there is no recursion here: the next round is the resumed one.
\<close>

definition join_loop :: "tid \<Rightarrow> cvid \<Rightarrow> st \<Rightarrow> (ptr outcome \<times> st) option" where
  "join_loop t c s =
     (if state (thr s t) \<noteq> ST_ZOMBIE then cond_wait_enter (K_join t c) c NO_TIMEOUT s
      else Some (Returned (Inr (retval (thr s t))),
                 ST_ADD_RUNQ t (ST_DEL_ZOMBIEQ t (set_state t ST_RUNNABLE s))))"

definition st_thread_join :: "tid \<Rightarrow> st \<Rightarrow> (ptr outcome \<times> st) option" where
  "st_thread_join t s =
     (case term_cv (thr s t) of
        None \<Rightarrow> Some (Returned (Inl EINVAL), s)
      | Some c \<Rightarrow>
         if this_thread s = t then Some (Returned (Inl EDEADLK), s)
         else do {
           q \<leftarrow> conds s c;
           (if q \<noteq> [] then Some (Returned (Inl EINVAL), s) else join_loop t c s)
         })"

definition st_thread_join_resume :: "tid \<Rightarrow> cvid \<Rightarrow> st \<Rightarrow> (ptr outcome \<times> st) option" where
  "st_thread_join_resume t c s =
     do {
       (rv, s1) \<leftarrow> st_cond_timedwait_resume c s;
       (case rv of
          Inl e \<Rightarrow> Some (Returned (Inl e), s1)
        | Inr _ \<Rightarrow> join_loop t c s1)
     }"

end
