(* ===== verification/ST_Vp.thy ===== *)
theory ST_Vp
  imports ST_Threads ST_EventSys
begin

text \<open>
  The virtual processor (\<open>sched.c\<close>): waiting for descriptors (\<open>st_poll\<close>), the idle thread, the
  initialisation, and the program as a step relation. A step is one call of the library made by
  the running thread, up to its return or to the switch to another thread, or the rest of a call of
  a thread that has been switched to.
\<close>

section \<open>Polling\<close>

definition st_poll :: "world \<Rightarrow> pollfd list \<Rightarrow> utime \<Rightarrow> st \<Rightarrow> (int outcome \<times> st) option" where
  "st_poll w ps timeout = check_interrupt (\<lambda>s.
     let me = this_thread s in
     do {
       (r, s1) \<leftarrow> ev_pollset_add w ps s;
       (case r of
          Inl e \<Rightarrow> Some (Returned (Inl e), s1)
        | Inr _ \<Rightarrow>
           do {
             let s2 = ST_ADD_IOQ me (s1\<lparr>pollqs := (pollqs s1)
               (me := \<lparr>pq_thread = me, pds = ps, on_ioq = True\<rparr>)\<rparr>);
             s3 \<leftarrow> (if timeout \<noteq> NO_TIMEOUT then st_add_sleep_q me timeout s2 else Some s2);
             s4 \<leftarrow> ST_SWITCH_CONTEXT K_poll me (set_state me ST_IO_WAIT s3);
             Some (Blocked, s4)
           })
     })"

definition poll_count :: "pollfd list \<Rightarrow> int" where
  "poll_count ps = int (length (filter (\<lambda>pd. revents pd \<noteq> 0) ps))"

definition st_poll_resume :: "world \<Rightarrow> st \<Rightarrow> (int outcome \<times> st) option" where
  "st_poll_resume w s0 =
     (let s = switched_in s0; me = this_thread s; pq = pollqs s me in
      do {
        (n, s1) \<leftarrow> (if on_ioq pq
                    then do { s' \<leftarrow> ev_pollset_del w (pds pq) (ST_DEL_IOQ me s); Some (0, s') }
                    else Some (poll_count (pds pq), s));
        check_interrupt (\<lambda>s. Some (Returned (Inr n), s)) s1
      })"

section \<open>The idle thread\<close>

record clock =
  c_now :: utime
  c_time :: int

text \<open>
  One round of the loop of \<open>_st_idle_thread_start\<close>; when no thread is left the process ends, which
  is \<open>Inl\<close>.
\<close>

definition idle_round :: "world \<Rightarrow> clock \<Rightarrow> st \<Rightarrow> (unit + st) option" where
  "idle_round w c s =
     (let me = this_thread s in
      if active_count s > 0
      then do {
        s1 \<leftarrow> ev_dispatch w s;
        s2 \<leftarrow> st_vp_check_clock (c_now c) (c_time c) s1;
        s3 \<leftarrow> ST_SWITCH_CONTEXT K_idle me (set_state me ST_RUNNABLE s2);
        Some (Inr s3)
      }
      else Some (Inl ()))"

section \<open>Initialisation\<close>

record init_env =
  ie_world :: world
  ie_config :: config
  ie_probe :: errno
  ie_io_ok :: bool
  ie_pagesize :: int
  ie_now :: utime
  ie_create :: create_env
  ie_start :: ptr
  ie_main :: "tid option" \<comment> \<open>\<open>calloc\<close> for the primordial thread\<close>

definition clear_vp :: "st \<Rightarrow> st" where
  "clear_vp s = s\<lparr>idle_thread := 0, last_clock := 0, run_q := [], io_q := [], zombie_q := [],
     thread_q := [], pagesize := 0, sleep_q := None, sleepq_size := 0, switch_out_cb := NULLP,
     switch_in_cb := NULLP\<rparr>"

definition primordial :: thread where
  "primordial = \<lparr>state = ST_RUNNING, flags = FL_PRIMORDIAL, start = NULLP, arg = NULLP, retval = NULLP,
     stack = None, due = 0, left = None, right = None, heap_index = 0,
     private_data = replicate ST_KEYS_MAX NULLP, term_cv = None, ctx = K_run\<rparr>"

definition st_init :: "init_env \<Rightarrow> st \<Rightarrow> (bool \<times> st) option" where
  "st_init e s =
     (if active_count s \<noteq> 0 then Some (True, s)
      else
        let s1 = snd (st_set_eventsys (ie_config e) (ie_probe e) ST_EVENTSYS_DEFAULT s) in
        if \<not> ie_io_ok e then Some (False, s1)
        else do {
          (r, s2) \<leftarrow> ev_init (ie_world e) (clear_vp s1);
          (case r of
             Inl _ \<Rightarrow> Some (False, s2)
           | Inr _ \<Rightarrow>
              let s3 = s2\<lparr>pagesize := ie_pagesize e, last_clock := ie_now e\<rparr>;
                  (i, s4) = st_thread_create (ie_create e) (ie_start e) NULLP False 0 s3
              in (case i of
                    None \<Rightarrow> Some (False, s4)
                  | Some t \<Rightarrow>
                     let s5 = upd_thr t (\<lambda>z. z\<lparr>flags := FL_IDLE_THREAD\<rparr>) (s4\<lparr>idle_thread := t\<rparr>);
                         s6 = ST_DEL_RUNQ t (s5\<lparr>active_count := active_count s5 - 1\<rparr>)
                     in (case ie_main e of
                           None \<Rightarrow> Some (False, s6)
                         | Some m \<Rightarrow>
                            let s7 = upd_thr m (\<lambda>_. primordial) s6
                            in Some (True, ST_ADD_THREADQ m
                                 (s7\<lparr>this_thread := m, active_count := active_count s7 + 1\<rparr>)))))
        })"

end
