(* ===== verification/ST_Inv.thy ===== *)
theory ST_Inv
  imports ST_Vp
begin

text \<open>
  The invariant of the virtual processor. \<open>vp_inv cur s\<close> speaks about the moment at which thread
  \<open>cur\<close> runs (\<open>None\<close>: inside \<open>_ST_SWITCH_CONTEXT\<close>, when the old thread has stopped and the new one
  has not been picked). It ties the state of every thread to the queues it is on and to the
  point where it stopped.
\<close>

section \<open>Definitions\<close>

fun cwait :: "kont \<Rightarrow> cvid option" where
  "cwait (K_cond c) = Some c"
| "cwait (K_join t c) = Some c"
| "cwait _ = None"

text \<open>One thread; the arguments say whether it is on the run, zombie and io queue.\<close>

definition tok :: "tid option \<Rightarrow> tid \<Rightarrow> bool \<Rightarrow> bool \<Rightarrow> bool \<Rightarrow> pollq \<Rightarrow>
    thr_state \<Rightarrow> flagw \<Rightarrow> kont \<Rightarrow> cvid option \<Rightarrow> tid \<Rightarrow> bool" where
  "tok cur idle inrun inzombie inio pq st fl cx tc t \<longleftrightarrow>
     (st = ST_RUNNING \<longleftrightarrow> cur = Some t) \<and>
     (inrun \<longleftrightarrow> st = ST_RUNNABLE \<and> t \<noteq> idle) \<and>
     (inzombie \<longleftrightarrow> st = ST_ZOMBIE) \<and>
     (inio \<longleftrightarrow> cx = K_poll \<and> on_ioq pq) \<and>
     (cx = K_poll \<longrightarrow> pq_thread pq = t) \<and>
     (cur \<noteq> Some t \<longrightarrow> cx \<noteq> K_run) \<and> cx \<noteq> K_dead \<and>
     (has_flag fl FL_ON_SLEEPQ \<longrightarrow> st \<in> {ST_IO_WAIT, ST_COND_WAIT, ST_SLEEPING}) \<and>
     (st = ST_IO_WAIT \<longrightarrow> cx = K_poll \<and> on_ioq pq) \<and>
     (st = ST_LOCK_WAIT \<longrightarrow> (\<exists>m. cx = K_mutex m)) \<and>
     (st = ST_COND_WAIT \<longrightarrow> cwait cx \<noteq> None) \<and>
     (st \<in> {ST_SLEEPING, ST_SUSPENDED} \<longrightarrow> cx = K_usleep) \<and>
     (st = ST_ZOMBIE \<longrightarrow> cx = K_zombie) \<and>
     (cx = K_zombie \<longrightarrow> tc \<noteq> None) \<and>
     (has_flag fl FL_IDLE_THREAD \<longleftrightarrow> t = idle) \<and>
     (cx = K_idle \<longrightarrow> t = idle) \<and>
     (t = idle \<longrightarrow> st \<in> {ST_RUNNING, ST_RUNNABLE} \<and> cx \<in> {K_start, K_idle})"

definition waiting :: "thr_state \<Rightarrow> bool" where
  "waiting x \<longleftrightarrow> x \<in> {ST_IO_WAIT, ST_LOCK_WAIT, ST_COND_WAIT, ST_SLEEPING, ST_SUSPENDED}"

definition live :: "st \<Rightarrow> tid set" where
  "live s = set (thread_q s)"

definition thread_ok :: "tid option \<Rightarrow> st \<Rightarrow> tid \<Rightarrow> bool" where
  "thread_ok cur s t = tok cur (idle_thread s) (t \<in> set (run_q s)) (t \<in> set (zombie_q s))
     (t \<in> set (io_q s)) (pollqs s t)
     (state (thr s t)) (flags (thr s t)) (ctx (thr s t)) (term_cv (thr s t)) t"

definition queues_ok :: "tid option \<Rightarrow> st \<Rightarrow> bool" where
  "queues_ok cur s \<longleftrightarrow> distinct (thread_q s) \<and> distinct (run_q s) \<and> distinct (zombie_q s) \<and>
     distinct (io_q s) \<and> set (run_q s) \<subseteq> live s \<and> set (zombie_q s) \<subseteq> live s \<and> set (io_q s) \<subseteq> live s \<and>
     idle_thread s \<in> live s \<and>
     (\<forall>t. cur = Some t \<longrightarrow> t \<in> live s \<and> this_thread s = t)"

text \<open>The idle thread only runs when nothing else can.\<close>

definition idle_ok :: "st \<Rightarrow> bool" where
  "idle_ok s \<longleftrightarrow> (this_thread s = idle_thread s \<longrightarrow> run_q s = [])"

definition cond_ok :: "st \<Rightarrow> bool" where
  "cond_ok s \<longleftrightarrow>
     (\<forall>c q. conds s c = Some q \<longrightarrow>
        distinct q \<and> (\<forall>t. t \<in> set q \<longleftrightarrow> t \<in> live s \<and> cwait (ctx (thr s t)) = Some c)) \<and>
     (\<forall>t c. t \<in> live s \<longrightarrow> cwait (ctx (thr s t)) = Some c \<longrightarrow> conds s c \<noteq> None)"

definition term_ok :: "st \<Rightarrow> bool" where
  "term_ok s \<longleftrightarrow> (\<forall>t c. t \<in> live s \<longrightarrow> term_cv (thr s t) = Some c \<longrightarrow>
     conds s c \<noteq> None \<and> (\<forall>u. u \<in> live s \<longrightarrow> term_cv (thr s u) = Some c \<longrightarrow> u = t) \<and>
     (\<forall>u. u \<in> live s \<longrightarrow> ctx (thr s u) \<noteq> K_cond c))"

definition join_ok :: "st \<Rightarrow> bool" where
  "join_ok s \<longleftrightarrow> (\<forall>u t c. u \<in> live s \<longrightarrow> ctx (thr s u) = K_join t c \<longrightarrow>
     u \<noteq> t \<and> t \<in> live s \<and> term_cv (thr s t) = Some c \<and>
     (ctx (thr s t) = K_zombie \<longrightarrow> state (thr s t) = ST_ZOMBIE) \<and>
     (\<forall>v c'. v \<in> live s \<longrightarrow> ctx (thr s v) = K_join t c' \<longrightarrow> v = u))"

definition mutex_ok :: "st \<Rightarrow> bool" where
  "mutex_ok s \<longleftrightarrow>
     (\<forall>m l. mutexes s m = Some l \<longrightarrow> distinct (m_wait_q l) \<and>
        (\<forall>t. t \<in> set (m_wait_q l) \<longleftrightarrow> t \<in> live s \<and> ctx (thr s t) = K_mutex m) \<and>
        (\<forall>t \<in> set (m_wait_q l). state (thr s t) = ST_LOCK_WAIT \<longrightarrow> owner l \<noteq> None \<and> owner l \<noteq> Some t)) \<and>
     (\<forall>t m. t \<in> live s \<longrightarrow> ctx (thr s t) = K_mutex m \<longrightarrow> mutexes s m \<noteq> None)"

definition count_ok :: "st \<Rightarrow> bool" where
  "count_ok s \<longleftrightarrow>
     active_count s = int (card {t \<in> live s. t \<noteq> idle_thread s \<and> ctx (thr s t) \<noteq> K_zombie})"

definition sleepers :: "st \<Rightarrow> tid set" where
  "sleepers s = {t \<in> live s. has_flag (flags (thr s t)) FL_ON_SLEEPQ}"

definition inv0 :: "tid option \<Rightarrow> st \<Rightarrow> bool" where
  "inv0 cur s \<longleftrightarrow> queues_ok cur s \<and> (\<forall>t. t \<in> live s \<longrightarrow> thread_ok cur s t) \<and>
     cond_ok s \<and> term_ok s \<and> join_ok s \<and> mutex_ok s \<and> count_ok s"

definition vp_inv :: "tid option \<Rightarrow> st \<Rightarrow> bool" where
  "vp_inv cur s \<longleftrightarrow> inv0 cur s \<and> sleepq_is s (sleepers s)"

lemmas inv0_defs = inv0_def queues_ok_def cond_ok_def term_ok_def join_ok_def mutex_ok_def
  count_ok_def thread_ok_def live_def

section \<open>The heap does not matter to \<open>inv0\<close>\<close>

lemma inv0_noheap [simp]: "inv0 cur (noheap s) = inv0 cur s"
  by (simp add: inv0_defs)

lemma live_noheap [simp]: "live (noheap s) = live s"
  by (simp add: live_def)

lemma sleepers_noheap [simp]: "sleepers (noheap s) = sleepers s"
  by (simp add: sleepers_def)

lemma inv0_same: "noheap s' = noheap s \<Longrightarrow> inv0 cur s' = inv0 cur s"
  by (metis inv0_noheap)

lemma sleepers_same: "noheap s' = noheap s \<Longrightarrow> sleepers s' = sleepers s"
  by (metis sleepers_noheap)

section \<open>What each clause depends on\<close>

lemma cond_ok_cong:
  "live s' = live s \<Longrightarrow> conds s' = conds s \<Longrightarrow> (\<And>t. ctx (thr s' t) = ctx (thr s t)) \<Longrightarrow>
   cond_ok s' = cond_ok s"
  by (simp add: cond_ok_def)

lemma term_ok_cong:
  "live s' = live s \<Longrightarrow> dom (conds s') = dom (conds s) \<Longrightarrow> (\<And>t. ctx (thr s' t) = ctx (thr s t)) \<Longrightarrow>
   (\<And>t. term_cv (thr s' t) = term_cv (thr s t)) \<Longrightarrow> term_ok s' = term_ok s"
  unfolding term_ok_def by (simp add: domIff set_eq_iff)

lemma join_ok_mono:
  "join_ok s \<Longrightarrow> live s' = live s \<Longrightarrow> (\<And>t. ctx (thr s' t) = ctx (thr s t)) \<Longrightarrow>
   (\<And>t. term_cv (thr s' t) = term_cv (thr s t)) \<Longrightarrow>
   (\<And>t. t \<in> live s \<Longrightarrow> ctx (thr s t) = K_zombie \<Longrightarrow> state (thr s t) = ST_ZOMBIE \<Longrightarrow> state (thr s' t) = ST_ZOMBIE) \<Longrightarrow>
   join_ok s'"
  unfolding join_ok_def by metis

lemma mutex_ok_mono:
  "mutex_ok s \<Longrightarrow> live s' = live s \<Longrightarrow> mutexes s' = mutexes s \<Longrightarrow> (\<And>t. ctx (thr s' t) = ctx (thr s t)) \<Longrightarrow>
   (\<And>t. state (thr s' t) = ST_LOCK_WAIT \<Longrightarrow> state (thr s t) = ST_LOCK_WAIT) \<Longrightarrow> mutex_ok s'"
  unfolding mutex_ok_def by simp

lemma count_ok_cong:
  "live s' = live s \<Longrightarrow> active_count s' = active_count s \<Longrightarrow> idle_thread s' = idle_thread s \<Longrightarrow>
   (\<And>t. ctx (thr s' t) = ctx (thr s t)) \<Longrightarrow> count_ok s' = count_ok s"
  by (simp add: count_ok_def)

lemma thread_ok_other:
  "thread_ok cur s t \<Longrightarrow> thr s' t = thr s t \<Longrightarrow> pollqs s' t = pollqs s t \<Longrightarrow> idle_thread s' = idle_thread s \<Longrightarrow>
   (t \<in> set (run_q s') \<longleftrightarrow> t \<in> set (run_q s)) \<Longrightarrow> (t \<in> set (zombie_q s') \<longleftrightarrow> t \<in> set (zombie_q s)) \<Longrightarrow>
   (t \<in> set (io_q s') \<longleftrightarrow> t \<in> set (io_q s)) \<Longrightarrow> (cur' = Some t \<longleftrightarrow> cur = Some t) \<Longrightarrow> thread_ok cur' s' t"
  by (simp add: thread_ok_def tok_def)

text \<open>What \<open>thread_ok\<close> says of a thread, by its state.\<close>

lemma thread_ok_waiting:
  assumes "thread_ok cur s t" "waiting (state (thr s t))"
  shows "t \<notin> set (run_q s)" "t \<notin> set (zombie_q s)" "t \<noteq> idle_thread s" "cur \<noteq> Some t"
  using assms by (cases "state (thr s t)"; simp add: thread_ok_def tok_def waiting_def)+

lemma thread_ok_state:
  assumes "thread_ok cur s t"
  shows "state (thr s t) = ST_IO_WAIT \<Longrightarrow> ctx (thr s t) = K_poll \<and> on_ioq (pollqs s t) \<and> t \<in> set (io_q s)"
    "state (thr s t) = ST_LOCK_WAIT \<Longrightarrow> \<exists>m. ctx (thr s t) = K_mutex m"
    "state (thr s t) = ST_COND_WAIT \<Longrightarrow> \<exists>c. cwait (ctx (thr s t)) = Some c"
    "state (thr s t) = ST_ZOMBIE \<longleftrightarrow> t \<in> set (zombie_q s)"
    "state (thr s t) = ST_RUNNING \<longleftrightarrow> cur = Some t"
    "has_flag (flags (thr s t)) FL_ON_SLEEPQ \<Longrightarrow> state (thr s t) \<in> {ST_IO_WAIT, ST_COND_WAIT, ST_SLEEPING}"
    "has_flag (flags (thr s t)) FL_IDLE_THREAD \<longleftrightarrow> t = idle_thread s"
    "t \<in> set (io_q s) \<longleftrightarrow> ctx (thr s t) = K_poll \<and> on_ioq (pollqs s t)"
    "t \<in> set (io_q s) \<Longrightarrow> pq_thread (pollqs s t) = t"
    "t \<in> set (run_q s) \<longleftrightarrow> state (thr s t) = ST_RUNNABLE \<and> t \<noteq> idle_thread s"
  using assms unfolding thread_ok_def tok_def by blast+

section \<open>Picking a thread\<close>

lemma state_upd_heap_part [simp]:
  "heap_part (set_state t x s) = heap_part s" "heap_part (set_fl t f s) = heap_part s"
  "heap_part (clear_fl t f s) = heap_part s" "heap_part (set_ctx t k s) = heap_part s"
  by (auto simp: heap_part_def field_defs fun_eq_iff simp del: rd_left rd_right)

lemma sched_inv:
  assumes "vp_inv None s"
  shows "\<exists>s'. st_vp_schedule s = Some s' \<and> vp_inv (Some (this_thread s')) s' \<and> idle_ok s' \<and>
    this_thread s' = (case run_q s of t # _ \<Rightarrow> t | [] \<Rightarrow> idle_thread s) \<and>
    thread_q s' = thread_q s \<and> ctx (thr s' (this_thread s')) = ctx (thr s (this_thread s'))"
proof -
  have i: "inv0 None s" and h: "sleepq_is s (sleepers s)"
    using assms by (simp_all add: vp_inv_def)
  define t where "t = (case run_q s of t # _ \<Rightarrow> t | [] \<Rightarrow> idle_thread s)"
  define s1 where "s1 = (case run_q s of u # _ \<Rightarrow> ST_DEL_RUNQ u s | [] \<Rightarrow> s)"
  define s' where "s' = (set_state t ST_RUNNING s1)\<lparr>this_thread := t\<rparr>"
  have q: "queues_ok None s" and T: "\<And>u. u \<in> live s \<Longrightarrow> thread_ok None s u"
    using i by (auto simp: inv0_def)
  have tl: "t \<in> live s"
    using q by (auto simp: queues_ok_def t_def split: list.split)
  have ts: "state (thr s t) = ST_RUNNABLE"
    using T [OF tl] q
    by (cases "run_q s") (auto simp: t_def thread_ok_def tok_def)
  have s1: "s1 = s\<lparr>run_q := remove1 t (run_q s)\<rparr> \<and> (t = idle_thread s \<longrightarrow> run_q s = [])"
    using T [OF tl] q
    by (cases "run_q s") (auto simp: s1_def t_def ST_DEL_RUNQ_def thread_ok_def tok_def queues_ok_def)
  then have s': "s' = s\<lparr>run_q := remove1 t (run_q s), thr := (thr s)(t := (thr s t)\<lparr>state := ST_RUNNING\<rparr>),
      this_thread := t\<rparr>"
    by (simp add: s'_def set_state_def upd_thr_def)
  have "st_vp_schedule s = Some s'"
    using ts unfolding s'_def s1_def t_def st_vp_schedule_def
    by (cases "run_q s") (auto simp: ST_DEL_RUNQ_def)
  moreover have "inv0 (Some t) s'"
  proof -
    have "queues_ok (Some t) s'"
      using q tl s1 by (auto simp: queues_ok_def s' live_def)
    moreover have "thread_ok (Some t) s' u" if "u \<in> live s'" for u
    proof (cases "u = t")
      case True
      then show ?thesis
        using T [OF tl] ts q by (simp add: thread_ok_def tok_def s' queues_ok_def)
    next
      case False
      then show ?thesis
        using that by (intro thread_ok_other [OF T [of u]]) (auto simp: s' live_def)
    qed
    moreover have "cond_ok s'" "term_ok s'" "count_ok s'"
      using i cond_ok_cong [of s' s] term_ok_cong [of s' s] count_ok_cong [of s' s]
      by (simp_all add: s' inv0_def live_def)
    moreover have "join_ok s'"
      by (rule join_ok_mono [of s]) (use i ts in \<open>auto simp: s' inv0_def live_def\<close>)
    moreover have "mutex_ok s'"
      by (rule mutex_ok_mono [of s]) (use i in \<open>auto simp: s' inv0_def live_def split: if_splits\<close>)
    ultimately show ?thesis by (simp add: inv0_def)
  qed
  moreover have "sleepers s' = sleepers s" "heap_part s' = heap_part s"
    by (auto simp: s' sleepers_def live_def heap_part_def fun_eq_iff simp del: rd_left rd_right)
  moreover have "idle_ok s'"
    using s1 by (simp add: idle_ok_def s')
  ultimately show ?thesis
    using h sleepq_is_frame
    by (auto simp: vp_inv_def t_def [symmetric] s')
qed

section \<open>Flags\<close>

lemma set_fl_thr [simp]: "thr (set_fl t f s) = (thr s)(t := (thr s t)\<lparr>flags := set_flag (flags (thr s t)) f\<rparr>)"
  by (simp add: set_fl_def)

lemma clear_fl_thr [simp]: "thr (clear_fl t f s) = (thr s)(t := (thr s t)\<lparr>flags := clear_flag (flags (thr s t)) f\<rparr>)"
  by (simp add: clear_fl_def)

lemma tok_flags:
  "tok cur i a b c pq st fl cx tc t \<Longrightarrow> (has_flag w FL_ON_SLEEPQ \<Longrightarrow> has_flag fl FL_ON_SLEEPQ) \<Longrightarrow>
   has_flag w FL_IDLE_THREAD = has_flag fl FL_IDLE_THREAD \<Longrightarrow> tok cur i a b c pq st w cx tc t"
  unfolding tok_def by blast

lemma tok_runnable:
  "tok cur i a b c pq st fl cx tc t \<Longrightarrow> cur \<noteq> Some t \<Longrightarrow> waiting st \<Longrightarrow>
   c' = (cx = K_poll \<and> on_ioq pq') \<Longrightarrow> pq_thread pq' = pq_thread pq \<Longrightarrow>
   \<not> has_flag fl' FL_ON_SLEEPQ \<Longrightarrow> has_flag fl' FL_IDLE_THREAD = has_flag fl FL_IDLE_THREAD \<Longrightarrow>
   tok cur i True False c' pq' ST_RUNNABLE fl' cx tc t"
  by (cases st; simp add: tok_def waiting_def; blast)

lemma inv0_flags:
  assumes i: "inv0 cur s" and w: "has_flag w FL_ON_SLEEPQ \<Longrightarrow> has_flag (flags (thr s t)) FL_ON_SLEEPQ"
    "has_flag w FL_IDLE_THREAD = has_flag (flags (thr s t)) FL_IDLE_THREAD"
  shows "inv0 cur (upd_thr t (\<lambda>z. z\<lparr>flags := w\<rparr>) s)" (is "inv0 cur ?s")
proof -
  have "queues_ok cur ?s"
    using i by (simp add: inv0_def queues_ok_def live_def)
  moreover have "thread_ok cur ?s u" if "u \<in> live ?s" for u
  proof -
    have "thread_ok cur s u" using i that by (simp add: inv0_def live_def)
    then show ?thesis
      using w by (cases "u = t") (auto simp: thread_ok_def intro: tok_flags)
  qed
  moreover have "cond_ok ?s" "term_ok ?s" "count_ok ?s"
    using i cond_ok_cong [of ?s s] term_ok_cong [of ?s s] count_ok_cong [of ?s s]
    by (simp_all add: inv0_def live_def)
  moreover have "join_ok ?s"
    by (rule join_ok_mono [of s]) (use i in \<open>auto simp: inv0_def live_def\<close>)
  moreover have "mutex_ok ?s"
    by (rule mutex_ok_mono [of s]) (use i in \<open>auto simp: inv0_def live_def split: if_splits\<close>)
  ultimately show ?thesis by (simp add: inv0_def)
qed

lemma heap_part_flags [simp]: "heap_part (upd_thr t (\<lambda>z. z\<lparr>flags := w z\<rparr>) s) = heap_part s"
  by (auto simp: heap_part_def fun_eq_iff simp del: rd_left rd_right)

lemma vp_inv_flags:
  assumes i: "vp_inv cur s" and w: "has_flag w FL_ON_SLEEPQ = has_flag (flags (thr s t)) FL_ON_SLEEPQ"
    "has_flag w FL_IDLE_THREAD = has_flag (flags (thr s t)) FL_IDLE_THREAD"
  shows "vp_inv cur (upd_thr t (\<lambda>z. z\<lparr>flags := w\<rparr>) s)" (is "vp_inv cur ?s")
proof -
  have "sleepers ?s = sleepers s"
    using w by (auto simp: sleepers_def live_def)
  moreover have "inv0 cur ?s"
    using i w by (intro inv0_flags) (auto simp: vp_inv_def)
  ultimately show ?thesis
    using i sleepq_is_frame [of s _ ?s] by (simp add: vp_inv_def)
qed

lemma set_fl_inv: "vp_inv cur s \<Longrightarrow> f \<in> {FL_INTERRUPT, FL_TIMEDOUT} \<Longrightarrow> vp_inv cur (set_fl t f s)"
proof -
  assume *: "vp_inv cur s" "f \<in> {FL_INTERRUPT, FL_TIMEDOUT}"
  have "set_fl t f s = upd_thr t (\<lambda>z. z\<lparr>flags := set_flag (flags (thr s t)) f\<rparr>) s"
    by (simp add: set_fl_def upd_thr_def)
  moreover have "vp_inv cur \<dots>"
    by (rule vp_inv_flags [OF *(1)]) (use *(2) in \<open>auto simp: flag_simps\<close>)
  ultimately show ?thesis by simp
qed

lemma clear_fl_inv: "vp_inv cur s \<Longrightarrow> f \<in> {FL_INTERRUPT, FL_TIMEDOUT} \<Longrightarrow> vp_inv cur (clear_fl t f s)"
proof -
  assume *: "vp_inv cur s" "f \<in> {FL_INTERRUPT, FL_TIMEDOUT}"
  have "clear_fl t f s = upd_thr t (\<lambda>z. z\<lparr>flags := clear_flag (flags (thr s t)) f\<rparr>) s"
    by (simp add: clear_fl_def upd_thr_def)
  moreover have "vp_inv cur \<dots>"
    by (rule vp_inv_flags [OF *(1)]) (use *(2) in \<open>auto simp: flag_simps\<close>)
  ultimately show ?thesis by simp
qed

section \<open>Waking a thread\<close>

text \<open>\<open>s\<close> and \<open>s'\<close> agree but for the io queue, poll requests, mutexes and event systems.\<close>

definition sim_io :: "st \<Rightarrow> st \<Rightarrow> bool" where
  "sim_io s s' \<longleftrightarrow> thr s' = thr s \<and> thread_q s' = thread_q s \<and> run_q s' = run_q s \<and>
     zombie_q s' = zombie_q s \<and> conds s' = conds s \<and> active_count s' = active_count s \<and>
     idle_thread s' = idle_thread s \<and> this_thread s' = this_thread s \<and>
     sleep_q s' = sleep_q s \<and> sleepq_size s' = sleepq_size s"

lemma sim_io_refl [simp]: "sim_io s s"
  by (simp add: sim_io_def)

lemma sim_io_heap: "sim_io s s' \<Longrightarrow> heap_part s' = heap_part s"
  by (simp add: sim_io_def heap_part_def)

text \<open>The pure part: what the invariant says once the thread has left the heap.\<close>

lemma inv0_make_runnable:
  assumes i: "inv0 cur s" and t: "t \<in> live s" "cur \<noteq> Some t" "waiting (state (thr s t))"
    and sim: "sim_io s a"
    and io: "\<And>u. u \<noteq> t \<Longrightarrow> pollqs a u = pollqs s u \<and> (u \<in> set (io_q a) \<longleftrightarrow> u \<in> set (io_q s))"
      "distinct (io_q a)"
      "t \<in> set (io_q a) \<longleftrightarrow> ctx (thr s t) = K_poll \<and> on_ioq (pollqs a t)"
      "pq_thread (pollqs a t) = pq_thread (pollqs s t)"
    and m: "mutex_ok (set_state t ST_RUNNABLE a)"
  shows "inv0 cur (make_runnable t (unset_due t a))"
proof -
  let ?s = "make_runnable t (unset_due t a)"
  have eq: "?s = a\<lparr>thr := (thr a)(t := (thr a t)\<lparr>flags := clear_flag (flags (thr a t)) FL_ON_SLEEPQ,
      state := ST_RUNNABLE\<rparr>), run_q := run_q a @ [t]\<rparr>"
    by (simp add: make_runnable_def unset_due_def ST_ADD_RUNQ_def set_state_def upd_thr_def)
  note S = sim [unfolded sim_io_def]
  have L: "live ?s = live s" by (simp add: eq live_def S)
  have q: "queues_ok cur s" and tk: "thread_ok cur s t"
    using i t by (auto simp: inv0_def)
  have "t \<notin> set (run_q s)"
    by (rule thread_ok_waiting [OF tk t(3)])
  moreover have "set (io_q a) \<subseteq> live s"
  proof
    fix u assume "u \<in> set (io_q a)"
    then show "u \<in> live s"
      using io(1) [of u] t(1) q by (cases "u = t") (auto simp: queues_ok_def)
  qed
  ultimately have "queues_ok cur ?s"
    using q io(2) t(1) unfolding queues_ok_def L by (auto simp: eq S)
  moreover have "thread_ok cur ?s u" if "u \<in> live s" for u
  proof (cases "u = t")
    case True
    have "t \<notin> set (zombie_q s)"
      by (rule thread_ok_waiting [OF tk t(3)])
    then show ?thesis
      using tok_runnable [OF tk [unfolded thread_ok_def] t(2,3) io(3,4)] True S
      by (simp add: thread_ok_def eq flag_simps)
  next
    case False
    have "thread_ok cur s u" using i that by (simp add: inv0_def)
    then show ?thesis
      by (rule thread_ok_other) (use False io(1) [of u] S in \<open>auto simp: eq\<close>)
  qed
  moreover have "cond_ok ?s" "term_ok ?s" "count_ok ?s"
    using i cond_ok_cong [of ?s s] term_ok_cong [of ?s s] count_ok_cong [of ?s s] S
    by (simp_all add: inv0_def live_def eq)
  moreover have "join_ok ?s"
    by (rule join_ok_mono [of s])
      (use i t(3) S in \<open>auto simp: inv0_def live_def eq waiting_def\<close>)
  moreover have "mutex_ok ?s"
    by (rule mutex_ok_mono [OF m]) (auto simp: live_def eq set_state_def)
  ultimately show ?thesis unfolding inv0_def L by blast
qed

end
