(* ===== verification/ST_Wake.thy ===== *)
theory ST_Wake
  imports ST_Inv
begin

text \<open>
  Waking a thread: the moves that take a waiting thread out of the queues it is in and make it runnable, each
  with its effect on \<open>vp_inv\<close> (\<open>wake_inv\<close>), and that the timeout heap can be forgotten while they are made.
\<close>

section \<open>Updates commute with forgetting the heap\<close>

lemma noheap_upd_thr:
  "(\<And>z. (f z)\<lparr>left := None, right := None, heap_index := 0\<rparr> =
         f (z\<lparr>left := None, right := None, heap_index := 0\<rparr>)) \<Longrightarrow>
   noheap (upd_thr t f s) = upd_thr t f (noheap s)"
  by (auto simp: noheap_def unlink_def upd_thr_def intro!: st.equality ext)

lemma noheap_make_runnable: "noheap (make_runnable t s) = make_runnable t (noheap s)"
  unfolding make_runnable_def set_state_def ST_ADD_RUNQ_def
  by (simp add: noheap_upd_thr [symmetric]) (simp add: noheap_def unlink_def)

lemma noheap_set_fl: "noheap (set_fl t f s) = set_fl t f (noheap s)"
  unfolding set_fl_def by (rule noheap_upd_thr) simp

lemma noheap_clear_fl: "noheap (clear_fl t f s) = clear_fl t f (noheap s)"
  unfolding clear_fl_def by (rule noheap_upd_thr) simp

lemma noheap_set_state: "noheap (set_state t x s) = set_state t x (noheap s)"
  unfolding set_state_def by (rule noheap_upd_thr) simp

lemma noheap_set_ctx: "noheap (set_ctx t x s) = set_ctx t x (noheap s)"
  unfolding set_ctx_def by (rule noheap_upd_thr) simp

lemma make_runnable_cong: "noheap s = noheap s' \<Longrightarrow> noheap (make_runnable t s) = noheap (make_runnable t s')"
  by (simp add: noheap_make_runnable)

lemma clear_flag_id: "\<not> has_flag w f \<Longrightarrow> clear_flag w f = w"
  by (rule bit_eqI) (auto simp: has_flag_bit clear_flag_def bit_and_iff bit_not_iff)

lemma unset_due_id: "\<not> has_flag (flags (thr s t)) FL_ON_SLEEPQ \<Longrightarrow> unset_due t s = s"
  by (simp add: unset_due_def upd_thr_def clear_flag_id)

lemma heap_part_make_runnable [simp]: "heap_part (make_runnable t s) = heap_part s"
  by (auto simp: heap_part_def make_runnable_def ST_ADD_RUNQ_def set_state_def fun_eq_iff
      simp del: rd_left rd_right)

section \<open>Waking\<close>

lemma off_sleepq_run:
  assumes h: "sleepq_is s T" and t: "t \<in> T \<longleftrightarrow> has_flag (flags (thr s t)) FL_ON_SLEEPQ"
  shows "\<exists>s1. off_sleepq t s = Some s1 \<and> sleepq_is s1 (T - {t}) \<and> noheap s1 = noheap (unset_due t s)"
proof (cases "t \<in> T")
  case True
  then show ?thesis
    using t tq.del_law [OF h True] by (simp add: off_sleepq_def)
next
  case False
  then show ?thesis
    using t h by (simp add: off_sleepq_def unset_due_id)
qed

lemma wake_inv:
  assumes v: "vp_inv cur s" and t: "t \<in> live s" "waiting (state (thr s t))"
    and sim: "sim_io s a"
    and io: "\<And>u. u \<noteq> t \<Longrightarrow> pollqs a u = pollqs s u \<and> (u \<in> set (io_q a) \<longleftrightarrow> u \<in> set (io_q s))"
      "distinct (io_q a)"
      "t \<in> set (io_q a) \<longleftrightarrow> ctx (thr s t) = K_poll \<and> on_ioq (pollqs a t)"
      "pq_thread (pollqs a t) = pq_thread (pollqs s t)"
    and m: "mutex_ok (set_state t ST_RUNNABLE a)"
  shows "\<exists>s1. off_sleepq t a = Some s1 \<and> vp_inv cur (make_runnable t s1) \<and>
    noheap (make_runnable t s1) = noheap (make_runnable t (unset_due t a))"
proof -
  have i: "inv0 cur s" and h: "sleepq_is s (sleepers s)"
    using v by (simp_all add: vp_inv_def)
  have "thread_ok cur s t" using i t(1) by (simp add: inv0_def)
  then have ct: "cur \<noteq> Some t" by (rule thread_ok_waiting [OF _ t(2)])
  have S: "thr a = thr s" "thread_q a = thread_q s"
    using sim by (simp_all add: sim_io_def)
  have "sleepq_is a (sleepers s)"
    by (rule sleepq_is_frame [OF h sim_io_heap [OF sim]])
  then obtain s1 where s1: "off_sleepq t a = Some s1" "sleepq_is s1 (sleepers s - {t})"
      "noheap s1 = noheap (unset_due t a)"
    using off_sleepq_run [of a "sleepers s" t] t(1) S by (auto simp: sleepers_def)
  have n: "noheap (make_runnable t s1) = noheap (make_runnable t (unset_due t a))"
    by (rule make_runnable_cong [OF s1(3)])
  have "inv0 cur (make_runnable t (unset_due t a))"
    by (rule inv0_make_runnable [OF i t(1) ct t(2) sim io m])
  then have "inv0 cur (make_runnable t s1)"
    by (simp add: inv0_same [OF n])
  moreover have "sleepers (make_runnable t s1) = sleepers s - {t}"
    unfolding sleepers_same [OF n]
    by (auto simp: sleepers_def live_def make_runnable_def unset_due_def set_state_def ST_ADD_RUNQ_def S
        flag_simps has_flag_clear_self)
  ultimately show ?thesis
    using s1 n sleepq_is_frame [OF s1(2), of "make_runnable t s1"] by (auto simp: vp_inv_def)
qed

text \<open>A thread woken from any queue but the io queue.\<close>

lemma mutex_ok_runnable: "mutex_ok s \<Longrightarrow> mutex_ok (set_state t ST_RUNNABLE s)"
  by (erule mutex_ok_mono) (auto simp: set_state_def live_def split: if_splits)

lemma wake_simple_inv:
  assumes v: "vp_inv cur s" and t: "t \<in> live s" "waiting (state (thr s t))"
  shows "\<exists>s1. off_sleepq t s = Some s1 \<and> vp_inv cur (make_runnable t s1) \<and>
    noheap (make_runnable t s1) = noheap (make_runnable t (unset_due t s))"
proof (rule wake_inv [OF v t])
  have i: "queues_ok cur s" "thread_ok cur s t" "mutex_ok s"
    using v t(1) by (simp_all add: vp_inv_def inv0_def)
  show "distinct (io_q s)" using i(1) by (simp add: queues_ok_def)
  show "t \<in> set (io_q s) \<longleftrightarrow> ctx (thr s t) = K_poll \<and> on_ioq (pollqs s t)"
    by (rule thread_ok_state [OF i(2)])
  show "mutex_ok (set_state t ST_RUNNABLE s)"
    by (rule mutex_ok_runnable [OF i(3)])
qed simp_all

text \<open>A poll request that leaves the io queue, whatever happens to the event systems.\<close>

lemma wake_io_inv:
  assumes v: "vp_inv cur s" and q: "q \<in> set (io_q s)" "state (thr s q) = ST_IO_WAIT"
    and e: "same_but_events (unlink_pollq q (set_pds q ps s)) a"
  shows "\<exists>s'. wake_pollq q a = Some s' \<and> vp_inv cur s' \<and>
    noheap s' = noheap (make_runnable q (unset_due q a))"
proof -
  have i: "queues_ok cur s" "mutex_ok s" and ql: "q \<in> live s"
    using v q by (auto simp: vp_inv_def inv0_def queues_ok_def)
  have tk: "thread_ok cur s q" using v ql by (simp add: vp_inv_def inv0_def)
  note E = same_but_eventsD [OF e, unfolded unlink_pollq_def set_pds_def ST_DEL_IOQ_def Let_def]
  have pq: "pq_thread (pollqs a q) = q"
    using thread_ok_state(9) [OF tk q(1)] E by simp
  have w: "waiting (state (thr s q))" using q(2) by (simp add: waiting_def)
  have "\<exists>s1. off_sleepq q a = Some s1 \<and> vp_inv cur (make_runnable q s1) \<and>
    noheap (make_runnable q s1) = noheap (make_runnable q (unset_due q a))"
  proof (rule wake_inv [OF v ql w])
    show "sim_io s a" using E by (simp add: sim_io_def)
    show "pollqs a u = pollqs s u \<and> (u \<in> set (io_q a) \<longleftrightarrow> u \<in> set (io_q s))" if "u \<noteq> q" for u
      using that E by simp
    show "distinct (io_q a)" using i E by (simp add: queues_ok_def)
    show "q \<in> set (io_q a) \<longleftrightarrow> ctx (thr s q) = K_poll \<and> on_ioq (pollqs a q)"
      using i E by (simp add: queues_ok_def)
    show "pq_thread (pollqs a q) = pq_thread (pollqs s q)"
      using thread_ok_state(9) [OF tk q(1)] pq by simp
    have "mutex_ok a"
      by (rule mutex_ok_mono [OF i(2)]) (use E in \<open>auto simp: live_def\<close>)
    then show "mutex_ok (set_state q ST_RUNNABLE a)" by (rule mutex_ok_runnable)
  qed
  then show ?thesis
    using pq by (auto simp: wake_pollq_def)
qed

end
