(* ===== verification/ST_EvInv.thy ===== *)
theory ST_EvInv
  imports ST_Wake
begin

text \<open>
  The dispatch functions and the invariant. The reference counts of an event system equal the
  number of descriptors that the requests on the io queue watch (\<open>watchers\<close>), every wake-up of a
  dispatch keeps \<open>vp_inv\<close>, and no assertion in them fails.
\<close>

lemma same_but_events_self:
  "s'\<lparr>sel := a, pol := b, kqd := c, epd := d, sel := sel s', pol := pol s', kqd := kqd s', epd := epd s'\<rparr> = s'"
  by simp

lemma same_but_events_iff:
  "same_but_events s s' \<longleftrightarrow> (\<exists>a b c d. s' = s\<lparr>sel := a, pol := b, kqd := c, epd := d\<rparr>)"
proof
  assume "same_but_events s s'"
  then have "s = s'\<lparr>sel := sel s, pol := pol s, kqd := kqd s, epd := epd s\<rparr>"
    by (simp add: same_but_events_def)
  then have "s' = s\<lparr>sel := sel s', pol := pol s', kqd := kqd s', epd := epd s'\<rparr>"
    using same_but_events_self [of s' "epd s" "kqd s" "pol s" "sel s"] by simp
  then show "\<exists>a b c d. s' = s\<lparr>sel := a, pol := b, kqd := c, epd := d\<rparr>" by blast
next
  assume "\<exists>a b c d. s' = s\<lparr>sel := a, pol := b, kqd := c, epd := d\<rparr>"
  then show "same_but_events s s'" by (auto simp: same_but_events_def)
qed

lemma same_but_events_trans: "same_but_events s s1 \<Longrightarrow> same_but_events s1 s2 \<Longrightarrow> same_but_events s s2"
  unfolding same_but_events_iff by force

section \<open>Counting descriptors\<close>

definition watch :: "pollfd list \<Rightarrow> eventw \<Rightarrow> int \<Rightarrow> int" where
  "watch ps e f = int (length (filter (\<lambda>pd. fd pd = f \<and> wants pd e) ps))"

definition watchers :: "st \<Rightarrow> eventw \<Rightarrow> int \<Rightarrow> int" where
  "watchers s e f = sum_list (map (\<lambda>q. watch (pds (pollqs s q)) e f) (io_q s))"

lemma watch_simps [simp]:
  "watch [] e f = 0"
  "watch (pd # ps) e f = (if fd pd = f \<and> wants pd e then 1 else 0) + watch ps e f"
  "watch (ps @ ps') e f = watch ps e f + watch ps' e f"
  by (simp_all add: watch_def)

lemma watch_nonneg [simp]: "0 \<le> watch ps e f"
  by (simp add: watch_def)

lemma watch_revents: "(\<And>pd. fd (g pd) = fd pd \<and> events (g pd) = events pd) \<Longrightarrow>
    watch (map g ps) e f = watch ps e f"
  by (induction ps) (simp_all add: wants_def)

lemma sum_list_remove1: "x \<in> set xs \<Longrightarrow> sum_list (map g (remove1 x xs)) = sum_list (map g xs) - (g x :: int)"
  by (induction xs) auto

lemma sum_list_ge: "x \<in> set xs \<Longrightarrow> (\<And>y. 0 \<le> (g y :: int)) \<Longrightarrow> g x \<le> sum_list (map g xs)"
proof (induction xs)
  case (Cons a xs)
  have "0 \<le> sum_list (map g xs)"
    by (rule sum_list_nonneg) (use Cons.prems(2) in auto)
  moreover have "0 \<le> g a" by (rule Cons.prems(2))
  ultimately show ?case using Cons by fastforce
qed simp

lemma watchers_ge: "q \<in> set (io_q s) \<Longrightarrow> watch (pds (pollqs s q)) e f \<le> watchers s e f"
  unfolding watchers_def by (rule sum_list_ge) simp_all

lemma watchers_cong:
  "io_q s' = io_q s \<Longrightarrow> (\<And>q. q \<in> set (io_q s) \<Longrightarrow> watch (pds (pollqs s' q)) e f = watch (pds (pollqs s q)) e f) \<Longrightarrow>
   watchers s' e f = watchers s e f"
  unfolding watchers_def by (metis (no_types, lifting) map_cong)

lemma watchers_remove:
  assumes "q \<in> set (io_q s)" "distinct (io_q s)" "io_q s' = remove1 q (io_q s)"
    and "\<And>u. u \<noteq> q \<Longrightarrow> pds (pollqs s' u) = pds (pollqs s u)"
  shows "watchers s' e f = watchers s e f - watch (pds (pollqs s q)) e f"
proof -
  have "map (\<lambda>q. watch (pds (pollqs s' q)) e f) (remove1 q (io_q s)) =
      map (\<lambda>q. watch (pds (pollqs s q)) e f) (remove1 q (io_q s))"
    using assms(2,4) by (intro map_cong) auto
  then show ?thesis
    using sum_list_remove1 [OF assms(1), of "\<lambda>q. watch (pds (pollqs s q)) e f"]
    unfolding watchers_def assms(3) by argo
qed

lemma watchers_nonneg [simp]: "0 \<le> watchers s e f"
  unfolding watchers_def by (rule sum_list_nonneg) auto

lemma watchers_same_events: "same_but_events s s' \<Longrightarrow> watchers s' e f = watchers s e f"
  using same_but_eventsD by (auto intro!: watchers_cong)

definition enqueue_pollq :: "tid \<Rightarrow> pollfd list \<Rightarrow> st \<Rightarrow> st" where
  "enqueue_pollq q ps s = ST_ADD_IOQ q (s\<lparr>pollqs := (pollqs s)
     (q := \<lparr>pq_thread = q, pds = ps, on_ioq = True\<rparr>)\<rparr>)"

lemma watchers_enqueue:
  assumes "q \<notin> set (io_q s)"
  shows "watchers (enqueue_pollq q ps s) e f = watchers s e f + watch ps e f"
proof -
  have "sum_list (map (\<lambda>u. watch (pds (if u = q then \<lparr>pq_thread = q, pds = ps, on_ioq = True\<rparr> else pollqs s u)) e f)
      (io_q s)) = sum_list (map (\<lambda>u. watch (pds (pollqs s u)) e f) (io_q s))"
    using assms by (intro arg_cong [where f = sum_list] map_cong) auto
  then show ?thesis
    by (simp add: watchers_def enqueue_pollq_def ST_ADD_IOQ_def)
qed

section \<open>The walk over the io queue\<close>

lemma ioq_loop_rule:
  assumes "\<And>q qs s. P (q # qs) s \<Longrightarrow> \<exists>s'. body q s = Some s' \<and> P qs s'" "P qs s"
  shows "\<exists>s'. ioq_loop body qs s = Some s' \<and> P [] s'"
  using assms(2)
proof (induction qs arbitrary: s)
  case (Cons q qs)
  then obtain s1 where "body q s = Some s1" "P qs s1" using assms(1) by blast
  with Cons.IH show ?case by auto
qed simp

text \<open>The requests still to be looked at are on the io queue, their threads asleep in \<open>st_poll\<close>.\<close>

definition pending :: "tid option \<Rightarrow> tid list \<Rightarrow> st \<Rightarrow> bool" where
  "pending cur qs s \<longleftrightarrow> vp_inv cur s \<and> distinct qs \<and>
     (\<forall>q \<in> set qs. q \<in> set (io_q s) \<and> state (thr s q) = ST_IO_WAIT)"

lemma inv0_events:
  assumes "inv0 cur s" "same_but_events (set_pds q ps s) s'"
  shows "inv0 cur s'"
proof -
  note E = same_but_eventsD [OF assms(2), unfolded set_pds_def]
  note i = assms(1)
  have L: "live s' = live s" using E by (simp add: live_def)
  have "queues_ok cur s'" using i E by (simp add: inv0_def queues_ok_def L)
  moreover have "thread_ok cur s' t" if "t \<in> live s" for t
  proof -
    have "on_ioq (pollqs s' t) = on_ioq (pollqs s t)" "pq_thread (pollqs s' t) = pq_thread (pollqs s t)"
      using E by simp_all
    moreover have "thread_ok cur s t" using i that by (simp add: inv0_def)
    ultimately show ?thesis using E by (simp add: thread_ok_def tok_def)
  qed
  moreover have "cond_ok s'" "term_ok s'" "count_ok s'"
    using i cond_ok_cong [of s' s] term_ok_cong [of s' s] count_ok_cong [of s' s] E
    by (simp_all add: inv0_def L)
  moreover have "join_ok s'"
    by (rule join_ok_mono [of s]) (use i E in \<open>auto simp: inv0_def L\<close>)
  moreover have "mutex_ok s'"
    by (rule mutex_ok_mono [of s]) (use i E in \<open>auto simp: inv0_def L\<close>)
  ultimately show ?thesis unfolding inv0_def L by blast
qed

lemma vp_inv_events:
  assumes "vp_inv cur s" "same_but_events (set_pds q ps s) s'"
  shows "vp_inv cur s'"
proof -
  note E = same_but_eventsD [OF assms(2), unfolded set_pds_def]
  have "heap_part s' = heap_part s" using E by (simp add: heap_part_def)
  moreover have "sleepers s' = sleepers s" using E by (simp add: sleepers_def live_def)
  ultimately show ?thesis
    using assms inv0_events sleepq_is_frame by (metis vp_inv_def)
qed

lemma pending_keep:
  assumes "pending cur (q # qs) s" "same_but_events (set_pds q ps s) s'"
  shows "pending cur qs s'"
  using assms vp_inv_events [OF _ assms(2)] same_but_eventsD [OF assms(2), unfolded set_pds_def]
  by (auto simp: pending_def)

lemma pending_wake:
  assumes p: "pending cur (q # qs) s" and e: "same_but_events (unlink_pollq q (set_pds q ps s)) a"
  shows "\<exists>s'. wake_pollq q a = Some s' \<and> pending cur qs s' \<and> noheap s' = noheap (make_runnable q (unset_due q a))"
proof -
  have q: "vp_inv cur s" "q \<in> set (io_q s)" "state (thr s q) = ST_IO_WAIT"
    using p by (auto simp: pending_def)
  obtain s' where s': "wake_pollq q a = Some s'" "vp_inv cur s'" "noheap s' = noheap (make_runnable q (unset_due q a))"
    using wake_io_inv [OF q e] by blast
  note E = same_but_eventsD [OF e, unfolded unlink_pollq_def set_pds_def ST_DEL_IOQ_def Let_def]
  have d: "distinct (io_q s)" using q(1) by (simp add: vp_inv_def inv0_def queues_ok_def)
  have "io_q s' = remove1 q (io_q s)" "u \<noteq> q \<Longrightarrow> state (thr s' u) = state (thr s u)" for u
    using noheap_eqD [OF s'(3)] E
    by (simp_all add: make_runnable_def unset_due_def set_state_def ST_ADD_RUNQ_def)
  moreover have "q \<notin> set qs" "distinct qs"
    using p by (auto simp: pending_def)
  ultimately have "pending cur qs s'"
    using s'(2) p d unfolding pending_def by (metis in_set_remove1 list.set_intros(2))
  with s' show ?thesis by blast
qed

lemma pending_start:
  assumes v: "vp_inv (Some (idle_thread s)) s" and r: "run_q s = []"
  shows "pending (Some (idle_thread s)) (io_q s) s"
proof -
  have "state (thr s q) = ST_IO_WAIT" if "q \<in> set (io_q s)" for q
  proof -
    have "q \<in> live s" using v that by (auto simp: vp_inv_def inv0_def queues_ok_def)
    then have k: "thread_ok (Some (idle_thread s)) s q" using v by (simp add: vp_inv_def inv0_def)
    then have "ctx (thr s q) = K_poll" using that thread_ok_state(8) by blast
    then show ?thesis
      using k r by (cases "state (thr s q)"; simp add: thread_ok_def tok_def; simp)
  qed
  then show ?thesis
    using v by (simp add: pending_def vp_inv_def inv0_def queues_ok_def)
qed

section \<open>What a dispatch does to the requests\<close>

definition ready :: "pollfd list \<Rightarrow> bool" where
  "ready ps \<longleftrightarrow> list_ex (\<lambda>pd. revents pd \<noteq> 0) ps"

text \<open>
  The requests with \<open>N\<close> leave the io queue, and their threads are appended to the run queue in the
  order of the io queue; the others stay where they are. \<open>f\<close> is what the requests hold afterwards.
\<close>

definition dispatched :: "(tid \<Rightarrow> bool) \<Rightarrow> (tid \<Rightarrow> pollfd list) \<Rightarrow> st \<Rightarrow> st \<Rightarrow> bool" where
  "dispatched N f s s' \<longleftrightarrow>
     io_q s' = filter (\<lambda>q. \<not> N q) (io_q s) \<and>
     run_q s' = run_q s @ filter (\<lambda>q. N q) (io_q s) \<and>
     (\<forall>q \<in> set (io_q s). pds (pollqs s' q) = f q \<and>
        (on_ioq (pollqs s' q) \<longleftrightarrow> \<not> N q))"

text \<open>Only threads that wait for descriptors are set going.\<close>

definition parked :: "st \<Rightarrow> st \<Rightarrow> bool" where
  "parked s s' \<longleftrightarrow> (\<forall>u. ctx (thr s' u) = ctx (thr s u) \<and>
     has_flag (flags (thr s' u)) FL_INTERRUPT = has_flag (flags (thr s u)) FL_INTERRUPT \<and>
     (state (thr s' u) = state (thr s u) \<or> state (thr s u) = ST_IO_WAIT))"

lemma parked_upd [simp]:
  "parked s s" "parked s (t\<lparr>sel := a\<rparr>) = parked s t" "parked s (t\<lparr>pol := b\<rparr>) = parked s t"
  "parked s (t\<lparr>kqd := c\<rparr>) = parked s t" "parked s (t\<lparr>epd := d\<rparr>) = parked s t"
  by (simp_all add: parked_def)

lemma parked_thr:
  "thr a = thr b \<Longrightarrow> parked s a = parked s b" "thr a = thr b \<Longrightarrow> parked a s = parked b s"
  by (simp_all add: parked_def)

lemma parked_trans: "parked s s1 \<Longrightarrow> parked s1 s2 \<Longrightarrow> parked s s2"
  unfolding parked_def by (auto; metis)

text \<open>What a dispatch leaves alone.\<close>

definition disp_frame :: "st \<Rightarrow> st \<Rightarrow> bool" where
  "disp_frame s s' \<longleftrightarrow> idle_thread s' = idle_thread s \<and> last_clock s' = last_clock s \<and> evsys s' = evsys s \<and>
     active_count s' = active_count s \<and> this_thread s' = this_thread s \<and> thread_q s' = thread_q s \<and>
     conds s' = conds s \<and> mutexes s' = mutexes s \<and> keys s' = keys s \<and> stks s' = stks s \<and>
     zombie_q s' = zombie_q s \<and> pagesize s' = pagesize s \<and> parked s s'"

lemma disp_frame_events: "same_but_events s s' \<Longrightarrow> disp_frame s s'"
  using same_but_eventsD [of s s'] parked_thr(1) [of s' s s] by (simp add: disp_frame_def)

lemma disp_frame_trans: "disp_frame s s1 \<Longrightarrow> disp_frame s1 s2 \<Longrightarrow> disp_frame s s2"
  using parked_trans [of s s1 s2] by (simp add: disp_frame_def)

text \<open>The same in the middle of the walk, with \<open>qs\<close> to come.\<close>

definition walked :: "tid option \<Rightarrow> (tid \<Rightarrow> bool) \<Rightarrow> (tid \<Rightarrow> pollfd list) \<Rightarrow> st \<Rightarrow> tid list \<Rightarrow> st \<Rightarrow> bool" where
  "walked cur N f s0 qs s \<longleftrightarrow> pending cur qs s \<and> distinct (io_q s0) \<and> disp_frame s0 s \<and>
     (\<exists>dn. io_q s0 = dn @ qs \<and>
        io_q s = filter (\<lambda>q. \<not> N q) dn @ qs \<and>
        run_q s = run_q s0 @ filter (\<lambda>q. N q) dn \<and>
        (\<forall>q \<in> set dn. pds (pollqs s q) = f q \<and>
           (on_ioq (pollqs s q) \<longleftrightarrow> \<not> N q)) \<and>
        (\<forall>q \<in> set qs. pollqs s q = pollqs s0 q))"

lemma walked_start:
  "pending cur (io_q s) s \<Longrightarrow> same_but_events s s' \<Longrightarrow> walked cur N f s (io_q s) s'"
proof -
  assume p: "pending cur (io_q s) s" and e: "same_but_events s s'"
  have sp: "set_pds q (pds (pollqs s q)) s = s" for q by (simp add: set_pds_def)
  have "vp_inv cur s'"
    by (rule vp_inv_events [of _ s 0 "pds (pollqs s 0)"]) (use p e in \<open>simp_all add: pending_def sp\<close>)
  then show ?thesis
    using p same_but_eventsD [OF e] disp_frame_events [OF e] by (simp add: walked_def pending_def)
qed

lemma walked_pds: "walked cur N f s0 (q # qs) s \<Longrightarrow> pollqs s q = pollqs s0 q \<and> q \<in> set (io_q s) \<and> distinct (io_q s)"
  by (auto simp: walked_def pending_def vp_inv_def inv0_def queues_ok_def)

lemma walked_keep:
  assumes w: "walked cur N f s0 (q # qs) s" and ps: "ps = f q" "\<not> N q"
    and e: "same_but_events (set_pds q ps s) s'"
  shows "walked cur N f s0 qs s'"
proof -
  note E = same_but_eventsD [OF e, unfolded set_pds_def]
  obtain dn where dn: "io_q s0 = dn @ q # qs" "io_q s = filter (\<lambda>q. \<not> N q) dn @ q # qs"
      "run_q s = run_q s0 @ filter (\<lambda>q. N q) dn"
      "\<forall>q \<in> set dn. pds (pollqs s q) = f q \<and>
           (on_ioq (pollqs s q) \<longleftrightarrow> \<not> N q)"
      "\<forall>q \<in> set (q # qs). pollqs s q = pollqs s0 q"
    using w by (auto simp: walked_def)
  have p: "pending cur (q # qs) s" using w by (simp add: walked_def)
  have iv: "vp_inv cur s" "q \<in> live s" "q \<in> set (io_q s)"
    using p by (auto simp: pending_def vp_inv_def inv0_def queues_ok_def)
  have "thread_ok cur s q" using iv by (simp add: vp_inv_def inv0_def)
  then have on: "on_ioq (pollqs s q)" using iv(3) thread_ok_state(8) by blast
  have q: "q \<notin> set qs" using p by (simp add: pending_def)
  have "\<exists>dn. io_q s0 = dn @ qs \<and>
        io_q s' = filter (\<lambda>q. \<not> N q) dn @ qs \<and>
        run_q s' = run_q s0 @ filter (\<lambda>q. N q) dn \<and>
        (\<forall>q \<in> set dn. pds (pollqs s' q) = f q \<and>
           (on_ioq (pollqs s' q) \<longleftrightarrow> \<not> N q)) \<and>
        (\<forall>q \<in> set qs. pollqs s' q = pollqs s0 q)"
    by (rule exI [of _ "dn @ [q]"]) (use dn E ps on q in auto)
  then show ?thesis
    using w E pending_keep [OF p e] parked_thr(1) [of s' s s0] by (simp add: walked_def disp_frame_def)
qed

lemma walked_wake:
  assumes w: "walked cur N f s0 (q # qs) s" and ps: "ps = f q" "N q"
    and e: "same_but_events (unlink_pollq q (set_pds q ps s)) a"
  shows "\<exists>s'. wake_pollq q a = Some s' \<and> walked cur N f s0 qs s' \<and> sel s' = sel a \<and> pol s' = pol a \<and>
    kqd s' = kqd a \<and> epd s' = epd a \<and> io_q s' = remove1 q (io_q s) \<and> pollqs s' = pollqs a"
proof -
  note E = same_but_eventsD [OF e, unfolded set_pds_def unlink_pollq_def ST_DEL_IOQ_def Let_def]
  obtain dn where dn: "io_q s0 = dn @ q # qs" "io_q s = filter (\<lambda>q. \<not> N q) dn @ q # qs"
      "run_q s = run_q s0 @ filter (\<lambda>q. N q) dn"
      "\<forall>q \<in> set dn. pds (pollqs s q) = f q \<and>
           (on_ioq (pollqs s q) \<longleftrightarrow> \<not> N q)"
      "\<forall>q \<in> set (q # qs). pollqs s q = pollqs s0 q"
    using w by (auto simp: walked_def)
  have p: "pending cur (q # qs) s" using w by (simp add: walked_def)
  have q: "q \<notin> set qs" and d: "distinct (io_q s)"
    using p by (simp_all add: pending_def vp_inv_def inv0_def queues_ok_def)
  have qd: "q \<notin> set (filter (\<lambda>q. \<not> N q) dn)"
    using d dn(2) by auto
  obtain s' where s': "wake_pollq q a = Some s'" "pending cur qs s'"
      "noheap s' = noheap (make_runnable q (unset_due q a))"
    using pending_wake [OF p e] by blast
  have pq: "pq_thread (pollqs s q) = q"
    using p thread_ok_state(9) by (auto simp: pending_def vp_inv_def inv0_def queues_ok_def)
  have N: "io_q s' = io_q a" "run_q s' = run_q a @ [q]" "pollqs s' = pollqs a" "sel s' = sel a" "pol s' = pol a"
      "kqd s' = kqd a" "epd s' = epd a" "parked a s' \<Longrightarrow> disp_frame a s'"
    using noheap_eqD [OF s'(3)]
    by (simp_all add: make_runnable_def unset_due_def set_state_def ST_ADD_RUNQ_def disp_frame_def)
  have "state (thr a q) = ST_IO_WAIT"
    using p E by (simp add: pending_def)
  then have "parked a s'"
    using noheap_eqD(25,26,34) [OF s'(3)]
    by (auto simp: parked_def make_runnable_def unset_due_def set_state_def ST_ADD_RUNQ_def flag_simps)
  then have F: "disp_frame s s'"
    using N(8) E parked_thr(2) [of a s s'] by (simp add: disp_frame_def)
  have "q \<notin> set dn"
    using dn(1) w by (auto simp: walked_def)
  then have "\<exists>dn. io_q s0 = dn @ qs \<and>
        io_q s' = filter (\<lambda>q. \<not> N q) dn @ qs \<and>
        run_q s' = run_q s0 @ filter (\<lambda>q. N q) dn \<and>
        (\<forall>q \<in> set dn. pds (pollqs s' q) = f q \<and>
           (on_ioq (pollqs s' q) \<longleftrightarrow> \<not> N q)) \<and>
        (\<forall>q \<in> set qs. pollqs s' q = pollqs s0 q)"
    using dn E ps q qd N by (intro exI [of _ "dn @ [q]"]) (auto simp: remove1_append)
  then show ?thesis
    using s' w E N disp_frame_trans [OF _ F] by (auto simp: walked_def)
qed

lemma walked_end: "walked cur N f s0 [] s \<Longrightarrow> vp_inv cur s \<and> dispatched N f s0 s \<and> disp_frame s0 s"
  by (auto simp: walked_def pending_def dispatched_def)

end
