(* ===== verification/ST_SelectInv.thy ===== *)
theory ST_SelectInv
  imports ST_EvInv ST_EvSelect
begin

text \<open>
  The \<open>select\<close> event system is right: the three sets always hold the descriptors that requests on
  the io queue watch, the counts say how many do, and \<open>maxfd\<close> covers them all.
\<close>

section \<open>Invariant\<close>

text \<open>The sets are the descriptors with a count.\<close>

definition sel_sync :: "seldata \<Rightarrow> bool" where
  "sel_sync d \<longleftrightarrow> (\<forall>f. (fd_read_set d f \<longleftrightarrow> sel_read_cnt d f \<noteq> 0) \<and>
     (fd_write_set d f \<longleftrightarrow> sel_write_cnt d f \<noteq> 0) \<and> (fd_exception_set d f \<longleftrightarrow> sel_excep_cnt d f \<noteq> 0))"

definition sel_cnt_ok :: "st \<Rightarrow> bool" where
  "sel_cnt_ok s \<longleftrightarrow> (\<forall>f. sel_read_cnt (sel s) f = watchers s POLLIN f \<and>
     sel_write_cnt (sel s) f = watchers s POLLOUT f \<and> sel_excep_cnt (sel s) f = watchers s POLLPRI f)"

definition sel_pds_ok :: "st \<Rightarrow> bool" where
  "sel_pds_ok s \<longleftrightarrow> (\<forall>q \<in> set (io_q s). list_all sel_pd_ok (pds (pollqs s q)))"

definition sel_max_ok :: "tid set \<Rightarrow> st \<Rightarrow> bool" where
  "sel_max_ok A s \<longleftrightarrow> (\<forall>q \<in> set (io_q s) - A. \<forall>pd \<in> set (pds (pollqs s q)). fd pd \<le> maxfd (sel s))"

definition sel_base :: "st \<Rightarrow> bool" where
  "sel_base s \<longleftrightarrow> sel_sync (sel s) \<and> sel_cnt_ok s \<and> sel_pds_ok s"

definition sel_ok :: "st \<Rightarrow> bool" where
  "sel_ok s \<longleftrightarrow> sel_base s \<and> sel_max_ok {} s"

section \<open>The loops over descriptors\<close>

lemma sel_add1_simps:
  "sel_read_cnt (sel_add1 pd d) f = sel_read_cnt d f + (if fd pd = f \<and> wants pd POLLIN then 1 else 0)"
  "sel_write_cnt (sel_add1 pd d) f = sel_write_cnt d f + (if fd pd = f \<and> wants pd POLLOUT then 1 else 0)"
  "sel_excep_cnt (sel_add1 pd d) f = sel_excep_cnt d f + (if fd pd = f \<and> wants pd POLLPRI then 1 else 0)"
  "fd_read_set (sel_add1 pd d) f \<longleftrightarrow> fd_read_set d f \<or> fd pd = f \<and> wants pd POLLIN"
  "fd_write_set (sel_add1 pd d) f \<longleftrightarrow> fd_write_set d f \<or> fd pd = f \<and> wants pd POLLOUT"
  "fd_exception_set (sel_add1 pd d) f \<longleftrightarrow> fd_exception_set d f \<or> fd pd = f \<and> wants pd POLLPRI"
  "maxfd (sel_add1 pd d) = max (maxfd d) (fd pd)"
  by (auto simp: sel_add1_def Let_def)

lemma sel_del1_simps:
  "sel_read_cnt (sel_del1 pd d) f = sel_read_cnt d f - (if fd pd = f \<and> wants pd POLLIN then 1 else 0)"
  "sel_write_cnt (sel_del1 pd d) f = sel_write_cnt d f - (if fd pd = f \<and> wants pd POLLOUT then 1 else 0)"
  "sel_excep_cnt (sel_del1 pd d) f = sel_excep_cnt d f - (if fd pd = f \<and> wants pd POLLPRI then 1 else 0)"
  "fd_read_set (sel_del1 pd d) f \<longleftrightarrow> fd_read_set d f \<and>
     \<not> (fd pd = f \<and> wants pd POLLIN \<and> sel_read_cnt d f = 1)"
  "fd_write_set (sel_del1 pd d) f \<longleftrightarrow> fd_write_set d f \<and>
     \<not> (fd pd = f \<and> wants pd POLLOUT \<and> sel_write_cnt d f = 1)"
  "fd_exception_set (sel_del1 pd d) f \<longleftrightarrow> fd_exception_set d f \<and>
     \<not> (fd pd = f \<and> wants pd POLLPRI \<and> sel_excep_cnt d f = 1)"
  "maxfd (sel_del1 pd d) = maxfd d"
  by (auto simp: sel_del1_def Let_def)

lemma sel_add_cnt:
  "sel_read_cnt (fold sel_add1 ps d) f = sel_read_cnt d f + watch ps POLLIN f"
  "sel_write_cnt (fold sel_add1 ps d) f = sel_write_cnt d f + watch ps POLLOUT f"
  "sel_excep_cnt (fold sel_add1 ps d) f = sel_excep_cnt d f + watch ps POLLPRI f"
  by (induction ps arbitrary: d) (simp_all add: sel_add1_simps)

lemma sel_del_cnt:
  "sel_read_cnt (fold sel_del1 ps d) f = sel_read_cnt d f - watch ps POLLIN f"
  "sel_write_cnt (fold sel_del1 ps d) f = sel_write_cnt d f - watch ps POLLOUT f"
  "sel_excep_cnt (fold sel_del1 ps d) f = sel_excep_cnt d f - watch ps POLLPRI f"
  "maxfd (fold sel_del1 ps d) = maxfd d"
  by (induction ps arbitrary: d) (simp_all add: sel_del1_simps)

lemma sel_add_max: "maxfd d \<le> maxfd (fold sel_add1 ps d) \<and> (\<forall>pd \<in> set ps. fd pd \<le> maxfd (fold sel_add1 ps d))"
proof (induction ps arbitrary: d)
  case (Cons pd ps)
  from Cons [of "sel_add1 pd d"] show ?case by (auto simp: sel_add1_simps)
qed simp

lemma sel_add_sync:
  "sel_sync d \<Longrightarrow> (\<And>f. 0 \<le> sel_read_cnt d f \<and> 0 \<le> sel_write_cnt d f \<and> 0 \<le> sel_excep_cnt d f) \<Longrightarrow>
   sel_sync (fold sel_add1 ps d)"
proof (induction ps arbitrary: d)
  case (Cons pd ps)
  have "0 \<le> sel_read_cnt d (fd pd)" "0 \<le> sel_write_cnt d (fd pd)" "0 \<le> sel_excep_cnt d (fd pd)"
    using Cons.prems(2) by blast+
  then have "sel_sync (sel_add1 pd d)"
    using Cons.prems(1) by (auto simp: sel_sync_def sel_add1_simps)
  moreover have "0 \<le> sel_read_cnt (sel_add1 pd d) f \<and> 0 \<le> sel_write_cnt (sel_add1 pd d) f \<and>
      0 \<le> sel_excep_cnt (sel_add1 pd d) f" for f
    using Cons.prems(2) [of f] by (simp add: sel_add1_simps)
  ultimately show ?case using Cons.IH by simp
qed simp

lemma sel_del_sync:
  "sel_sync d \<Longrightarrow> (\<And>f. watch ps POLLIN f \<le> sel_read_cnt d f \<and> watch ps POLLOUT f \<le> sel_write_cnt d f \<and>
      watch ps POLLPRI f \<le> sel_excep_cnt d f) \<Longrightarrow> sel_sync (fold sel_del1 ps d)"
proof (induction ps arbitrary: d)
  case (Cons pd ps)
  note c = Cons.prems(2)
  have "sel_sync (sel_del1 pd d)"
    unfolding sel_sync_def
  proof
    fix f
    show "(fd_read_set (sel_del1 pd d) f \<longleftrightarrow> sel_read_cnt (sel_del1 pd d) f \<noteq> 0) \<and>
        (fd_write_set (sel_del1 pd d) f \<longleftrightarrow> sel_write_cnt (sel_del1 pd d) f \<noteq> 0) \<and>
        (fd_exception_set (sel_del1 pd d) f \<longleftrightarrow> sel_excep_cnt (sel_del1 pd d) f \<noteq> 0)"
      using c [of f] Cons.prems(1) watch_nonneg [of ps POLLIN f] watch_nonneg [of ps POLLOUT f]
        watch_nonneg [of ps POLLPRI f]
      by (simp add: sel_sync_def sel_del1_simps del: watch_nonneg split: if_splits)
  qed
  moreover have "watch ps POLLIN f \<le> sel_read_cnt (sel_del1 pd d) f \<and>
      watch ps POLLOUT f \<le> sel_write_cnt (sel_del1 pd d) f \<and> watch ps POLLPRI f \<le> sel_excep_cnt (sel_del1 pd d) f" for f
    using c [of f] by (auto simp: sel_del1_simps split: if_splits)
  ultimately show ?case using Cons.IH by simp
qed simp

section \<open>Adding and deleting a request\<close>

lemma sel_add_ok:
  assumes k: "sel_ok s" and q: "q \<notin> set (io_q s)" and r: "st_select_pollset_add ps s = (Inr (), s1)"
  shows "sel_ok (enqueue_pollq q ps s1)"
proof -
  have ok: "list_all sel_pd_ok ps" and s1: "s1 = s\<lparr>sel := fold sel_add1 ps (sel s)\<rparr>"
    using r by (auto simp: st_select_pollset_add_def split: if_splits)
  have w: "watchers (enqueue_pollq q ps s1) e f = watchers s e f + watch ps e f" for e f
    using watchers_enqueue [of q s1] q watchers_same_events [of s s1] by (simp add: s1)
  have i: "io_q (enqueue_pollq q ps s1) = io_q s @ [q]" "sel (enqueue_pollq q ps s1) = fold sel_add1 ps (sel s)"
    "pollqs (enqueue_pollq q ps s1) u = (if u = q then \<lparr>pq_thread = q, pds = ps, on_ioq = True\<rparr> else pollqs s u)" for u
    by (simp_all add: enqueue_pollq_def ST_ADD_IOQ_def s1)
  have "sel_sync (fold sel_add1 ps (sel s))"
    using k by (intro sel_add_sync) (simp_all add: sel_ok_def sel_base_def sel_cnt_ok_def)
  moreover have "sel_cnt_ok (enqueue_pollq q ps s1)"
    using k by (simp add: sel_ok_def sel_base_def sel_cnt_ok_def w i sel_add_cnt)
  moreover have "sel_pds_ok (enqueue_pollq q ps s1)"
    using k ok q by (auto simp: sel_ok_def sel_base_def sel_pds_ok_def i)
  moreover have "sel_max_ok {} (enqueue_pollq q ps s1)"
    using k sel_add_max [of "sel s" ps] q by (fastforce simp: sel_ok_def sel_max_ok_def i)
  ultimately show ?thesis by (simp add: sel_ok_def sel_base_def i)
qed

text \<open>A request leaves the queue, its descriptors having been counted down.\<close>

lemma sel_base_remove:
  assumes k: "sel_base s" and q: "q \<in> set (io_q s)" "distinct (io_q s)"
    and s': "io_q s' = remove1 q (io_q s)" "\<And>u. u \<noteq> q \<Longrightarrow> pollqs s' u = pollqs s u"
      "sel s' = fold sel_del1 ps (sel s)"
    and ps: "\<And>e f. watch ps e f = watch (pds (pollqs s q)) e f"
  shows "sel_base s' \<and> maxfd (sel s') = maxfd (sel s)"
proof -
  have w: "watchers s' e f = watchers s e f - watch ps e f" for e f
    unfolding ps by (rule watchers_remove [OF q s'(1)]) (simp add: s'(2))
  have "sel_sync (fold sel_del1 ps (sel s))"
    using k watchers_ge [OF q(1)] by (intro sel_del_sync) (simp_all add: sel_base_def sel_cnt_ok_def ps)
  moreover have "sel_cnt_ok s'"
    using k by (simp add: sel_base_def sel_cnt_ok_def w s'(3) sel_del_cnt)
  moreover have "sel_pds_ok s'"
    using k s'(2) q by (auto simp: sel_base_def sel_pds_ok_def s'(1))
  ultimately show ?thesis by (simp add: sel_base_def s'(3) sel_del_cnt)
qed

section \<open>Dispatch\<close>

text \<open>Every request gets the \<open>revents\<close> that \<open>g\<close> computes, and is notified if one is set.\<close>

abbreviation answers :: "(pollfd \<Rightarrow> pollfd) \<Rightarrow> st \<Rightarrow> tid \<Rightarrow> pollfd list" where
  "answers g s q \<equiv> map g (pds (pollqs s q))"

abbreviation notified :: "(pollfd \<Rightarrow> pollfd) \<Rightarrow> st \<Rightarrow> tid \<Rightarrow> bool" where
  "notified g s q \<equiv> ready (map g (pds (pollqs s q)))"

lemma sel_base_set_pds:
  assumes "sel_base s" "\<And>pd. fd (g pd) = fd pd \<and> events (g pd) = events pd"
    "ps = map g (pds (pollqs s q))"
  shows "sel_base (set_pds q ps s)"
proof -
  have w: "watchers (set_pds q ps s) e f = watchers s e f" for e f
    by (rule watchers_cong) (auto simp: set_pds_def assms(3) watch_revents [OF assms(2)])
  have "list_all sel_pd_ok (map g xs) = list_all sel_pd_ok xs" for xs
    using assms(2) by (induction xs) (auto simp: sel_pd_ok_def)
  then have "sel_pds_ok (set_pds q ps s)"
    using assms(1,3) by (auto simp: sel_base_def sel_pds_ok_def set_pds_def)
  moreover have "sel (set_pds q ps s) = sel s" by (simp add: set_pds_def)
  ultimately show ?thesis
    using assms(1) by (simp add: sel_base_def sel_cnt_ok_def w)
qed

lemma max_osfd_ge: "m \<le> max_osfd m ps \<and> (\<forall>pd \<in> set ps. fd pd \<le> max_osfd m ps)"
proof (induction ps arbitrary: m)
  case (Cons pd ps)
  from Cons [of "if fd pd > m then fd pd else m"] show ?case by auto
qed simp

text \<open>One turn of either walk, with \<open>g\<close> the \<open>revents\<close> it writes.\<close>

lemma sel_turn:
  assumes w: "walked cur (notified g s0) (answers g s0) s0 (q # qs) s" and b: "sel_base s" "sel_max_ok (set (q # qs)) s"
    and g: "\<And>pd. fd (g pd) = fd pd \<and> events (g pd) = events pd"
    and ps: "ps = map g (pds (pollqs s q))" and n: "n = ready ps" and m: "\<forall>pd \<in> set ps. fd pd \<le> m"
  shows "\<exists>s'. sel_notify n m q (set_pds q ps s) = Some s' \<and> walked cur (notified g s0) (answers g s0) s0 qs s' \<and>
    sel_base s' \<and> sel_max_ok (set qs) s'"
proof -
  have q: "q \<in> set (io_q s)" "distinct (io_q s)" using walked_pds [OF w] by auto
  define s1 where "s1 = set_pds q ps s"
  have b1: "sel_base s1" unfolding s1_def by (rule sel_base_set_pds [OF b(1) g ps])
  have s1: "io_q s1 = io_q s" "sel s1 = sel s" "pds (pollqs s1 q) = ps"
    "u \<noteq> q \<Longrightarrow> pollqs s1 u = pollqs s u" for u
    by (simp_all add: s1_def set_pds_def)
  show ?thesis
  proof (cases n)
    case True
    define s2 where "s2 = unlink_pollq q s1"
    define a where "a = st_select_pollset_del (pds (pollqs s2 q)) s2"
    have s2: "pds (pollqs s2 q) = ps" "io_q s2 = remove1 q (io_q s)" "sel s2 = sel s"
      "u \<noteq> q \<Longrightarrow> pollqs s2 u = pollqs s u" for u
      using s1 by (simp_all add: s2_def unlink_pollq_def ST_DEL_IOQ_def Let_def)
    have a: "io_q a = remove1 q (io_q s)" "sel a = fold sel_del1 ps (sel s)" "pollqs a = pollqs s2"
      using s2 by (simp_all add: a_def st_select_pollset_del_def)
    have e: "same_but_events (unlink_pollq q (set_pds q ps s)) a"
      by (simp add: a_def st_select_pollset_del_def s2_def s1_def)
    have f: "ps = answers g s0 q" using ps walked_pds [OF w] by simp
    have "notified g s0 q" using True n f by simp
    then obtain s' where s': "wake_pollq q a = Some s'" "walked cur (notified g s0) (answers g s0) s0 qs s'" "sel s' = sel a"
        "io_q s' = remove1 q (io_q s)" "pollqs s' = pollqs a"
      using walked_wake [OF w f _ e] by auto
    have "sel_base s' \<and> maxfd (sel s') = maxfd (sel s1)"
      by (rule sel_base_remove [OF b1, of q _ ps]) (use q s' a s1 s2 in auto)
    moreover have "sel_notify n m q (set_pds q ps s) = Some s'"
      using True s'(1) by (simp add: sel_notify_def Let_def a_def s2_def s1_def)
    moreover have "sel_max_ok (set qs) s'"
      using b(2) calculation(1) s'(4,5) a(3) s1 s2(4) q
      by (auto simp: sel_max_ok_def)
    ultimately show ?thesis using s'(2) by blast
  next
    case False
    define s' where "s' = raise_maxfd m s1"
    have s': "sel s' = (sel s)\<lparr>maxfd := max (maxfd (sel s)) m\<rparr>" "io_q s' = io_q s" "pollqs s' = pollqs s1"
      by (auto simp: s'_def raise_maxfd_def s1)
    have e: "same_but_events (set_pds q ps s) s'"
      by (simp add: s'_def raise_maxfd_def s1_def)
    have "walked cur (notified g s0) (answers g s0) s0 qs s'"
      by (rule walked_keep [OF w _ _ e]) (use False n ps walked_pds [OF w] in simp_all)
    moreover have "sel_base s'"
      using b1 watchers_same_events [OF e] watchers_same_events [of s1 s1]
      by (auto simp: sel_base_def sel_cnt_ok_def sel_pds_ok_def sel_sync_def s' s1 s1_def [symmetric])
    moreover have "sel_max_ok (set qs) s'"
    proof -
      have "fd pd \<le> maxfd (sel s')" if "u \<in> set (io_q s) - set qs" "pd \<in> set (pds (pollqs s' u))" for u pd
      proof (cases "u = q")
        case True
        then show ?thesis using that m s' s1 by (auto simp: le_max_iff_disj)
      next
        case False
        then show ?thesis using that b(2) s' s1 by (auto simp: sel_max_ok_def le_max_iff_disj)
      qed
      then show ?thesis by (simp add: sel_max_ok_def s')
    qed
    ultimately show ?thesis
      using False by (auto simp: sel_notify_def s'_def s1_def)
  qed
qed

lemma sel_walk:
  assumes p: "pending cur (io_q s) s" and k: "sel_ok s"
    and body: "\<And>q s. sel_base s \<Longrightarrow> q \<in> set (io_q s) \<Longrightarrow> body q s = sel_notify (ready (map g (pds (pollqs s q))))
        (m q s) q (set_pds q (map g (pds (pollqs s q))) s)"
    and m: "\<And>q s. sel_base s \<Longrightarrow> q \<in> set (io_q s) \<Longrightarrow> \<forall>pd \<in> set (map g (pds (pollqs s q))). fd pd \<le> m q s"
    and g: "\<And>pd. fd (g pd) = fd pd \<and> events (g pd) = events pd"
  shows "\<exists>s'. ioq_loop body (io_q s) (s\<lparr>sel := (sel s)\<lparr>maxfd := - 1\<rparr>\<rparr>) = Some s' \<and>
    vp_inv cur s' \<and> dispatched (notified g s) (answers g s) s s' \<and> sel_ok s' \<and> walked cur (notified g s) (answers g s) s [] s'"
proof -
  define P where "P qs t \<longleftrightarrow> walked cur (notified g s) (answers g s) s qs t \<and> sel_base t \<and> sel_max_ok (set qs) t" for qs t
  let ?s = "s\<lparr>sel := (sel s)\<lparr>maxfd := - 1\<rparr>\<rparr>"
  have "sel_base ?s"
    using k watchers_same_events [of s ?s]
    by (auto simp: sel_ok_def sel_base_def sel_sync_def sel_cnt_ok_def sel_pds_ok_def)
  then have "P (io_q s) ?s"
    using walked_start [OF p, of ?s] by (simp add: P_def sel_max_ok_def)
  moreover have "\<exists>s'. body q t = Some s' \<and> P qs s'" if "P (q # qs) t" for q qs t
  proof -
    have t: "walked cur (notified g s) (answers g s) s (q # qs) t" "sel_base t" "sel_max_ok (set (q # qs)) t" "q \<in> set (io_q t)"
      using that walked_pds by (auto simp: P_def)
    show ?thesis
      using sel_turn [OF t(1-3) g refl refl m [OF t(2,4)]] by (simp add: P_def body [OF t(2,4)])
  qed
  ultimately obtain s' where "ioq_loop body (io_q s) ?s = Some s'" "P [] s'"
    using ioq_loop_rule [of P body "io_q s" ?s] by blast
  then show ?thesis
    using walked_end by (auto simp: P_def sel_ok_def)
qed

lemma sel_dispatch_run:
  assumes p: "pending cur (io_q s) s" and k: "sel_ok s" and a: "sa_nfd a > 0"
  shows "\<exists>s'. st_select_dispatch a s = Some s' \<and> vp_inv cur s' \<and>
    dispatched (notified (\<lambda>pd. pd\<lparr>revents := sel_revents a pd\<rparr>) s) (answers (\<lambda>pd. pd\<lparr>revents := sel_revents a pd\<rparr>) s) s s' \<and> sel_ok s' \<and>
    walked cur (notified (\<lambda>pd. pd\<lparr>revents := sel_revents a pd\<rparr>) s) (answers (\<lambda>pd. pd\<lparr>revents := sel_revents a pd\<rparr>) s) s [] s'"
proof -
  let ?g = "\<lambda>pd. pd\<lparr>revents := sel_revents a pd\<rparr>"
  have "\<exists>s'. ioq_loop (sel_body a) (io_q s) (s\<lparr>sel := (sel s)\<lparr>maxfd := - 1\<rparr>\<rparr>) = Some s' \<and>
    vp_inv cur s' \<and> dispatched (notified ?g s) (answers ?g s) s s' \<and> sel_ok s' \<and> walked cur (notified ?g s) (answers ?g s) s [] s'"
    by (rule sel_walk [OF p k, where m = "\<lambda>q s. max_osfd (- 1) (map ?g (pds (pollqs s q)))"])
      (use max_osfd_ge in \<open>auto simp: sel_body_def ready_def Let_def\<close>)
  then show ?thesis using a by (simp add: st_select_dispatch_def)
qed

lemma sel_bad_run:
  assumes p: "pending cur (io_q s) s" and k: "sel_ok s"
  shows "\<exists>s'. st_select_find_bad_fd a s = Some s' \<and> vp_inv cur s' \<and>
    dispatched (notified (sel_bad_revents a) s) (answers (sel_bad_revents a) s) s s' \<and> sel_ok s' \<and> walked cur (notified (sel_bad_revents a) s) (answers (sel_bad_revents a) s) s [] s'"
proof -
  define m where "m q s = max_osfd (- 1) (filter (\<lambda>pd. events pd \<noteq> 0) (map (sel_bad_revents a) (pds (pollqs s q))))"
    for q and s :: st
  have ev: "events pd \<noteq> 0" if "sel_base t" "q \<in> set (io_q t)" "pd \<in> set (pds (pollqs t q))" for t q pd
    using that by (auto simp: sel_base_def sel_pds_ok_def list_all_iff sel_pd_ok_def)
  show ?thesis
    unfolding st_select_find_bad_fd_def
  proof (rule sel_walk [OF p k, where m = m])
    fix q t assume t: "sel_base t" "q \<in> set (io_q t)"
    have "list_ex (\<lambda>pd. events pd \<noteq> 0 \<and> \<not> sa_fcntl_ok a (fd pd)) (map (sel_bad_revents a) (pds (pollqs t q))) =
        ready (map (sel_bad_revents a) (pds (pollqs t q)))"
      using ev [OF t] by (auto simp: ready_def list_ex_iff sel_bad_revents_def POLLNVAL_def split: if_splits)
    then show "find_bad_body a q t = sel_notify (ready (map (sel_bad_revents a) (pds (pollqs t q))))
        (m q t) q (set_pds q (map (sel_bad_revents a) (pds (pollqs t q))) t)"
      by (simp add: find_bad_body_def Let_def m_def)
    show "\<forall>pd \<in> set (map (sel_bad_revents a) (pds (pollqs t q))). fd pd \<le> m q t"
      using max_osfd_ge [of "- 1" "filter (\<lambda>pd. events pd \<noteq> 0) (map (sel_bad_revents a) (pds (pollqs t q)))"]
        ev [OF t] by (auto simp: m_def sel_bad_revents_def)
  qed (simp add: sel_bad_revents_def)
qed

end
