(* ===== verification/ST_PollInv.thy ===== *)
theory ST_PollInv
  imports ST_EvInv ST_EvPoll
begin

text \<open>
  The \<open>poll\<close> event system is right: \<open>fdcnt\<close> is the number of descriptors of all requests on the io
  queue, so that the gathered array has exactly that length and the assertions hold; and each
  request gets back its own part of the array.
\<close>

definition pol_ok :: "st \<Rightarrow> bool" where
  "pol_ok s \<longleftrightarrow> fdcnt (pol s) = sum_list (map (\<lambda>q. int (length (pds (pollqs s q)))) (io_q s))"

lemma length_gathered: "int (length (gathered s)) = sum_list (map (\<lambda>q. int (length (pds (pollqs s q)))) (io_q s))"
proof -
  have "int (length (concat (map g qs))) = sum_list (map (\<lambda>q. int (length (g q))) qs)"
    for g :: "tid \<Rightarrow> pollfd list" and qs
    by (induction qs) simp_all
  then show ?thesis by (simp add: gathered_def)
qed

text \<open>The part of the array that belongs to request \<open>u\<close>.\<close>

fun poll_slice :: "(tid \<Rightarrow> nat) \<Rightarrow> 'a list \<Rightarrow> tid list \<Rightarrow> tid \<Rightarrow> 'a list" where
  "poll_slice n fds [] u = []"
| "poll_slice n fds (q # qs) u = (if u = q then take (n q) fds else poll_slice n (drop (n q) fds) qs u)"

definition poll_part :: "poll_answer \<Rightarrow> st \<Rightarrow> tid \<Rightarrow> pollfd list" where
  "poll_part a s q = poll_slice (\<lambda>q. length (pds (pollqs s q))) (answered a (gathered s)) (io_q s) q"

lemma pol_ok_remove:
  assumes k: "pol_ok s" and q: "q \<in> set (io_q s)" "distinct (io_q s)"
    and s': "io_q s' = remove1 q (io_q s)" "\<And>u. u \<noteq> q \<Longrightarrow> pollqs s' u = pollqs s u"
      "fdcnt (pol s') = fdcnt (pol s) - int (length (pds (pollqs s q)))"
  shows "pol_ok s' \<and> 0 \<le> fdcnt (pol s')"
proof -
  let ?g = "\<lambda>s q. int (length (pds (pollqs s q)))"
  have "sum_list (map (?g s') (remove1 q (io_q s))) = sum_list (map (?g s) (remove1 q (io_q s)))"
    using q s'(2) by (intro arg_cong [where f = sum_list] map_cong) auto
  then have "pol_ok s'"
    using sum_list_remove1 [OF q(1), of "?g s"] k s'(3) unfolding pol_ok_def s'(1) by linarith
  moreover have "0 \<le> sum_list (map (?g s') (io_q s'))"
    by (rule sum_list_nonneg) auto
  ultimately show ?thesis by (simp add: pol_ok_def)
qed

lemma pol_add_ok:
  assumes k: "pol_ok s" and q: "q \<notin> set (io_q s)" and r: "st_poll_pollset_add ps s = (Inr (), s1)"
  shows "pol_ok (ST_ADD_IOQ q (s1\<lparr>pollqs := (pollqs s1)(q := \<lparr>pq_thread = q, pds = ps, on_ioq = True\<rparr>)\<rparr>))"
proof -
  have s1: "s1 = s\<lparr>pol := (pol s)\<lparr>fdcnt := fdcnt (pol s) + int (length ps)\<rparr>\<rparr>"
    using r by (auto simp: st_poll_pollset_add_def split: if_splits)
  have "sum_list (map (\<lambda>u. int (length (pds (if u = q then \<lparr>pq_thread = q, pds = ps, on_ioq = True\<rparr> else pollqs s u))))
      (io_q s)) = sum_list (map (\<lambda>u. int (length (pds (pollqs s u)))) (io_q s))"
    using q by (intro arg_cong [where f = sum_list] map_cong) auto
  then show ?thesis
    using k by (simp add: pol_ok_def ST_ADD_IOQ_def s1)
qed

lemma poll_loop_run:
  assumes "walked cur N f s0 qs s" "pol_ok s"
    and "int (length fds) = sum_list (map (\<lambda>q. int (length (pds (pollqs s0 q)))) qs)"
    and "\<And>q. q \<in> set qs \<Longrightarrow> N q = ready (poll_slice (\<lambda>q. length (pds (pollqs s0 q))) fds qs q)"
    and "\<And>q. q \<in> set qs \<Longrightarrow> f q = (if N q then poll_slice (\<lambda>q. length (pds (pollqs s0 q))) fds qs q else pds (pollqs s0 q))"
  shows "\<exists>s'. poll_notify_loop fds qs s = Some s' \<and> walked cur N f s0 [] s' \<and> pol_ok s' \<and>
    pollfds_size (pol s') = pollfds_size (pol s)"
  using assms
proof (induction qs arbitrary: fds s)
  case (Cons q qs)
  note w = Cons.prems(1) and k = Cons.prems(2)
  define n where "n = length (pds (pollqs s0 q))"
  define mine where "mine = take n fds"
  have pq: "pollqs s q = pollqs s0 q" "q \<in> set (io_q s)" "distinct (io_q s)"
    using walked_pds [OF w] by auto
  have nq: "q \<notin> set qs" using w by (simp add: walked_def pending_def)
  have "0 \<le> sum_list (map (\<lambda>q. int (length (pds (pollqs s0 q)))) qs)"
    by (rule sum_list_nonneg) auto
  then have n: "n \<le> length fds"
    and rest: "int (length (drop n fds)) = sum_list (map (\<lambda>q. int (length (pds (pollqs s0 q)))) qs)"
    using Cons.prems(3) by (simp_all add: n_def)
  have N: "N q = ready mine" and f: "f q = (if N q then mine else pds (pollqs s0 q))"
    using Cons.prems(4,5) [of q] by (simp_all add: mine_def n_def)
  have sl: "N u = ready (poll_slice (\<lambda>q. length (pds (pollqs s0 q))) (drop n fds) qs u)"
    "f u = (if N u then poll_slice (\<lambda>q. length (pds (pollqs s0 q))) (drop n fds) qs u else pds (pollqs s0 u))"
    if "u \<in> set qs" for u
    using that nq Cons.prems(4,5) [of u] by (auto simp: n_def)
  show ?case
  proof (cases "N q")
    case True
    define a where "a = unlink_pollq q (set_pds q mine s)"
    obtain s1 where s1: "wake_pollq q a = Some s1" "walked cur N f s0 qs s1" "pol s1 = pol a"
        "io_q s1 = remove1 q (io_q s)" "pollqs s1 = pollqs a"
      using walked_wake [OF w _ True, of mine a] f True by (auto simp: a_def)
    define s2 where "s2 = s1\<lparr>pol := (pol s1)\<lparr>fdcnt := fdcnt (pol s1) - int (length mine)\<rparr>\<rparr>"
    have a: "pol a = pol s" "u \<noteq> q \<Longrightarrow> pollqs a u = pollqs s u" for u
      by (simp_all add: a_def unlink_pollq_def set_pds_def ST_DEL_IOQ_def Let_def)
    have lm: "int (length mine) = int (length (pds (pollqs s q)))"
      using n pq by (simp add: mine_def n_def)
    have "pol_ok s2 \<and> 0 \<le> fdcnt (pol s2)"
      by (rule pol_ok_remove [OF k pq(2,3)]) (use s1 a lm in \<open>auto simp: s2_def\<close>)
    then have k2: "pol_ok s2" and d: "st_poll_pollset_del mine s1 = Some s2"
      by (simp_all add: st_poll_pollset_del_def s2_def Let_def)
    have "walked cur N f s0 qs s2"
    proof -
      have "vp_inv cur s2"
        by (rule vp_inv_events [of _ s1 0 "pds (pollqs s1 0)"])
          (use s1(2) in \<open>simp_all add: walked_def pending_def set_pds_def s2_def\<close>)
      then show ?thesis
        using s1(2) by (simp add: walked_def pending_def s2_def disp_frame_def)
    qed
    from Cons.IH [OF this k2 rest sl]
    obtain s' where "poll_notify_loop (drop n fds) qs s2 = Some s'" "walked cur N f s0 [] s'" "pol_ok s'"
        "pollfds_size (pol s') = pollfds_size (pol s2)"
      by blast
    moreover have "pollfds_size (pol s2) = pollfds_size (pol s)"
      using a s1 by (simp add: s2_def)
    ultimately show ?thesis
      using True N s1(1) d pq by (simp add: n_def mine_def ready_def a_def Let_def)
  next
    case False
    have sp: "set_pds q (pds (pollqs s q)) s = s" by (simp add: set_pds_def)
    have "walked cur N f s0 qs s"
      by (rule walked_keep [OF w, of "pds (pollqs s q)"]) (use False f pq sp in simp_all)
    from Cons.IH [OF this k rest sl] show ?thesis
      using False N pq by (simp add: n_def mine_def ready_def Let_def)
  qed
qed simp

lemma poll_dispatch_run:
  assumes p: "pending cur (io_q s) s" and k: "pol_ok s"
    and a: "length (pa_revents a) = length (gathered s)" "pa_malloc_ok a \<or> fdcnt (pol s) \<le> pollfds_size (pol s)"
  shows "\<exists>s'. st_poll_dispatch a s = Some s' \<and> vp_inv cur s' \<and> pol_ok s' \<and> disp_frame s s' \<and>
    (if pa_nfd a > 0
     then walked cur (\<lambda>q. ready (poll_part a s q))
       (\<lambda>q. if ready (poll_part a s q) then poll_part a s q else pds (pollqs s q)) s [] s'
     else same_but_events s s')"
proof -
  have c: "0 \<le> fdcnt (pol s)"
    using k length_gathered [of s] by (simp add: pol_ok_def)
  define s1 where "s1 = (if fdcnt (pol s) > pollfds_size (pol s)
    then s\<lparr>pol := (pol s)\<lparr>pollfds_size := fdcnt (pol s) + 10\<rparr>\<rparr> else s)"
  have g: "poll_grow a s = Some s1"
    using c a(2) by (auto simp: poll_grow_def s1_def)
  have e: "same_but_events s s1" by (simp add: s1_def)
  have s1: "gathered s1 = gathered s" "io_q s1 = io_q s" "pollqs s1 = pollqs s" "fdcnt (pol s1) = fdcnt (pol s)"
    by (simp_all add: s1_def gathered_def)
  have sz: "int (length (gathered s1)) \<le> pollfds_size (pol s1)"
    using k length_gathered [of s] by (auto simp: s1_def pol_ok_def gathered_def)
  have k1: "pol_ok s1" using k by (simp add: pol_ok_def s1)
  have sp: "set_pds 0 (pds (pollqs s 0)) s = s" by (simp add: set_pds_def)
  have v: "vp_inv cur s1"
    using p e sp vp_inv_events [of cur s 0 "pds (pollqs s 0)" s1] by (simp add: pending_def)
  show ?thesis
  proof (cases "pa_nfd a > 0")
    case False
    then show ?thesis
      using g sz v k1 e disp_frame_events [OF e] by (auto simp: st_poll_dispatch_def)
  next
    case True
    let ?N = "\<lambda>q. ready (poll_part a s q)"
    let ?f = "\<lambda>q. if ready (poll_part a s q) then poll_part a s q else pds (pollqs s q)"
    have w: "walked cur ?N ?f s (io_q s) s1" by (rule walked_start [OF p e])
    have "int (length (answered a (gathered s))) = sum_list (map (\<lambda>q. int (length (pds (pollqs s q)))) (io_q s))"
      using a(1) length_gathered [of s] by (simp add: answered_def)
    then have "\<exists>s'. poll_notify_loop (answered a (gathered s)) (io_q s) s1 = Some s' \<and>
        walked cur ?N ?f s [] s' \<and> pol_ok s' \<and> pollfds_size (pol s') = pollfds_size (pol s1)"
      by (rule poll_loop_run [OF w k1]) (simp_all only: poll_part_def)
    then show ?thesis
      using True g sz walked_end by (auto simp: st_poll_dispatch_def s1)
  qed
qed

text \<open>The parts are the descriptors of the requests with their \<open>revents\<close> filled in.\<close>

lemma map_poll_slice: "map h (poll_slice n fds qs u) = poll_slice n (map h fds) qs u"
  by (induction qs arbitrary: fds) (simp_all add: take_map drop_map)

lemma poll_slice_concat: "u \<in> set qs \<Longrightarrow> poll_slice (\<lambda>q. length (g q)) (concat (map g qs)) qs u = g u"
  by (induction qs) auto

lemma map_fd_answered: "length (pa_revents a) = length ps \<Longrightarrow>
   map (\<lambda>pd. (fd pd, events pd)) (answered a ps) = map (\<lambda>pd. (fd pd, events pd)) ps"
  by (rule nth_equalityI) (simp_all add: answered_def)

lemma poll_part_fds:
  assumes "length (pa_revents a) = length (gathered s)" "q \<in> set (io_q s)"
  shows "map (\<lambda>pd. (fd pd, events pd)) (poll_part a s q) = map (\<lambda>pd. (fd pd, events pd)) (pds (pollqs s q))"
  unfolding poll_part_def map_poll_slice map_fd_answered [OF assms(1)]
  unfolding map_poll_slice [symmetric] gathered_def by (simp add: poll_slice_concat [OF assms(2)])

end
