(* ===== verification/ST_KqInv.thy ===== *)
theory ST_KqInv
  imports ST_EvInv ST_EvKq
begin

text \<open>
  The \<open>kqueue\<close> event system is right: the counts are the numbers of watchers, every table is
  large enough when it is written, and \<open>revents\<close> of the descriptors is clear outside a dispatch.
\<close>

section \<open>Invariant\<close>

definition kq_safe :: "kqdata \<Rightarrow> bool" where
  "kq_safe d \<longleftrightarrow> 0 < kq_fd_data_size d \<and> 0 < addlist_size d \<and> int (length (addlist d)) \<le> addlist_size d"

definition kq_clean :: "kqdata \<Rightarrow> bool" where
  "kq_clean d \<longleftrightarrow> (\<forall>f. kq_revents d f = 0)"

text \<open>A descriptor in use has its entry in the table; entries beyond the table are not used.\<close>

definition kq_inside :: "kqdata \<Rightarrow> bool" where
  "kq_inside d \<longleftrightarrow> (\<forall>f. f < 0 \<or> kq_fd_data_size d \<le> f \<longrightarrow> kq_rd_ref_cnt d f = 0 \<and> kq_wr_ref_cnt d f = 0)"

definition kq_cnt_ok :: "st \<Rightarrow> bool" where
  "kq_cnt_ok s \<longleftrightarrow> (\<forall>f. kq_rd_ref_cnt (kqd s) f = watchers s POLLIN f \<and>
     kq_wr_ref_cnt (kqd s) f = watchers s POLLOUT f)"

definition kq_ok :: "st \<Rightarrow> bool" where
  "kq_ok s \<longleftrightarrow> kq_safe (kqd s) \<and> kq_clean (kqd s) \<and> kq_inside (kqd s) \<and> kq_cnt_ok s"

definition kq_pd_ok :: "pollfd \<Rightarrow> bool" where
  "kq_pd_ok pd \<longleftrightarrow> \<not> (fd pd < 0 \<or> events pd = 0 \<or> events pd AND NOT (POLLIN OR POLLOUT) \<noteq> 0)"

definition kq_pds_ok :: "st \<Rightarrow> bool" where
  "kq_pds_ok s \<longleftrightarrow> (\<forall>q \<in> set (io_q s). list_all kq_pd_ok (pds (pollqs s q)))"

section \<open>Adding\<close>

lemma kq_expand_run:
  assumes "kq_safe d"
  shows "\<exists>ok d'. st_kq_fd_data_expand mem f d = Some (ok, d') \<and> kq_safe d' \<and>
    (kq_inside d \<longrightarrow> kq_inside d' \<and> kq_rd_ref_cnt d' = kq_rd_ref_cnt d \<and> kq_wr_ref_cnt d' = kq_wr_ref_cnt d) \<and>
    (kq_clean d \<longrightarrow> kq_clean d') \<and> addlist d' = addlist d \<and> addlist_size d' = addlist_size d \<and>
    kq_fd_data_size d \<le> kq_fd_data_size d' \<and> (if ok then f < kq_fd_data_size d' else d' = d)"
proof -
  obtain n where n: "grow (kq_fd_data_size d) f = Some n" "f < n" "kq_fd_data_size d \<le> n"
    using assms grow_total [of "kq_fd_data_size d" f] by (auto simp: kq_safe_def)
  show ?thesis
  proof (cases "mem 0 n")
    case True
    have z: "kq_inside d \<longrightarrow> zero_new (kq_fd_data_size d) n (kq_rd_ref_cnt d) = kq_rd_ref_cnt d \<and>
        zero_new (kq_fd_data_size d) n (kq_wr_ref_cnt d) = kq_wr_ref_cnt d"
      by (auto simp: zero_new_def kq_inside_def fun_eq_iff)
    then show ?thesis
      using n True assms
      by (auto simp: st_kq_fd_data_expand_def Let_def kq_safe_def kq_clean_def zero_new_def kq_inside_def)
  next
    case False
    then show ?thesis
      using n assms by (intro exI [of _ False] exI [of _ d]) (simp add: st_kq_fd_data_expand_def)
  qed
qed

lemma kq_check_Cons:
  "\<not> kq_pd_ok pd \<Longrightarrow> kq_check mem (pd # ps) d = Some (Inl EINVAL, d)"
  "kq_pd_ok pd \<Longrightarrow> kq_check mem (pd # ps) d =
     (if fd pd \<ge> kq_fd_data_size d
      then do {
        (ok, d1) \<leftarrow> st_kq_fd_data_expand mem (fd pd) d;
        (if ok then kq_check mem ps d1 else Some (Inl ENOMEM, d1))
      }
      else kq_check mem ps d)"
  unfolding kq_pd_ok_def kq_check.simps by (simp_all only: not_not if_True if_False)

lemma kq_check_run:
  assumes "kq_safe d" "kq_inside d"
  shows "\<exists>r d'. kq_check mem ps d = Some (r, d') \<and> kq_safe d' \<and> kq_inside d' \<and>
    kq_rd_ref_cnt d' = kq_rd_ref_cnt d \<and> kq_wr_ref_cnt d' = kq_wr_ref_cnt d \<and>
    (kq_clean d \<longrightarrow> kq_clean d') \<and> addlist d' = addlist d \<and> addlist_size d' = addlist_size d \<and>
    kq_fd_data_size d \<le> kq_fd_data_size d' \<and>
    (r = Inr () \<longrightarrow> list_all kq_pd_ok ps \<and> (\<forall>pd \<in> set ps. fd pd < kq_fd_data_size d'))"
  using assms
proof (induction ps arbitrary: d)
  case (Cons pd ps)
  show ?case
  proof (cases "kq_pd_ok pd")
    case False
    then show ?thesis using Cons.prems by (auto simp: kq_check_Cons simp del: kq_check.simps)
  next
    case True
    show ?thesis
    proof (cases "fd pd \<ge> kq_fd_data_size d")
      case le: True
      obtain ok d1 where d1: "st_kq_fd_data_expand mem (fd pd) d = Some (ok, d1)" "kq_safe d1" "kq_inside d1"
          "kq_rd_ref_cnt d1 = kq_rd_ref_cnt d" "kq_wr_ref_cnt d1 = kq_wr_ref_cnt d"
          "kq_clean d \<longrightarrow> kq_clean d1" "addlist d1 = addlist d" "addlist_size d1 = addlist_size d"
          "kq_fd_data_size d \<le> kq_fd_data_size d1" "if ok then fd pd < kq_fd_data_size d1 else d1 = d"
        using kq_expand_run [OF Cons.prems(1), of mem "fd pd"] Cons.prems(2) by blast
      show ?thesis
      proof (cases ok)
        case False
        then show ?thesis using d1 le True by (auto simp: kq_check_Cons simp del: kq_check.simps)
      next
        case ok: True
        obtain r d' where "kq_check mem ps d1 = Some (r, d')" "kq_safe d'" "kq_inside d'"
          "kq_rd_ref_cnt d' = kq_rd_ref_cnt d1" "kq_wr_ref_cnt d' = kq_wr_ref_cnt d1"
          "kq_clean d1 \<longrightarrow> kq_clean d'" "addlist d' = addlist d1" "addlist_size d' = addlist_size d1"
          "kq_fd_data_size d1 \<le> kq_fd_data_size d'"
          "r = Inr () \<longrightarrow> list_all kq_pd_ok ps \<and> (\<forall>pd \<in> set ps. fd pd < kq_fd_data_size d')"
          using Cons.IH [OF d1(2,3)] by blast
        then show ?thesis using d1 le True ok by (auto simp: kq_check_Cons simp del: kq_check.simps)
      qed
    next
      case gt: False
      obtain r d' where "kq_check mem ps d = Some (r, d')" "kq_safe d'" "kq_inside d'"
          "kq_rd_ref_cnt d' = kq_rd_ref_cnt d" "kq_wr_ref_cnt d' = kq_wr_ref_cnt d"
          "kq_clean d \<longrightarrow> kq_clean d'" "addlist d' = addlist d" "addlist_size d' = addlist_size d"
          "kq_fd_data_size d \<le> kq_fd_data_size d'"
          "r = Inr () \<longrightarrow> list_all kq_pd_ok ps \<and> (\<forall>pd \<in> set ps. fd pd < kq_fd_data_size d')"
        using Cons.IH [OF Cons.prems] by blast
      then show ?thesis using gt True by (auto simp: kq_check_Cons simp del: kq_check.simps)
    qed
  qed
qed simp

lemma kq_add1_run:
  assumes "int (length (addlist d)) + 2 \<le> addlist_size d"
  shows "\<exists>d'. kq_add1 pd d = Some d' \<and> int (length (addlist d')) \<le> int (length (addlist d)) + 2 \<and>
    addlist_size d' = addlist_size d \<and> kq_fd_data_size d' = kq_fd_data_size d \<and> kq_revents d' = kq_revents d \<and>
    (\<forall>f. kq_rd_ref_cnt d' f = kq_rd_ref_cnt d f + watch [pd] POLLIN f \<and>
         kq_wr_ref_cnt d' f = kq_wr_ref_cnt d f + watch [pd] POLLOUT f)"
  using assms by (auto simp: kq_add1_def st_kq_addlist_add_def Let_def)

lemma kq_add_loop_run:
  assumes "int (length (addlist d)) + 2 * int (length ps) \<le> addlist_size d"
  shows "\<exists>d'. kq_add_loop ps d = Some d' \<and> int (length (addlist d')) \<le> addlist_size d \<and>
    addlist_size d' = addlist_size d \<and> kq_fd_data_size d' = kq_fd_data_size d \<and> kq_revents d' = kq_revents d \<and>
    (\<forall>f. kq_rd_ref_cnt d' f = kq_rd_ref_cnt d f + watch ps POLLIN f \<and>
         kq_wr_ref_cnt d' f = kq_wr_ref_cnt d f + watch ps POLLOUT f)"
  using assms
proof (induction ps arbitrary: d)
  case (Cons pd ps)
  obtain d1 where d1: "kq_add1 pd d = Some d1" "int (length (addlist d1)) \<le> int (length (addlist d)) + 2"
    "addlist_size d1 = addlist_size d" "kq_fd_data_size d1 = kq_fd_data_size d" "kq_revents d1 = kq_revents d"
    "\<forall>f. kq_rd_ref_cnt d1 f = kq_rd_ref_cnt d f + watch [pd] POLLIN f \<and>
         kq_wr_ref_cnt d1 f = kq_wr_ref_cnt d f + watch [pd] POLLOUT f"
    using kq_add1_run [of d pd] Cons.prems by auto
  obtain d' where "kq_add_loop ps d1 = Some d'" "int (length (addlist d')) \<le> addlist_size d1"
    "addlist_size d' = addlist_size d1" "kq_fd_data_size d' = kq_fd_data_size d1" "kq_revents d' = kq_revents d1"
    "\<forall>f. kq_rd_ref_cnt d' f = kq_rd_ref_cnt d1 f + watch ps POLLIN f \<and>
         kq_wr_ref_cnt d' f = kq_wr_ref_cnt d1 f + watch ps POLLOUT f"
    using Cons.IH [of d1] Cons.prems d1(2,3) by auto
  then show ?case using d1 by auto
qed simp

text \<open>
  Adding a set never runs over a table; it either counts every descriptor of the set or, on an
  error, none.
\<close>

lemma kq_add_run:
  assumes s: "kq_safe d" and i: "kq_inside d"
  shows "\<exists>r d'. kq_pollset_add mem ps d = Some (r, d') \<and> kq_safe d' \<and> kq_inside d' \<and> (kq_clean d \<longrightarrow> kq_clean d') \<and>
    (case r of
       Inl e \<Rightarrow> kq_rd_ref_cnt d' = kq_rd_ref_cnt d \<and> kq_wr_ref_cnt d' = kq_wr_ref_cnt d \<and> addlist d' = addlist d
     | Inr _ \<Rightarrow> list_all kq_pd_ok ps \<and> (\<forall>pd \<in> set ps. fd pd < kq_fd_data_size d') \<and>
         (\<forall>f. kq_rd_ref_cnt d' f = kq_rd_ref_cnt d f + watch ps POLLIN f \<and>
              kq_wr_ref_cnt d' f = kq_wr_ref_cnt d f + watch ps POLLOUT f))"
proof -
  obtain r d1 where d1: "kq_check mem ps d = Some (r, d1)" "kq_safe d1" "kq_inside d1"
      "kq_rd_ref_cnt d1 = kq_rd_ref_cnt d" "kq_wr_ref_cnt d1 = kq_wr_ref_cnt d"
      "kq_clean d \<longrightarrow> kq_clean d1" "addlist d1 = addlist d" "addlist_size d1 = addlist_size d"
      "r = Inr () \<longrightarrow> list_all kq_pd_ok ps \<and> (\<forall>pd \<in> set ps. fd pd < kq_fd_data_size d1)"
    using kq_check_run [OF s i] by blast
  show ?thesis
  proof (cases r)
    case (Inl e)
    then show ?thesis using d1 by (auto simp: kq_pollset_add_def)
  next
    case (Inr u)
    define n where "n = 2 * int (length ps)"
    have "\<exists>ok d2. (if n > addlist_size d1 - int (length (addlist d1))
        then st_kq_addlist_expand mem n d1 else Some (True, d1)) = Some (ok, d2) \<and>
        kq_rd_ref_cnt d2 = kq_rd_ref_cnt d1 \<and> kq_wr_ref_cnt d2 = kq_wr_ref_cnt d1 \<and>
        kq_revents d2 = kq_revents d1 \<and> kq_fd_data_size d2 = kq_fd_data_size d1 \<and> addlist d2 = addlist d1 \<and>
        addlist_size d1 \<le> addlist_size d2 \<and>
        (ok \<longrightarrow> int (length (addlist d2)) + n \<le> addlist_size d2)"
    proof (cases "n > addlist_size d1 - int (length (addlist d1))")
      case True
      obtain m where m: "grow (addlist_size d1) (n + int (length (addlist d1)) - 1) = Some m"
          "n + int (length (addlist d1)) - 1 < m" "addlist_size d1 \<le> m"
        using grow_total [of "addlist_size d1"] d1(2) by (auto simp: kq_safe_def)
      then show ?thesis
        using True by (auto simp: st_kq_addlist_expand_def Let_def)
    qed auto
    then obtain ok d2 where d2: "(if n > addlist_size d1 - int (length (addlist d1))
        then st_kq_addlist_expand mem n d1 else Some (True, d1)) = Some (ok, d2)"
        "kq_rd_ref_cnt d2 = kq_rd_ref_cnt d1" "kq_wr_ref_cnt d2 = kq_wr_ref_cnt d1"
        "kq_revents d2 = kq_revents d1" "kq_fd_data_size d2 = kq_fd_data_size d1" "addlist d2 = addlist d1"
        "addlist_size d1 \<le> addlist_size d2" "ok \<longrightarrow> int (length (addlist d2)) + n \<le> addlist_size d2"
      by blast
    have k2: "kq_safe d2" "kq_inside d2" "kq_clean d \<longrightarrow> kq_clean d2"
      using d1 d2 by (auto simp: kq_safe_def kq_inside_def kq_clean_def)
    note d2' = d2(1) [unfolded n_def]
    show ?thesis
    proof (cases ok)
      case False
      then show ?thesis
        using d1 d2(2-) d2' k2 Inr
        by (intro exI [of _ "Inl ENOMEM"] exI [of _ d2]) (simp add: kq_pollset_add_def Let_def)
    next
      case True
      obtain d3 where d3: "kq_add_loop ps d2 = Some d3" "int (length (addlist d3)) \<le> addlist_size d2"
          "addlist_size d3 = addlist_size d2" "kq_fd_data_size d3 = kq_fd_data_size d2" "kq_revents d3 = kq_revents d2"
          "\<forall>f. kq_rd_ref_cnt d3 f = kq_rd_ref_cnt d2 f + watch ps POLLIN f \<and>
               kq_wr_ref_cnt d3 f = kq_wr_ref_cnt d2 f + watch ps POLLOUT f"
        using kq_add_loop_run [of d2 ps] d2(8) True by (auto simp: n_def)
      have ok: "list_all kq_pd_ok ps" "\<forall>pd \<in> set ps. fd pd < kq_fd_data_size d1"
        using d1(9) Inr by auto
      have "watch ps e f = 0" if "f < 0 \<or> kq_fd_data_size d1 \<le> f" for e f
      proof -
        have "filter (\<lambda>pd. fd pd = f \<and> wants pd e) ps = []"
          using ok that by (auto simp: filter_empty_conv list_all_iff kq_pd_ok_def)
        then show ?thesis by (simp add: watch_def)
      qed
      then have "kq_inside d3"
        using k2(2) d3 d2 by (auto simp: kq_inside_def)
      then show ?thesis
        using d1 d2(2-) d2' d3 k2 True Inr ok
        by (intro exI [of _ "Inr ()"] exI [of _ d3])
          (simp add: kq_pollset_add_def Let_def kq_safe_def kq_clean_def)
    qed
  qed
qed

lemma kq_add_pid: "kq_pollset_add mem ps d = Some (r, d') \<Longrightarrow> kq_pid d' = kq_pid d"
proof -
  have 1: "kq_check mem ps d = Some (r, d') \<Longrightarrow> kq_pid d' = kq_pid d" for ps d r d'
    by (induction mem ps d rule: kq_check.induct)
      (auto simp: bind_eq_Some_conv st_kq_fd_data_expand_def Let_def split: if_splits)
  have 2: "kq_add_loop ps d = Some d' \<Longrightarrow> kq_pid d' = kq_pid d" for ps d d'
    by (induction ps d rule: kq_add_loop.induct)
      (auto simp: bind_eq_Some_conv kq_add1_def st_kq_addlist_add_def Let_def split: if_splits)
  assume a: "kq_pollset_add mem ps d = Some (r, d')"
  then obtain r1 d1 where c: "kq_check mem ps d = Some (r1, d1)"
    by (auto simp: kq_pollset_add_def bind_eq_Some_conv)
  show "kq_pid d' = kq_pid d"
  proof (cases r1)
    case (Inl e)
    then show ?thesis using a c 1 [OF c] by (simp add: kq_pollset_add_def)
  next
    case (Inr u)
    then show ?thesis
      using a c 1 [OF c]
      by (auto simp: kq_pollset_add_def bind_eq_Some_conv st_kq_addlist_expand_def Let_def
          split: if_splits dest!: 2)
  qed
qed

section \<open>Deleting\<close>

lemma kq_dellist_frame [simp]:
  "kq_rd_ref_cnt (st_kq_dellist_add mem k d) = kq_rd_ref_cnt d" "kq_wr_ref_cnt (st_kq_dellist_add mem k d) = kq_wr_ref_cnt d"
  "kq_revents (st_kq_dellist_add mem k d) = kq_revents d" "addlist (st_kq_dellist_add mem k d) = addlist d"
  "addlist_size (st_kq_dellist_add mem k d) = addlist_size d"
  "kq_fd_data_size (st_kq_dellist_add mem k d) = kq_fd_data_size d"
  "kq_pid (st_kq_dellist_add mem k d) = kq_pid d"
  by (simp_all add: st_kq_dellist_add_def Let_def)

lemma kq_submit_frame [simp]:
  "kq_rd_ref_cnt (kq_submit d) = kq_rd_ref_cnt d" "kq_wr_ref_cnt (kq_submit d) = kq_wr_ref_cnt d"
  "kq_revents (kq_submit d) = kq_revents d" "addlist (kq_submit d) = addlist d"
  "addlist_size (kq_submit d) = addlist_size d" "kq_fd_data_size (kq_submit d) = kq_fd_data_size d"
  "kq_pid (kq_submit d) = kq_pid d"
  by (simp_all add: kq_submit_def)

lemma kq_del1_simps:
  "kq_rd_ref_cnt (kq_del1 mem x pd d) f = kq_rd_ref_cnt d f - watch [pd] POLLIN f"
  "kq_wr_ref_cnt (kq_del1 mem x pd d) f = kq_wr_ref_cnt d f - watch [pd] POLLOUT f"
  "kq_revents (kq_del1 mem x pd d) = kq_revents d" "addlist (kq_del1 mem x pd d) = addlist d"
  "addlist_size (kq_del1 mem x pd d) = addlist_size d" "kq_fd_data_size (kq_del1 mem x pd d) = kq_fd_data_size d"
  "kq_pid (kq_del1 mem x pd d) = kq_pid d"
  by (auto simp: kq_del1_def Let_def)

lemma kq_del_fold:
  "kq_rd_ref_cnt (fold (\<lambda>pd d. kq_del1 mem (x pd d) pd d) ps d) f = kq_rd_ref_cnt d f - watch ps POLLIN f"
  "kq_wr_ref_cnt (fold (\<lambda>pd d. kq_del1 mem (x pd d) pd d) ps d) f = kq_wr_ref_cnt d f - watch ps POLLOUT f"
  "kq_revents (fold (\<lambda>pd d. kq_del1 mem (x pd d) pd d) ps d) = kq_revents d"
  "addlist (fold (\<lambda>pd d. kq_del1 mem (x pd d) pd d) ps d) = addlist d"
  "addlist_size (fold (\<lambda>pd d. kq_del1 mem (x pd d) pd d) ps d) = addlist_size d"
  "kq_fd_data_size (fold (\<lambda>pd d. kq_del1 mem (x pd d) pd d) ps d) = kq_fd_data_size d"
  "kq_pid (fold (\<lambda>pd d. kq_del1 mem (x pd d) pd d) ps d) = kq_pid d"
  by (induction ps arbitrary: d) (simp_all add: kq_del1_simps)

lemma kq_inside_cnt: "kq_cnt_ok s \<Longrightarrow> kq_inside (kqd s) \<Longrightarrow> f < 0 \<or> kq_fd_data_size (kqd s) \<le> f \<Longrightarrow>
    watchers s POLLIN f = 0 \<and> watchers s POLLOUT f = 0"
  by (auto simp: kq_cnt_ok_def kq_inside_def)

text \<open>A request leaves the queue, its descriptors having been counted down.\<close>

lemma kq_remove:
  assumes k: "kq_cnt_ok s" "kq_inside (kqd s)" and q: "q \<in> set (io_q s)" "distinct (io_q s)"
    and s': "io_q s' = remove1 q (io_q s)" "\<And>u. u \<noteq> q \<Longrightarrow> pollqs s' u = pollqs s u"
      "\<And>f. kq_rd_ref_cnt (kqd s') f = kq_rd_ref_cnt (kqd s) f - watch ps POLLIN f"
      "\<And>f. kq_wr_ref_cnt (kqd s') f = kq_wr_ref_cnt (kqd s) f - watch ps POLLOUT f"
      "kq_fd_data_size (kqd s') = kq_fd_data_size (kqd s)"
    and ps: "\<And>e f. watch ps e f = watch (pds (pollqs s q)) e f"
  shows "kq_cnt_ok s' \<and> kq_inside (kqd s')"
proof -
  have w: "watchers s' e f = watchers s e f - watch ps e f" for e f
    unfolding ps by (rule watchers_remove [OF q s'(1)]) (simp add: s'(2))
  have c: "kq_cnt_ok s'"
    using k(1) by (simp add: kq_cnt_ok_def w s'(3,4))
  have "watch ps e f = 0" if "watchers s e f = 0" for e f
    using watchers_ge [OF q(1), of e f] that watch_nonneg [of ps e f] unfolding ps by linarith
  then have "kq_inside (kqd s')"
    using k kq_inside_cnt [OF k] by (auto simp: kq_inside_def s'(3-5))
  with c show ?thesis by simp
qed

section \<open>Dispatch\<close>

lemma kq_mark_frame [simp]:
  "kq_rd_ref_cnt (fold kq_mark es d) = kq_rd_ref_cnt d" "kq_wr_ref_cnt (fold kq_mark es d) = kq_wr_ref_cnt d"
  "addlist (fold kq_mark es d) = addlist d" "addlist_size (fold kq_mark es d) = addlist_size d"
  "kq_fd_data_size (fold kq_mark es d) = kq_fd_data_size d"
  "f \<notin> ke_ident ` set es \<Longrightarrow> kq_revents (fold kq_mark es d) f = kq_revents d f"
  by (induction es arbitrary: d) (simp_all add: kq_mark_def Let_def)

lemma kq_unmark_frame [simp]:
  "kq_rd_ref_cnt (fold kq_unmark es d) = kq_rd_ref_cnt d" "kq_wr_ref_cnt (fold kq_unmark es d) = kq_wr_ref_cnt d"
  "addlist (fold kq_unmark es d) = addlist d" "addlist_size (fold kq_unmark es d) = addlist_size d"
  "kq_fd_data_size (fold kq_unmark es d) = kq_fd_data_size d"
  by (induction es arbitrary: d) (simp_all add: kq_unmark_def)

lemma kq_unmark_revents:
  "kq_revents (fold kq_unmark es d) f = (if f \<in> ke_ident ` set es then 0 else kq_revents d f)"
  by (induction es arbitrary: d) (auto simp: kq_unmark_def)

lemma kq_pd_revents_cong: "kq_revents d = kq_revents d' \<Longrightarrow> kq_pd_revents d pd = kq_pd_revents d' pd"
  by (simp add: kq_pd_revents_def)

definition kq_base :: "(int \<Rightarrow> eventw) \<Rightarrow> st \<Rightarrow> bool" where
  "kq_base R s \<longleftrightarrow> kq_safe (kqd s) \<and> kq_inside (kqd s) \<and> kq_cnt_ok s \<and> kq_pds_ok s \<and> kq_revents (kqd s) = R"

lemma kq_base_set_pds:
  assumes "kq_base R s" "\<And>pd. fd (g pd) = fd pd \<and> events (g pd) = events pd" "ps = map g (pds (pollqs s q))"
  shows "kq_base R (set_pds q ps s)"
proof -
  have w: "watchers (set_pds q ps s) e f = watchers s e f" for e f
    by (rule watchers_cong) (auto simp: set_pds_def assms(3) watch_revents [OF assms(2)])
  have "list_all kq_pd_ok (map g xs) = list_all kq_pd_ok xs" for xs
    using assms(2) by (induction xs) (auto simp: kq_pd_ok_def)
  then have "kq_pds_ok (set_pds q ps s)"
    using assms(1,3) by (auto simp: kq_base_def kq_pds_ok_def set_pds_def)
  moreover have "kqd (set_pds q ps s) = kqd s" by (simp add: set_pds_def)
  ultimately show ?thesis
    using assms(1) by (simp add: kq_base_def kq_cnt_ok_def w)
qed

abbreviation kq_ans :: "kqdata \<Rightarrow> st \<Rightarrow> tid \<Rightarrow> pollfd list" where
  "kq_ans d s q \<equiv> map (\<lambda>pd. pd\<lparr>revents := kq_pd_revents d pd\<rparr>) (pds (pollqs s q))"

lemma kq_turn:
  assumes w: "walked cur (\<lambda>q. ready (kq_ans d s0 q)) (kq_ans d s0) s0 (q # qs) s"
    and b: "kq_base (kq_revents d) s"
  shows "\<exists>s'. kq_body mem q s = Some s' \<and> walked cur (\<lambda>q. ready (kq_ans d s0 q)) (kq_ans d s0) s0 qs s' \<and>
    kq_base (kq_revents d) s'"
proof -
  have q: "q \<in> set (io_q s)" "distinct (io_q s)" "pollqs s q = pollqs s0 q" using walked_pds [OF w] by auto
  define ps where "ps = kq_ans d s q"
  have ps0: "ps = kq_ans d s0 q" using q(3) by (simp add: ps_def)
  have "kq_revents (kqd s) = kq_revents d" using b by (simp add: kq_base_def)
  then have ps': "map (\<lambda>pd. pd\<lparr>revents := kq_pd_revents (kqd s) pd\<rparr>) (pds (pollqs s q)) = ps"
    unfolding ps_def by (simp add: kq_pd_revents_cong [of "kqd s" d])
  define s1 where "s1 = set_pds q ps s"
  have b1: "kq_base (kq_revents d) s1"
    unfolding s1_def by (rule kq_base_set_pds [OF b, of "\<lambda>pd. pd\<lparr>revents := kq_pd_revents d pd\<rparr>"]) (simp_all add: ps_def)
  have s1: "io_q s1 = io_q s" "kqd s1 = kqd s" "pds (pollqs s1 q) = ps" "u \<noteq> q \<Longrightarrow> pollqs s1 u = pollqs s u" for u
    by (simp_all add: s1_def set_pds_def)
  show ?thesis
  proof (cases "ready ps")
    case True
    define s2 where "s2 = unlink_pollq q s1"
    define a where "a = s2\<lparr>kqd := fold (\<lambda>pd d. kq_del1 mem (kq_revents d (fd pd)) pd d) ps (kqd s2)\<rparr>"
    have s2: "kqd s2 = kqd s" "u \<noteq> q \<Longrightarrow> pollqs s2 u = pollqs s u" for u
      using s1 by (simp_all add: s2_def unlink_pollq_def ST_DEL_IOQ_def Let_def)
    have e: "same_but_events (unlink_pollq q (set_pds q ps s)) a"
      by (simp add: a_def s2_def s1_def)
    obtain s' where s': "wake_pollq q a = Some s'"
        "walked cur (\<lambda>q. ready (kq_ans d s0 q)) (kq_ans d s0) s0 qs s'" "kqd s' = kqd a"
        "io_q s' = remove1 q (io_q s)" "pollqs s' = pollqs a"
      using walked_wake [OF w ps0 _ e] True ps0 by auto
    have "kq_cnt_ok s' \<and> kq_inside (kqd s')"
      by (rule kq_remove [of s1 q _ ps]) (use b1 q s' s1 s2 in \<open>auto simp: kq_base_def a_def kq_del_fold\<close>)
    moreover have "kq_pds_ok s'"
      using b q s' s2 by (auto simp: kq_base_def kq_pds_ok_def a_def)
    moreover have "kq_safe (kqd s') \<and> kq_revents (kqd s') = kq_revents d"
      using b s' s2 by (simp add: kq_base_def kq_safe_def a_def kq_del_fold)
    ultimately show ?thesis
      using s' True by (simp add: kq_body_def ps' Let_def a_def s2_def s1_def kq_base_def) (simp add: ready_def)
  next
    case False
    have "walked cur (\<lambda>q. ready (kq_ans d s0 q)) (kq_ans d s0) s0 qs s1"
      by (rule walked_keep [OF w ps0]) (use False ps0 in \<open>simp_all add: s1_def\<close>)
    then show ?thesis
      using False b1 by (simp add: kq_body_def ps' Let_def s1_def) (simp add: ready_def)
  qed
qed

lemma kq_ready_run:
  assumes p: "pending cur (io_q s0) s0" and k: "kq_ok s0" "kq_pds_ok s0" and evs: "evs \<noteq> []"
  shows "\<exists>s'. kq_wait e (Kq_ready evs) s0 = Some (Inl s') \<and> vp_inv cur s' \<and> kq_ok s' \<and> kq_pds_ok s' \<and>
    walked cur (\<lambda>q. ready (kq_ans (fold kq_mark evs (kqd s0)) s0 q)) (kq_ans (fold kq_mark evs (kqd s0)) s0) s0 [] s'"
proof -
  define d where "d = fold kq_mark evs (kqd s0)"
  define s1 where "s1 = s0\<lparr>kqd := (fold kq_mark evs ((kqd s0)\<lparr>addlist := []\<rparr>))\<lparr>dellist := []\<rparr>\<rparr>"
  define P where "P qs t \<longleftrightarrow> walked cur (\<lambda>q. ready (kq_ans d s0 q)) (kq_ans d s0) s0 qs t \<and>
    kq_base (kq_revents d) t" for qs t
  have rv: "kq_revents (fold kq_mark evs (x\<lparr>addlist := l\<rparr>)) = kq_revents (fold kq_mark evs x)" for x l
  proof -
    have "kq_mark m (y\<lparr>addlist := l\<rparr>) = (kq_mark m y)\<lparr>addlist := l\<rparr>" for m y
      by (simp add: kq_mark_def Let_def)
    then have "fold kq_mark es (x\<lparr>addlist := l\<rparr>) = (fold kq_mark es x)\<lparr>addlist := l\<rparr>" for es
      by (induction es arbitrary: x) simp_all
    then show ?thesis by simp
  qed
  have e: "same_but_events s0 s1" by (simp add: s1_def)
  have "kq_base (kq_revents d) s1"
    using k watchers_same_events [OF e]
    by (auto simp: kq_base_def kq_ok_def kq_cnt_ok_def kq_safe_def kq_inside_def kq_pds_ok_def s1_def d_def rv)
  then have "P (io_q s0) s1"
    using walked_start [OF p e] by (simp add: P_def)
  moreover have "\<exists>s'. kq_body (kv_mem e) q t = Some s' \<and> P qs s'" if "P (q # qs) t" for q qs t
    using that kq_turn [of cur d s0 q qs t "kv_mem e"] by (auto simp: P_def)
  ultimately obtain s2 where s2: "ioq_loop (kq_body (kv_mem e)) (io_q s0) s1 = Some s2" "P [] s2"
    using ioq_loop_rule [of P "kq_body (kv_mem e)" "io_q s0" s1] by blast
  define s' where "s' = s2\<lparr>kqd := fold kq_unmark evs (kq_submit (kqd s2))\<rparr>"
  have e2: "same_but_events s2 s'" by (simp add: s'_def)
  have w2: "walked cur (\<lambda>q. ready (kq_ans d s0 q)) (kq_ans d s0) s0 [] s2" and b2: "kq_base (kq_revents d) s2"
    using s2(2) by (simp_all add: P_def)
  have v: "vp_inv cur s'"
    by (rule vp_inv_events [of _ s2 0 "pds (pollqs s2 0)"])
      (use w2 in \<open>simp_all add: walked_def pending_def set_pds_def s'_def\<close>)
  have "walked cur (\<lambda>q. ready (kq_ans d s0 q)) (kq_ans d s0) s0 [] s'"
    using w2 v by (simp add: walked_def pending_def s'_def disp_frame_def)
  moreover have "kq_clean (kqd s')"
    unfolding kq_clean_def
  proof
    fix f
    show "kq_revents (kqd s') f = 0"
      using b2 k(1) by (auto simp: s'_def kq_unmark_revents kq_base_def kq_ok_def kq_clean_def d_def)
  qed
  moreover have "kq_safe (kqd s')" "kq_inside (kqd s')" "kq_cnt_ok s'" "kq_pds_ok s'"
    using b2 watchers_same_events [OF e2]
    by (auto simp: kq_base_def kq_safe_def kq_inside_def kq_cnt_ok_def kq_pds_ok_def s'_def)
  moreover have "kq_wait e (Kq_ready evs) s0 = Some (Inl s')"
    using evs s2(1) by (simp add: kq_wait_def Let_def s1_def s'_def)
  ultimately show ?thesis
    using v by (auto simp: kq_ok_def d_def)
qed

section \<open>After a fork\<close>

text \<open>Without memory shortage a valid set is added.\<close>

lemma kq_add_granted:
  assumes "kq_safe d" "kq_inside d" "list_all kq_pd_ok ps" "\<forall>i n. mem i n"
  shows "\<exists>d'. kq_pollset_add mem ps d = Some (Inr (), d')"
proof -
  have check: "\<exists>d'. kq_check mem ps d = Some (Inr (), d')" if "kq_safe d" "kq_inside d" "list_all kq_pd_ok ps" for ps d
    using that
  proof (induction ps arbitrary: d)
    case (Cons pd ps)
    show ?case
    proof (cases "fd pd \<ge> kq_fd_data_size d")
      case True
      obtain ok d1 where d1: "st_kq_fd_data_expand mem (fd pd) d = Some (ok, d1)" "kq_safe d1" "kq_inside d1"
        using kq_expand_run [OF Cons.prems(1), of mem "fd pd"] Cons.prems(2) by blast
      moreover have ok using d1(1) assms(4) by (auto simp: st_kq_fd_data_expand_def bind_eq_Some_conv Let_def)
      ultimately show ?thesis
        using Cons.IH [OF d1(2,3)] Cons.prems(3) True by (auto simp: kq_check_Cons simp del: kq_check.simps)
    next
      case False
      then show ?thesis using Cons by (auto simp: kq_check_Cons simp del: kq_check.simps)
    qed
  qed simp
  obtain d1 where d1: "kq_check mem ps d = Some (Inr (), d1)" using check [OF assms(1-3)] by blast
  obtain r d' where r: "kq_pollset_add mem ps d = Some (r, d')" using kq_add_run [OF assms(1,2)] by blast
  moreover have "r = Inr ()"
    using r d1 assms(4)
    by (auto simp: kq_pollset_add_def bind_eq_Some_conv Let_def st_kq_addlist_expand_def split: if_splits)
  ultimately show ?thesis by blast
qed

text \<open>Registering the queue anew counts every request again, from zero.\<close>

lemma kq_readd_run:
  assumes "kq_safe (kqd s)" "kq_inside (kqd s)" "kq_clean (kqd s)" "\<forall>i n. mem i n"
    and "\<And>q. q \<in> set qs \<Longrightarrow> list_all kq_pd_ok (pds (pollqs s q))"
  shows "\<exists>s'. kq_readd mem qs s = Some s' \<and> same_but_events s s' \<and> kq_safe (kqd s') \<and> kq_inside (kqd s') \<and>
    kq_clean (kqd s') \<and> kq_pid (kqd s') = kq_pid (kqd s) \<and>
    (\<forall>f. kq_rd_ref_cnt (kqd s') f = kq_rd_ref_cnt (kqd s) f + sum_list (map (\<lambda>q. watch (pds (pollqs s q)) POLLIN f) qs) \<and>
         kq_wr_ref_cnt (kqd s') f = kq_wr_ref_cnt (kqd s) f + sum_list (map (\<lambda>q. watch (pds (pollqs s q)) POLLOUT f) qs))"
  using assms
proof (induction qs arbitrary: s)
  case (Cons q qs)
  obtain d where d: "kq_pollset_add mem (pds (pollqs s q)) (kqd s) = Some (Inr (), d)"
    using kq_add_granted [OF Cons.prems(1,2) _ Cons.prems(4)] Cons.prems(5) by auto
  with kq_add_run [OF Cons.prems(1,2), of mem "pds (pollqs s q)"] Cons.prems(3)
  have d': "kq_safe d" "kq_inside d" "kq_clean d"
    "\<And>f. kq_rd_ref_cnt d f = kq_rd_ref_cnt (kqd s) f + watch (pds (pollqs s q)) POLLIN f"
    "\<And>f. kq_wr_ref_cnt d f = kq_wr_ref_cnt (kqd s) f + watch (pds (pollqs s q)) POLLOUT f"
    by auto
  have pid: "kq_pid d = kq_pid (kqd s)"
    using kq_add_pid [OF d] .
  define s1 where "s1 = s\<lparr>kqd := d\<rparr>"
  have "\<exists>s'. kq_readd mem qs s1 = Some s' \<and> same_but_events s1 s' \<and> kq_safe (kqd s') \<and> kq_inside (kqd s') \<and>
    kq_clean (kqd s') \<and> kq_pid (kqd s') = kq_pid (kqd s1) \<and>
    (\<forall>f. kq_rd_ref_cnt (kqd s') f = kq_rd_ref_cnt (kqd s1) f + sum_list (map (\<lambda>q. watch (pds (pollqs s1 q)) POLLIN f) qs) \<and>
         kq_wr_ref_cnt (kqd s') f = kq_wr_ref_cnt (kqd s1) f + sum_list (map (\<lambda>q. watch (pds (pollqs s1 q)) POLLOUT f) qs))"
    by (rule Cons.IH) (use d' Cons.prems in \<open>auto simp: s1_def\<close>)
  then obtain s' where s': "kq_readd mem qs s1 = Some s'" "same_but_events s1 s'" "kq_safe (kqd s')" "kq_inside (kqd s')"
    "kq_clean (kqd s')" "kq_pid (kqd s') = kq_pid (kqd s1)"
    "\<forall>f. kq_rd_ref_cnt (kqd s') f = kq_rd_ref_cnt (kqd s1) f + sum_list (map (\<lambda>q. watch (pds (pollqs s1 q)) POLLIN f) qs) \<and>
         kq_wr_ref_cnt (kqd s') f = kq_wr_ref_cnt (kqd s1) f + sum_list (map (\<lambda>q. watch (pds (pollqs s1 q)) POLLOUT f) qs)"
    by blast
  have "same_but_events s s'"
    by (rule same_but_events_trans [OF _ s'(2)]) (simp add: s1_def)
  then show ?case
    using d s' d' pid by (simp add: st_kq_pollset_add_def s1_def)
qed simp

text \<open>The answer that makes the dispatch look at the queue, and the state it looks at.\<close>

definition kq_forked :: "kq_env \<Rightarrow> st \<Rightarrow> bool" where
  "kq_forked e s \<longleftrightarrow> kv_first e = Kq_failed EBADF \<and> kq_pid (kqd s) \<noteq> kv_pid e"

lemma kq_wait_run:
  assumes p: "pending cur (io_q s) s" and k: "kq_ok s" "kq_pds_ok s" and mem: "\<forall>i n. kv_mem e i n"
  shows "\<exists>r. kq_wait e a s = Some r \<and>
    (case r of
       Inl s' \<Rightarrow> vp_inv cur s' \<and> kq_ok s' \<and> kq_pds_ok s' \<or> (\<exists>x. kv_kqueue e = Inl x)
     | Inr s' \<Rightarrow> pending cur (io_q s') s' \<and> kq_ok s' \<and> kq_pds_ok s' \<and> kq_pid (kqd s') = kv_pid e) \<and>
    ((\<exists>s'. r = Inr s') \<longrightarrow> a = Kq_failed EBADF \<and> kq_pid (kqd s) \<noteq> kv_pid e) \<and>
    (\<forall>s'. r = Inl s' \<longrightarrow> vp_inv cur s') \<and> (\<forall>s'. r = Inl s' \<or> r = Inr s' \<longrightarrow> disp_frame s s')"
proof -
  have keep: "vp_inv cur s'" if "same_but_events s s'" for s'
    using vp_inv_events [of cur s 0 "pds (pollqs s 0)" s'] that p by (simp add: pending_def set_pds_def)
  have fr: "disp_frame s (s\<lparr>kqd := d\<rparr>)" for d
    by (rule disp_frame_events) simp
  have kk: "kq_ok (s\<lparr>kqd := (kqd s)\<lparr>addlist := []\<rparr>\<rparr>)" "kq_pds_ok (s\<lparr>kqd := (kqd s)\<lparr>addlist := []\<rparr>\<rparr>)"
    using k watchers_same_events [of s "s\<lparr>kqd := (kqd s)\<lparr>addlist := []\<rparr>\<rparr>"]
    by (auto simp: kq_ok_def kq_safe_def kq_clean_def kq_inside_def kq_cnt_ok_def kq_pds_ok_def)
  show ?thesis
  proof (cases a)
    case (Kq_ready evs)
    show ?thesis
    proof (cases "evs = []")
      case True
      then show ?thesis using Kq_ready kk keep fr by (simp add: kq_wait_def Let_def)
    next
      case False
      from kq_ready_run [OF p k this, of e] show ?thesis using Kq_ready walked_end by auto
    qed
  next
    case (Kq_failed err)
    show ?thesis
    proof (cases "err = EBADF \<and> kq_pid (kqd s) \<noteq> kv_pid e")
      case False
      then show ?thesis using Kq_failed kk keep fr by (auto simp: kq_wait_def Let_def)
    next
      case fork: True
      show ?thesis
      proof (cases "kv_kqueue e")
        case (Inl x)
        then show ?thesis using Kq_failed fork keep fr by (simp add: kq_wait_def Let_def)
      next
        case (Inr f)
        define s1 where "s1 = s\<lparr>kqd := (kqd s)\<lparr>addlist := [], kq := f, kq_pid := kv_pid e,
          kq_rd_ref_cnt := (\<lambda>_. 0), kq_wr_ref_cnt := (\<lambda>_. 0), kq_revents := (\<lambda>_. 0)\<rparr>\<rparr>"
        have s1: "kq_safe (kqd s1)" "kq_inside (kqd s1)" "kq_clean (kqd s1)" "same_but_events s s1"
          using k by (auto simp: s1_def kq_ok_def kq_safe_def kq_inside_def kq_clean_def)
        have "list_all kq_pd_ok (pds (pollqs s1 q))" if "q \<in> set (io_q s)" for q
          using k(2) that by (simp add: kq_pds_ok_def s1_def)
        from kq_readd_run [OF s1(1-3) mem this]
        obtain s' where s': "kq_readd (kv_mem e) (io_q s) s1 = Some s'" "same_but_events s1 s'"
            "kq_safe (kqd s')" "kq_inside (kqd s')" "kq_clean (kqd s')" "kq_pid (kqd s') = kq_pid (kqd s1)"
            "\<forall>f. kq_rd_ref_cnt (kqd s') f = kq_rd_ref_cnt (kqd s1) f + sum_list (map (\<lambda>q. watch (pds (pollqs s1 q)) POLLIN f) (io_q s)) \<and>
              kq_wr_ref_cnt (kqd s') f = kq_wr_ref_cnt (kqd s1) f + sum_list (map (\<lambda>q. watch (pds (pollqs s1 q)) POLLOUT f) (io_q s))"
          by blast
        have e: "same_but_events s s'" by (rule same_but_events_trans [OF s1(4) s'(2)])
        note E = same_but_eventsD [OF e]
        have "kq_cnt_ok s'"
          using s'(7) by (simp add: kq_cnt_ok_def watchers_def s1_def E)
        moreover have "kq_pds_ok s'" using k(2) E by (simp add: kq_pds_ok_def)
        moreover have "pending cur (io_q s') s'"
          using p keep [OF e] E by (simp add: pending_def)
        ultimately show ?thesis
          using s' Kq_failed fork Inr disp_frame_events [OF e] by (auto simp: kq_wait_def Let_def kq_ok_def s1_def)
      qed
    qed
  qed
qed

text \<open>
  A dispatch always ends, with the invariant; unless \<open>kqueue\<close> fails after a fork the counts are
  exact afterwards. (\<open>kv_mem\<close>: memory is granted.)
\<close>

lemma kq_dispatch_run:
  assumes p: "pending cur (io_q s) s" and k: "kq_ok s" "kq_pds_ok s" and mem: "\<forall>i n. kv_mem e i n"
  shows "\<exists>s'. st_kq_dispatch e s = Some s' \<and> vp_inv cur s' \<and> disp_frame s s' \<and>
    (kq_ok s' \<and> kq_pds_ok s' \<or> (\<exists>x. kv_kqueue e = Inl x))"
proof -
  obtain r where r: "kq_wait e (kv_first e) s = Some r"
    "case r of
       Inl s' \<Rightarrow> vp_inv cur s' \<and> kq_ok s' \<and> kq_pds_ok s' \<or> (\<exists>x. kv_kqueue e = Inl x)
     | Inr s' \<Rightarrow> pending cur (io_q s') s' \<and> kq_ok s' \<and> kq_pds_ok s' \<and> kq_pid (kqd s') = kv_pid e"
    "\<forall>s'. r = Inl s' \<longrightarrow> vp_inv cur s'" "\<forall>s'. r = Inl s' \<or> r = Inr s' \<longrightarrow> disp_frame s s'"
    using kq_wait_run [OF p k mem, of "kv_first e"] by blast
  show ?thesis
  proof (cases r)
    case (Inl s')
    then show ?thesis using r by (auto simp: st_kq_dispatch_def)
  next
    case (Inr s1)
    then have s1: "pending cur (io_q s1) s1" "kq_ok s1" "kq_pds_ok s1" "kq_pid (kqd s1) = kv_pid e" "disp_frame s s1"
      using r by auto
    obtain r2 where r2: "kq_wait e (kv_second e) s1 = Some r2"
      "case r2 of
         Inl s' \<Rightarrow> vp_inv cur s' \<and> kq_ok s' \<and> kq_pds_ok s' \<or> (\<exists>x. kv_kqueue e = Inl x)
       | Inr s' \<Rightarrow> pending cur (io_q s') s' \<and> kq_ok s' \<and> kq_pds_ok s' \<and> kq_pid (kqd s') = kv_pid e"
      "(\<exists>s'. r2 = Inr s') \<longrightarrow> kq_pid (kqd s1) \<noteq> kv_pid e"
      "\<forall>s'. r2 = Inl s' \<longrightarrow> vp_inv cur s'" "\<forall>s'. r2 = Inl s' \<or> r2 = Inr s' \<longrightarrow> disp_frame s1 s'"
      using kq_wait_run [OF s1(1-3) mem, of "kv_second e"] by blast
    then obtain s2 where "r2 = Inl s2" using s1(4) by (cases r2) auto
    then show ?thesis
      using r(1) Inr r2 disp_frame_trans [OF s1(5)] by (auto simp: st_kq_dispatch_def)
  qed
qed

end
