(* ===== verification/ST_EpollInv.thy ===== *)
theory ST_EpollInv
  imports ST_EvInv ST_EvEpoll
begin

text \<open>
  The \<open>epoll\<close> event system is right: the counts are the numbers of watchers, a set that cannot be
  added completely is not counted at all, and, as long as \<open>epoll_ctl\<close> succeeds, the interest set
  in the kernel is exactly the set of descriptors and events with a count.
\<close>

section \<open>Invariant\<close>

definition ep_safe :: "epolldata \<Rightarrow> bool" where
  "ep_safe d \<longleftrightarrow> 0 < ep_fd_data_size d \<and> 0 < evtlist_size d"

definition ep_clean :: "epolldata \<Rightarrow> bool" where
  "ep_clean d \<longleftrightarrow> (\<forall>f. ep_revents d f = 0)"

definition ep_inside :: "epolldata \<Rightarrow> bool" where
  "ep_inside d \<longleftrightarrow> (\<forall>f. f < 0 \<or> ep_fd_data_size d \<le> f \<longrightarrow>
     ep_rd_ref_cnt d f = 0 \<and> ep_wr_ref_cnt d f = 0 \<and> ep_ex_ref_cnt d f = 0)"

definition ep_nonneg :: "epolldata \<Rightarrow> bool" where
  "ep_nonneg d \<longleftrightarrow> (\<forall>f. 0 \<le> ep_rd_ref_cnt d f \<and> 0 \<le> ep_wr_ref_cnt d f \<and> 0 \<le> ep_ex_ref_cnt d f)"

definition ep_cnt_ok :: "st \<Rightarrow> bool" where
  "ep_cnt_ok s \<longleftrightarrow> (\<forall>f. ep_rd_ref_cnt (epd s) f = watchers s POLLIN f \<and>
     ep_wr_ref_cnt (epd s) f = watchers s POLLOUT f \<and> ep_ex_ref_cnt (epd s) f = watchers s POLLPRI f)"

definition ep_pd_ok :: "pollfd \<Rightarrow> bool" where
  "ep_pd_ok pd \<longleftrightarrow> \<not> (fd pd < 0 \<or> events pd = 0 \<or> events pd AND NOT (POLLIN OR POLLOUT OR POLLPRI) \<noteq> 0)"

definition ep_pds_ok :: "st \<Rightarrow> bool" where
  "ep_pds_ok s \<longleftrightarrow> (\<forall>q \<in> set (io_q s). list_all ep_pd_ok (pds (pollqs s q)))"

definition ep_ok :: "st \<Rightarrow> bool" where
  "ep_ok s \<longleftrightarrow> ep_safe (epd s) \<and> ep_clean (epd s) \<and> ep_inside (epd s) \<and> ep_cnt_ok s \<and> ep_pds_ok s"

text \<open>
  The interest set of the kernel after a list of successful calls, as \<open>epoll_ctl(2)\<close> documents it,
  and the one the counts ask for. A descriptor that has fired is brought up to date at the end of
  the dispatch only.
\<close>

fun interest :: "(epoll_op \<times> int \<times> flagw) list \<Rightarrow> int \<rightharpoonup> flagw" where
  "interest [] = Map.empty"
| "interest ((op, f, ev) # l) = (interest l)(f := (if op = EPOLL_CTL_DEL then None else Some ev))"

definition wanted :: "epolldata \<Rightarrow> int \<rightharpoonup> flagw" where
  "wanted d f = (if ep_events d f = 0 then None else Some (ep_events d f))"

definition ep_sync :: "epolldata \<Rightarrow> bool" where
  "ep_sync d \<longleftrightarrow> (\<forall>f. ep_revents d f = 0 \<longrightarrow> interest (rev (ctl_log d)) f = wanted d f)"

lemma ep_sync_clean: "ep_clean d \<Longrightarrow> ep_sync d \<longleftrightarrow> interest (rev (ctl_log d)) = wanted d"
  by (auto simp: ep_clean_def ep_sync_def)

section \<open>Counting\<close>

lemma ep_count_simps:
  "ep_rd_ref_cnt (ep_count u pd d) f = (if fd pd = f \<and> wants pd POLLIN then u (ep_rd_ref_cnt d f) else ep_rd_ref_cnt d f)"
  "ep_wr_ref_cnt (ep_count u pd d) f = (if fd pd = f \<and> wants pd POLLOUT then u (ep_wr_ref_cnt d f) else ep_wr_ref_cnt d f)"
  "ep_ex_ref_cnt (ep_count u pd d) f = (if fd pd = f \<and> wants pd POLLPRI then u (ep_ex_ref_cnt d f) else ep_ex_ref_cnt d f)"
  "ep_revents (ep_count u pd d) = ep_revents d" "ep_fd_data_size (ep_count u pd d) = ep_fd_data_size d"
  "evtlist_size (ep_count u pd d) = evtlist_size d" "ctl_log (ep_count u pd d) = ctl_log d"
  "ep_pid (ep_count u pd d) = ep_pid d" "evtlist_cnt (ep_count u pd d) = evtlist_cnt d"
  by (auto simp: ep_count_def Let_def)

lemma ep_events_cong:
  "ep_rd_ref_cnt d' f = ep_rd_ref_cnt d f \<Longrightarrow> ep_wr_ref_cnt d' f = ep_wr_ref_cnt d f \<Longrightarrow>
   ep_ex_ref_cnt d' f = ep_ex_ref_cnt d f \<Longrightarrow> ep_events d' f = ep_events d f"
  by (simp add: ep_events_def)

lemma ep_events_count: "f \<noteq> fd pd \<Longrightarrow> ep_events (ep_count u pd d) f = ep_events d f"
  by (rule ep_events_cong) (simp_all add: ep_count_simps)

lemma ep_events_0: "ep_events d f = 0 \<longleftrightarrow> ep_rd_ref_cnt d f = 0 \<and> ep_wr_ref_cnt d f = 0 \<and> ep_ex_ref_cnt d f = 0"
  by (auto simp: ep_events_def EPOLL_defs)

lemma epoll_ctl_simps:
  "fst (epoll_ctl ctl op f ev d) = ctl (ctl_log d @ [(op, f, ev)])"
  "snd (epoll_ctl ctl op f ev d) = d\<lparr>ctl_log := ctl_log d @ [(op, f, ev)]\<rparr>"
  by (simp_all add: epoll_ctl_def Let_def)

text \<open>A state that differs in the log and in \<open>evtlist_cnt\<close> only.\<close>

definition ep_same :: "epolldata \<Rightarrow> epolldata \<Rightarrow> bool" where
  "ep_same d d' \<longleftrightarrow> ep_rd_ref_cnt d' = ep_rd_ref_cnt d \<and> ep_wr_ref_cnt d' = ep_wr_ref_cnt d \<and>
     ep_ex_ref_cnt d' = ep_ex_ref_cnt d \<and> ep_revents d' = ep_revents d \<and>
     ep_fd_data_size d' = ep_fd_data_size d \<and> ep_pid d' = ep_pid d"

lemma ep_same_events: "ep_same d d' \<Longrightarrow> ep_events d' = ep_events d"
  by (auto simp: ep_same_def intro!: ext ep_events_cong)

lemma ep_del1_same: "ep_same (ep_count (\<lambda>n. n - 1) pd d) (ep_del1 ctl pd d) \<and>
    evtlist_size (ep_del1 ctl pd d) = evtlist_size d"
  by (auto simp: ep_del1_def ep_same_def Let_def epoll_ctl_def ep_count_simps)

lemma ep_del1_simps:
  "ep_rd_ref_cnt (ep_del1 ctl pd d) f = ep_rd_ref_cnt d f - watch [pd] POLLIN f"
  "ep_wr_ref_cnt (ep_del1 ctl pd d) f = ep_wr_ref_cnt d f - watch [pd] POLLOUT f"
  "ep_ex_ref_cnt (ep_del1 ctl pd d) f = ep_ex_ref_cnt d f - watch [pd] POLLPRI f"
  "ep_revents (ep_del1 ctl pd d) = ep_revents d" "ep_fd_data_size (ep_del1 ctl pd d) = ep_fd_data_size d"
  "ep_pid (ep_del1 ctl pd d) = ep_pid d" "evtlist_size (ep_del1 ctl pd d) = evtlist_size d"
  using ep_del1_same [of pd d ctl] by (auto simp: ep_same_def ep_count_simps)

lemma ep_del_simps:
  "ep_rd_ref_cnt (ep_pollset_del ctl ps d) f = ep_rd_ref_cnt d f - watch ps POLLIN f"
  "ep_wr_ref_cnt (ep_pollset_del ctl ps d) f = ep_wr_ref_cnt d f - watch ps POLLOUT f"
  "ep_ex_ref_cnt (ep_pollset_del ctl ps d) f = ep_ex_ref_cnt d f - watch ps POLLPRI f"
  "ep_revents (ep_pollset_del ctl ps d) = ep_revents d"
  "ep_fd_data_size (ep_pollset_del ctl ps d) = ep_fd_data_size d"
  "ep_pid (ep_pollset_del ctl ps d) = ep_pid d" "evtlist_size (ep_pollset_del ctl ps d) = evtlist_size d"
  unfolding ep_pollset_del_def by (induction ps arbitrary: d) (simp_all add: ep_del1_simps)

lemma ep_del1_sync:
  assumes s: "ep_sync d" and c: "\<And>l. ctl l = None"
  shows "ep_sync (ep_del1 ctl pd d)"
  unfolding ep_sync_def
proof (intro allI impI)
  fix f assume r: "ep_revents (ep_del1 ctl pd d) f = 0"
  let ?d1 = "ep_count (\<lambda>n. n - 1) pd d"
  have ev: "ep_events (ep_del1 ctl pd d) = ep_events ?d1"
    using ep_del1_same by (blast intro: ep_same_events)
  have old: "interest (rev (ctl_log d)) f = wanted d f"
    using s r by (simp add: ep_sync_def ep_del1_simps)
  have r1: "ep_revents ?d1 f = 0" using r by (simp add: ep_del1_simps ep_count_simps)
  show "interest (rev (ctl_log (ep_del1 ctl pd d))) f = wanted (ep_del1 ctl pd d) f"
  proof (cases "f = fd pd")
    case True
    then show ?thesis
      using old r1 c unfolding wanted_def ev
      by (auto simp: ep_del1_def Let_def epoll_ctl_def wanted_def ep_count_simps)
  next
    case False
    then show ?thesis
      using old unfolding wanted_def ev
      by (auto simp: ep_del1_def Let_def epoll_ctl_def wanted_def ep_count_simps ep_events_count)
  qed
qed

lemma ep_del_sync: "ep_sync d \<Longrightarrow> (\<And>l. ctl l = None) \<Longrightarrow> ep_sync (ep_pollset_del ctl ps d)"
  unfolding ep_pollset_del_def by (induction ps arbitrary: d) (simp_all add: ep_del1_sync)

section \<open>Adding\<close>

lemma ep_expand_run:
  assumes "ep_safe d"
  shows "\<exists>ok d'. st_epoll_fd_data_expand mem f d = Some (ok, d') \<and> ep_safe d' \<and>
    (ep_inside d \<longrightarrow> ep_inside d' \<and> ep_rd_ref_cnt d' = ep_rd_ref_cnt d \<and> ep_wr_ref_cnt d' = ep_wr_ref_cnt d \<and>
      ep_ex_ref_cnt d' = ep_ex_ref_cnt d) \<and> (ep_clean d \<longrightarrow> ep_clean d') \<and> ctl_log d' = ctl_log d \<and>
    ep_pid d' = ep_pid d \<and> (if ok then f < ep_fd_data_size d' else \<not> mem (ep_fd_data_size d') \<or> d' = d) \<and>
    (ok \<or> (\<exists>n. \<not> mem n)) \<and> ep_fd_data_size d \<le> ep_fd_data_size d'"
proof -
  obtain n where n: "grow (ep_fd_data_size d) f = Some n" "f < n" "ep_fd_data_size d \<le> n"
    using assms grow_total [of "ep_fd_data_size d" f] by (auto simp: ep_safe_def)
  show ?thesis
  proof (cases "mem n")
    case True
    have z: "ep_inside d \<longrightarrow>
        (\<lambda>i. if ep_fd_data_size d \<le> i \<and> i < n then 0 else ep_rd_ref_cnt d i) = ep_rd_ref_cnt d \<and>
        (\<lambda>i. if ep_fd_data_size d \<le> i \<and> i < n then 0 else ep_wr_ref_cnt d i) = ep_wr_ref_cnt d \<and>
        (\<lambda>i. if ep_fd_data_size d \<le> i \<and> i < n then 0 else ep_ex_ref_cnt d i) = ep_ex_ref_cnt d"
      by (auto simp: ep_inside_def fun_eq_iff)
    then show ?thesis
      using n True assms
      by (intro exI [of _ True]) (auto simp: st_epoll_fd_data_expand_def Let_def ep_safe_def ep_clean_def ep_inside_def)
  next
    case False
    then show ?thesis
      using n assms by (intro exI [of _ False] exI [of _ d]) (auto simp: st_epoll_fd_data_expand_def)
  qed
qed

lemma ep_check_Cons:
  "\<not> ep_pd_ok pd \<Longrightarrow> ep_check mem (pd # ps) d = Some (Inl EINVAL, d)"
  "ep_pd_ok pd \<Longrightarrow> ep_check mem (pd # ps) d =
     (if fd pd \<ge> ep_fd_data_size d
      then do {
        (ok, d1) \<leftarrow> st_epoll_fd_data_expand mem (fd pd) d;
        (if ok then ep_check mem ps d1 else Some (Inl ENOMEM, d1))
      }
      else ep_check mem ps d)"
  unfolding ep_pd_ok_def ep_check.simps by (simp_all only: not_not if_True if_False)

definition ep_kept :: "epolldata \<Rightarrow> epolldata \<Rightarrow> bool" where
  "ep_kept d d' \<longleftrightarrow> ep_safe d' \<and> ep_inside d' \<and> ep_clean d' \<and> ep_rd_ref_cnt d' = ep_rd_ref_cnt d \<and>
     ep_wr_ref_cnt d' = ep_wr_ref_cnt d \<and> ep_ex_ref_cnt d' = ep_ex_ref_cnt d \<and> ctl_log d' = ctl_log d \<and>
     ep_pid d' = ep_pid d \<and> ep_fd_data_size d \<le> ep_fd_data_size d'"

lemma ep_kept_trans: "ep_kept d d1 \<Longrightarrow> ep_kept d1 d2 \<Longrightarrow> ep_kept d d2"
  by (auto simp: ep_kept_def)

lemma ep_check_run:
  assumes "ep_safe d" "ep_inside d" "ep_clean d"
  shows "\<exists>r d'. ep_check mem ps d = Some (r, d') \<and> ep_kept d d' \<and>
    (r = Inr () \<longrightarrow> list_all ep_pd_ok ps \<and> (\<forall>pd \<in> set ps. fd pd < ep_fd_data_size d')) \<and>
    (list_all ep_pd_ok ps \<longrightarrow> (\<forall>n. mem n) \<longrightarrow> r = Inr ())"
  using assms
proof (induction ps arbitrary: d)
  case Nil
  then show ?case by (simp add: ep_kept_def)
next
  case (Cons pd ps)
  show ?case
  proof (cases "ep_pd_ok pd")
    case False
    then show ?thesis using Cons.prems by (simp add: ep_check_Cons ep_kept_def del: ep_check.simps)
  next
    case True
    show ?thesis
    proof (cases "fd pd \<ge> ep_fd_data_size d")
      case le: True
      obtain ok d1 where d1: "st_epoll_fd_data_expand mem (fd pd) d = Some (ok, d1)" "ep_kept d d1"
          "ok \<longrightarrow> fd pd < ep_fd_data_size d1" "ok \<or> (\<exists>n. \<not> mem n)"
        using ep_expand_run [OF Cons.prems(1), of mem "fd pd"] Cons.prems(2,3) unfolding ep_kept_def by metis
      show ?thesis
      proof (cases ok)
        case False
        then show ?thesis using d1 le True by (auto simp: ep_check_Cons simp del: ep_check.simps)
      next
        case ok: True
        obtain r d' where "ep_check mem ps d1 = Some (r, d')" "ep_kept d1 d'"
          "r = Inr () \<longrightarrow> list_all ep_pd_ok ps \<and> (\<forall>pd \<in> set ps. fd pd < ep_fd_data_size d')"
          "list_all ep_pd_ok ps \<longrightarrow> (\<forall>n. mem n) \<longrightarrow> r = Inr ()"
          using Cons.IH [of d1] d1(2) by (auto simp: ep_kept_def)
        then show ?thesis
          using d1 le True ok ep_kept_trans [OF d1(2)]
          by (auto simp: ep_check_Cons ep_kept_def simp del: ep_check.simps)
      qed
    next
      case gt: False
      obtain r d' where "ep_check mem ps d = Some (r, d')" "ep_kept d d'"
          "r = Inr () \<longrightarrow> list_all ep_pd_ok ps \<and> (\<forall>pd \<in> set ps. fd pd < ep_fd_data_size d')"
          "list_all ep_pd_ok ps \<longrightarrow> (\<forall>n. mem n) \<longrightarrow> r = Inr ()"
        using Cons.IH [OF Cons.prems] by blast
      then show ?thesis
        using gt True by (auto simp: ep_check_Cons ep_kept_def simp del: ep_check.simps)
    qed
  qed
qed

lemma ep_evtlist_expand_run:
  "0 < evtlist_size d \<Longrightarrow> \<exists>d'. st_epoll_evtlist_expand mem d = Some d' \<and> 0 < evtlist_size d' \<and>
     d'\<lparr>evtlist_size := 0\<rparr> = d\<lparr>evtlist_size := 0\<rparr>"
  using grow_total [of "evtlist_size d" "evtlist_cnt d - 1"]
  by (auto simp: st_epoll_evtlist_expand_def)

lemma evtlist_only:
  assumes "d'\<lparr>evtlist_size := 0\<rparr> = d\<lparr>evtlist_size := 0\<rparr>"
  shows "ep_same d d' \<and> ctl_log d' = ctl_log d \<and> evtlist_cnt d' = evtlist_cnt d"
  using assms by (metis (no_types, lifting) ep_same_def epolldata.ext_inject epolldata.surjective
      epolldata.update_convs(6))

text \<open>One descriptor is counted; \<open>Inl\<close> only if \<open>epoll_ctl\<close> failed.\<close>

lemma ep_add1_run:
  assumes s: "0 < evtlist_size d"
  shows "\<exists>r d'. ep_add1 mem ctl pd d = Some (r, d') \<and> ep_same (ep_count (\<lambda>n. n + 1) pd d) d' \<and>
    0 < evtlist_size d' \<and> ((\<forall>l. ctl l = None) \<longrightarrow> r = Inr ()) \<and>
    ((\<forall>l. ctl l = None) \<longrightarrow> ctl_log d' = (let e = ep_events (ep_count (\<lambda>n. n + 1) pd d) (fd pd) in
       if e = ep_events d (fd pd) then ctl_log d
       else ctl_log d @ [(if ep_events d (fd pd) = 0 then EPOLL_CTL_ADD else EPOLL_CTL_MOD, fd pd, e)]))"
proof -
  define d1 where "d1 = ep_count (\<lambda>n. n + 1) pd d"
  define e where "e = ep_events d1 (fd pd)"
  define op where "op = (if ep_events d (fd pd) \<noteq> 0 then EPOLL_CTL_MOD else EPOLL_CTL_ADD)"
  define l where "l = ctl_log d1 @ [(op, fd pd, e)]"
  define d2 where "d2 = d1\<lparr>ctl_log := l\<rparr>"
  have l: "ctl_log d1 = ctl_log d" and sz: "evtlist_size d1 = evtlist_size d"
    by (simp_all add: d1_def ep_count_simps)
  have ctl2: "epoll_ctl ctl op (fd pd) e d1 = (ctl l, d2)"
    by (simp add: epoll_ctl_def l_def d2_def Let_def)
  have same2: "ep_same d1 d2" by (simp add: ep_same_def d2_def)
  show ?thesis
  proof (cases "e = ep_events d (fd pd)")
    case True
    then have "ep_add1 mem ctl pd d = Some (Inr (), d1)"
      by (simp add: ep_add1_def Let_def d1_def e_def)
    then show ?thesis
      using True s sz l by (intro exI [of _ "Inr ()"] exI [of _ d1]) (simp add: ep_same_def e_def d1_def)
  next
    case ne: False
    show ?thesis
    proof (cases "ctl l \<noteq> None \<and> (op \<noteq> EPOLL_CTL_ADD \<or> ctl l \<noteq> Some EEXIST)")
      case True
      then have "ep_add1 mem ctl pd d = Some (Inl (the (ctl l)), d2)"
        using ne ctl2 unfolding ep_add1_def Let_def d1_def [symmetric] e_def [symmetric] op_def [symmetric] by auto
      moreover have "\<exists>l. ctl l \<noteq> None" using True by blast
      ultimately show ?thesis
        using s sz same2 by (auto simp: d1_def [symmetric] d2_def)
    next
      case False
      show ?thesis
      proof (cases "op = EPOLL_CTL_ADD")
        case False
        then have "ep_add1 mem ctl pd d = Some (Inr (), d2)"
          using ne ctl2 \<open>\<not> (ctl l \<noteq> None \<and> _)\<close>
          unfolding ep_add1_def Let_def d1_def [symmetric] e_def [symmetric] op_def [symmetric] by auto
        then show ?thesis
          using s sz same2 ne l False
          by (intro exI [of _ "Inr ()"] exI [of _ d2])
            (auto simp: d1_def [symmetric] e_def [symmetric] d2_def l_def op_def split: if_splits)
      next
        case add: True
        define d3 where "d3 = d2\<lparr>evtlist_cnt := evtlist_cnt d2 + 1\<rparr>"
        have s3: "0 < evtlist_size d3" and same3: "ep_same d1 d3" and l3: "ctl_log d3 = l"
          using s sz by (simp_all add: d3_def d2_def ep_same_def)
        obtain d4 where d4: "st_epoll_evtlist_expand mem d3 = Some d4" "0 < evtlist_size d4"
            "d4\<lparr>evtlist_size := 0\<rparr> = d3\<lparr>evtlist_size := 0\<rparr>"
          using ep_evtlist_expand_run [OF s3] by blast
        define d' where "d' = (if evtlist_cnt d3 > evtlist_size d3 then d4 else d3)"
        have "ep_add1 mem ctl pd d = Some (Inr (), d')"
          using ne ctl2 add False d4(1)
          unfolding ep_add1_def Let_def d1_def [symmetric] e_def [symmetric] op_def [symmetric] d'_def d3_def
          by auto
        moreover have "ep_same d1 d'" "0 < evtlist_size d'" "ctl_log d' = l"
          using evtlist_only [OF d4(3)] same3 s3 d4(2) l3 by (auto simp: d'_def ep_same_def)
        ultimately show ?thesis
          using ne l add
          by (intro exI [of _ "Inr ()"] exI [of _ d'])
            (auto simp: d1_def [symmetric] e_def [symmetric] l_def op_def split: if_splits)
      qed
    qed
  qed
qed

lemma ep_add1_sync:
  assumes s: "ep_sync d" "ep_nonneg d" and pd: "ep_pd_ok pd"
    and same: "ep_same (ep_count (\<lambda>n. n + 1) pd d) d'"
    and log: "ctl_log d' = (let e = ep_events (ep_count (\<lambda>n. n + 1) pd d) (fd pd) in
       if e = ep_events d (fd pd) then ctl_log d
       else ctl_log d @ [(if ep_events d (fd pd) = 0 then EPOLL_CTL_ADD else EPOLL_CTL_MOD, fd pd, e)])"
  shows "ep_sync d'"
  unfolding ep_sync_def
proof (intro allI impI)
  fix f assume r: "ep_revents d' f = 0"
  let ?d1 = "ep_count (\<lambda>n. n + 1) pd d"
  have ev: "ep_events d' = ep_events ?d1" by (rule ep_same_events [OF same])
  have old: "interest (rev (ctl_log d)) f = wanted d f"
    using s r same by (simp add: ep_sync_def ep_same_def ep_count_simps)
  show "interest (rev (ctl_log d')) f = wanted d' f"
  proof (cases "f = fd pd")
    case False
    then show ?thesis
      using old by (simp add: log wanted_def ev ep_events_count Let_def)
  next
    case True
    show ?thesis
    proof (cases "ep_events ?d1 f = ep_events d f")
      case eq: True
      then show ?thesis using old True by (simp add: log wanted_def ev Let_def)
    next
      case False
      have "ep_events ?d1 f \<noteq> 0"
      proof -
        have "wants pd POLLIN \<or> wants pd POLLOUT \<or> wants pd POLLPRI"
        proof (rule ccontr)
          assume "\<not> ?thesis"
          then have "\<not> wants pd POLLIN" "\<not> wants pd POLLOUT" "\<not> wants pd POLLPRI" by auto
          then have "?d1 = d" by (simp add: ep_count_def Let_def)
          with False show False by simp
        qed
        moreover have "0 \<le> ep_rd_ref_cnt d f" "0 \<le> ep_wr_ref_cnt d f" "0 \<le> ep_ex_ref_cnt d f"
          using s(2) by (auto simp: ep_nonneg_def)
        ultimately show ?thesis
          using True unfolding ep_events_0 ep_count_simps by auto
      qed
      then show ?thesis
        using False True by (simp add: log wanted_def ev Let_def)
    qed
  qed
qed

text \<open>The descriptors that count after a call with result \<open>r\<close>.\<close>

fun added :: "errno + unit \<Rightarrow> pollfd list \<Rightarrow> pollfd list" where
  "added (Inl e) ps = []"
| "added (Inr u) ps = ps"

text \<open>\<open>d0\<close> is the state before the loop, \<open>dn\<close> what has been counted since.\<close>

definition ep_counted :: "epolldata \<Rightarrow> pollfd list \<Rightarrow> epolldata \<Rightarrow> bool" where
  "ep_counted d0 dn d \<longleftrightarrow> (\<forall>f. ep_rd_ref_cnt d f = ep_rd_ref_cnt d0 f + watch dn POLLIN f \<and>
     ep_wr_ref_cnt d f = ep_wr_ref_cnt d0 f + watch dn POLLOUT f \<and>
     ep_ex_ref_cnt d f = ep_ex_ref_cnt d0 f + watch dn POLLPRI f) \<and>
     ep_revents d = ep_revents d0 \<and> ep_fd_data_size d = ep_fd_data_size d0 \<and> ep_pid d = ep_pid d0"

lemma ep_add_loop_run:
  assumes "0 < evtlist_size d" "ep_counted d0 dn d" "ep_nonneg d0" "list_all ep_pd_ok ps"
  shows "\<exists>r d'. ep_add_loop mem ctl dn ps d = Some (r, d') \<and> 0 < evtlist_size d' \<and>
    ep_counted d0 (added r (dn @ ps)) d' \<and> ((\<forall>l. ctl l = None) \<longrightarrow> r = Inr ()) \<and>
    ((\<forall>l. ctl l = None) \<longrightarrow> ep_sync d \<longrightarrow> ep_sync d')"
  using assms
proof (induction ps arbitrary: dn d)
  case (Cons pd ps)
  obtain r1 d1 where d1: "ep_add1 mem ctl pd d = Some (r1, d1)" "ep_same (ep_count (\<lambda>n. n + 1) pd d) d1"
    "0 < evtlist_size d1" "(\<forall>l. ctl l = None) \<longrightarrow> r1 = Inr ()"
    "(\<forall>l. ctl l = None) \<longrightarrow> ctl_log d1 = (let e = ep_events (ep_count (\<lambda>n. n + 1) pd d) (fd pd) in
       if e = ep_events d (fd pd) then ctl_log d
       else ctl_log d @ [(if ep_events d (fd pd) = 0 then EPOLL_CTL_ADD else EPOLL_CTL_MOD, fd pd, e)])"
    using ep_add1_run [OF Cons.prems(1), of mem ctl pd] by blast
  have c1: "ep_counted d0 (dn @ [pd]) d1"
    using d1(2) Cons.prems(2) by (auto simp: ep_counted_def ep_same_def ep_count_simps)
  have n: "ep_nonneg d"
    unfolding ep_nonneg_def
  proof
    fix f
    show "0 \<le> ep_rd_ref_cnt d f \<and> 0 \<le> ep_wr_ref_cnt d f \<and> 0 \<le> ep_ex_ref_cnt d f"
      using Cons.prems(2,3) by (simp add: ep_counted_def ep_nonneg_def)
  qed
  have y1: "(\<forall>l. ctl l = None) \<longrightarrow> ep_sync d \<longrightarrow> ep_sync d1"
    using ep_add1_sync [OF _ n _ d1(2)] d1(5) Cons.prems(4) by simp
  show ?case
  proof (cases r1)
    case (Inl e)
    then have "\<not> (\<forall>l. ctl l = None)" using d1(4) by auto
    moreover have "ep_counted d0 [] (ep_pollset_del ctl (dn @ [pd]) d1)"
      using c1 by (simp add: ep_counted_def ep_del_simps)
    ultimately show ?thesis
      using d1(1,3) Inl
      by (intro exI [of _ "Inl e"] exI [of _ "ep_pollset_del ctl (dn @ [pd]) d1"]) (auto simp: ep_del_simps)
  next
    case (Inr u)
    obtain r d' where "ep_add_loop mem ctl (dn @ [pd]) ps d1 = Some (r, d')" "0 < evtlist_size d'"
      "ep_counted d0 (added r ((dn @ [pd]) @ ps)) d'" "(\<forall>l. ctl l = None) \<longrightarrow> r = Inr ()"
      "(\<forall>l. ctl l = None) \<longrightarrow> ep_sync d1 \<longrightarrow> ep_sync d'"
      using Cons.IH [OF d1(3) c1 Cons.prems(3)] Cons.prems(4) by auto
    then show ?thesis
      using d1(1) Inr y1 by auto
  qed
qed simp

text \<open>
  Adding a set: on success every descriptor is counted once more, on any failure no count has
  changed.
\<close>

lemma ep_add_run:
  assumes d: "ep_safe d" "ep_inside d" "ep_clean d" "ep_nonneg d"
  shows "\<exists>r d'. ep_pollset_add mem ctl ps d = Some (r, d') \<and> ep_safe d' \<and> ep_inside d' \<and> ep_clean d' \<and>
    ep_pid d' = ep_pid d \<and>
    (\<forall>f. ep_rd_ref_cnt d' f = ep_rd_ref_cnt d f + watch (added r ps) POLLIN f \<and>
         ep_wr_ref_cnt d' f = ep_wr_ref_cnt d f + watch (added r ps) POLLOUT f \<and>
         ep_ex_ref_cnt d' f = ep_ex_ref_cnt d f + watch (added r ps) POLLPRI f) \<and>
    (r = Inr () \<longrightarrow> list_all ep_pd_ok ps \<and> (\<forall>pd \<in> set ps. fd pd < ep_fd_data_size d')) \<and>
    (list_all ep_pd_ok ps \<longrightarrow> (\<forall>n. mem n) \<longrightarrow> (\<forall>l. ctl l = None) \<longrightarrow> r = Inr ()) \<and>
    ((\<forall>l. ctl l = None) \<longrightarrow> ep_sync d \<longrightarrow> ep_sync d')"
proof -
  obtain r1 d1 where d1: "ep_check mem ps d = Some (r1, d1)" "ep_kept d d1"
    "r1 = Inr () \<longrightarrow> list_all ep_pd_ok ps \<and> (\<forall>pd \<in> set ps. fd pd < ep_fd_data_size d1)"
    "list_all ep_pd_ok ps \<longrightarrow> (\<forall>n. mem n) \<longrightarrow> r1 = Inr ()"
    using ep_check_run [OF d(1-3), of mem ps] by blast
  have k: "ep_safe d1" "ep_inside d1" "ep_clean d1" "ep_rd_ref_cnt d1 = ep_rd_ref_cnt d"
    "ep_wr_ref_cnt d1 = ep_wr_ref_cnt d" "ep_ex_ref_cnt d1 = ep_ex_ref_cnt d" "ctl_log d1 = ctl_log d"
    "ep_pid d1 = ep_pid d"
    using d1(2) by (simp_all add: ep_kept_def)
  have n1: "ep_nonneg d1" using d(4) k by (simp add: ep_nonneg_def)
  have "ep_events d1 = ep_events d" by (intro ext ep_events_cong) (simp_all add: k)
  then have y1: "ep_sync d \<longrightarrow> ep_sync d1"
    using k d(3) by (simp add: ep_sync_clean) (simp add: wanted_def fun_eq_iff)
  show ?thesis
  proof (cases r1)
    case (Inl e)
    then show ?thesis
      using d1 k y1 by (intro exI [of _ "Inl e"] exI [of _ d1]) (auto simp: ep_pollset_add_def)
  next
    case (Inr u)
    then have ok: "list_all ep_pd_ok ps" "\<forall>pd \<in> set ps. fd pd < ep_fd_data_size d1" using d1(3) by auto
    have "0 < evtlist_size d1" "ep_counted d1 [] d1" using k(1) by (simp_all add: ep_safe_def ep_counted_def)
    from ep_add_loop_run [OF this n1 ok(1), of mem ctl]
    obtain r d' where d': "ep_add_loop mem ctl [] ps d1 = Some (r, d')" "0 < evtlist_size d'"
      "ep_counted d1 (added r ps) d'" "(\<forall>l. ctl l = None) \<longrightarrow> r = Inr ()"
      "(\<forall>l. ctl l = None) \<longrightarrow> ep_sync d1 \<longrightarrow> ep_sync d'"
      by auto
    have w0: "watch (added r ps) e f = 0" if "f < 0 \<or> ep_fd_data_size d1 \<le> f" for e f
    proof -
      have "filter (\<lambda>pd. fd pd = f \<and> wants pd e) ps = []"
        using ok that by (auto simp: filter_empty_conv list_all_iff ep_pd_ok_def)
      then show ?thesis by (cases r) (simp_all add: watch_def)
    qed
    have "ep_inside d'"
      using k(2) d'(3) w0 by (auto simp: ep_inside_def ep_counted_def)
    moreover have "ep_safe d'" "ep_clean d'"
      using k d'(2,3) by (simp_all add: ep_safe_def ep_clean_def ep_counted_def)
    moreover have "ep_pollset_add mem ctl ps d = Some (r, d')"
      using d1(1) d'(1) Inr by (simp add: ep_pollset_add_def)
    ultimately show ?thesis
      using d'(3-5) k y1 ok by (auto simp: ep_counted_def)
  qed
qed

section \<open>Dispatch\<close>

definition ctl_ok :: "ctl_oracle \<Rightarrow> bool" where
  "ctl_ok ctl \<longleftrightarrow> (\<forall>l. ctl l = None)"

definition ep_base :: "ctl_oracle \<Rightarrow> (int \<Rightarrow> flagw) \<Rightarrow> st \<Rightarrow> bool" where
  "ep_base ctl R s \<longleftrightarrow> ep_safe (epd s) \<and> ep_inside (epd s) \<and> ep_cnt_ok s \<and> ep_pds_ok s \<and>
     ep_revents (epd s) = R \<and> (ctl_ok ctl \<longrightarrow> ep_sync (epd s))"

abbreviation ep_ans :: "epolldata \<Rightarrow> st \<Rightarrow> tid \<Rightarrow> pollfd list" where
  "ep_ans d s q \<equiv> map (\<lambda>pd. pd\<lparr>revents := ep_pd_revents d pd\<rparr>) (pds (pollqs s q))"

lemma ep_pd_revents_cong: "ep_revents d = ep_revents d' \<Longrightarrow> ep_pd_revents d pd = ep_pd_revents d' pd"
  by (simp add: ep_pd_revents_def)

lemma ep_remove:
  assumes k: "ep_cnt_ok s" "ep_inside (epd s)" and q: "q \<in> set (io_q s)" "distinct (io_q s)"
    and s': "io_q s' = remove1 q (io_q s)" "\<And>u. u \<noteq> q \<Longrightarrow> pollqs s' u = pollqs s u"
      "\<And>f. ep_rd_ref_cnt (epd s') f = ep_rd_ref_cnt (epd s) f - watch ps POLLIN f"
      "\<And>f. ep_wr_ref_cnt (epd s') f = ep_wr_ref_cnt (epd s) f - watch ps POLLOUT f"
      "\<And>f. ep_ex_ref_cnt (epd s') f = ep_ex_ref_cnt (epd s) f - watch ps POLLPRI f"
      "ep_fd_data_size (epd s') = ep_fd_data_size (epd s)"
    and ps: "\<And>e f. watch ps e f = watch (pds (pollqs s q)) e f"
  shows "ep_cnt_ok s' \<and> ep_inside (epd s')"
proof -
  have w: "watchers s' e f = watchers s e f - watch ps e f" for e f
    unfolding ps by (rule watchers_remove [OF q s'(1)]) (simp add: s'(2))
  have c: "ep_cnt_ok s'"
    using k(1) by (simp add: ep_cnt_ok_def w s'(3-5))
  have "watch ps e f = 0" if "watchers s e f = 0" for e f
    using watchers_ge [OF q(1), of e f] that watch_nonneg [of ps e f] unfolding ps by linarith
  then have "ep_inside (epd s')"
    using k by (auto simp: ep_inside_def ep_cnt_ok_def s'(3-6))
  with c show ?thesis by simp
qed

lemma ep_base_set_pds:
  assumes "ep_base ctl R s" "\<And>pd. fd (g pd) = fd pd \<and> events (g pd) = events pd" "ps = map g (pds (pollqs s q))"
  shows "ep_base ctl R (set_pds q ps s)"
proof -
  have w: "watchers (set_pds q ps s) e f = watchers s e f" for e f
    by (rule watchers_cong) (auto simp: set_pds_def assms(3) watch_revents [OF assms(2)])
  have "list_all ep_pd_ok (map g xs) = list_all ep_pd_ok xs" for xs
    using assms(2) by (induction xs) (auto simp: ep_pd_ok_def)
  then have "ep_pds_ok (set_pds q ps s)"
    using assms(1,3) by (auto simp: ep_base_def ep_pds_ok_def set_pds_def)
  moreover have "epd (set_pds q ps s) = epd s" by (simp add: set_pds_def)
  ultimately show ?thesis
    using assms(1) by (simp add: ep_base_def ep_cnt_ok_def w)
qed

lemma ep_turn:
  assumes w: "walked cur (\<lambda>q. ready (ep_ans d s0 q)) (ep_ans d s0) s0 (q # qs) s"
    and b: "ep_base ctl (ep_revents d) s"
  shows "\<exists>s'. ep_body ctl q s = Some s' \<and> walked cur (\<lambda>q. ready (ep_ans d s0 q)) (ep_ans d s0) s0 qs s' \<and>
    ep_base ctl (ep_revents d) s'"
proof -
  have q: "q \<in> set (io_q s)" "distinct (io_q s)" "pollqs s q = pollqs s0 q" using walked_pds [OF w] by auto
  define ps where "ps = ep_ans d s q"
  have ps0: "ps = ep_ans d s0 q" using q(3) by (simp add: ps_def)
  have "ep_revents (epd s) = ep_revents d" using b by (simp add: ep_base_def)
  then have ps': "map (\<lambda>pd. pd\<lparr>revents := ep_pd_revents (epd s) pd\<rparr>) (pds (pollqs s q)) = ps"
    unfolding ps_def by (simp add: ep_pd_revents_cong [of "epd s" d])
  define s1 where "s1 = set_pds q ps s"
  have b1: "ep_base ctl (ep_revents d) s1"
    unfolding s1_def by (rule ep_base_set_pds [OF b, of "\<lambda>pd. pd\<lparr>revents := ep_pd_revents d pd\<rparr>"]) (simp_all add: ps_def)
  have s1: "io_q s1 = io_q s" "epd s1 = epd s" "pds (pollqs s1 q) = ps" "u \<noteq> q \<Longrightarrow> pollqs s1 u = pollqs s u" for u
    by (simp_all add: s1_def set_pds_def)
  show ?thesis
  proof (cases "ready ps")
    case True
    define s2 where "s2 = unlink_pollq q s1"
    define a where "a = st_epoll_pollset_del ctl ps s2"
    have s2: "epd s2 = epd s" "u \<noteq> q \<Longrightarrow> pollqs s2 u = pollqs s u" for u
      using s1 by (simp_all add: s2_def unlink_pollq_def ST_DEL_IOQ_def Let_def)
    have a: "epd a = ep_pollset_del ctl ps (epd s)" "pollqs a = pollqs s2"
      by (simp_all add: a_def st_epoll_pollset_del_def s2)
    have e: "same_but_events (unlink_pollq q (set_pds q ps s)) a"
      by (simp add: a_def st_epoll_pollset_del_def s2_def s1_def)
    obtain s' where s': "wake_pollq q a = Some s'"
        "walked cur (\<lambda>q. ready (ep_ans d s0 q)) (ep_ans d s0) s0 qs s'" "epd s' = epd a"
        "io_q s' = remove1 q (io_q s)" "pollqs s' = pollqs a"
      using walked_wake [OF w ps0 _ e] True ps0 by auto
    have "ep_cnt_ok s' \<and> ep_inside (epd s')"
      by (rule ep_remove [of s1 q _ ps]) (use b1 q s' s1 s2 a in \<open>auto simp: ep_base_def ep_del_simps\<close>)
    moreover have "ep_pds_ok s'"
      using b q s' s2 a by (auto simp: ep_base_def ep_pds_ok_def)
    moreover have "ep_safe (epd s') \<and> ep_revents (epd s') = ep_revents d"
      using b s' a by (simp add: ep_base_def ep_safe_def ep_del_simps)
    moreover have "ctl_ok ctl \<longrightarrow> ep_sync (epd s')"
      using b s' a by (auto simp: ep_base_def ctl_ok_def intro: ep_del_sync)
    ultimately show ?thesis
      using s' True by (simp add: ep_body_def ps' Let_def a_def s2_def s1_def ep_base_def) (simp add: ready_def)
  next
    case False
    have "walked cur (\<lambda>q. ready (ep_ans d s0 q)) (ep_ans d s0) s0 qs s1"
      by (rule walked_keep [OF w ps0]) (use False ps0 in \<open>simp_all add: s1_def\<close>)
    then show ?thesis
      using False b1 by (simp add: ep_body_def ps' Let_def s1_def) (simp add: ready_def)
  qed
qed

lemma ep_mark_frame:
  "ep_rd_ref_cnt (fold ep_mark es d) = ep_rd_ref_cnt d" "ep_wr_ref_cnt (fold ep_mark es d) = ep_wr_ref_cnt d"
  "ep_ex_ref_cnt (fold ep_mark es d) = ep_ex_ref_cnt d" "ep_fd_data_size (fold ep_mark es d) = ep_fd_data_size d"
  "evtlist_size (fold ep_mark es d) = evtlist_size d" "ctl_log (fold ep_mark es d) = ctl_log d"
  "ep_pid (fold ep_mark es d) = ep_pid d"
  "f \<notin> ee_fd ` set es \<Longrightarrow> ep_revents (fold ep_mark es d) f = ep_revents d f"
  by (induction es arbitrary: d) (simp_all add: ep_mark_def Let_def)

lemma ep_rearm_frame:
  "ep_rd_ref_cnt (ep_rearm ctl e d) = ep_rd_ref_cnt d" "ep_wr_ref_cnt (ep_rearm ctl e d) = ep_wr_ref_cnt d"
  "ep_ex_ref_cnt (ep_rearm ctl e d) = ep_ex_ref_cnt d" "ep_fd_data_size (ep_rearm ctl e d) = ep_fd_data_size d"
  "evtlist_size (ep_rearm ctl e d) = evtlist_size d" "ep_pid (ep_rearm ctl e d) = ep_pid d"
  "ep_revents (ep_rearm ctl e d) f = (if f = ee_fd e then 0 else ep_revents d f)"
  "ctl_log (ep_rearm ctl e d) = ctl_log d @ [(if ep_events d (ee_fd e) \<noteq> 0 then EPOLL_CTL_MOD else EPOLL_CTL_DEL,
     ee_fd e, ep_events d (ee_fd e))]"
proof -
  have "ep_events (d\<lparr>ep_revents := r\<rparr>) = ep_events d" for r
    by (intro ext ep_events_cong) simp_all
  then show "ep_rd_ref_cnt (ep_rearm ctl e d) = ep_rd_ref_cnt d" "ep_wr_ref_cnt (ep_rearm ctl e d) = ep_wr_ref_cnt d"
  "ep_ex_ref_cnt (ep_rearm ctl e d) = ep_ex_ref_cnt d" "ep_fd_data_size (ep_rearm ctl e d) = ep_fd_data_size d"
  "evtlist_size (ep_rearm ctl e d) = evtlist_size d" "ep_pid (ep_rearm ctl e d) = ep_pid d"
  "ep_revents (ep_rearm ctl e d) f = (if f = ee_fd e then 0 else ep_revents d f)"
  "ctl_log (ep_rearm ctl e d) = ctl_log d @ [(if ep_events d (ee_fd e) \<noteq> 0 then EPOLL_CTL_MOD else EPOLL_CTL_DEL,
     ee_fd e, ep_events d (ee_fd e))]"
    by (simp_all add: ep_rearm_def Let_def epoll_ctl_def)
qed

lemma ep_rearm_sync: "ep_sync d \<Longrightarrow> ep_sync (ep_rearm ctl e d)"
proof -
  have "ep_events (ep_rearm ctl e d) = ep_events d"
    by (intro ext ep_events_cong) (simp_all add: ep_rearm_frame)
  moreover assume "ep_sync d"
  ultimately show ?thesis
    by (auto simp: ep_sync_def wanted_def ep_rearm_frame)
qed

lemma ep_rearm_all:
  "ep_rd_ref_cnt (fold (ep_rearm ctl) es d) = ep_rd_ref_cnt d" "ep_wr_ref_cnt (fold (ep_rearm ctl) es d) = ep_wr_ref_cnt d"
  "ep_ex_ref_cnt (fold (ep_rearm ctl) es d) = ep_ex_ref_cnt d" "ep_fd_data_size (fold (ep_rearm ctl) es d) = ep_fd_data_size d"
  "evtlist_size (fold (ep_rearm ctl) es d) = evtlist_size d" "ep_pid (fold (ep_rearm ctl) es d) = ep_pid d"
  "ep_revents (fold (ep_rearm ctl) es d) f = (if f \<in> ee_fd ` set es then 0 else ep_revents d f)"
  "ep_sync d \<Longrightarrow> ep_sync (fold (ep_rearm ctl) es d)"
  by (induction es arbitrary: d) (auto simp: ep_rearm_frame ep_rearm_sync)

text \<open>The part of the dispatch after \<open>epoll_wait\<close> returned some events.\<close>

lemma ep_ready_run:
  assumes p: "pending cur (io_q s0) s0" and k: "ep_ok s0" and y: "ctl_ok ctl \<longrightarrow> ep_sync (epd s0)"
  shows "\<exists>s2. ioq_loop (ep_body ctl) (io_q s0) (s0\<lparr>epd := fold ep_mark evs (epd s0)\<rparr>) = Some s2 \<and>
    (let s' = s2\<lparr>epd := fold (ep_rearm ctl) evs (epd s2)\<rparr>; d = fold ep_mark evs (epd s0) in
     vp_inv cur s' \<and> ep_ok s' \<and> (ctl_ok ctl \<longrightarrow> ep_sync (epd s')) \<and>
     walked cur (\<lambda>q. ready (ep_ans d s0 q)) (ep_ans d s0) s0 [] s')"
proof -
  define d where "d = fold ep_mark evs (epd s0)"
  define s1 where "s1 = s0\<lparr>epd := d\<rparr>"
  define P where "P qs t \<longleftrightarrow> walked cur (\<lambda>q. ready (ep_ans d s0 q)) (ep_ans d s0) s0 qs t \<and>
    ep_base ctl (ep_revents d) t" for qs t
  have e: "same_but_events s0 s1" by (simp add: s1_def)
  have ev: "ep_events d = ep_events (epd s0)"
    by (intro ext ep_events_cong) (simp_all add: d_def ep_mark_frame)
  have cl: "ep_clean (epd s0)" using k by (simp add: ep_ok_def)
  have "ctl_ok ctl \<longrightarrow> ep_sync d"
    using y cl ev by (auto simp: ep_sync_def ep_clean_def wanted_def d_def ep_mark_frame)
  then have "ep_base ctl (ep_revents d) s1"
    using k watchers_same_events [OF e]
    by (auto simp: ep_base_def ep_ok_def ep_cnt_ok_def ep_safe_def ep_inside_def ep_pds_ok_def s1_def d_def ep_mark_frame)
  then have "P (io_q s0) s1"
    using walked_start [OF p e] by (simp add: P_def)
  moreover have "\<exists>s'. ep_body ctl q t = Some s' \<and> P qs s'" if "P (q # qs) t" for q qs t
    using that ep_turn [of cur d s0 q qs t ctl] by (auto simp: P_def)
  ultimately obtain s2 where s2: "ioq_loop (ep_body ctl) (io_q s0) s1 = Some s2" "P [] s2"
    using ioq_loop_rule [of P "ep_body ctl" "io_q s0" s1] by blast
  define s' where "s' = s2\<lparr>epd := fold (ep_rearm ctl) evs (epd s2)\<rparr>"
  have e2: "same_but_events s2 s'" by (simp add: s'_def)
  have w2: "walked cur (\<lambda>q. ready (ep_ans d s0 q)) (ep_ans d s0) s0 [] s2" and b2: "ep_base ctl (ep_revents d) s2"
    using s2(2) by (simp_all add: P_def)
  have v: "vp_inv cur s'"
    by (rule vp_inv_events [of _ s2 0 "pds (pollqs s2 0)"])
      (use w2 in \<open>simp_all add: walked_def pending_def set_pds_def s'_def\<close>)
  have "walked cur (\<lambda>q. ready (ep_ans d s0 q)) (ep_ans d s0) s0 [] s'"
    using w2 v by (simp add: walked_def pending_def s'_def disp_frame_def)
  moreover have "ep_clean (epd s')"
    unfolding ep_clean_def
  proof
    fix f
    show "ep_revents (epd s') f = 0"
      using b2 cl by (auto simp: s'_def ep_rearm_all ep_base_def ep_clean_def d_def ep_mark_frame)
  qed
  moreover have "ep_safe (epd s')" "ep_inside (epd s')" "ep_cnt_ok s'" "ep_pds_ok s'" "ctl_ok ctl \<longrightarrow> ep_sync (epd s')"
    using b2 watchers_same_events [OF e2]
    by (auto simp: ep_base_def ep_safe_def ep_inside_def ep_cnt_ok_def ep_pds_ok_def s'_def ep_rearm_all)
  ultimately show ?thesis
    using v s2(1) unfolding d_def [symmetric] s1_def [symmetric] Let_def
    by (intro exI [of _ s2]) (simp add: ep_ok_def s'_def [symmetric])
qed

lemma ep_readd_run:
  assumes "ep_safe (epd s)" "ep_inside (epd s)" "ep_clean (epd s)" "ep_nonneg (epd s)" "\<forall>n. mem n" "ctl_ok ctl"
    and "\<And>q. q \<in> set qs \<Longrightarrow> list_all ep_pd_ok (pds (pollqs s q))" and "ep_sync (epd s)"
  shows "\<exists>s'. ep_readd mem ctl qs s = Some s' \<and> same_but_events s s' \<and> ep_safe (epd s') \<and> ep_inside (epd s') \<and>
    ep_clean (epd s') \<and> ep_sync (epd s') \<and>
    (\<forall>f. ep_rd_ref_cnt (epd s') f = ep_rd_ref_cnt (epd s) f + sum_list (map (\<lambda>q. watch (pds (pollqs s q)) POLLIN f) qs) \<and>
         ep_wr_ref_cnt (epd s') f = ep_wr_ref_cnt (epd s) f + sum_list (map (\<lambda>q. watch (pds (pollqs s q)) POLLOUT f) qs) \<and>
         ep_ex_ref_cnt (epd s') f = ep_ex_ref_cnt (epd s) f + sum_list (map (\<lambda>q. watch (pds (pollqs s q)) POLLPRI f) qs))"
  using assms
proof (induction qs arbitrary: s)
  case (Cons q qs)
  have v: "list_all ep_pd_ok (pds (pollqs s q))" and c: "\<forall>l. ctl l = None"
    using Cons.prems(6,7) by (simp_all add: ctl_ok_def)
  obtain d where d: "ep_pollset_add mem ctl (pds (pollqs s q)) (epd s) = Some (Inr (), d)"
    "ep_safe d" "ep_inside d" "ep_clean d" "ep_sync d"
    "\<forall>f. ep_rd_ref_cnt d f = ep_rd_ref_cnt (epd s) f + watch (pds (pollqs s q)) POLLIN f \<and>
         ep_wr_ref_cnt d f = ep_wr_ref_cnt (epd s) f + watch (pds (pollqs s q)) POLLOUT f \<and>
         ep_ex_ref_cnt d f = ep_ex_ref_cnt (epd s) f + watch (pds (pollqs s q)) POLLPRI f"
    using ep_add_run [OF Cons.prems(1-4), of mem ctl "pds (pollqs s q)"] v c Cons.prems(5,8) by auto
  have "ep_nonneg d"
    using Cons.prems(4) d(6) by (auto simp: ep_nonneg_def)
  define s1 where "s1 = s\<lparr>epd := d\<rparr>"
  have "\<exists>s'. ep_readd mem ctl qs s1 = Some s' \<and> same_but_events s1 s' \<and> ep_safe (epd s') \<and> ep_inside (epd s') \<and>
    ep_clean (epd s') \<and> ep_sync (epd s') \<and>
    (\<forall>f. ep_rd_ref_cnt (epd s') f = ep_rd_ref_cnt (epd s1) f + sum_list (map (\<lambda>q. watch (pds (pollqs s1 q)) POLLIN f) qs) \<and>
         ep_wr_ref_cnt (epd s') f = ep_wr_ref_cnt (epd s1) f + sum_list (map (\<lambda>q. watch (pds (pollqs s1 q)) POLLOUT f) qs) \<and>
         ep_ex_ref_cnt (epd s') f = ep_ex_ref_cnt (epd s1) f + sum_list (map (\<lambda>q. watch (pds (pollqs s1 q)) POLLPRI f) qs))"
    by (rule Cons.IH) (use d \<open>ep_nonneg d\<close> Cons.prems in \<open>auto simp: s1_def\<close>)
  then obtain s' where s': "ep_readd mem ctl qs s1 = Some s'" "same_but_events s1 s'" "ep_safe (epd s')"
    "ep_inside (epd s')" "ep_clean (epd s')" "ep_sync (epd s')"
    "\<forall>f. ep_rd_ref_cnt (epd s') f = ep_rd_ref_cnt (epd s1) f + sum_list (map (\<lambda>q. watch (pds (pollqs s1 q)) POLLIN f) qs) \<and>
         ep_wr_ref_cnt (epd s') f = ep_wr_ref_cnt (epd s1) f + sum_list (map (\<lambda>q. watch (pds (pollqs s1 q)) POLLOUT f) qs) \<and>
         ep_ex_ref_cnt (epd s') f = ep_ex_ref_cnt (epd s1) f + sum_list (map (\<lambda>q. watch (pds (pollqs s1 q)) POLLPRI f) qs)"
    by blast
  have "same_but_events s s'"
    by (rule same_but_events_trans [OF _ s'(2)]) (simp add: s1_def)
  then show ?case
    using d s' by (simp add: st_epoll_pollset_add_def s1_def)
qed simp

lemma ep_reinit_run:
  assumes k: "ep_ok s" and y: "ctl_ok (ev_ctl e) \<longrightarrow> ep_sync (epd s)"
    and f: "ep_pid (epd s) = ev_pid e \<or> (\<forall>n. ev_mem e n) \<and> ctl_ok (ev_ctl e) \<and> 0 \<le> ev_create e"
  shows "\<exists>s1. ep_reinit e s = Some (Inr s1) \<and> same_but_events s s1 \<and> ep_ok s1 \<and>
    (ctl_ok (ev_ctl e) \<longrightarrow> ep_sync (epd s1))"
proof (cases "ep_pid (epd s) = ev_pid e")
  case True
  then show ?thesis using k y by (simp add: ep_reinit_def)
next
  case False
  then have f': "\<forall>n. ev_mem e n" "ctl_ok (ev_ctl e)" "0 \<le> ev_create e" using f by auto
  define s0 where "s0 = s\<lparr>epd := (epd s)\<lparr>epfd := ev_create e, ep_pid := ev_pid e, ep_rd_ref_cnt := (\<lambda>_. 0),
    ep_wr_ref_cnt := (\<lambda>_. 0), ep_ex_ref_cnt := (\<lambda>_. 0), ep_revents := (\<lambda>_. 0), evtlist_cnt := 0, ctl_log := []\<rparr>\<rparr>"
  have s0: "ep_safe (epd s0)" "ep_inside (epd s0)" "ep_clean (epd s0)" "ep_nonneg (epd s0)" "ep_sync (epd s0)"
    "same_but_events s s0"
    using k by (auto simp: s0_def ep_ok_def ep_safe_def ep_inside_def ep_clean_def ep_nonneg_def ep_sync_def
        wanted_def ep_events_def)
  have "list_all ep_pd_ok (pds (pollqs s0 q))" if "q \<in> set (io_q s)" for q
    using k that by (simp add: ep_ok_def ep_pds_ok_def s0_def)
  from ep_readd_run [OF s0(1-4) f'(1,2) this s0(5)]
  obtain s1 where s1: "ep_readd (ev_mem e) (ev_ctl e) (io_q s) s0 = Some s1" "same_but_events s0 s1"
    "ep_safe (epd s1)" "ep_inside (epd s1)" "ep_clean (epd s1)" "ep_sync (epd s1)"
    "\<forall>f. ep_rd_ref_cnt (epd s1) f = ep_rd_ref_cnt (epd s0) f + sum_list (map (\<lambda>q. watch (pds (pollqs s0 q)) POLLIN f) (io_q s)) \<and>
         ep_wr_ref_cnt (epd s1) f = ep_wr_ref_cnt (epd s0) f + sum_list (map (\<lambda>q. watch (pds (pollqs s0 q)) POLLOUT f) (io_q s)) \<and>
         ep_ex_ref_cnt (epd s1) f = ep_ex_ref_cnt (epd s0) f + sum_list (map (\<lambda>q. watch (pds (pollqs s0 q)) POLLPRI f) (io_q s))"
    by blast
  have e: "same_but_events s s1" by (rule same_but_events_trans [OF s0(6) s1(2)])
  note E = same_but_eventsD [OF e]
  have "ep_cnt_ok s1" using s1(7) by (simp add: ep_cnt_ok_def watchers_def s0_def E)
  moreover have "ep_pds_ok s1" using k E by (simp add: ep_ok_def ep_pds_ok_def)
  moreover have "ep_reinit e s = Some (Inr s1)"
    using False f'(3) s1(1) by (simp add: ep_reinit_def Let_def s0_def)
  ultimately show ?thesis
    using e s1 by (simp add: ep_ok_def)
qed

text \<open>
  Hypothesis after a fork: memory, \<open>epoll_create\<close> and \<open>epoll_ctl\<close> are granted.
\<close>

lemma ep_dispatch_run:
  assumes p: "pending cur (io_q s) s" and k: "ep_ok s" and y: "ctl_ok (ev_ctl e) \<longrightarrow> ep_sync (epd s)"
    and f: "ep_pid (epd s) = ev_pid e \<or> (\<forall>n. ev_mem e n) \<and> ctl_ok (ev_ctl e) \<and> 0 \<le> ev_create e"
  shows "\<exists>s'. st_epoll_dispatch e s = Some s' \<and> vp_inv cur s' \<and> ep_ok s' \<and> disp_frame s s' \<and>
    (ctl_ok (ev_ctl e) \<longrightarrow> ep_sync (epd s'))"
proof -
  obtain s1 where s1: "ep_reinit e s = Some (Inr s1)" "same_but_events s s1" "ep_ok s1"
    "ctl_ok (ev_ctl e) \<longrightarrow> ep_sync (epd s1)"
    using ep_reinit_run [OF k y f] by blast
  note E = same_but_eventsD [OF s1(2)]
  have v: "vp_inv cur s1"
    using vp_inv_events [of cur s 0 "pds (pollqs s 0)" s1] s1(2) p by (simp add: pending_def set_pds_def)
  have p1: "pending cur (io_q s1) s1" using p v E by (simp add: pending_def)
  show ?thesis
  proof (cases "ev_wait e = []")
    case True
    then show ?thesis using s1 v disp_frame_events [OF s1(2)] by (simp add: st_epoll_dispatch_def)
  next
    case False
    from ep_ready_run [OF p1 s1(3,4), of "ev_wait e"] False s1(1)
    show ?thesis
      using disp_frame_trans [OF disp_frame_events [OF s1(2)]] walked_end
      by (fastforce simp: st_epoll_dispatch_def Let_def)
  qed
qed

end
