(* ===== verification/ST_EvLaws.thy ===== *)
theory ST_EvLaws
  imports ST_EventSys ST_SelectInv ST_PollInv ST_KqInv ST_EpollInv
begin

text \<open>
  The contract between the scheduler and an event system (\<open>_st_eventsys_t\<close>): \<open>pollset_add\<close>
  accounts for a request or leaves everything as it was, \<open>pollset_del\<close> takes the accounting
  back, and \<open>dispatch\<close> keeps it while it wakes threads. The locale \<open>event_system\<close> is
  interpreted on the four systems and on the calls through \<open>_st_eventsys\<close>.
\<close>

section \<open>The contract\<close>

definition ev_part :: "st \<Rightarrow> seldata \<times> polldata \<times> kqdata \<times> epolldata \<times> tid list \<times> (tid \<Rightarrow> pollq) \<times> eventsys option" where
  "ev_part s = (sel s, pol s, kqd s, epd s, io_q s, pollqs s, evsys s)"

locale event_system =
  fixes add :: "pollfd list \<Rightarrow> st \<Rightarrow> ((errno + unit) \<times> st) option"
    and del :: "pollfd list \<Rightarrow> st \<Rightarrow> st option"
    and disp :: "st \<Rightarrow> st option"
    and fits :: "st \<Rightarrow> bool"
    and ok :: "st \<Rightarrow> bool"
  assumes add_law: "ok s \<Longrightarrow> q \<notin> set (io_q s) \<Longrightarrow>
      \<exists>r s1. add ps s = Some (r, s1) \<and> same_but_events s s1 \<and>
        (case r of Inl _ \<Rightarrow> ok s1 | Inr _ \<Rightarrow> ok (enqueue_pollq q ps s1))"
    and del_law: "ok s \<Longrightarrow> q \<in> set (io_q s) \<Longrightarrow> distinct (io_q s) \<Longrightarrow>
      \<exists>s1. del (pds (pollqs s q)) (ST_DEL_IOQ q s) = Some s1 \<and> same_but_events (ST_DEL_IOQ q s) s1 \<and> ok s1"
    and disp_law: "ok s \<Longrightarrow> fits s \<Longrightarrow> pending cur (io_q s) s \<Longrightarrow>
      \<exists>s1. disp s = Some s1 \<and> vp_inv cur s1 \<and> ok s1 \<and> disp_frame s s1"
    and frame: "ok s \<Longrightarrow> ev_part s' = ev_part s \<Longrightarrow> ok s'"
begin

text \<open>A request that times out: added, queued, and taken back by its thread.\<close>

lemma add_then_del:
  assumes k: "ok s" and q: "q \<notin> set (io_q s)" "distinct (io_q s)" and a: "add ps s = Some (Inr (), s1)"
  shows "\<exists>s2. del ps (ST_DEL_IOQ q (enqueue_pollq q ps s1)) = Some s2 \<and> ok s2 \<and> io_q s2 = io_q s"
proof -
  have e: "same_but_events s s1" and k1: "ok (enqueue_pollq q ps s1)"
    using add_law [OF k q(1), of ps] a by auto
  note E = same_but_eventsD [OF e]
  have i: "io_q (enqueue_pollq q ps s1) = io_q s @ [q]" "pds (pollqs (enqueue_pollq q ps s1) q) = ps"
    by (simp_all add: enqueue_pollq_def ST_ADD_IOQ_def E)
  obtain s2 where s2: "del ps (ST_DEL_IOQ q (enqueue_pollq q ps s1)) = Some s2"
      "same_but_events (ST_DEL_IOQ q (enqueue_pollq q ps s1)) s2" "ok s2"
    using del_law [OF k1, of q] i q by auto
  have "io_q s2 = io_q s"
    using same_but_eventsD [OF s2(2)] q i by (simp add: ST_DEL_IOQ_def remove1_append)
  with s2 show ?thesis by blast
qed

end

section \<open>The four systems\<close>

lemma ev_partD:
  assumes "ev_part s' = ev_part s"
  shows "sel s' = sel s" "pol s' = pol s" "kqd s' = kqd s" "epd s' = epd s" "io_q s' = io_q s" "pollqs s' = pollqs s"
    "evsys s' = evsys s" "watchers s' e f = watchers s e f"
  using assms by (simp_all add: ev_part_def watchers_def)

lemma del_ioq_simps [simp]:
  "io_q (ST_DEL_IOQ q s) = remove1 q (io_q s)" "pollqs (ST_DEL_IOQ q s) = pollqs s" "sel (ST_DEL_IOQ q s) = sel s"
  "pol (ST_DEL_IOQ q s) = pol s" "kqd (ST_DEL_IOQ q s) = kqd s" "epd (ST_DEL_IOQ q s) = epd s"
  "evsys (ST_DEL_IOQ q s) = evsys s"
  by (simp_all add: ST_DEL_IOQ_def)

lemma enqueue_simps:
  "io_q (enqueue_pollq q ps s) = io_q s @ [q]" "sel (enqueue_pollq q ps s) = sel s" "pol (enqueue_pollq q ps s) = pol s"
  "kqd (enqueue_pollq q ps s) = kqd s" "epd (enqueue_pollq q ps s) = epd s" "evsys (enqueue_pollq q ps s) = evsys s"
  "pollqs (enqueue_pollq q ps s) u = (if u = q then \<lparr>pq_thread = q, pds = ps, on_ioq = True\<rparr> else pollqs s u)"
  by (simp_all add: enqueue_pollq_def ST_ADD_IOQ_def)

lemma sel_ok_frame: "sel_ok s \<Longrightarrow> ev_part s' = ev_part s \<Longrightarrow> sel_ok s'"
  using ev_partD [of s' s]
  by (simp add: sel_ok_def sel_base_def sel_cnt_ok_def sel_pds_ok_def sel_max_ok_def)

lemma sel_unchanged: "pending cur (io_q s) s \<Longrightarrow> vp_inv cur s"
  by (simp add: pending_def)

interpretation evs_select: event_system "\<lambda>ps s. Some (st_select_pollset_add ps s)"
  "\<lambda>ps s. Some (st_select_pollset_del ps s)" "st_select_dispatch a" "\<lambda>s. True" sel_ok for a
proof
  fix s q ps assume k: "sel_ok s" and q: "q \<notin> set (io_q s)"
  obtain r s1 where r: "st_select_pollset_add ps s = (r, s1)" by (cases "st_select_pollset_add ps s")
  have e: "same_but_events s s1" "isl r \<Longrightarrow> s1 = s"
    using r by (auto simp: st_select_pollset_add_def split: if_splits)
  have "case r of Inl _ \<Rightarrow> sel_ok s1 | Inr _ \<Rightarrow> sel_ok (enqueue_pollq q ps s1)"
  proof (cases r)
    case (Inr u)
    then show ?thesis using sel_add_ok [OF k q, of ps s1] r by simp
  qed (use e(2) k in simp)
  then show "\<exists>r s1. Some (st_select_pollset_add ps s) = Some (r, s1) \<and> same_but_events s s1 \<and>
      (case r of Inl _ \<Rightarrow> sel_ok s1 | Inr _ \<Rightarrow> sel_ok (enqueue_pollq q ps s1))"
    using r e(1) by auto
next
  fix s q assume k: "sel_ok s" and q: "q \<in> set (io_q s)" "distinct (io_q s)"
  let ?s = "st_select_pollset_del (pds (pollqs s q)) (ST_DEL_IOQ q s)"
  have "sel_base ?s \<and> maxfd (sel ?s) = maxfd (sel s)"
    by (rule sel_base_remove [of s q _ "pds (pollqs s q)"])
      (use k q in \<open>simp_all add: sel_ok_def st_select_pollset_del_def\<close>)
  then have "sel_ok ?s"
    using k q by (auto simp: sel_ok_def sel_max_ok_def st_select_pollset_del_def)
  then show "\<exists>s1. Some ?s = Some s1 \<and> same_but_events (ST_DEL_IOQ q s) s1 \<and> sel_ok s1"
    by (simp add: st_select_pollset_del_def)
next
  fix s cur assume k: "sel_ok s" and p: "pending cur (io_q s) s"
  show "\<exists>s1. st_select_dispatch a s = Some s1 \<and> vp_inv cur s1 \<and> sel_ok s1 \<and> disp_frame s s1"
  proof (cases "sa_nfd a > 0")
    case True
    then show ?thesis using sel_dispatch_run [OF p k] walked_end by blast
  next
    case False
    then show ?thesis
      using sel_bad_run [OF p k, of a] k p walked_end disp_frame_events [of s s]
      by (auto simp: st_select_dispatch_def pending_def)
  qed
qed (rule sel_ok_frame)

interpretation evs_poll: event_system "\<lambda>ps s. Some (st_poll_pollset_add ps s)" st_poll_pollset_del
  "st_poll_dispatch a" "\<lambda>s. length (pa_revents a) = length (gathered s) \<and> pa_malloc_ok a" pol_ok for a
proof
  fix s q ps assume k: "pol_ok s" and q: "q \<notin> set (io_q s)"
  obtain r s1 where r: "st_poll_pollset_add ps s = (r, s1)" by (cases "st_poll_pollset_add ps s")
  have e: "same_but_events s s1" "isl r \<Longrightarrow> s1 = s"
    using r by (auto simp: st_poll_pollset_add_def split: if_splits)
  have "case r of Inl _ \<Rightarrow> pol_ok s1 | Inr _ \<Rightarrow> pol_ok (enqueue_pollq q ps s1)"
  proof (cases r)
    case (Inr u)
    then show ?thesis using pol_add_ok [OF k q, of ps s1] r by (simp add: enqueue_pollq_def)
  qed (use e(2) k in simp)
  then show "\<exists>r s1. Some (st_poll_pollset_add ps s) = Some (r, s1) \<and> same_but_events s s1 \<and>
      (case r of Inl _ \<Rightarrow> pol_ok s1 | Inr _ \<Rightarrow> pol_ok (enqueue_pollq q ps s1))"
    using r e(1) by auto
next
  fix s q assume k: "pol_ok s" and q: "q \<in> set (io_q s)" "distinct (io_q s)"
  let ?d = "ST_DEL_IOQ q s"
  let ?s = "?d\<lparr>pol := (pol ?d)\<lparr>fdcnt := fdcnt (pol ?d) - int (length (pds (pollqs s q)))\<rparr>\<rparr>"
  have "pol_ok ?s \<and> 0 \<le> fdcnt (pol ?s)"
    by (rule pol_ok_remove [OF k q]) simp_all
  then show "\<exists>s1. st_poll_pollset_del (pds (pollqs s q)) ?d = Some s1 \<and> same_but_events ?d s1 \<and> pol_ok s1"
    by (simp add: st_poll_pollset_del_def Let_def)
next
  fix s cur assume "pol_ok s" "length (pa_revents a) = length (gathered s) \<and> pa_malloc_ok a" "pending cur (io_q s) s"
  then show "\<exists>s1. st_poll_dispatch a s = Some s1 \<and> vp_inv cur s1 \<and> pol_ok s1 \<and> disp_frame s s1"
    using poll_dispatch_run [of cur s a] by blast
next
  fix s s' assume "pol_ok s" "ev_part s' = ev_part s"
  then show "pol_ok s'" using ev_partD [of s' s] by (simp add: pol_ok_def)
qed

lemma kq_ok_frame: "kq_ok s \<and> kq_pds_ok s \<Longrightarrow> ev_part s' = ev_part s \<Longrightarrow> kq_ok s' \<and> kq_pds_ok s'"
  using ev_partD [of s' s] by (simp add: kq_ok_def kq_cnt_ok_def kq_pds_ok_def)

interpretation evs_kq: event_system "st_kq_pollset_add mem" "\<lambda>ps s. Some (st_kq_pollset_del mem ps s)"
  "st_kq_dispatch e" "\<lambda>s. (\<forall>i n. kv_mem e i n) \<and> (\<exists>k. kv_kqueue e = Inr k)" "\<lambda>s. kq_ok s \<and> kq_pds_ok s" for mem e
proof
  fix s q ps assume k: "kq_ok s \<and> kq_pds_ok s" and q: "q \<notin> set (io_q s)"
  then have k': "kq_safe (kqd s)" "kq_inside (kqd s)" "kq_clean (kqd s)" "kq_cnt_ok s"
    by (simp_all add: kq_ok_def)
  obtain r d where r: "kq_pollset_add mem ps (kqd s) = Some (r, d)" "kq_safe d" "kq_inside d" "kq_clean d"
    "case r of
       Inl e \<Rightarrow> kq_rd_ref_cnt d = kq_rd_ref_cnt (kqd s) \<and> kq_wr_ref_cnt d = kq_wr_ref_cnt (kqd s) \<and> addlist d = addlist (kqd s)
     | Inr _ \<Rightarrow> list_all kq_pd_ok ps \<and> (\<forall>pd \<in> set ps. fd pd < kq_fd_data_size d) \<and>
         (\<forall>f. kq_rd_ref_cnt d f = kq_rd_ref_cnt (kqd s) f + watch ps POLLIN f \<and>
              kq_wr_ref_cnt d f = kq_wr_ref_cnt (kqd s) f + watch ps POLLOUT f)"
    using kq_add_run [OF k'(1,2), of mem ps] k'(3) by blast
  let ?s1 = "s\<lparr>kqd := d\<rparr>"
  have w1: "watchers ?s1 e f = watchers s e f" for e f
    by (rule watchers_same_events) simp
  have w: "watchers (enqueue_pollq q ps ?s1) e f = watchers s e f + watch ps e f" for e f
    using watchers_enqueue [of q ?s1 ps e f] q w1 by simp
  have "case r of Inl _ \<Rightarrow> kq_ok ?s1 \<and> kq_pds_ok ?s1
      | Inr _ \<Rightarrow> kq_ok (enqueue_pollq q ps ?s1) \<and> kq_pds_ok (enqueue_pollq q ps ?s1)"
  proof (cases r)
    case (Inl x)
    then show ?thesis using r k k' by (simp add: kq_ok_def kq_cnt_ok_def w1 kq_pds_ok_def)
  next
    case (Inr u)
    then show ?thesis using r k k' q
      by (auto simp: kq_ok_def kq_cnt_ok_def w kq_pds_ok_def enqueue_simps)
  qed
  then show "\<exists>r s1. st_kq_pollset_add mem ps s = Some (r, s1) \<and> same_but_events s s1 \<and>
      (case r of Inl _ \<Rightarrow> kq_ok s1 \<and> kq_pds_ok s1
        | Inr _ \<Rightarrow> kq_ok (enqueue_pollq q ps s1) \<and> kq_pds_ok (enqueue_pollq q ps s1))"
    using r(1) by (simp add: st_kq_pollset_add_def)
next
  fix s q assume k: "kq_ok s \<and> kq_pds_ok s" and q: "q \<in> set (io_q s)" "distinct (io_q s)"
  let ?s = "st_kq_pollset_del mem (pds (pollqs s q)) (ST_DEL_IOQ q s)"
  have "kq_cnt_ok ?s \<and> kq_inside (kqd ?s)"
    by (rule kq_remove [of s q _ "pds (pollqs s q)"])
      (use k q kq_del_fold [of mem "\<lambda>_ _. 0"] in \<open>simp_all add: kq_ok_def st_kq_pollset_del_def kq_pollset_del_def\<close>)
  moreover have "kq_safe (kqd ?s)" "kq_clean (kqd ?s)" "kq_pds_ok ?s"
    using k q kq_del_fold [of mem "\<lambda>_ _. 0"]
    by (auto simp: kq_ok_def kq_safe_def kq_clean_def kq_pds_ok_def st_kq_pollset_del_def kq_pollset_del_def)
  ultimately show "\<exists>s1. Some ?s = Some s1 \<and> same_but_events (ST_DEL_IOQ q s) s1 \<and> kq_ok s1 \<and> kq_pds_ok s1"
    by (simp add: kq_ok_def) (simp add: st_kq_pollset_del_def)
next
  fix s cur assume "kq_ok s \<and> kq_pds_ok s" "(\<forall>i n. kv_mem e i n) \<and> (\<exists>k. kv_kqueue e = Inr k)" "pending cur (io_q s) s"
  then show "\<exists>s1. st_kq_dispatch e s = Some s1 \<and> vp_inv cur s1 \<and> (kq_ok s1 \<and> kq_pds_ok s1) \<and> disp_frame s s1"
    using kq_dispatch_run [of cur s e] by auto
qed (rule kq_ok_frame)

lemma ep_ok_frame: "ep_ok s \<Longrightarrow> ev_part s' = ev_part s \<Longrightarrow> ep_ok s'"
  using ev_partD [of s' s] by (simp add: ep_ok_def ep_cnt_ok_def ep_pds_ok_def)

definition ep_granted :: "ep_env \<Rightarrow> st \<Rightarrow> bool" where
  "ep_granted e s \<longleftrightarrow> ep_pid (epd s) = ev_pid e \<or> (\<forall>n. ev_mem e n) \<and> ctl_ok (ev_ctl e) \<and> 0 \<le> ev_create e"

text \<open>The kernel's interest set is part of the contract when \<open>epoll_ctl\<close> succeeds.\<close>

definition ep_all_ok :: "ctl_oracle \<Rightarrow> st \<Rightarrow> bool" where
  "ep_all_ok ctl s \<longleftrightarrow> ep_ok s \<and> (ctl_ok ctl \<longrightarrow> ep_sync (epd s))"

interpretation evs_epoll: event_system "st_epoll_pollset_add mem (ev_ctl e)"
  "\<lambda>ps s. Some (st_epoll_pollset_del (ev_ctl e) ps s)" "st_epoll_dispatch e" "ep_granted e" "ep_all_ok (ev_ctl e)" for mem e
proof
  fix s q ps assume k: "ep_all_ok (ev_ctl e) s" and q: "q \<notin> set (io_q s)"
  then have k': "ep_safe (epd s)" "ep_inside (epd s)" "ep_clean (epd s)" "ep_cnt_ok s" "ep_pds_ok s"
    by (simp_all add: ep_all_ok_def ep_ok_def)
  have "ep_nonneg (epd s)" using k'(4) by (simp add: ep_nonneg_def ep_cnt_ok_def)
  then obtain r d where r: "ep_pollset_add mem (ev_ctl e) ps (epd s) = Some (r, d)" "ep_safe d" "ep_inside d" "ep_clean d"
    "\<forall>f. ep_rd_ref_cnt d f = ep_rd_ref_cnt (epd s) f + watch (added r ps) POLLIN f \<and>
         ep_wr_ref_cnt d f = ep_wr_ref_cnt (epd s) f + watch (added r ps) POLLOUT f \<and>
         ep_ex_ref_cnt d f = ep_ex_ref_cnt (epd s) f + watch (added r ps) POLLPRI f"
    "r = Inr () \<longrightarrow> list_all ep_pd_ok ps" "(\<forall>l. ev_ctl e l = None) \<longrightarrow> ep_sync (epd s) \<longrightarrow> ep_sync d"
    using ep_add_run [OF k'(1-3), of mem "ev_ctl e" ps] by blast
  let ?s1 = "s\<lparr>epd := d\<rparr>"
  have w1: "watchers ?s1 e f = watchers s e f" for e f
    by (rule watchers_same_events) simp
  have w: "watchers (enqueue_pollq q ps ?s1) e f = watchers s e f + watch ps e f" for e f
    using watchers_enqueue [of q ?s1 ps e f] q w1 by simp
  have y: "ctl_ok (ev_ctl e) \<longrightarrow> ep_sync d"
    using r(7) k by (auto simp: ep_all_ok_def ctl_ok_def)
  have "case r of Inl _ \<Rightarrow> ep_all_ok (ev_ctl e) ?s1 | Inr _ \<Rightarrow> ep_all_ok (ev_ctl e) (enqueue_pollq q ps ?s1)"
  proof (cases r)
    case (Inl x)
    then show ?thesis using r k' y by (simp add: ep_all_ok_def ep_ok_def ep_cnt_ok_def w1 ep_pds_ok_def)
  next
    case (Inr u)
    then show ?thesis using r k' q y
      by (auto simp: ep_all_ok_def ep_ok_def ep_cnt_ok_def w ep_pds_ok_def enqueue_simps)
  qed
  then show "\<exists>r s1. st_epoll_pollset_add mem (ev_ctl e) ps s = Some (r, s1) \<and> same_but_events s s1 \<and>
      (case r of Inl _ \<Rightarrow> ep_all_ok (ev_ctl e) s1 | Inr _ \<Rightarrow> ep_all_ok (ev_ctl e) (enqueue_pollq q ps s1))"
    using r(1) by (simp add: st_epoll_pollset_add_def)
next
  fix s q assume k: "ep_all_ok (ev_ctl e) s" and q: "q \<in> set (io_q s)" "distinct (io_q s)"
  let ?s = "st_epoll_pollset_del (ev_ctl e) (pds (pollqs s q)) (ST_DEL_IOQ q s)"
  have "ep_cnt_ok ?s \<and> ep_inside (epd ?s)"
    by (rule ep_remove [of s q _ "pds (pollqs s q)"])
      (use k q in \<open>simp_all add: ep_all_ok_def ep_ok_def st_epoll_pollset_del_def ep_del_simps\<close>)
  moreover have "ep_safe (epd ?s)" "ep_clean (epd ?s)" "ep_pds_ok ?s"
    using k q by (auto simp: ep_all_ok_def ep_ok_def ep_safe_def ep_clean_def ep_pds_ok_def
        st_epoll_pollset_del_def ep_del_simps)
  moreover have "ctl_ok (ev_ctl e) \<longrightarrow> ep_sync (epd ?s)"
    using k by (auto simp: ep_all_ok_def st_epoll_pollset_del_def ctl_ok_def intro: ep_del_sync)
  ultimately show "\<exists>s1. Some ?s = Some s1 \<and> same_but_events (ST_DEL_IOQ q s) s1 \<and> ep_all_ok (ev_ctl e) s1"
    by (simp add: ep_all_ok_def ep_ok_def) (simp add: st_epoll_pollset_del_def)
next
  fix s cur assume "ep_all_ok (ev_ctl e) s" "ep_granted e s" "pending cur (io_q s) s"
  then show "\<exists>s1. st_epoll_dispatch e s = Some s1 \<and> vp_inv cur s1 \<and> ep_all_ok (ev_ctl e) s1 \<and> disp_frame s s1"
    using ep_dispatch_run [of cur s e] by (auto simp: ep_all_ok_def ep_granted_def)
next
  fix s s' assume "ep_all_ok (ev_ctl e) s" "ev_part s' = ev_part s"
  then show "ep_all_ok (ev_ctl e) s'"
    using ep_ok_frame [of s s'] ev_partD [of s' s] by (simp add: ep_all_ok_def)
qed

section \<open>The system chosen\<close>

definition ev_ok :: "ctl_oracle \<Rightarrow> st \<Rightarrow> bool" where
  "ev_ok ctl s = (case evsys s of
     None \<Rightarrow> False
   | Some SELECT \<Rightarrow> sel_ok s
   | Some POLL \<Rightarrow> pol_ok s
   | Some KQUEUE \<Rightarrow> kq_ok s \<and> kq_pds_ok s
   | Some EPOLL \<Rightarrow> ep_all_ok ctl s)"

text \<open>
  What the code relies on of the operating system in a dispatch: \<open>poll\<close> answers for every
  descriptor, memory is granted, and after a fork a new kernel queue can be had.
\<close>

definition ev_fits :: "world \<Rightarrow> st \<Rightarrow> bool" where
  "ev_fits w s = (case evsys s of
     None \<Rightarrow> False
   | Some SELECT \<Rightarrow> True
   | Some POLL \<Rightarrow> length (pa_revents (w_poll w)) = length (gathered s) \<and> pa_malloc_ok (w_poll w)
   | Some KQUEUE \<Rightarrow> (\<forall>i n. kv_mem (w_kq w) i n) \<and> (\<exists>k. kv_kqueue (w_kq w) = Inr k)
   | Some EPOLL \<Rightarrow> ep_granted (w_ep w) s)"

lemma ev_evsys:
  assumes "ev_ok ctl s"
  obtains "evsys s = Some SELECT" "sel_ok s" | "evsys s = Some POLL" "pol_ok s"
  | "evsys s = Some KQUEUE" "kq_ok s \<and> kq_pds_ok s" | "evsys s = Some EPOLL" "ep_all_ok ctl s"
  using assms by (auto simp: ev_ok_def split: option.splits eventsys.splits)

interpretation evs: event_system "ev_pollset_add w" "ev_pollset_del w" "ev_dispatch w" "ev_fits w"
  "ev_ok (ev_ctl (w_ep w))" for w
proof
  let ?ok = "ev_ok (ev_ctl (w_ep w))"
  fix s q ps assume k: "?ok s" and q: "q \<notin> set (io_q s)"
  have e: "evsys s1 = evsys s" if "same_but_events s s1" for s1
    using same_but_eventsD [OF that] by simp
  from k show "\<exists>r s1. ev_pollset_add w ps s = Some (r, s1) \<and> same_but_events s s1 \<and>
      (case r of Inl _ \<Rightarrow> ?ok s1 | Inr _ \<Rightarrow> ?ok (enqueue_pollq q ps s1))"
  proof (cases rule: ev_evsys)
    case 1
    obtain r s1 where "ev_pollset_add w ps s = Some (r, s1)" and s: "same_but_events s s1"
      and c: "case r of Inl _ \<Rightarrow> sel_ok s1 | Inr _ \<Rightarrow> sel_ok (enqueue_pollq q ps s1)"
      using evs_select.add_law [OF 1(2) q, of ps] 1(1) unfolding ev_pollset_add_def by auto
    moreover have "case r of Inl _ \<Rightarrow> ?ok s1 | Inr _ \<Rightarrow> ?ok (enqueue_pollq q ps s1)"
      using c 1(1) e [OF s] by (cases r) (simp_all add: ev_ok_def enqueue_simps)
    ultimately show ?thesis by blast
  next
    case 2
    obtain r s1 where "ev_pollset_add w ps s = Some (r, s1)" and s: "same_but_events s s1"
      and c: "case r of Inl _ \<Rightarrow> pol_ok s1 | Inr _ \<Rightarrow> pol_ok (enqueue_pollq q ps s1)"
      using evs_poll.add_law [OF 2(2) q, of ps] 2(1) unfolding ev_pollset_add_def by auto
    moreover have "case r of Inl _ \<Rightarrow> ?ok s1 | Inr _ \<Rightarrow> ?ok (enqueue_pollq q ps s1)"
      using c 2(1) e [OF s] by (cases r) (simp_all add: ev_ok_def enqueue_simps)
    ultimately show ?thesis by blast
  next
    case 3
    obtain r s1 where "ev_pollset_add w ps s = Some (r, s1)" and s: "same_but_events s s1"
      and c: "case r of Inl _ \<Rightarrow> kq_ok s1 \<and> kq_pds_ok s1 | Inr _ \<Rightarrow> kq_ok (enqueue_pollq q ps s1) \<and> kq_pds_ok (enqueue_pollq q ps s1)"
      using evs_kq.add_law [OF 3(2) q, of "kv_mem (w_kq w)" ps] 3(1) unfolding ev_pollset_add_def by auto
    moreover have "case r of Inl _ \<Rightarrow> ?ok s1 | Inr _ \<Rightarrow> ?ok (enqueue_pollq q ps s1)"
      using c 3(1) e [OF s] by (cases r) (simp_all add: ev_ok_def enqueue_simps)
    ultimately show ?thesis by blast
  next
    case 4
    obtain r s1 where "ev_pollset_add w ps s = Some (r, s1)" and s: "same_but_events s s1"
      and c: "case r of Inl _ \<Rightarrow> ep_all_ok (ev_ctl (w_ep w)) s1 | Inr _ \<Rightarrow> ep_all_ok (ev_ctl (w_ep w)) (enqueue_pollq q ps s1)"
      using evs_epoll.add_law [OF 4(2) q, of "ev_mem (w_ep w)" ps] 4(1) unfolding ev_pollset_add_def by auto
    moreover have "case r of Inl _ \<Rightarrow> ?ok s1 | Inr _ \<Rightarrow> ?ok (enqueue_pollq q ps s1)"
      using c 4(1) e [OF s] by (cases r) (simp_all add: ev_ok_def enqueue_simps)
    ultimately show ?thesis by blast
  qed
next
  let ?ok = "ev_ok (ev_ctl (w_ep w))"
  fix s q assume k: "?ok s" and q: "q \<in> set (io_q s)" "distinct (io_q s)"
  have e: "evsys s1 = evsys s" if "same_but_events (ST_DEL_IOQ q s) s1" for s1
    using same_but_eventsD [OF that] by simp
  from k show "\<exists>s1. ev_pollset_del w (pds (pollqs s q)) (ST_DEL_IOQ q s) = Some s1 \<and>
      same_but_events (ST_DEL_IOQ q s) s1 \<and> ?ok s1"
  proof (cases rule: ev_evsys)
    case 1
    then show ?thesis
      using evs_select.del_law [OF 1(2) q] e by (auto simp: ev_pollset_del_def ev_ok_def)
  next
    case 2
    then show ?thesis
      using evs_poll.del_law [OF 2(2) q] e by (auto simp: ev_pollset_del_def ev_ok_def)
  next
    case 3
    then show ?thesis
      using evs_kq.del_law [OF 3(2) q, of "kv_mem (w_kq w)"] e by (auto simp: ev_pollset_del_def ev_ok_def)
  next
    case 4
    then show ?thesis
      using evs_epoll.del_law [OF 4(2) q] e by (auto simp: ev_pollset_del_def ev_ok_def)
  qed
next
  let ?ok = "ev_ok (ev_ctl (w_ep w))"
  fix s cur assume k: "?ok s" and f: "ev_fits w s" and p: "pending cur (io_q s) s"
  have e: "evsys s1 = evsys s" if "disp_frame s s1" for s1
    using that by (simp add: disp_frame_def)
  from k show "\<exists>s1. ev_dispatch w s = Some s1 \<and> vp_inv cur s1 \<and> ?ok s1 \<and> disp_frame s s1"
  proof (cases rule: ev_evsys)
    case 1
    then show ?thesis
      using evs_select.disp_law [OF 1(2) _ p, of "w_sel w"] e by (auto simp: ev_dispatch_def ev_ok_def)
  next
    case 2
    then show ?thesis
      using evs_poll.disp_law [OF 2(2) _ p, of "w_poll w"] f e by (auto simp: ev_dispatch_def ev_ok_def ev_fits_def)
  next
    case 3
    then show ?thesis
      using evs_kq.disp_law [OF 3(2) _ p, of "w_kq w"] f e by (auto simp: ev_dispatch_def ev_ok_def ev_fits_def)
  next
    case 4
    then show ?thesis
      using evs_epoll.disp_law [OF 4(2) _ p] f e by (auto simp: ev_dispatch_def ev_ok_def ev_fits_def)
  qed
next
  let ?ok = "ev_ok (ev_ctl (w_ep w))"
  fix s s' assume k: "?ok s" and f: "ev_part s' = ev_part s"
  have e: "evsys s' = evsys s" using ev_partD [OF f] by simp
  from k show "?ok s'"
  proof (cases rule: ev_evsys)
    case 1
    then show ?thesis using evs_select.frame [OF 1(2) f] e by (simp add: ev_ok_def)
  next
    case 2
    then show ?thesis using evs_poll.frame [OF 2(2) f] e by (simp add: ev_ok_def)
  next
    case 3
    then show ?thesis using evs_kq.frame [OF 3(2) f] e by (simp add: ev_ok_def)
  next
    case 4
    then show ?thesis using evs_epoll.frame [OF 4(2) f] e by (simp add: ev_ok_def)
  qed
qed

end
