(* ===== verification/ST_Block.thy ===== *)
theory ST_Block
  imports ST_EvLaws
begin

text \<open>
  The running thread changes its own state: it blocks (\<open>block_inv\<close>), or goes on after it was
  switched to (\<open>go_on_inv\<close>). Both are instances of \<open>inv0_change\<close>, which says which clauses of the
  invariant such a change has to establish again; the others do not depend on it.
\<close>

section \<open>One thread changes\<close>

definition only_thread :: "tid \<Rightarrow> st \<Rightarrow> st \<Rightarrow> bool" where
  "only_thread t s b \<longleftrightarrow> thread_q b = thread_q s \<and> run_q b = run_q s \<and> zombie_q b = zombie_q s \<and>
     idle_thread b = idle_thread s \<and> active_count b = active_count s \<and> this_thread b = this_thread s \<and>
     distinct (io_q b) \<and>
     (\<forall>u. u \<noteq> t \<longrightarrow> state (thr b u) = state (thr s u) \<and> flags (thr b u) = flags (thr s u) \<and>
        ctx (thr b u) = ctx (thr s u) \<and> pollqs b u = pollqs s u \<and> (u \<in> set (io_q b) \<longleftrightarrow> u \<in> set (io_q s))) \<and>
     (\<forall>u. term_cv (thr b u) = term_cv (thr s u))"

lemma inv0_change:
  assumes i: "inv0 (Some t) s" and o: "only_thread t s b"
    and t: "thread_ok cur b t" "cur = None \<or> cur = Some t"
    and z: "ctx (thr s t) \<noteq> K_zombie" "ctx (thr b t) \<noteq> K_zombie"
    and c: "cond_ok b" "term_ok b" "join_ok b" "mutex_ok b"
  shows "inv0 cur b"
proof -
  note O = o [unfolded only_thread_def]
  have L: "live b = live s" using O by (simp add: live_def)
  have q: "queues_ok (Some t) s" using i by (simp add: inv0_def)
  have tl: "t \<in> live s" using q by (simp add: queues_ok_def)
  have "set (io_q b) \<subseteq> live s"
  proof
    fix u assume "u \<in> set (io_q b)"
    then show "u \<in> live s" using O tl q by (cases "u = t") (auto simp: queues_ok_def)
  qed
  then have "queues_ok cur b"
    using q O t(2) unfolding queues_ok_def L by auto
  moreover have "thread_ok cur b u" if "u \<in> live b" for u
  proof (cases "u = t")
    case False
    have "thread_ok (Some t) s u" using i that by (simp add: inv0_def L)
    then show ?thesis
      using O False t(2) by (auto simp: thread_ok_def tok_def)
  qed (use t(1) in simp)
  moreover have "count_ok b"
  proof -
    have "{u \<in> live b. u \<noteq> idle_thread b \<and> ctx (thr b u) \<noteq> K_zombie} =
        {u \<in> live s. u \<noteq> idle_thread s \<and> ctx (thr s u) \<noteq> K_zombie}"
      unfolding L using O z by (metis (mono_tags, lifting))
    then show ?thesis using i O by (simp add: inv0_def count_ok_def)
  qed
  ultimately show ?thesis using c by (simp add: inv0_def)
qed

section \<open>Facts about the running thread\<close>

lemma running_facts:
  assumes "vp_inv (Some t) s"
  shows "t \<in> live s" "this_thread s = t" "thread_ok (Some t) s t" "inv0 (Some t) s"
    "state (thr s t) = ST_RUNNING" "\<not> has_flag (flags (thr s t)) FL_ON_SLEEPQ" "t \<notin> sleepers s"
    "t \<notin> set (run_q s)" "t \<notin> set (zombie_q s)" "sleepq_is s (sleepers s)"
    "has_flag (flags (thr s t)) FL_IDLE_THREAD \<longleftrightarrow> t = idle_thread s" "distinct (io_q s)"
proof -
  show i: "inv0 (Some t) s" "sleepq_is s (sleepers s)" using assms by (simp_all add: vp_inv_def)
  then show t: "t \<in> live s" "this_thread s = t" "distinct (io_q s)" by (auto simp: inv0_def queues_ok_def)
  then show k: "thread_ok (Some t) s t" using i by (simp add: inv0_def)
  then show "state (thr s t) = ST_RUNNING" "t \<notin> set (run_q s)" "t \<notin> set (zombie_q s)"
    "has_flag (flags (thr s t)) FL_IDLE_THREAD \<longleftrightarrow> t = idle_thread s"
    by (auto simp: thread_ok_def tok_def)
  then show n: "\<not> has_flag (flags (thr s t)) FL_ON_SLEEPQ"
    using thread_ok_state(6) [OF k] by auto
  then show "t \<notin> sleepers s" by (simp add: sleepers_def)
qed

lemma k_run_facts:
  assumes "vp_inv (Some t) s" "ctx (thr s t) = K_run"
  shows "t \<noteq> idle_thread s" "t \<notin> set (io_q s)"
  using running_facts(3) [OF assms(1)] assms(2) by (auto simp: thread_ok_def tok_def)

section \<open>Switching away\<close>

text \<open>The part of the state that the event systems look at, and the callbacks.\<close>

lemma switch_out_cb_parts [simp]:
  "thr (ST_SWITCH_OUT_CB t s) = thr s" "thread_q (ST_SWITCH_OUT_CB t s) = thread_q s"
  "run_q (ST_SWITCH_OUT_CB t s) = run_q s" "zombie_q (ST_SWITCH_OUT_CB t s) = zombie_q s"
  "io_q (ST_SWITCH_OUT_CB t s) = io_q s" "pollqs (ST_SWITCH_OUT_CB t s) = pollqs s"
  "conds (ST_SWITCH_OUT_CB t s) = conds s" "mutexes (ST_SWITCH_OUT_CB t s) = mutexes s"
  "idle_thread (ST_SWITCH_OUT_CB t s) = idle_thread s" "active_count (ST_SWITCH_OUT_CB t s) = active_count s"
  "this_thread (ST_SWITCH_OUT_CB t s) = this_thread s" "sleep_q (ST_SWITCH_OUT_CB t s) = sleep_q s"
  "sleepq_size (ST_SWITCH_OUT_CB t s) = sleepq_size s" "sel (ST_SWITCH_OUT_CB t s) = sel s"
  "pol (ST_SWITCH_OUT_CB t s) = pol s" "kqd (ST_SWITCH_OUT_CB t s) = kqd s" "epd (ST_SWITCH_OUT_CB t s) = epd s"
  "evsys (ST_SWITCH_OUT_CB t s) = evsys s" "last_clock (ST_SWITCH_OUT_CB t s) = last_clock s"
  by (simp_all add: ST_SWITCH_OUT_CB_def)

lemma switch_in_cb_parts [simp]:
  "thr (ST_SWITCH_IN_CB t s) = thr s" "thread_q (ST_SWITCH_IN_CB t s) = thread_q s"
  "run_q (ST_SWITCH_IN_CB t s) = run_q s" "zombie_q (ST_SWITCH_IN_CB t s) = zombie_q s"
  "io_q (ST_SWITCH_IN_CB t s) = io_q s" "pollqs (ST_SWITCH_IN_CB t s) = pollqs s"
  "conds (ST_SWITCH_IN_CB t s) = conds s" "mutexes (ST_SWITCH_IN_CB t s) = mutexes s"
  "idle_thread (ST_SWITCH_IN_CB t s) = idle_thread s" "active_count (ST_SWITCH_IN_CB t s) = active_count s"
  "this_thread (ST_SWITCH_IN_CB t s) = this_thread s" "sleep_q (ST_SWITCH_IN_CB t s) = sleep_q s"
  "sleepq_size (ST_SWITCH_IN_CB t s) = sleepq_size s" "sel (ST_SWITCH_IN_CB t s) = sel s"
  "pol (ST_SWITCH_IN_CB t s) = pol s" "kqd (ST_SWITCH_IN_CB t s) = kqd s" "epd (ST_SWITCH_IN_CB t s) = epd s"
  "evsys (ST_SWITCH_IN_CB t s) = evsys s" "last_clock (ST_SWITCH_IN_CB t s) = last_clock s"
  by (simp_all add: ST_SWITCH_IN_CB_def)

lemma heap_part_fields [simp]:
  "heap_part (s\<lparr>conds := a\<rparr>) = heap_part s" "heap_part (s\<lparr>mutexes := b\<rparr>) = heap_part s"
  "heap_part (s\<lparr>run_q := c\<rparr>) = heap_part s" "heap_part (s\<lparr>zombie_q := c\<rparr>) = heap_part s"
  "heap_part (s\<lparr>io_q := c\<rparr>) = heap_part s" "heap_part (s\<lparr>thread_q := c\<rparr>) = heap_part s"
  "heap_part (s\<lparr>pollqs := e\<rparr>) = heap_part s" "heap_part (s\<lparr>active_count := n\<rparr>) = heap_part s"
  "heap_part (s\<lparr>calls := f\<rparr>) = heap_part s" "heap_part (s\<lparr>keys := g\<rparr>) = heap_part s"
  "heap_part (s\<lparr>stks := h\<rparr>) = heap_part s" "heap_part (s\<lparr>last_clock := w\<rparr>) = heap_part s"
  "heap_part (s\<lparr>curr_time := n\<rparr>) = heap_part s" "heap_part (s\<lparr>last_tset := w\<rparr>) = heap_part s"
  by (simp_all add: heap_part_def)

lemma heap_part_cb [simp]:
  "heap_part (ST_SWITCH_OUT_CB t s) = heap_part s" "heap_part (ST_SWITCH_IN_CB t s) = heap_part s"
  by (simp_all add: heap_part_def)

lemma inv0_cong:
  assumes "thr b = thr s" "thread_q b = thread_q s" "run_q b = run_q s" "zombie_q b = zombie_q s" "io_q b = io_q s"
    "pollqs b = pollqs s" "conds b = conds s" "mutexes b = mutexes s" "idle_thread b = idle_thread s"
    "active_count b = active_count s" "this_thread b = this_thread s"
  shows "inv0 cur b = inv0 cur s"
  using assms by (simp add: inv0_defs)

lemma vp_inv_cong:
  assumes "thr b = thr s" "thread_q b = thread_q s" "run_q b = run_q s" "zombie_q b = zombie_q s" "io_q b = io_q s"
    "pollqs b = pollqs s" "conds b = conds s" "mutexes b = mutexes s" "idle_thread b = idle_thread s"
    "active_count b = active_count s" "this_thread b = this_thread s" "sleep_q b = sleep_q s" "sleepq_size b = sleepq_size s"
  shows "vp_inv cur s \<Longrightarrow> vp_inv cur b"
proof -
  have "heap_part b = heap_part s" "sleepers b = sleepers s"
    using assms by (simp_all add: heap_part_def sleepers_def live_def)
  then show "vp_inv cur s \<Longrightarrow> vp_inv cur b"
    using inv0_cong [OF assms(1-11)] sleepq_is_frame [of s _ b] by (simp add: vp_inv_def)
qed

lemma ev_part_noheap: "noheap a = noheap b \<Longrightarrow> ev_part a = ev_part b"
  using noheap_eqD [of a b] by (simp add: ev_part_def)

lemma ev_part_fields [simp]:
  "ev_part (s\<lparr>conds := a\<rparr>) = ev_part s" "ev_part (s\<lparr>mutexes := b\<rparr>) = ev_part s"
  "ev_part (s\<lparr>run_q := c\<rparr>) = ev_part s" "ev_part (s\<lparr>zombie_q := c\<rparr>) = ev_part s"
  "ev_part (s\<lparr>thread_q := c\<rparr>) = ev_part s" "ev_part (s\<lparr>active_count := n\<rparr>) = ev_part s"
  "ev_part (s\<lparr>calls := f\<rparr>) = ev_part s" "ev_part (s\<lparr>keys := g\<rparr>) = ev_part s"
  "ev_part (s\<lparr>stks := h\<rparr>) = ev_part s" "ev_part (s\<lparr>last_clock := w\<rparr>) = ev_part s"
  "ev_part (s\<lparr>curr_time := n\<rparr>) = ev_part s" "ev_part (s\<lparr>last_tset := w\<rparr>) = ev_part s"
  "ev_part (ST_SWITCH_IN_CB t s) = ev_part s" "ev_part (ST_SWITCH_OUT_CB t s) = ev_part s"
  "ev_part (s\<lparr>this_thread := t\<rparr>) = ev_part s" "ev_part (upd_thr t g2 s) = ev_part s"
  by (simp_all add: ev_part_def)

lemma switch_inv:
  assumes "sleepq_is b T" "inv0 None (set_ctx t k b)" "sleepers (set_ctx t k b) = T"
  shows "\<exists>s'. ST_SWITCH_CONTEXT k t b = Some s' \<and> vp_inv (Some (this_thread s')) s' \<and> idle_ok s' \<and>
    ev_part s' = ev_part b \<and> this_thread s' = (case run_q b of u # _ \<Rightarrow> u | [] \<Rightarrow> idle_thread b)"
proof -
  let ?b = "set_ctx t k (ST_SWITCH_OUT_CB t b)"
  have h: "heap_part ?b = heap_part b"
    by simp
  moreover have "inv0 None ?b = inv0 None (set_ctx t k b)"
    by (rule inv0_cong) (simp_all add: set_ctx_def)
  moreover have "sleepers ?b = T"
    using assms(3) by (simp add: sleepers_def live_def set_ctx_def)
  ultimately have v: "vp_inv None ?b"
    using assms sleepq_is_frame [OF _ h] by (simp add: vp_inv_def)
  obtain s' where s': "st_vp_schedule ?b = Some s'" "vp_inv (Some (this_thread s')) s'" "idle_ok s'"
      "this_thread s' = (case run_q ?b of t # _ \<Rightarrow> t | [] \<Rightarrow> idle_thread ?b)"
    using sched_inv [OF v] by blast
  have "ev_part s' = ev_part ?b"
    using s'(1) by (auto simp: st_vp_schedule_def ev_part_def set_state_def ST_DEL_RUNQ_def split: list.splits if_splits)
  also have "\<dots> = ev_part b"
    by (simp add: ev_part_def set_ctx_def)
  finally have e: "ev_part s' = ev_part b" .
  have "idle_thread ?b = idle_thread b" "run_q ?b = run_q b"
    by (simp_all add: set_ctx_def)
  then show ?thesis using s' e by (simp add: ST_SWITCH_CONTEXT_def split: list.split)
qed


section \<open>The clauses when one thread changes\<close>

definition same_others :: "tid \<Rightarrow> st \<Rightarrow> st \<Rightarrow> bool" where
  "same_others t s b \<longleftrightarrow> live b = live s \<and> (\<forall>u. term_cv (thr b u) = term_cv (thr s u)) \<and>
     (\<forall>u. u \<noteq> t \<longrightarrow> ctx (thr b u) = ctx (thr s u) \<and> state (thr b u) = state (thr s u))"

lemma same_othersD:
  assumes "same_others t s b"
  shows "live b = live s" "term_cv (thr b u) = term_cv (thr s u)"
    "u \<noteq> t \<Longrightarrow> ctx (thr b u) = ctx (thr s u)" "u \<noteq> t \<Longrightarrow> state (thr b u) = state (thr s u)"
  using assms by (simp_all add: same_others_def)

lemma cond_ok_stay:
  assumes c: "cond_ok s" and o: "same_others t s b" and d: "conds b = conds s"
    and k: "cwait (ctx (thr s t)) = None" "cwait (ctx (thr b t)) = None"
  shows "cond_ok b"
proof -
  have "cwait (ctx (thr b u)) = cwait (ctx (thr s u))" for u
    using same_othersD [OF o] k by (cases "u = t") simp_all
  then show ?thesis
    using c same_othersD(1) [OF o] d by (simp add: cond_ok_def)
qed

lemma cond_ok_enter:
  assumes c: "cond_ok s" and o: "same_others t s b" and t: "t \<in> live s"
    and q: "conds s cv = Some q" "conds b = (conds s)(cv \<mapsto> q @ [t])"
    and k: "cwait (ctx (thr s t)) = None" "cwait (ctx (thr b t)) = Some cv"
  shows "cond_ok b"
proof -
  have w: "cwait (ctx (thr b u)) = (if u = t then Some cv else cwait (ctx (thr s u)))" for u
    using same_othersD [OF o] k by (cases "u = t") simp_all
  have C: "distinct q'" "u \<in> set q' \<longleftrightarrow> u \<in> live s \<and> cwait (ctx (thr s u)) = Some c'"
    if "conds s c' = Some q'" for c' q' u
    using c that by (auto simp: cond_ok_def)
  show ?thesis
    unfolding cond_ok_def same_othersD(1) [OF o] w
  proof (intro conjI allI impI, goal_cases)
    case (1 c' q')
    then show ?case using q C k by (auto split: if_splits)
  next
    case (2 c' q' u)
    then show ?case using q C(2) [of c' q' u] C(2) [OF q(1), of u] C(2) [of c' q' t] k t
      by (cases "c' = cv"; cases "u = t") auto
  next
    case (3 u c')
    then show ?case using q c by (auto simp: cond_ok_def split: if_splits)
  qed
qed

lemma cond_ok_leave:
  assumes c: "cond_ok s" and o: "same_others t s b"
    and q: "conds s cv = Some q" "conds b = (conds s)(cv \<mapsto> remove1 t q)"
    and k: "cwait (ctx (thr s t)) = Some cv" "cwait (ctx (thr b t)) = None"
  shows "cond_ok b"
proof -
  have w: "cwait (ctx (thr b u)) = (if u = t then None else cwait (ctx (thr s u)))" for u
    using same_othersD [OF o] k by (cases "u = t") simp_all
  have C: "distinct q'" "u \<in> set q' \<longleftrightarrow> u \<in> live s \<and> cwait (ctx (thr s u)) = Some c'"
    if "conds s c' = Some q'" for c' q' u
    using c that by (auto simp: cond_ok_def)
  show ?thesis
    unfolding cond_ok_def same_othersD(1) [OF o] w
  proof (intro conjI allI impI, goal_cases)
    case (1 c' q')
    then show ?case using q C by (auto split: if_splits)
  next
    case (2 c' q' u)
    then show ?case using q C(2) [of c' q' u] C(1) [OF q(1)] C(2) [OF q(1), of u] k
      by (cases "c' = cv"; cases "u = t") auto
  next
    case (3 u c')
    then show ?case using q c by (auto simp: cond_ok_def split: if_splits)
  qed
qed

lemma term_ok_step:
  assumes c: "term_ok s" and o: "same_others t s b" and d: "dom (conds b) = dom (conds s)"
    and k: "\<And>cv u. ctx (thr b t) = K_cond cv \<Longrightarrow> ctx (thr s t) = K_cond cv \<or> (u \<in> live s \<longrightarrow> term_cv (thr s u) \<noteq> Some cv)"
  shows "term_ok b"
proof -
  have d': "conds b cv = None \<longleftrightarrow> conds s cv = None" for cv
    using d by (metis domIff)
  show ?thesis
    unfolding term_ok_def same_othersD(1,2) [OF o] d'
  proof (intro allI impI)
    fix u cv assume u: "u \<in> live s" "term_cv (thr s u) = Some cv"
    have "ctx (thr b v) \<noteq> K_cond cv" if "v \<in> live s" for v
      using c u that k [of cv u] same_othersD(3) [OF o, of v] unfolding term_ok_def by (cases "v = t") metis+
    then show "conds s cv \<noteq> None \<and> (\<forall>v. v \<in> live s \<longrightarrow> term_cv (thr s v) = Some cv \<longrightarrow> v = u) \<and>
        (\<forall>v. v \<in> live s \<longrightarrow> ctx (thr b v) \<noteq> K_cond cv)"
      using c u unfolding term_ok_def by blast
  qed
qed

lemma join_ok_step:
  assumes c: "join_ok s" and o: "same_others t s b"
    and k: "\<And>v cv. ctx (thr b t) = K_join v cv \<Longrightarrow> ctx (thr s t) = K_join v cv"
      "ctx (thr b t) = K_zombie \<Longrightarrow> state (thr b t) = ST_ZOMBIE"
  shows "join_ok b"
proof -
  have j: "ctx (thr s u) = K_join v cv" if "ctx (thr b u) = K_join v cv" for u v cv
    using that k(1) same_othersD(3) [OF o, of u] by (cases "u = t") auto
  show ?thesis
    unfolding join_ok_def same_othersD(1,2) [OF o]
  proof (intro allI impI)
    fix u v cv assume u: "u \<in> live s" "ctx (thr b u) = K_join v cv"
    have J: "u \<noteq> v \<and> v \<in> live s \<and> term_cv (thr s v) = Some cv \<and>
        (ctx (thr s v) = K_zombie \<longrightarrow> state (thr s v) = ST_ZOMBIE) \<and>
        (\<forall>w c'. w \<in> live s \<longrightarrow> ctx (thr s w) = K_join v c' \<longrightarrow> w = u)"
      using c u(1) j [OF u(2)] unfolding join_ok_def by blast
    moreover have "ctx (thr b v) = K_zombie \<longrightarrow> state (thr b v) = ST_ZOMBIE"
      using J k(2) same_othersD(3,4) [OF o, of v] by (cases "v = t") auto
    ultimately show "u \<noteq> v \<and> v \<in> live s \<and> term_cv (thr s v) = Some cv \<and>
        (ctx (thr b v) = K_zombie \<longrightarrow> state (thr b v) = ST_ZOMBIE) \<and>
        (\<forall>w c'. w \<in> live s \<longrightarrow> ctx (thr b w) = K_join v c' \<longrightarrow> w = u)"
      using j by blast
  qed
qed

lemma join_ok_enter:
  assumes c: "join_ok s" and o: "same_others t s b" and k: "ctx (thr b t) = K_join v cv" "ctx (thr s t) \<noteq> K_zombie"
    and t: "t \<noteq> v" "v \<in> live s" "term_cv (thr s v) = Some cv"
      "ctx (thr s v) = K_zombie \<longrightarrow> state (thr s v) = ST_ZOMBIE" "\<And>w c'. w \<in> live s \<Longrightarrow> ctx (thr s w) \<noteq> K_join v c'"
  shows "join_ok b"
  unfolding join_ok_def same_othersD(1,2) [OF o]
proof (intro allI impI)
  fix u v' cv' assume u: "u \<in> live s" "ctx (thr b u) = K_join v' cv'"
  have sm: "ctx (thr b w) = ctx (thr s w)" "state (thr b w) = state (thr s w)" if "w \<noteq> t" for w
    using same_othersD(3,4) [OF o that] by simp_all
  show "u \<noteq> v' \<and> v' \<in> live s \<and> term_cv (thr s v') = Some cv' \<and>
      (ctx (thr b v') = K_zombie \<longrightarrow> state (thr b v') = ST_ZOMBIE) \<and>
      (\<forall>w c'. w \<in> live s \<longrightarrow> ctx (thr b w) = K_join v' c' \<longrightarrow> w = u)"
  proof (cases "u = t")
    case True
    then have "v' = v" "cv' = cv" using k(1) u(2) by simp_all
    moreover have "w = t" if "w \<in> live s" "ctx (thr b w) = K_join v c'" for w c'
      using t(5) [OF that(1)] that(2) sm(1) [of w] by (cases "w = t") auto
    moreover have "ctx (thr b v) = ctx (thr s v)" "state (thr b v) = state (thr s v)"
      using sm [of v] t(1) by simp_all
    ultimately show ?thesis using t(1-4) unfolding True by auto
  next
    case False
    have "ctx (thr s u) = K_join v' cv'" using u(2) sm(1) [OF False] by simp
    then have J: "u \<noteq> v' \<and> v' \<in> live s \<and> term_cv (thr s v') = Some cv' \<and>
      (ctx (thr s v') = K_zombie \<longrightarrow> state (thr s v') = ST_ZOMBIE) \<and>
      (\<forall>w c'. w \<in> live s \<longrightarrow> ctx (thr s w) = K_join v' c' \<longrightarrow> w = u)"
      using c u(1) unfolding join_ok_def by blast
    have "v' \<noteq> v" using t(5) [OF u(1)] u(2) sm(1) [OF False] by auto
    have "ctx (thr b v') = K_zombie \<longrightarrow> state (thr b v') = ST_ZOMBIE"
      using J sm [of v'] k(1) by (cases "v' = t") simp_all
    moreover have "w = u" if "w \<in> live s" "ctx (thr b w) = K_join v' c'" for w c'
    proof -
      have "w \<noteq> t" using that(2) k(1) \<open>v' \<noteq> v\<close> by auto
      then have "ctx (thr s w) = K_join v' c'" using that(2) sm(1) [of w] by simp
      then show ?thesis using J that(1) by blast
    qed
    ultimately show ?thesis using J by blast
  qed
qed

lemma mutex_ok_stay:
  assumes c: "mutex_ok s" and o: "same_others t s b" and d: "mutexes b = mutexes s"
    and k: "\<And>m. ctx (thr s t) \<noteq> K_mutex m" "\<And>m. ctx (thr b t) \<noteq> K_mutex m"
  shows "mutex_ok b"
proof -
  have w: "ctx (thr b u) = K_mutex m \<longleftrightarrow> ctx (thr s u) = K_mutex m" for u m
    using same_othersD(3) [OF o, of u] k by (cases "u = t") auto
  have st: "state (thr b u) = state (thr s u)" if "m_wait_q l = q" "u \<in> set q" "mutexes s m = Some l" for u l q m
  proof -
    have "ctx (thr s u) = K_mutex m" using c that by (auto simp: mutex_ok_def)
    then show ?thesis using k(1) same_othersD(4) [OF o, of u] by (cases "u = t") auto
  qed
  show ?thesis
    using c unfolding mutex_ok_def same_othersD(1) [OF o] d w by (metis st)
qed


text \<open>What the invariant says of one mutex.\<close>

lemma mutex_okD:
  assumes "mutex_ok s" "mutexes s m = Some l"
  shows "distinct (m_wait_q l)" "u \<in> set (m_wait_q l) \<longleftrightarrow> u \<in> live s \<and> ctx (thr s u) = K_mutex m"
    "u \<in> set (m_wait_q l) \<Longrightarrow> state (thr s u) = ST_LOCK_WAIT \<Longrightarrow> owner l \<noteq> None \<and> owner l \<noteq> Some u"
  using assms by (auto simp: mutex_ok_def)

lemma mutex_okD2: "mutex_ok s \<Longrightarrow> u \<in> live s \<Longrightarrow> ctx (thr s u) = K_mutex m \<Longrightarrow> \<exists>l. mutexes s m = Some l"
  by (auto simp: mutex_ok_def)

lemma mutex_ok_enter:
  assumes c: "mutex_ok s" and o: "same_others t s b" and t: "t \<in> live s"
    and q: "mutexes s m = Some l" "mutexes b = (mutexes s)(m \<mapsto> l\<lparr>m_wait_q := m_wait_q l @ [t]\<rparr>)"
      "owner l \<noteq> None" "owner l \<noteq> Some t"
    and k: "\<And>m. ctx (thr s t) \<noteq> K_mutex m" "ctx (thr b t) = K_mutex m"
  shows "mutex_ok b"
proof -
  have w: "ctx (thr b u) = (if u = t then K_mutex m else ctx (thr s u))" for u
    using same_othersD(3) [OF o, of u] k by simp
  have t_out: "t \<notin> set (m_wait_q l')" if "mutexes s m' = Some l'" for m' l'
    using mutex_okD(2) [OF c that, of t] k(1) by simp
  show ?thesis
    unfolding mutex_ok_def same_othersD(1) [OF o] w
  proof (intro conjI allI impI ballI, goal_cases)
    case (1 m' l')
    then show ?case using mutex_okD(1) [OF c] q t_out by (auto split: if_splits)
  next
    case (2 m' l' u)
    then show ?case
      using q t_out mutex_okD(2) [OF c, of m' l' u] mutex_okD(2) [OF c q(1), of u] t
      by (cases "m' = m"; cases "u = t") auto
  next
    case (3 m' l' u)
    then have "u \<noteq> t \<Longrightarrow> state (thr s u) = ST_LOCK_WAIT" using same_othersD(4) [OF o] by simp
    then show ?case
      using 3 q mutex_okD(3) [OF c, of m' l' u] mutex_okD(3) [OF c q(1), of u] t_out [of m' l']
      by (cases "m' = m"; cases "u = t") auto
  next
    case (4 m' l' u)
    then have "u \<noteq> t \<Longrightarrow> state (thr s u) = ST_LOCK_WAIT" using same_othersD(4) [OF o] by simp
    then show ?case
      using 4 q mutex_okD(3) [OF c, of m' l' u] mutex_okD(3) [OF c q(1), of u] t_out [of m' l']
      by (cases "m' = m"; cases "u = t") auto
  next
    case (5 u m')
    then show ?case using q mutex_okD2 [OF c, of u m'] by (auto split: if_splits)
  qed
qed

lemma mutex_ok_leave:
  assumes c: "mutex_ok s" and o: "same_others t s b"
    and q: "mutexes s m = Some l" "mutexes b = (mutexes s)(m \<mapsto> l\<lparr>m_wait_q := remove1 t (m_wait_q l)\<rparr>)"
    and k: "ctx (thr s t) = K_mutex m" "\<And>m. ctx (thr b t) \<noteq> K_mutex m"
  shows "mutex_ok b"
proof -
  have w: "ctx (thr b u) = K_mutex m' \<longleftrightarrow> u \<noteq> t \<and> ctx (thr s u) = K_mutex m'" for u m'
    using same_othersD(3) [OF o, of u] k by (cases "u = t") auto
  have d: "distinct (m_wait_q l)" by (rule mutex_okD(1) [OF c q(1)])
  have b: "\<exists>l0. mutexes s m' = Some l0 \<and> distinct (m_wait_q l') \<and> owner l' = owner l0 \<and>
      (\<forall>u. u \<in> set (m_wait_q l') \<longleftrightarrow> u \<noteq> t \<and> u \<in> set (m_wait_q l0))"
    if m': "mutexes b m' = Some l'" for m' l'
  proof (cases "m' = m")
    case True
    then show ?thesis using q d m' by auto
  next
    case False
    then have s: "mutexes s m' = Some l'" using m' q(2) by simp
    moreover have "t \<notin> set (m_wait_q l')"
      using mutex_okD(2) [OF c s, of t] k(1) False by simp
    ultimately show ?thesis using mutex_okD(1) [OF c s] by auto
  qed
  have st: "state (thr s u) = ST_LOCK_WAIT" if "u \<noteq> t" "state (thr b u) = ST_LOCK_WAIT" for u
    using that same_othersD(4) [OF o] by simp
  show ?thesis
    unfolding mutex_ok_def same_othersD(1) [OF o] w
  proof (intro conjI allI impI ballI, goal_cases)
    case (1 m' l')
    then show ?case using b by blast
  next
    case (2 m' l' u)
    then show ?case using b mutex_okD(2) [OF c] by blast
  next
    case (3 m' l' u)
    then show ?case using b [of m' l'] st mutex_okD(3) [OF c] by metis
  next
    case (4 m' l' u)
    then show ?case using b [of m' l'] st mutex_okD(3) [OF c] by metis
  next
    case (5 u m')
    then show ?case using q mutex_okD2 [OF c, of u m'] by (auto split: if_splits)
  qed
qed

text \<open>A mutex whose owner changes while its queue stays.\<close>

lemma mutex_ok_owner:
  assumes c: "mutex_ok s" and q: "mutexes s m = Some l" "mutexes b = (mutexes s)(m \<mapsto> l\<lparr>owner := w\<rparr>)"
    and o: "live b = live s" "\<And>u. ctx (thr b u) = ctx (thr s u)"
      "\<And>u. state (thr b u) = ST_LOCK_WAIT \<Longrightarrow> state (thr s u) = ST_LOCK_WAIT"
    and w: "\<And>u. u \<in> set (m_wait_q l) \<Longrightarrow> state (thr b u) = ST_LOCK_WAIT \<Longrightarrow> w \<noteq> None \<and> w \<noteq> Some u"
  shows "mutex_ok b"
  unfolding mutex_ok_def o(1,2)
proof (intro conjI allI impI ballI, goal_cases)
  case (1 m' l')
  then show ?case using mutex_okD(1) [OF c] q by (auto split: if_splits)
next
  case (2 m' l' u)
  then show ?case using q mutex_okD(2) [OF c, of m' l' u] mutex_okD(2) [OF c q(1), of u] by (auto split: if_splits)
next
  case (3 m' l' u)
  then show ?case using q w [of u] o(3) [of u] mutex_okD(3) [OF c, of m' l' u] by (auto split: if_splits)
next
  case (4 m' l' u)
  then show ?case using q w [of u] o(3) [of u] mutex_okD(3) [OF c, of m' l' u] by (auto split: if_splits)
next
  case (5 u m')
  then show ?case using q mutex_okD2 [OF c, of u m'] by (auto split: if_splits)
qed

end
