(* ===== verification/ST_VpInv.thy ===== *)
theory ST_VpInv
  imports ST_Block
begin

text \<open>
  The operations of \<open>sync.c\<close> keep the invariant of the virtual processor, and none of them
  fails an assertion or goes through a dangling pointer: each ends in a state in which some thread
  runs (\<open>vp_ok\<close>).
\<close>

section \<open>Between two steps\<close>

definition vp_ok :: "st \<Rightarrow> bool" where
  "vp_ok s \<longleftrightarrow> vp_inv (Some (this_thread s)) s \<and> idle_ok s"

lemma vp_okD: "vp_ok s \<Longrightarrow> vp_inv (Some (this_thread s)) s"
  by (simp add: vp_ok_def)

text \<open>The running thread executes code of its own.\<close>

definition in_user :: "st \<Rightarrow> bool" where
  "in_user s \<longleftrightarrow> vp_ok s \<and> ctx (thr s (this_thread s)) = K_run"

lemma in_userD:
  assumes "in_user s"
  shows "vp_inv (Some (this_thread s)) s" "ctx (thr s (this_thread s)) = K_run"
    "this_thread s \<noteq> idle_thread s" "this_thread s \<notin> set (io_q s)" "idle_ok s"
  using assms k_run_facts [of "this_thread s" s] by (auto simp: in_user_def vp_ok_def)

section \<open>Blocking\<close>

definition timed :: "tid \<Rightarrow> utime \<Rightarrow> st \<Rightarrow> st" where
  "timed t d b = (if d \<noteq> NO_TIMEOUT then set_due t d b else b)"

definition timed_set :: "tid \<Rightarrow> utime \<Rightarrow> tid set \<Rightarrow> tid set" where
  "timed_set t d T = (if d \<noteq> NO_TIMEOUT then insert t T else T)"

lemma timed_run:
  assumes "sleepq_is b T" "t \<notin> T"
  shows "\<exists>z. (if d \<noteq> NO_TIMEOUT then st_add_sleep_q t d b else Some b) = Some z \<and>
    sleepq_is z (timed_set t d T) \<and> noheap z = noheap (timed t d b)"
  using tq.add_law [OF assms, of d] assms(1) by (auto simp: timed_def timed_set_def)

lemma timed_parts [simp]:
  "thread_q (timed t d b) = thread_q b" "run_q (timed t d b) = run_q b" "zombie_q (timed t d b) = zombie_q b"
  "io_q (timed t d b) = io_q b" "pollqs (timed t d b) = pollqs b" "conds (timed t d b) = conds b"
  "mutexes (timed t d b) = mutexes b" "idle_thread (timed t d b) = idle_thread b"
  "active_count (timed t d b) = active_count b" "this_thread (timed t d b) = this_thread b"
  "state (thr (timed t d b) u) = state (thr b u)" "ctx (thr (timed t d b) u) = ctx (thr b u)"
  "term_cv (thr (timed t d b) u) = term_cv (thr b u)"
  "flags (thr (timed t d b) u) = (if u = t \<and> d \<noteq> NO_TIMEOUT then set_flag (flags (thr b t)) FL_ON_SLEEPQ else flags (thr b u))"
  "ev_part (timed t d b) = ev_part b"
  by (simp_all add: timed_def set_due_def ev_part_def)

lemma set_ctx_parts [simp]:
  "thread_q (set_ctx t k b) = thread_q b" "run_q (set_ctx t k b) = run_q b" "zombie_q (set_ctx t k b) = zombie_q b"
  "io_q (set_ctx t k b) = io_q b" "pollqs (set_ctx t k b) = pollqs b" "conds (set_ctx t k b) = conds b"
  "mutexes (set_ctx t k b) = mutexes b" "idle_thread (set_ctx t k b) = idle_thread b"
  "active_count (set_ctx t k b) = active_count b" "this_thread (set_ctx t k b) = this_thread b"
  "state (thr (set_ctx t k b) u) = state (thr b u)" "flags (thr (set_ctx t k b) u) = flags (thr b u)"
  "term_cv (thr (set_ctx t k b) u) = term_cv (thr b u)"
  "ctx (thr (set_ctx t k b) u) = (if u = t then k else ctx (thr b u))"
  "retval (thr (set_ctx t k b) u) = retval (thr b u)"
  "ev_part (set_ctx t k b) = ev_part b" "keys (set_ctx t k b) = keys b" "stks (set_ctx t k b) = stks b"
  by (simp_all add: set_ctx_def ev_part_def)

lemma set_state_parts [simp]:
  "thread_q (set_state t k b) = thread_q b" "run_q (set_state t k b) = run_q b" "zombie_q (set_state t k b) = zombie_q b"
  "io_q (set_state t k b) = io_q b" "pollqs (set_state t k b) = pollqs b" "conds (set_state t k b) = conds b"
  "mutexes (set_state t k b) = mutexes b" "idle_thread (set_state t k b) = idle_thread b"
  "active_count (set_state t k b) = active_count b" "this_thread (set_state t k b) = this_thread b"
  "ctx (thr (set_state t k b) u) = ctx (thr b u)" "flags (thr (set_state t k b) u) = flags (thr b u)"
  "term_cv (thr (set_state t k b) u) = term_cv (thr b u)"
  "state (thr (set_state t k b) u) = (if u = t then k else state (thr b u))"
  "retval (thr (set_state t k b) u) = retval (thr b u)"
  "ev_part (set_state t k b) = ev_part b" "keys (set_state t k b) = keys b" "stks (set_state t k b) = stks b"
  by (simp_all add: set_state_def ev_part_def)

lemma clauses_cong:
  assumes "thread_q b = thread_q s" "conds b = conds s" "mutexes b = mutexes s"
    "\<And>u. state (thr b u) = state (thr s u)" "\<And>u. ctx (thr b u) = ctx (thr s u)" "\<And>u. term_cv (thr b u) = term_cv (thr s u)"
  shows "cond_ok b = cond_ok s" "term_ok b = term_ok s" "join_ok b = join_ok s" "mutex_ok b = mutex_ok s"
  using assms by (simp_all add: cond_ok_def term_ok_def join_ok_def mutex_ok_def live_def)

lemma tok_sleeping:
  "tok cur i a b c pq st fl cx tc t \<Longrightarrow> st \<in> {ST_IO_WAIT, ST_COND_WAIT, ST_SLEEPING} \<Longrightarrow>
   tok cur i a b c pq st (set_flag fl FL_ON_SLEEPQ) cx tc t"
  by (cases st) (simp_all add: tok_def flag_simps)

text \<open>The thread picked next: the first of the run queue, or the idle thread.\<close>

definition next_thread :: "st \<Rightarrow> tid" where
  "next_thread s = (case run_q s of u # _ \<Rightarrow> u | [] \<Rightarrow> idle_thread s)"

lemma block_inv:
  assumes v: "vp_inv (Some t) s"
    and z: "sleepq_is z (timed_set t d (sleepers s))" "noheap z = noheap (timed t d b)"
    and o: "only_thread t s b" "flags (thr b t) = flags (thr s t)"
    and k: "thread_ok None (set_ctx t k b) t" "ctx (thr s t) \<noteq> K_zombie" "k \<noteq> K_zombie"
      "d \<noteq> NO_TIMEOUT \<Longrightarrow> state (thr b t) \<in> {ST_IO_WAIT, ST_COND_WAIT, ST_SLEEPING}"
    and c: "cond_ok (set_ctx t k b)" "term_ok (set_ctx t k b)" "join_ok (set_ctx t k b)" "mutex_ok (set_ctx t k b)"
  shows "\<exists>s'. ST_SWITCH_CONTEXT k t z = Some s' \<and> vp_ok s' \<and> ev_part s' = ev_part b \<and>
    this_thread s' = next_thread s"
proof -
  note R = running_facts [OF v]
  note O = o(1) [unfolded only_thread_def]
  let ?c = "set_ctx t k (timed t d b)"
  have n: "noheap (set_ctx t k z) = noheap ?c"
    using z(2) by (simp add: noheap_set_ctx)
  have "only_thread t s ?c"
    unfolding only_thread_def using O by simp
  moreover have "thread_ok None ?c t"
    using k(1) tok_sleeping k(4) by (cases "d = NO_TIMEOUT") (simp_all add: thread_ok_def)
  moreover have "cond_ok ?c" "term_ok ?c" "join_ok ?c" "mutex_ok ?c"
    using c clauses_cong [of ?c "set_ctx t k b"] by simp_all
  ultimately have "inv0 None ?c"
    using k(2,3) by (intro inv0_change [OF R(4)]) auto
  then have i: "inv0 None (set_ctx t k z)"
    by (simp add: inv0_same [OF n])
  have "u \<in> sleepers ?c \<longleftrightarrow> u \<in> timed_set t d (sleepers s)" for u
    using O o(2) R(1) by (cases "u = t") (auto simp: sleepers_def live_def timed_set_def flag_simps)
  then have sl: "sleepers (set_ctx t k z) = timed_set t d (sleepers s)"
    unfolding sleepers_same [OF n] by blast
  have "ev_part z = ev_part b" "run_q z = run_q s" "idle_thread z = idle_thread s"
    using ev_part_noheap [OF z(2)] noheap_eqD [OF z(2)] O by simp_all
  then show ?thesis
    using switch_inv [OF z(1) i sl] by (auto simp: vp_ok_def next_thread_def split: list.split)
qed


section \<open>Going on\<close>

text \<open>The thread switched to leaves its queue and runs again.\<close>

lemma go_on_inv:
  assumes v: "vp_inv (Some t) s" and h: "heap_part b = heap_part s"
    and o: "only_thread t s b" "flags (thr b t) = flags (thr s t)"
    and k: "thread_ok (Some t) b t" "ctx (thr s t) \<noteq> K_zombie" "ctx (thr b t) \<noteq> K_zombie"
    and c: "cond_ok b" "term_ok b" "join_ok b" "mutex_ok b"
  shows "vp_inv (Some t) b"
proof -
  note R = running_facts [OF v]
  have "inv0 (Some t) b"
    using k c by (intro inv0_change [OF R(4) o(1)]) auto
  moreover have "u \<in> sleepers b \<longleftrightarrow> u \<in> sleepers s" for u
    using o R(1) by (cases "u = t") (auto simp: sleepers_def live_def only_thread_def)
  then have "sleepers b = sleepers s" by blast
  ultimately show ?thesis
    using sleepq_is_frame [OF R(10) h] by (simp add: vp_inv_def)
qed

lemma idle_ok_cong:
  "idle_ok s \<Longrightarrow> this_thread b = this_thread s \<Longrightarrow> idle_thread b = idle_thread s \<Longrightarrow> run_q b = run_q s \<Longrightarrow> idle_ok b"
  by (simp add: idle_ok_def)

lemma switched_in_parts [simp]:
  "thread_q (switched_in b) = thread_q b" "run_q (switched_in b) = run_q b" "zombie_q (switched_in b) = zombie_q b"
  "io_q (switched_in b) = io_q b" "pollqs (switched_in b) = pollqs b" "conds (switched_in b) = conds b"
  "mutexes (switched_in b) = mutexes b" "idle_thread (switched_in b) = idle_thread b"
  "active_count (switched_in b) = active_count b" "this_thread (switched_in b) = this_thread b"
  "state (thr (switched_in b) u) = state (thr b u)" "flags (thr (switched_in b) u) = flags (thr b u)"
  "term_cv (thr (switched_in b) u) = term_cv (thr b u)"
  "ctx (thr (switched_in b) u) = (if u = this_thread b then K_run else ctx (thr b u))"
  "retval (thr (switched_in b) u) = retval (thr b u)"
  "ev_part (switched_in b) = ev_part b" "heap_part (switched_in b) = heap_part b"
  by (simp_all add: switched_in_def Let_def)

lemma only_thread_switched_in: "distinct (io_q s) \<Longrightarrow> only_thread (this_thread s) s (switched_in s)"
  by (simp add: only_thread_def)

text \<open>A thread that runs again is fine whatever queue it has left.\<close>

lemma tok_run:
  "tok (Some t) i a b c pq ST_RUNNING fl cx tc t \<Longrightarrow> t \<noteq> i \<Longrightarrow> tok (Some t) i a b False pq' ST_RUNNING fl K_run tc t"
  by (simp add: tok_def)

section \<open>The interrupt flag\<close>

text \<open>What \<open>check_interrupt\<close> asks of the rest of the function.\<close>

lemma ev_part_flags [simp]: "ev_part (clear_fl t f s) = ev_part s" "ev_part (set_fl t f s) = ev_part s"
  by (simp_all add: ev_part_def clear_fl_def set_fl_def)

lemma vp_ok_clear_fl: "vp_ok s \<Longrightarrow> f \<in> {FL_INTERRUPT, FL_TIMEDOUT} \<Longrightarrow> vp_ok (clear_fl t f s)"
  using clear_fl_inv [of "Some (this_thread s)" s f t] by (simp add: vp_ok_def idle_ok_def clear_fl_def)

lemma check_interrupt_run:
  assumes "vp_ok s" "Q (ev_part s)" "\<not> has_flag (flags (thr s (this_thread s))) FL_INTERRUPT \<Longrightarrow>
      \<exists>r s'. k s = Some (r, s') \<and> vp_ok s' \<and> Q (ev_part s')"
  shows "\<exists>r s'. check_interrupt k s = Some (r, s') \<and> vp_ok s' \<and> Q (ev_part s')"
  using assms vp_ok_clear_fl [of s FL_INTERRUPT] by (auto simp: check_interrupt_def Let_def)

text \<open>An operation that does its work: it returns or blocks, in a state with the invariant.\<close>

definition runs :: "('r \<times> st) option \<Rightarrow> st \<Rightarrow> bool" where
  "runs res s \<longleftrightarrow> (\<exists>r s'. res = Some (r, s') \<and> vp_ok s' \<and> ev_part s' = ev_part s)"

lemma runs_interrupt:
  assumes "vp_ok s" "\<not> has_flag (flags (thr s (this_thread s))) FL_INTERRUPT \<Longrightarrow> runs (k s) s"
  shows "runs (check_interrupt k s) s"
  using check_interrupt_run [of s "\<lambda>e. e = ev_part s" k] assms by (simp add: runs_def)

section \<open>Sleeping\<close>

lemma usleep_block:
  assumes u: "in_user s" and x: "x = (if d \<noteq> NO_TIMEOUT then ST_SLEEPING else ST_SUSPENDED)"
    and z: "sleepq_is z (timed_set (this_thread s) d (sleepers s))"
      "noheap z = noheap (timed (this_thread s) d (set_state (this_thread s) x s))"
  shows "\<exists>s'. ST_SWITCH_CONTEXT K_usleep (this_thread s) z = Some s' \<and> vp_ok s' \<and> ev_part s' = ev_part s"
proof -
  let ?t = "this_thread s" let ?b = "set_state (this_thread s) x s"
  let ?c = "set_ctx ?t K_usleep ?b"
  note U = in_userD [OF u]
  note R = running_facts [OF U(1)]
  have i: "cond_ok s" "term_ok s" "join_ok s" "mutex_ok s"
    using R(4) by (simp_all add: inv0_def)
  have x': "x = ST_SLEEPING \<or> x = ST_SUSPENDED" using x by simp
  have o: "same_others ?t s ?c" by (simp add: same_others_def live_def)
  have "cond_ok ?c"
    by (rule cond_ok_stay [OF i(1) o]) (use U in simp_all)
  moreover have "term_ok ?c" by (rule term_ok_step [OF i(2) o]) simp_all
  moreover have "join_ok ?c" by (rule join_ok_step [OF i(3) o]) simp_all
  moreover have "mutex_ok ?c" by (rule mutex_ok_stay [OF i(4) o]) (use U in simp_all)
  moreover have "thread_ok None ?c ?t"
    using R x' U by (auto simp: thread_ok_def tok_def)
  moreover have "only_thread ?t s ?b"
    using R(12) by (simp add: only_thread_def)
  ultimately have "\<exists>s'. ST_SWITCH_CONTEXT K_usleep ?t z = Some s' \<and> vp_ok s' \<and> ev_part s' = ev_part ?b \<and>
    this_thread s' = next_thread s"
    by (intro block_inv [OF U(1) z]) (use U x in auto)
  then show ?thesis by auto
qed

lemma usleep_runs: "in_user s \<Longrightarrow> runs (st_usleep d s) s"
proof -
  assume u: "in_user s"
  let ?t = "this_thread s" let ?x = "if d \<noteq> NO_TIMEOUT then ST_SLEEPING else ST_SUSPENDED"
  note R = running_facts [OF in_userD(1) [OF u]]
  have "sleepq_is (set_state ?t ?x s) (sleepers s)"
    by (rule sleepq_is_frame [OF R(10)]) simp
  then obtain z where z: "(if d \<noteq> NO_TIMEOUT then st_add_sleep_q ?t d (set_state ?t ?x s) else Some (set_state ?t ?x s)) = Some z"
      "sleepq_is z (timed_set ?t d (sleepers s))" "noheap z = noheap (timed ?t d (set_state ?t ?x s))"
    using timed_run [OF _ R(7)] by blast
  obtain s' where "ST_SWITCH_CONTEXT K_usleep ?t z = Some s'" "vp_ok s'" "ev_part s' = ev_part s"
    using usleep_block [OF u refl z(2,3)] by blast
  then show ?thesis
    unfolding st_usleep_def
    by (intro runs_interrupt) (use u z(1) in \<open>auto simp: in_user_def runs_def Let_def split: if_splits\<close>)
qed


text \<open>A thread resumes: \<open>b\<close> is the state once it has left its queue.\<close>

lemma resume_ok:
  assumes v: "vp_ok s" and k: "ctx (thr s (this_thread s)) \<noteq> K_zombie" "this_thread s \<noteq> idle_thread s"
    and o: "only_thread (this_thread s) s b" "heap_part b = heap_part s"
      "state (thr b (this_thread s)) = state (thr s (this_thread s))"
      "flags (thr b (this_thread s)) = flags (thr s (this_thread s))"
      "ctx (thr b (this_thread s)) = K_run" "this_thread s \<notin> set (io_q b)"
    and c: "cond_ok b" "mutex_ok b" "dom (conds b) = dom (conds s)"
  shows "vp_ok b \<and> in_user b"
proof -
  let ?t = "this_thread s"
  note V = vp_okD [OF v]
  note R = running_facts [OF V]
  note O = o(1) [unfolded only_thread_def]
  have i: "term_ok s" "join_ok s" using R(4) by (simp_all add: inv0_def)
  have st: "state (thr b u) = state (thr s u)" for u
    using O o(3) by (cases "u = ?t") simp_all
  have so: "same_others ?t s b"
    using O by (simp add: same_others_def live_def)
  have "thread_ok (Some ?t) b ?t"
    using R(3) O o k tok_run [of ?t "idle_thread s"] R(5) unfolding thread_ok_def by auto
  moreover have "term_ok b" by (rule term_ok_step [OF i(1) so c(3)]) (simp add: o)
  moreover have "join_ok b" by (rule join_ok_step [OF i(2) so]) (simp_all add: o)
  ultimately have "vp_inv (Some ?t) b"
    using c(1,2) k(1) o(5) by (intro go_on_inv [OF V o(2,1,4)]) simp_all
  then show ?thesis
    using v O o(5) by (simp add: vp_ok_def in_user_def idle_ok_def)
qed

lemma tok_kont:
  "tok cur i a b c pq st fl cx tc t \<Longrightarrow> t = i \<Longrightarrow> cx \<in> {K_start, K_idle}"
  "tok cur i a b c pq st fl cx tc t \<Longrightarrow> c \<Longrightarrow> cx = K_poll"
  by (simp_all add: tok_def)

lemma running_tok: "vp_ok s \<Longrightarrow> thread_ok (Some (this_thread s)) s (this_thread s)"
  using running_facts(3) vp_okD by blast

lemma not_idle:
  "vp_ok s \<Longrightarrow> ctx (thr s (this_thread s)) \<notin> {K_start, K_idle} \<Longrightarrow> this_thread s \<noteq> idle_thread s"
  using tok_kont(1) [OF running_tok [unfolded thread_ok_def]] by blast

lemma not_polling:
  "vp_ok s \<Longrightarrow> ctx (thr s (this_thread s)) \<noteq> K_poll \<Longrightarrow> this_thread s \<notin> set (io_q s)"
  using tok_kont(2) [OF running_tok [unfolded thread_ok_def]] by blast

lemma vp_ok_clauses:
  assumes "vp_ok s"
  shows "cond_ok s" "term_ok s" "join_ok s" "mutex_ok s" "distinct (io_q s)" "this_thread s \<in> live s"
  using running_facts(1,4,12) [of "this_thread s" s] assms by (simp_all add: vp_ok_def inv0_def)

lemma usleep_resume_runs:
  assumes v: "vp_ok s" and k: "ctx (thr s (this_thread s)) = K_usleep"
  shows "runs (st_usleep_resume s) s"
proof -
  note C = vp_ok_clauses [OF v]
  have so: "same_others (this_thread s) s (switched_in s)"
    by (simp add: same_others_def live_def)
  have "vp_ok (switched_in s) \<and> in_user (switched_in s)"
  proof (rule resume_ok [OF v])
    show "cond_ok (switched_in s)" by (rule cond_ok_stay [OF C(1) so]) (simp_all add: k)
    show "mutex_ok (switched_in s)" by (rule mutex_ok_stay [OF C(4) so]) (simp_all add: k)
  qed (use k not_idle [OF v] not_polling [OF v] C in \<open>simp_all add: only_thread_switched_in\<close>)
  moreover from this have "runs (check_interrupt (\<lambda>s. Some (Returned (Inr ()), s)) (switched_in s)) (switched_in s)"
    by (intro runs_interrupt) (simp_all add: runs_def)
  ultimately show ?thesis by (simp add: st_usleep_resume_def runs_def)
qed

section \<open>Condition variables\<close>

text \<open>A condition variable that the program may use: it exists and is not the one of a thread.\<close>

definition user_cond :: "st \<Rightarrow> cvid \<Rightarrow> bool" where
  "user_cond s c \<longleftrightarrow> conds s c \<noteq> None \<and> list_all (\<lambda>t. term_cv (thr s t) \<noteq> Some c) (thread_q s)"

lemma cond_wait_runs:
  assumes u: "in_user s" and c: "conds s c = Some q" and k: "cwait k = Some c" "k \<noteq> K_zombie"
    and kc: "k = K_cond c \<Longrightarrow> user_cond s c"
    and kj: "\<And>t. k = K_join t c \<Longrightarrow> t \<noteq> this_thread s \<and> t \<in> live s \<and> term_cv (thr s t) = Some c \<and>
       (ctx (thr s t) = K_zombie \<longrightarrow> state (thr s t) = ST_ZOMBIE) \<and> (\<forall>v c'. v \<in> live s \<longrightarrow> ctx (thr s v) \<noteq> K_join t c')"
  shows "runs (cond_wait_enter k c d s) s"
proof -
  let ?t = "this_thread s"
  let ?b = "(set_state ?t ST_COND_WAIT s)\<lparr>conds := (conds s)(c \<mapsto> q @ [?t])\<rparr>"
  let ?c = "set_ctx ?t k ?b"
  note U = in_userD [OF u]
  note R = running_facts [OF U(1)]
  have v: "vp_ok s" using u by (simp add: in_user_def)
  note C = vp_ok_clauses [OF v]
  have hp: "heap_part ?b = heap_part s" by simp
  have "sleepq_is ?b (sleepers s)"
    by (rule sleepq_is_frame [OF R(10) hp])
  then obtain z where z: "(if d \<noteq> NO_TIMEOUT then st_add_sleep_q ?t d ?b else Some ?b) = Some z"
      "sleepq_is z (timed_set ?t d (sleepers s))" "noheap z = noheap (timed ?t d ?b)"
    using timed_run [OF _ R(7)] by blast
  have o: "same_others ?t s ?c" by (simp add: same_others_def live_def)
  have kk: "k \<noteq> K_run" "k \<noteq> K_poll" "k \<noteq> K_dead" "k \<noteq> K_idle" "k \<noteq> K_mutex m" for m
    using k by auto
  have "cond_ok ?c"
    by (rule cond_ok_enter [OF C(1) o C(6) c]) (use U k in simp_all)
  moreover have "term_ok ?c"
    by (rule term_ok_step [OF C(2) o])
      (use k kc c in \<open>auto simp: user_cond_def list_all_iff live_def\<close>)
  moreover have "join_ok ?c"
  proof (cases "\<exists>t. k = K_join t c")
    case True
    then obtain t where t: "k = K_join t c" by blast
    show ?thesis
      by (rule join_ok_enter [OF C(3) o, of t c]) (use kj [OF t] t U(2) in simp_all)
  next
    case False
    then have "\<And>t c'. k \<noteq> K_join t c'" using k by auto
    then show ?thesis by (intro join_ok_step [OF C(3) o]) (use k in simp_all)
  qed
  moreover have "mutex_ok ?c"
    by (rule mutex_ok_stay [OF C(4) o]) (use U kk in simp_all)
  moreover have "thread_ok None ?c ?t"
    using R U k kk by (auto simp: thread_ok_def tok_def)
  moreover have "only_thread ?t s ?b"
    using R(12) by (simp add: only_thread_def)
  ultimately have "\<exists>s'. ST_SWITCH_CONTEXT k ?t z = Some s' \<and> vp_ok s' \<and> ev_part s' = ev_part ?b \<and>
    this_thread s' = next_thread s"
    using U k by (intro block_inv [OF U(1) z(2,3)]) simp_all
  then obtain s' where s': "ST_SWITCH_CONTEXT k ?t z = Some s'" "vp_ok s'" "ev_part s' = ev_part s"
    by auto
  have cs: "conds (set_state ?t ST_COND_WAIT s) c = Some q" using c by simp
  show ?thesis
    unfolding cond_wait_enter_def
    by (rule runs_interrupt [OF v]) (use z(1) s' cs in \<open>auto simp: runs_def Let_def split: if_splits\<close>)
qed


text \<open>After the wait: the thread leaves the queue and takes the flags down.\<close>

lemma flag_pair_ok:
  assumes "in_user b"
  shows "in_user (clear_fl t FL_TIMEDOUT b)" "in_user (clear_fl t FL_INTERRUPT b)"
  using assms vp_ok_clear_fl by (auto simp: in_user_def) (auto simp: clear_fl_def)

lemma cond_resume_user:
  assumes v: "vp_ok s" and k: "cwait (ctx (thr s (this_thread s))) = Some c"
  shows "\<exists>r s'. st_cond_timedwait_resume c s = Some (r, s') \<and> in_user s' \<and> ev_part s' = ev_part s \<and>
    this_thread s' = this_thread s \<and> thread_q s' = thread_q s \<and>
    (\<forall>t. t \<noteq> this_thread s \<longrightarrow> thr s' t = thr s t) \<and>
    (\<exists>q. conds s c = Some q \<and> conds s' = (conds s)(c \<mapsto> remove1 (this_thread s) q)) \<and>
    term_cv (thr s' (this_thread s)) = term_cv (thr s (this_thread s))"
proof -
  let ?t = "this_thread s"
  note C = vp_ok_clauses [OF v]
  have "conds s c \<noteq> None" using C(1,6) k unfolding cond_ok_def by blast
  then obtain q where q: "conds s c = Some q" by blast
  define b where "b = (switched_in s)\<lparr>conds := (conds s)(c \<mapsto> remove1 ?t q)\<rparr>"
  have so: "same_others ?t s b"
    by (simp add: same_others_def live_def b_def)
  have kk: "ctx (thr s ?t) \<noteq> K_poll" "ctx (thr s ?t) \<noteq> K_zombie" "ctx (thr s ?t) \<notin> {K_start, K_idle}"
      "ctx (thr s ?t) \<noteq> K_mutex m" for m
    using k by auto
  have "vp_ok b \<and> in_user b"
  proof (rule resume_ok [OF v kk(2) not_idle [OF v kk(3)]])
    show "cond_ok b"
      by (rule cond_ok_leave [OF C(1) so q]) (simp_all add: b_def k)
    show "mutex_ok b"
      by (rule mutex_ok_stay [OF C(4) so]) (simp_all add: b_def kk)
  qed (use kk not_polling [OF v] C q in \<open>auto simp: b_def only_thread_def\<close>)
  then have u: "in_user b" by simp
  define b1 where "b1 = (if has_flag (flags (thr b ?t)) FL_TIMEDOUT then clear_fl ?t FL_TIMEDOUT b else b)"
  define b2 where "b2 = (if has_flag (flags (thr b1 ?t)) FL_INTERRUPT then clear_fl ?t FL_INTERRUPT b1 else b1)"
  have "in_user b2" using u flag_pair_ok by (simp add: b1_def b2_def)
  moreover have "\<exists>r. st_cond_timedwait_resume c s = Some (r, b2)"
    using q by (auto simp: st_cond_timedwait_resume_def Let_def b1_def b2_def b_def split: if_splits)
  moreover have "ev_part b2 = ev_part s" "this_thread b2 = ?t" "thread_q b2 = thread_q s"
      "\<And>t. t \<noteq> ?t \<Longrightarrow> thr b2 t = thr s t" "conds b2 = (conds s)(c \<mapsto> remove1 ?t q)" "term_cv (thr b2 ?t) = term_cv (thr s ?t)"
    by (auto simp: b2_def b1_def b_def clear_fl_def switched_in_def Let_def set_ctx_def)
  ultimately show ?thesis using q by blast
qed

lemma cond_resume_runs:
  "vp_ok s \<Longrightarrow> ctx (thr s (this_thread s)) = K_cond c \<Longrightarrow> runs (st_cond_timedwait_resume c s) s"
  using cond_resume_user [of s c] by (auto simp: runs_def in_user_def)


section \<open>Waking several threads\<close>

text \<open>
  From \<open>s\<close> to \<open>s'\<close> the threads \<open>W\<close> were made runnable, in this order; those in \<open>T\<close> also got
  the flag \<open>FL_TIMEDOUT\<close>. Nothing else changed but the heap.
\<close>

definition woke :: "tid set \<Rightarrow> tid list \<Rightarrow> st \<Rightarrow> st \<Rightarrow> bool" where
  "woke T W s s' \<longleftrightarrow> run_q s' = run_q s @ W \<and> ev_part s' = ev_part s \<and> conds s' = conds s \<and>
     mutexes s' = mutexes s \<and> thread_q s' = thread_q s \<and> zombie_q s' = zombie_q s \<and>
     this_thread s' = this_thread s \<and> idle_thread s' = idle_thread s \<and> active_count s' = active_count s \<and>
     last_clock s' = last_clock s \<and> keys s' = keys s \<and> stks s' = stks s \<and>
     (\<forall>t. state (thr s' t) = (if t \<in> set W then ST_RUNNABLE else state (thr s t))) \<and>
     (\<forall>t. ctx (thr s' t) = ctx (thr s t) \<and> term_cv (thr s' t) = term_cv (thr s t) \<and>
        retval (thr s' t) = retval (thr s t) \<and> due (thr s' t) = due (thr s t)) \<and>
     (\<forall>t. has_flag (flags (thr s' t)) FL_INTERRUPT = has_flag (flags (thr s t)) FL_INTERRUPT) \<and>
     (\<forall>t. has_flag (flags (thr s' t)) FL_TIMEDOUT \<longleftrightarrow> has_flag (flags (thr s t)) FL_TIMEDOUT \<or> t \<in> T) \<and>
     (\<forall>t. has_flag (flags (thr s' t)) FL_ON_SLEEPQ \<longleftrightarrow> has_flag (flags (thr s t)) FL_ON_SLEEPQ \<and> t \<notin> set W)"

lemma woke_refl: "woke {} [] s s"
  by (simp add: woke_def)

lemma woke_trans: "woke T1 W1 s s1 \<Longrightarrow> woke T2 W2 s1 s2 \<Longrightarrow> woke (T1 \<union> T2) (W1 @ W2) s s2"
  unfolding woke_def by auto

lemma woke_one:
  assumes "noheap s1 = noheap (make_runnable t (unset_due t s))"
  shows "woke {} [t] s s1"
  using noheap_eqD [OF assms] ev_part_noheap [OF assms]
  by (simp add: woke_def make_runnable_def unset_due_def ST_ADD_RUNQ_def flag_simps) (simp add: set_state_def)

lemma woke_in_user:
  assumes "woke T W s s'" "vp_inv (Some (this_thread s)) s'" "in_user s"
  shows "in_user s'"
  using assms in_userD(2,3) [OF assms(3)] by (auto simp: woke_def in_user_def vp_ok_def idle_ok_def)

lemma signal_loop_run:
  assumes "vp_inv cur s" "set q \<subseteq> live s" "distinct q"
  shows "\<exists>s'. cond_signal_loop br q s = Some s' \<and> vp_inv cur s' \<and>
    woke {} (let w = filter (\<lambda>t. state (thr s t) = ST_COND_WAIT) q in if br then w else take 1 w) s s'"
  using assms
proof (induction q arbitrary: s)
  case (Cons t q)
  show ?case
  proof (cases "state (thr s t) = ST_COND_WAIT")
    case True
    have "t \<in> live s" "waiting (state (thr s t))" using Cons.prems True by (simp_all add: waiting_def)
    then obtain s1 where s1: "off_sleepq t s = Some s1" "vp_inv cur (make_runnable t s1)"
        "noheap (make_runnable t s1) = noheap (make_runnable t (unset_due t s))"
      using wake_simple_inv [OF Cons.prems(1)] by blast
    have w1: "woke {} [t] s (make_runnable t s1)" by (rule woke_one [OF s1(3)])
    then have "live (make_runnable t s1) = live s" by (simp add: woke_def live_def)
    then obtain s' where s': "cond_signal_loop br q (make_runnable t s1) = Some s'" "vp_inv cur s'"
        "woke {} (let w = filter (\<lambda>u. state (thr (make_runnable t s1) u) = ST_COND_WAIT) q in if br then w else take 1 w)
          (make_runnable t s1) s'"
      using Cons.IH [OF s1(2)] Cons.prems by auto
    have "filter (\<lambda>u. state (thr (make_runnable t s1) u) = ST_COND_WAIT) q = filter (\<lambda>u. state (thr s u) = ST_COND_WAIT) q"
      using w1 Cons.prems(3) by (intro filter_cong) (auto simp: woke_def)
    then show ?thesis
      using s1 s' w1 True woke_trans [OF w1 s'(3)] by (auto simp: Let_def)
  next
    case False
    then show ?thesis using Cons.IH [OF Cons.prems(1)] Cons.prems by auto
  qed
qed (simp add: woke_refl)

text \<open>\<open>st_cond_signal\<close> and \<open>st_cond_broadcast\<close> wake the first waiting thread, or all of them.\<close>

lemma signal_run:
  assumes v: "vp_inv cur s" and c: "conds s c = Some q"
  shows "\<exists>s'. cond_signal_gen br c s = Some s' \<and> vp_inv cur s' \<and>
    woke {} (let w = filter (\<lambda>t. state (thr s t) = ST_COND_WAIT) q in if br then w else take 1 w) s s'"
proof -
  have "cond_ok s" using v by (simp add: vp_inv_def inv0_def)
  then have "distinct q" "set q \<subseteq> live s" using c by (auto simp: cond_ok_def)
  then show ?thesis
    using signal_loop_run [OF v, of q br] c by (simp add: cond_signal_gen_def)
qed


section \<open>Objects that come and go\<close>

text \<open>A change of the owner of one mutex, or of the set of objects, by a running thread.\<close>

lemma in_user_objects:
  assumes u: "in_user s" and b: "b = s\<lparr>conds := cs, mutexes := ms\<rparr>"
    and c: "cond_ok b" "term_ok b" "mutex_ok b"
  shows "in_user b"
proof -
  note U = in_userD [OF u]
  note R = running_facts [OF U(1)]
  have bb: "thr b = thr s" "this_thread b = this_thread s" "run_q b = run_q s" "idle_thread b = idle_thread s"
      "heap_part b = heap_part s" "io_q b = io_q s" "pollqs b = pollqs s" "zombie_q b = zombie_q s"
      "thread_q b = thread_q s" "active_count b = active_count s"
    by (simp_all add: b)
  have o: "only_thread (this_thread s) s b" using R(12) by (simp add: only_thread_def bb)
  have "join_ok s" using R(4) by (simp add: inv0_def)
  then have j: "join_ok b" by (rule join_ok_mono) (simp_all add: live_def bb)
  have t: "thread_ok (Some (this_thread s)) b (this_thread s)" using R(3) by (simp add: thread_ok_def bb)
  have "ctx (thr s (this_thread s)) \<noteq> K_zombie" "ctx (thr b (this_thread s)) \<noteq> K_zombie"
    using U(2) by (simp_all add: bb)
  then have "vp_inv (Some (this_thread s)) b"
    by (intro go_on_inv [OF U(1) bb(5) o _ t _ _ c(1,2) j c(3)]) (simp_all add: bb)
  then show ?thesis using u by (simp add: in_user_def vp_ok_def idle_ok_def bb)
qed

lemma in_user_clauses:
  assumes "in_user s"
  shows "cond_ok s" "term_ok s" "join_ok s" "mutex_ok s" "distinct (io_q s)" "this_thread s \<in> live s"
  using vp_ok_clauses [of s] assms by (simp_all add: in_user_def)

lemma set_mutex_user:
  assumes u: "in_user s" and q: "mutexes s m = Some l"
    and w: "\<And>v. v \<in> set (m_wait_q l) \<Longrightarrow> state (thr s v) = ST_LOCK_WAIT \<Longrightarrow> w \<noteq> None \<and> w \<noteq> Some v"
  shows "in_user (set_mutex m (l\<lparr>owner := w\<rparr>) s)"
proof -
  note C = in_user_clauses [OF u]
  show ?thesis
  proof (rule in_user_objects [OF u, where cs = "conds s" and ms = "(mutexes s)(m \<mapsto> l\<lparr>owner := w\<rparr>)"])
    show "mutex_ok (set_mutex m (l\<lparr>owner := w\<rparr>) s)"
      by (rule mutex_ok_owner [OF C(4) q]) (use w in \<open>simp_all add: set_mutex_def live_def\<close>)
    show "cond_ok (set_mutex m (l\<lparr>owner := w\<rparr>) s)"
      using C(1) cond_ok_cong [of "set_mutex m (l\<lparr>owner := w\<rparr>) s" s] by (simp add: set_mutex_def live_def)
    show "term_ok (set_mutex m (l\<lparr>owner := w\<rparr>) s)"
      using C(2) term_ok_cong [of "set_mutex m (l\<lparr>owner := w\<rparr>) s" s] by (simp add: set_mutex_def live_def)
  qed (simp add: set_mutex_def)
qed

section \<open>Mutexes\<close>

lemma mutex_lock_runs:
  assumes u: "in_user s" and m: "mutexes s m = Some l"
  shows "runs (st_mutex_lock m s) s"
proof -
  let ?t = "this_thread s"
  note U = in_userD [OF u]
  note R = running_facts [OF U(1)]
  note C = in_user_clauses [OF u]
  have v: "vp_ok s" using u by (simp add: in_user_def)
  have waits: "\<exists>s'. ST_SWITCH_CONTEXT (K_mutex m) ?t (set_mutex m (l\<lparr>m_wait_q := m_wait_q l @ [?t]\<rparr>) (set_state ?t ST_LOCK_WAIT s)) = Some s' \<and>
      vp_ok s' \<and> ev_part s' = ev_part s"
    if o: "owner l \<noteq> None" "owner l \<noteq> Some ?t"
  proof -
    let ?b = "set_mutex m (l\<lparr>m_wait_q := m_wait_q l @ [?t]\<rparr>) (set_state ?t ST_LOCK_WAIT s)"
    let ?c = "set_ctx ?t (K_mutex m) ?b"
    have bp: "thread_q ?b = thread_q s" "run_q ?b = run_q s" "zombie_q ?b = zombie_q s" "idle_thread ?b = idle_thread s"
        "active_count ?b = active_count s" "this_thread ?b = this_thread s" "io_q ?b = io_q s" "pollqs ?b = pollqs s"
        "conds ?b = conds s" "mutexes ?b = (mutexes s)(m \<mapsto> l\<lparr>m_wait_q := m_wait_q l @ [?t]\<rparr>)"
        "thr ?b = thr (set_state ?t ST_LOCK_WAIT s)" "ev_part ?b = ev_part s" "heap_part ?b = heap_part s"
      by (simp_all add: set_mutex_def)
    have so: "same_others ?t s ?c" by (simp add: same_others_def live_def bp)
    have h: "sleepq_is ?b (timed_set ?t NO_TIMEOUT (sleepers s))"
      using sleepq_is_frame [OF R(10), of ?b] by (simp add: bp timed_set_def)
    have "cond_ok ?c" by (rule cond_ok_stay [OF C(1) so]) (use U in \<open>simp_all add: bp\<close>)
    moreover have "term_ok ?c" by (rule term_ok_step [OF C(2) so]) (simp_all add: bp)
    moreover have "join_ok ?c" by (rule join_ok_step [OF C(3) so]) simp_all
    moreover have "mutex_ok ?c"
      by (rule mutex_ok_enter [OF C(4) so C(6) m _ o]) (use U in \<open>simp_all add: bp\<close>)
    moreover have "thread_ok None ?c ?t"
      using R U by (auto simp: thread_ok_def tok_def bp)
    moreover have "only_thread ?t s ?b"
      using R(12) by (simp add: only_thread_def bp)
    ultimately have "\<exists>s'. ST_SWITCH_CONTEXT (K_mutex m) ?t ?b = Some s' \<and> vp_ok s' \<and> ev_part s' = ev_part ?b \<and>
        this_thread s' = next_thread s"
      using U by (intro block_inv [OF U(1) h]) (simp_all add: timed_def bp)
    then show ?thesis by (auto simp: bp)
  qed
  have take: "vp_ok (set_mutex m (l\<lparr>owner := Some ?t\<rparr>) s)" if "owner l = None"
    using set_mutex_user [OF u m, of "Some ?t"] mutex_okD(3) [OF C(4) m] that by (auto simp: in_user_def)
  have e: "ev_part (set_mutex m x s) = ev_part s" for x by (simp add: set_mutex_def)
  have "set_mutex m x (set_state ?t ST_LOCK_WAIT s) = set_mutex m x (set_state ?t ST_LOCK_WAIT s)" for x by simp
  show ?thesis
    unfolding st_mutex_lock_def
    by (rule runs_interrupt [OF v]) (use m waits take e v in \<open>auto simp: runs_def Let_def\<close>)
qed

lemma mutex_resume_user:
  assumes v: "vp_ok s" and k: "ctx (thr s (this_thread s)) = K_mutex m"
  shows "\<exists>r s'. st_mutex_lock_resume m s = Some (r, s') \<and> in_user s' \<and> ev_part s' = ev_part s"
proof -
  let ?t = "this_thread s"
  note C = vp_ok_clauses [OF v]
  obtain l where m: "mutexes s m = Some l" using mutex_okD2 [OF C(4,6) k] by blast
  define b where "b = set_mutex m (l\<lparr>m_wait_q := remove1 ?t (m_wait_q l)\<rparr>) (switched_in s)"
  have bp: "thread_q b = thread_q s" "run_q b = run_q s" "zombie_q b = zombie_q s" "idle_thread b = idle_thread s"
      "active_count b = active_count s" "this_thread b = this_thread s" "io_q b = io_q s" "pollqs b = pollqs s"
      "conds b = conds s" "mutexes b = (mutexes s)(m \<mapsto> l\<lparr>m_wait_q := remove1 ?t (m_wait_q l)\<rparr>)"
      "thr b = thr (switched_in s)" "ev_part b = ev_part s" "heap_part b = heap_part s"
    by (simp_all add: set_mutex_def b_def)
  have so: "same_others ?t s b" by (simp add: same_others_def live_def bp)
  have "vp_ok b \<and> in_user b"
  proof (rule resume_ok [OF v])
    show "cond_ok b" by (rule cond_ok_stay [OF C(1) so]) (simp_all add: bp k)
    show "mutex_ok b" by (rule mutex_ok_leave [OF C(4) so m]) (simp_all add: bp k)
  qed (use k not_idle [OF v] not_polling [OF v] C in \<open>simp_all add: bp only_thread_def\<close>)
  then show ?thesis
    using m flag_pair_ok(2) [of b ?t] by (auto simp: st_mutex_lock_resume_def Let_def b_def [symmetric] bp)
qed

lemma mutex_resume_runs:
  "vp_ok s \<Longrightarrow> ctx (thr s (this_thread s)) = K_mutex m \<Longrightarrow> runs (st_mutex_lock_resume m s) s"
  using mutex_resume_user [of s m] by (auto simp: runs_def in_user_def)

lemma unlock_loop_eq:
  "unlock_loop m l q s = (case filter (\<lambda>t. state (thr s t) = ST_LOCK_WAIT) q of
      [] \<Rightarrow> set_mutex m (l\<lparr>owner := None\<rparr>) s
    | t # _ \<Rightarrow> make_runnable t (set_mutex m (l\<lparr>owner := Some t\<rparr>) s))"
  by (induction q) auto

lemma unlock_run:
  assumes u: "in_user s" and m: "mutexes s m = Some l"
  shows "in_user (unlock_loop m l (m_wait_q l) s) \<and> ev_part (unlock_loop m l (m_wait_q l) s) = ev_part s"
proof (cases "filter (\<lambda>t. state (thr s t) = ST_LOCK_WAIT) (m_wait_q l)")
  case Nil
  then show ?thesis
    using set_mutex_user [OF u m, of None]
    by (auto simp: unlock_loop_eq filter_empty_conv) (simp add: set_mutex_def)
next
  case (Cons t q)
  note U = in_userD [OF u]
  note C = in_user_clauses [OF u]
  have t: "t \<in> set (m_wait_q l)" "state (thr s t) = ST_LOCK_WAIT"
    using filter_eq_ConsD [OF Cons] by fastforce+
  then have tl: "t \<in> live s" and w: "waiting (state (thr s t))"
    using mutex_okD(2) [OF C(4) m] by (simp_all add: waiting_def)
  let ?a = "set_mutex m (l\<lparr>owner := Some t\<rparr>) s"
  have tk: "thread_ok (Some (this_thread s)) s t" using U(1) tl by (simp add: vp_inv_def inv0_def)
  have nf: "\<not> has_flag (flags (thr ?a t)) FL_ON_SLEEPQ"
    using thread_ok_state(6) [OF tk] t(2) by (auto simp: set_mutex_def)
  have "\<exists>s1. off_sleepq t ?a = Some s1 \<and> vp_inv (Some (this_thread s)) (make_runnable t s1) \<and>
    noheap (make_runnable t s1) = noheap (make_runnable t (unset_due t ?a))"
  proof (rule wake_inv [OF U(1) tl w])
    show "sim_io s ?a" by (simp add: sim_io_def set_mutex_def)
    show "distinct (io_q ?a)" using C(5) by (simp add: set_mutex_def)
    show "t \<in> set (io_q ?a) \<longleftrightarrow> ctx (thr s t) = K_poll \<and> on_ioq (pollqs ?a t)"
      using thread_ok_state(8) [OF tk] by (simp add: set_mutex_def)
    show "mutex_ok (set_state t ST_RUNNABLE ?a)"
      by (rule mutex_ok_owner [OF C(4) m, of _ "Some t"]) (auto simp: set_mutex_def live_def split: if_splits)
  qed (simp_all add: set_mutex_def)
  then have "vp_inv (Some (this_thread s)) (make_runnable t ?a)"
    using nf by (simp add: off_sleepq_def)
  then show ?thesis
    using Cons u U by (simp add: unlock_loop_eq in_user_def vp_ok_def idle_ok_def make_runnable_def ST_ADD_RUNQ_def set_mutex_def)
qed

end
