(* ===== verification/ST_VpThreads.thy ===== *)
theory ST_VpThreads
  imports ST_VpInv
begin

text \<open>
  The operations of \<open>sched.c\<close> keep the invariant: the clock check, interruption, creation, exit and
  join of threads. What the clock check does is \<open>check_clock_run\<close>: exactly the threads that are due
  wake, in the order of their times.
\<close>

section \<open>The clock\<close>

lemma set_fl_make_runnable: "make_runnable t (set_fl t f s) = set_fl t f (make_runnable t s)"
  by (rule st.equality) (auto simp: make_runnable_def set_state_def set_fl_def ST_ADD_RUNQ_def)

lemma woke_set_fl:
  assumes "woke T W s s'"
  shows "woke (insert t T) W s (set_fl t FL_TIMEDOUT s')"
  using assms unfolding woke_def set_fl_thr by (auto simp: flag_simps set_fl_def)

lemma finite_sleepers: "finite (sleepers s)"
  by (simp add: sleepers_def live_def)

definition expired :: "utime \<Rightarrow> st \<Rightarrow> tid set" where
  "expired now s = {t \<in> sleepers s. due (thr s t) \<le> now}"

lemma sleeper_facts:
  assumes "vp_inv cur s" "t \<in> sleepers s"
  shows "t \<in> live s" "has_flag (flags (thr s t)) FL_ON_SLEEPQ" "waiting (state (thr s t))"
    "\<not> has_flag (flags (thr s t)) FL_IDLE_THREAD"
proof -
  show t: "t \<in> live s" "has_flag (flags (thr s t)) FL_ON_SLEEPQ"
    using assms(2) by (simp_all add: sleepers_def)
  then have k: "thread_ok cur s t" using assms(1) by (simp add: vp_inv_def inv0_def)
  show w: "waiting (state (thr s t))"
    using thread_ok_state(6) [OF k t(2)] by (auto simp: waiting_def)
  show "\<not> has_flag (flags (thr s t)) FL_IDLE_THREAD"
    using thread_ok_state(7) [OF k] thread_ok_waiting(3) [OF k w] by simp
qed

lemma check_clock_loop_run:
  assumes "vp_inv cur s"
  shows "\<exists>s' W. check_clock_loop now s = Some s' \<and> vp_inv cur s' \<and> set W = expired now s \<and> distinct W \<and>
    sorted (map (\<lambda>t. due (thr s t)) W) \<and> woke {t \<in> set W. state (thr s t) = ST_COND_WAIT} W s s'"
  using assms
proof (induction "card (sleepers s)" arbitrary: s rule: less_induct)
  case less
  have h: "sleepq_is s (sleepers s)" using less.prems by (simp add: vp_inv_def)
  show ?case
  proof (cases "sleep_q s")
    case None
    then have "sleepers s = {}" using tq.peek_empty [OF h] by simp
    then show ?thesis
      using None less.prems woke_refl by (intro exI [of _ s] exI [of _ "[]"]) (simp add: check_clock_loop.simps expired_def)
  next
    case (Some t)
    have t: "t \<in> sleepers s" and tmin: "\<And>u. u \<in> sleepers s \<Longrightarrow> due (thr s t) \<le> due (thr s u)"
      using tq.peek_min [OF h Some] by auto
    note F = sleeper_facts [OF less.prems t]
    show ?thesis
    proof (cases "now < due (thr s t)")
      case True
      have "expired now s = {}"
        using tq.nothing_due [OF h Some True] by (auto simp: expired_def not_le)
      then show ?thesis
        using Some True F(2) less.prems woke_refl
        by (intro exI [of _ s] exI [of _ "[]"]) (simp add: check_clock_loop.simps)
    next
      case False
      obtain s1 where s1: "st_del_sleep_q t s = Some s1" "vp_inv cur (make_runnable t s1)"
          "noheap (make_runnable t s1) = noheap (make_runnable t (unset_due t s))"
        using wake_simple_inv [OF less.prems F(1,3)] F(2) by (auto simp: off_sleepq_def)
      define C where "C \<longleftrightarrow> state (thr s t) = ST_COND_WAIT"
      define s2 where "s2 = make_runnable t (if C then set_fl t FL_TIMEDOUT s1 else s1)"
      have w1: "woke {} [t] s (make_runnable t s1)" by (rule woke_one [OF s1(3)])
      have w2: "woke (if C then {t} else {}) [t] s s2"
        using w1 woke_set_fl [OF w1, of t] by (simp add: s2_def set_fl_make_runnable)
      have v2: "vp_inv cur s2"
        using s1(2) set_fl_inv [OF s1(2), of FL_TIMEDOUT t] by (simp add: s2_def set_fl_make_runnable)
      have sl: "sleepers s2 = sleepers s - {t}"
        using w2 by (auto simp: sleepers_def live_def woke_def)
      have du: "due (thr s2 u) = due (thr s u)" for u using w2 by (simp add: woke_def)
      have st2: "state (thr s2 u) = (if u = t then ST_RUNNABLE else state (thr s u))" for u
        using w2 by (simp add: woke_def)
      have "card (sleepers s2) < card (sleepers s)"
        unfolding sl by (rule card_Diff1_less [OF finite_sleepers t])
      then obtain s' W where W: "check_clock_loop now s2 = Some s'" "vp_inv cur s'" "set W = expired now s2" "distinct W"
          "sorted (map (\<lambda>t. due (thr s2 t)) W)" "woke {t \<in> set W. state (thr s2 t) = ST_COND_WAIT} W s2 s'"
        using less.hyps [OF _ v2] by blast
      have eW: "set W = expired now s - {t}"
        using W(3) by (auto simp: expired_def sl du)
      have st1: "state (thr s1 t) = state (thr s t)"
        using tq.del_law [OF h t] s1(1) noheap_eqD [of s1 "unset_due t s"] by (auto simp: unset_due_def)
      have fl2: "\<not> has_flag (flags (thr (if C then set_fl t FL_TIMEDOUT s1 else s1) t)) FL_IDLE_THREAD"
        using tq.del_law [OF h t] s1(1) noheap_eqD [of s1 "unset_due t s"] F(4)
        by (auto simp: unset_due_def flag_simps)
      have "check_clock_loop now s = Some s'"
        using Some False F(2) s1(1) W(1) fl2 st1
        by (subst check_clock_loop.simps) (simp add: Let_def s2_def C_def)
      moreover have "woke {u \<in> set (t # W). state (thr s u) = ST_COND_WAIT} (t # W) s s'"
      proof -
        have tW: "t \<notin> set W" by (simp add: eW)
        have "state (thr s2 u) = state (thr s u)" if "u \<in> set W" for u
          using that tW by (metis st2)
        then have "(if C then {t} else {}) \<union> {u \<in> set W. state (thr s2 u) = ST_COND_WAIT} =
            {u \<in> set (t # W). state (thr s u) = ST_COND_WAIT}"
          by (cases C) (auto simp: C_def)
        then show ?thesis using woke_trans [OF w2 W(6)] by simp
      qed
      moreover have "set (t # W) = expired now s"
      proof -
        have "t \<in> expired now s" using False t by (simp add: expired_def)
        then show ?thesis by (simp add: eW insert_absorb)
      qed
      moreover have "distinct (t # W)" using W(4) eW by simp
      moreover have "sorted (map (\<lambda>u. due (thr s u)) (t # W))"
      proof -
        have "due (thr s t) \<le> due (thr s u)" if "u \<in> set W" for u
          using that tmin unfolding eW by (simp add: expired_def)
        then show ?thesis using W(5) by (simp add: du)
      qed
      ultimately show ?thesis using W(2) by blast
    qed
  qed
qed


text \<open>What \<open>st_vp_check_clock\<close> itself writes before the loop.\<close>

definition at_time :: "utime \<Rightarrow> int \<Rightarrow> st \<Rightarrow> st" where
  "at_time now time_now s = refresh_time now time_now (s\<lparr>last_clock := now\<rparr>)"

lemma at_time_parts [simp]:
  "thr (at_time n m s) = thr s" "thread_q (at_time n m s) = thread_q s" "run_q (at_time n m s) = run_q s"
  "zombie_q (at_time n m s) = zombie_q s" "io_q (at_time n m s) = io_q s" "pollqs (at_time n m s) = pollqs s"
  "conds (at_time n m s) = conds s" "mutexes (at_time n m s) = mutexes s" "idle_thread (at_time n m s) = idle_thread s"
  "active_count (at_time n m s) = active_count s" "this_thread (at_time n m s) = this_thread s"
  "sleep_q (at_time n m s) = sleep_q s" "sleepq_size (at_time n m s) = sleepq_size s"
  "ev_part (at_time n m s) = ev_part s" "last_clock (at_time n m s) = n" "keys (at_time n m s) = keys s"
  "stks (at_time n m s) = stks s" "sleepers (at_time n m s) = sleepers s" "expired x (at_time n m s) = expired x s"
  by (simp_all add: at_time_def refresh_time_def sleepers_def live_def expired_def)

lemma check_clock_run:
  assumes "vp_inv cur s"
  shows "\<exists>s' W. st_vp_check_clock now time_now s = Some s' \<and> vp_inv cur s' \<and> set W = expired now s \<and> distinct W \<and>
    sorted (map (\<lambda>t. due (thr s t)) W) \<and>
    woke {t \<in> set W. state (thr s t) = ST_COND_WAIT} W (at_time now time_now s) s'"
proof -
  have "vp_inv cur (at_time now time_now s)"
    by (rule vp_inv_cong [OF _ _ _ _ _ _ _ _ _ _ _ _ _ assms]) simp_all
  then show ?thesis
    using check_clock_loop_run [of cur "at_time now time_now s" now]
    by (simp add: st_vp_check_clock_def at_time_def [symmetric])
qed

section \<open>Interruption\<close>

lemma interrupt_run:
  assumes u: "in_user s" and t: "t \<in> live s"
  shows "\<exists>s'. st_thread_interrupt t s = Some s' \<and> in_user s' \<and> ev_part s' = ev_part s"
proof -
  note U = in_userD [OF u]
  let ?s1 = "set_fl t FL_INTERRUPT s"
  have v1: "vp_inv (Some (this_thread s)) ?s1" by (rule set_fl_inv [OF U(1)]) simp
  have u1: "in_user ?s1"
    using u v1 by (auto simp: in_user_def vp_ok_def idle_ok_def set_fl_def)
  have st1: "state (thr ?s1 t) = state (thr s t)" by simp
  consider "state (thr s t) = ST_ZOMBIE" | "state (thr s t) \<in> {ST_RUNNING, ST_RUNNABLE}" | "waiting (state (thr s t))"
    by (cases "state (thr s t)") (auto simp: waiting_def)
  then show ?thesis
  proof cases
    case 1
    then show ?thesis using u by (simp add: st_thread_interrupt_def)
  next
    case 2
    then show ?thesis using u1 by (auto simp: st_thread_interrupt_def Let_def)
  next
    case 3
    have "t \<in> live ?s1" "waiting (state (thr ?s1 t))" using t 3 by (simp_all add: live_def set_fl_def)
    then obtain s2 where s2: "off_sleepq t ?s1 = Some s2" "vp_inv (Some (this_thread s)) (make_runnable t s2)"
        "noheap (make_runnable t s2) = noheap (make_runnable t (unset_due t ?s1))"
      using wake_simple_inv [OF v1] by blast
    have w: "woke {} [t] ?s1 (make_runnable t s2)" by (rule woke_one [OF s2(3)])
    have "in_user (make_runnable t s2)"
      by (rule woke_in_user [OF w _ u1]) (use s2(2) in \<open>simp add: set_fl_def\<close>)
    moreover have "ev_part (make_runnable t s2) = ev_part s" using w by (simp add: woke_def)
    ultimately show ?thesis
      using 3 s2(1) by (auto simp: st_thread_interrupt_def Let_def waiting_def)
  qed
qed

section \<open>Creation\<close>

text \<open>The address that the thread object will have.\<close>

definition create_addr :: "create_env \<Rightarrow> int \<Rightarrow> st \<Rightarrow> tid option" where
  "create_addr e stk_sz s =
     (case st_stack_new (adjust_stk_size (pagesize s) stk_sz) (ce_stack e) (ce_segment e) (ce_random e) s of
        (None, _) \<Rightarrow> None
      | (Some ts, s1) \<Rightarrow> Some (nat (l_thread (carve_stack (ce_size_thread e) (stk_top (stk_of (stks s1) ts))))))"

text \<open>The heap only looks at the threads in it.\<close>

lemma sleepq_is_local:
  assumes "sleepq_is s T" "sleep_q s' = sleep_q s" "sleepq_size s' = sleepq_size s"
    "\<And>t. t \<in> T \<Longrightarrow> thr s' t = thr s t"
  shows "sleepq_is s' T"
proof -
  obtain t where t: "sleepq_tree s t" "set_tree t = T" using assms(1) by (auto simp: sleepq_is_def)
  note S = t(1) [unfolded sleepq_tree_def]
  have "ptree s' Root t"
  proof (rule ptree_cong)
    show "ptree s Root t" using S by simp
    show "rd_loc s' l = rd_loc s l" if "owner_of l \<inter> set_tree t \<noteq> {}" for l
      using that assms(2,4) t(2) by (cases l) (auto simp: rd_loc.simps simp del: rd_left rd_right)
  qed (simp add: assms(2) rd_loc.simps)
  moreover have "hp (\<lambda>a. due (thr s' a)) t" by (rule hp_cong [of "\<lambda>a. due (thr s a)"]) (use S assms(4) t(2) in auto)
  moreover have "numbered (hidx s') 1 t" by (rule numbered_cong [of "hidx s"]) (use S assms(4) t(2) in \<open>auto simp: hidx_def\<close>)
  ultimately show ?thesis
    using S t(2) assms(3) by (auto simp: sleepq_is_def sleepq_tree_def)
qed

text \<open>So do the clauses of the invariant with the threads that exist.\<close>

lemma clauses_live:
  assumes "live b = live s" "conds b = conds s" "mutexes b = mutexes s" "idle_thread b = idle_thread s"
    "active_count b = active_count s" "\<And>t. t \<in> live s \<Longrightarrow> thr b t = thr s t"
  shows "cond_ok b = cond_ok s" "term_ok b = term_ok s" "join_ok b = join_ok s" "mutex_ok b = mutex_ok s"
    "count_ok b = count_ok s"
proof -
  have P: "t \<in> live s \<and> Q (thr b t) \<longleftrightarrow> t \<in> live s \<and> Q (thr s t)" for t Q
    using assms(6) by auto
  show "cond_ok b = cond_ok s"
    unfolding cond_ok_def assms(1,2) using P [of _ "\<lambda>z. cwait (ctx z) = _"] assms(6) by (simp cong: imp_cong)
  show "term_ok b = term_ok s"
    unfolding term_ok_def assms(1,2) using assms(6) by (simp cong: imp_cong)
  show "join_ok b = join_ok s"
    unfolding join_ok_def assms(1,2) using assms(6) by (simp cong: imp_cong conj_cong)
  show "count_ok b = count_ok s"
    unfolding count_ok_def assms(1,4,5) using assms(6) by (simp cong: conj_cong)
  have M: "(\<forall>t\<in>set (m_wait_q l). state (thr b t) = ST_LOCK_WAIT \<longrightarrow> owner l \<noteq> None \<and> owner l \<noteq> Some t) =
      (\<forall>t\<in>set (m_wait_q l). state (thr s t) = ST_LOCK_WAIT \<longrightarrow> owner l \<noteq> None \<and> owner l \<noteq> Some t)"
    if "\<forall>t. t \<in> set (m_wait_q l) \<longleftrightarrow> t \<in> live s \<and> ctx (thr s t) = K_mutex m" for l m
    using that assms(6) by simp
  show "mutex_ok b = mutex_ok s"
    unfolding mutex_ok_def assms(1,3) using assms(6) M by (simp cong: imp_cong conj_cong)
qed


lemma in_user_stks:
  assumes u: "in_user s" and b: "thread_q b = thread_q s" "run_q b = run_q s" "zombie_q b = zombie_q s" "io_q b = io_q s"
      "pollqs b = pollqs s" "conds b = conds s" "mutexes b = mutexes s" "idle_thread b = idle_thread s"
      "active_count b = active_count s" "this_thread b = this_thread s" "sleep_q b = sleep_q s" "sleepq_size b = sleepq_size s"
    and g: "\<And>t. t \<in> live s \<Longrightarrow> thr b t = thr s t"
  shows "in_user b"
proof -
  note U = in_userD [OF u]
  note R = running_facts [OF U(1)]
  note C = in_user_clauses [OF u]
  have L: "live b = live s" by (simp add: live_def b)
  have "thread_ok cur b t = thread_ok cur s t" if "t \<in> live s" for cur t
    using that by (simp add: thread_ok_def b g)
  moreover have "cond_ok b" "term_ok b" "join_ok b" "mutex_ok b" "count_ok b"
    using clauses_live [of b s, OF L b(6,7,8,9) g] C R(4) by (simp_all add: inv0_def)
  ultimately have "inv0 (Some (this_thread s)) b"
    using R(4) by (simp add: inv0_def queues_ok_def b L)
  moreover have "sleepers b = sleepers s" using g by (auto simp: sleepers_def L)
  moreover have "sleepq_is b (sleepers s)"
    by (rule sleepq_is_local [OF R(10) b(11,12)]) (use g in \<open>simp add: sleepers_def\<close>)
  ultimately show ?thesis using u by (simp add: in_user_def vp_ok_def vp_inv_def idle_ok_def b g C)
qed

text \<open>A new thread on the run queue, with or without a termination condition variable.\<close>

lemma in_user_new_thread:
  assumes u: "in_user s" and t: "t \<notin> live s"
    and b: "thread_q b = thread_q s @ [t]" "run_q b = run_q s @ [t]" "zombie_q b = zombie_q s" "io_q b = io_q s"
      "pollqs b = pollqs s" "mutexes b = mutexes s" "idle_thread b = idle_thread s"
      "active_count b = active_count s + 1" "this_thread b = this_thread s" "sleep_q b = sleep_q s" "sleepq_size b = sleepq_size s"
    and g: "\<And>v. v \<in> live s \<Longrightarrow> thr b v = thr s v"
    and n: "state (thr b t) = ST_RUNNABLE" "flags (thr b t) = 0" "ctx (thr b t) = K_start"
    and c: "conds b = (case term_cv (thr b t) of None \<Rightarrow> conds s | Some c \<Rightarrow> (conds s)(c \<mapsto> []))"
      "\<And>c. term_cv (thr b t) = Some c \<Longrightarrow> conds s c = None"
  shows "in_user b"
proof -
  note U = in_userD [OF u]
  note R = running_facts [OF U(1)]
  note C = in_user_clauses [OF u]
  have L: "live b = insert t (live s)" by (simp add: live_def b)
  have q: "queues_ok (Some (this_thread s)) s" and T: "\<And>v. v \<in> live s \<Longrightarrow> thread_ok (Some (this_thread s)) s v"
    using R(4) by (simp_all add: inv0_def)
  have Q: "idle_thread s \<noteq> t" "this_thread s \<noteq> t" "t \<notin> set (run_q s)" "t \<notin> set (zombie_q s)" "t \<notin> set (io_q s)"
    using q t by (auto simp: queues_ok_def)
  have cx: "v \<in> live b \<and> ctx (thr b v) = k \<longleftrightarrow> v \<in> live s \<and> ctx (thr s v) = k" if "k \<noteq> K_start" for v k
    using that n(3) t g unfolding L by (cases "v = t") auto
  have cw: "v \<in> live b \<and> cwait (ctx (thr b v)) = Some k \<longleftrightarrow> v \<in> live s \<and> cwait (ctx (thr s v)) = Some k" for v k
    using n(3) t g unfolding L by (cases "v = t") auto
  have cd: "conds b k = (if term_cv (thr b t) = Some k then Some [] else conds s k)" for k
    using c(1) by (cases "term_cv (thr b t)") auto
  have no: "\<not> (v \<in> live s \<and> cwait (ctx (thr s v)) = Some k)" if "term_cv (thr b t) = Some k" for v k
    using C(1) c(2) [OF that] unfolding cond_ok_def by blast
  have "queues_ok (Some (this_thread s)) b"
    using q t Q by (auto simp: queues_ok_def L b live_def [of s])
  moreover have "thread_ok (Some (this_thread s)) b v" if "v \<in> live b" for v
  proof (cases "v = t")
    case True
    then show ?thesis using Q n by (simp add: thread_ok_def tok_def b)
  next
    case False
    then have v: "v \<in> live s" using that L by simp
    show ?thesis by (rule thread_ok_other [OF T [OF v]]) (use False g [OF v] in \<open>simp_all add: b\<close>)
  qed
  moreover have "cond_ok b"
    unfolding cond_ok_def
  proof (intro conjI allI impI, goal_cases)
    case (1 k q)
    then show ?case using C(1) cd [of k] by (auto simp: cond_ok_def split: if_splits)
  next
    case (2 k q v)
    have "conds s k = Some q \<Longrightarrow> (v \<in> set q) = (v \<in> live s \<and> cwait (ctx (thr s v)) = Some k)"
      using C(1) by (auto simp: cond_ok_def)
    then show ?case using 2 cw [of v k] cd [of k] no [of k v] by (auto split: if_splits)
  next
    case (3 v k)
    then have "v \<in> live s" "cwait (ctx (thr s v)) = Some k" using cw [of v k] by auto
    then have "conds s k \<noteq> None" using C(1) unfolding cond_ok_def by blast
    then show ?case using cd [of k] by auto
  qed
  moreover have "term_ok b"
    unfolding term_ok_def
  proof (intro allI impI)
    fix v k assume v: "v \<in> live b" "term_cv (thr b v) = Some k"
    have K: "\<not> (w \<in> live s \<and> term_cv (thr s w) = Some k)" if "term_cv (thr b t) = Some k" for w
      using C(2) c(2) [OF that] unfolding term_ok_def by blast
    have no': "\<not> (w \<in> live s \<and> ctx (thr s w) = K_cond k)" if "term_cv (thr b t) = Some k" for w
      using no [OF that, of w] by auto
    show "conds b k \<noteq> None \<and> (\<forall>w. w \<in> live b \<longrightarrow> term_cv (thr b w) = Some k \<longrightarrow> w = v) \<and>
        (\<forall>w. w \<in> live b \<longrightarrow> ctx (thr b w) \<noteq> K_cond k)"
    proof (cases "v = t")
      case True
      then have tk: "term_cv (thr b t) = Some k" using v(2) by simp
      have "w = t" if "w \<in> live b" "term_cv (thr b w) = Some k" for w
        using that K [OF tk, of w] g [of w] L by auto
      moreover have "ctx (thr b w) \<noteq> K_cond k" if "w \<in> live b" for w
        using that no' [OF tk, of w] cx [of "K_cond k" w] by auto
      ultimately show ?thesis using True cd tk by auto
    next
      case False
      then have vs: "v \<in> live s" "term_cv (thr s v) = Some k" using v g L by auto
      then have tk: "term_cv (thr b t) \<noteq> Some k" using K by blast
      have "w = v" if "w \<in> live b" "term_cv (thr b w) = Some k" for w
        using that tk C(2) vs g [of w] L unfolding term_ok_def by (metis insertE)
      moreover have "ctx (thr b w) \<noteq> K_cond k" if "w \<in> live b" for w
        using that C(2) vs cx [of "K_cond k" w] unfolding term_ok_def by blast
      moreover have "conds s k \<noteq> None" using C(2) vs unfolding term_ok_def by blast
      ultimately show ?thesis using cd tk by auto
    qed
  qed
  moreover have "join_ok b"
    unfolding join_ok_def
  proof (intro allI impI)
    fix v w k assume "v \<in> live b" "ctx (thr b v) = K_join w k"
    then have v: "v \<in> live s" "ctx (thr s v) = K_join w k" using cx [of "K_join w k" v] by auto
    then have J: "v \<noteq> w \<and> w \<in> live s \<and> term_cv (thr s w) = Some k \<and>
      (ctx (thr s w) = K_zombie \<longrightarrow> state (thr s w) = ST_ZOMBIE) \<and>
      (\<forall>x c'. x \<in> live s \<longrightarrow> ctx (thr s x) = K_join w c' \<longrightarrow> x = v)"
      using C(3) unfolding join_ok_def by blast
    moreover have "x = v" if "x \<in> live b" "ctx (thr b x) = K_join w c'" for x c'
      using that J cx [of "K_join w c'" x] by auto
    ultimately show "v \<noteq> w \<and> w \<in> live b \<and> term_cv (thr b w) = Some k \<and>
      (ctx (thr b w) = K_zombie \<longrightarrow> state (thr b w) = ST_ZOMBIE) \<and>
      (\<forall>x c'. x \<in> live b \<longrightarrow> ctx (thr b x) = K_join w c' \<longrightarrow> x = v)"
      using g [of w] L by auto
  qed
  moreover have "mutex_ok b"
  proof -
    have "state (thr b v) = state (thr s v)" if "mutexes s m = Some l" "v \<in> set (m_wait_q l)" for v m l
      using mutex_okD(2) [OF C(4) that(1), of v] that(2) g by simp
    moreover have "(v \<in> set (m_wait_q l)) = (v \<in> live b \<and> ctx (thr b v) = K_mutex m)" if "mutexes s m = Some l" for v m l
      using mutex_okD(2) [OF C(4) that, of v] cx [of "K_mutex m" v] by simp
    moreover have "mutexes s m \<noteq> None" if "v \<in> live b" "ctx (thr b v) = K_mutex m" for v m
      using mutex_okD2 [OF C(4), of v m] cx [of "K_mutex m" v] that by auto
    ultimately show ?thesis
      using mutex_okD(1,3) [OF C(4)] unfolding mutex_ok_def b(6) by metis
  qed
  moreover have "count_ok b"
  proof -
    have "{v \<in> live b. v \<noteq> idle_thread b \<and> ctx (thr b v) \<noteq> K_zombie} =
        insert t {v \<in> live s. v \<noteq> idle_thread s \<and> ctx (thr s v) \<noteq> K_zombie}"
      using g n(3) Q unfolding L b by auto
    then show ?thesis using R(4) t by (simp add: inv0_def count_ok_def b live_def [of s])
  qed
  ultimately have "inv0 (Some (this_thread s)) b" by (simp add: inv0_def)
  moreover have "sleepers b = sleepers s" using g n(2) t by (auto simp: sleepers_def L)
  moreover have "sleepq_is b (sleepers s)"
    by (rule sleepq_is_local [OF R(10) b(10,11)]) (use g in \<open>simp add: sleepers_def\<close>)
  ultimately show ?thesis
    using u U Q g [OF C(6)] by (simp add: in_user_def vp_ok_def vp_inv_def idle_ok_def b)
qed


lemma stack_new_parts: "st_stack_new n ob sg r s = (res, s1) \<Longrightarrow> s1 = s\<lparr>stks := stks s1\<rparr>"
  by (auto simp: st_stack_new_def Let_def split: option.splits)

lemma stack_free_parts: "st_stack_free ts s = s\<lparr>stks := stks (st_stack_free ts s)\<rparr>"
  by (cases ts) (simp_all add: st_stack_free_def)

lemma create_run:
  assumes u: "in_user s" and t: "\<And>t. create_addr e n s = Some t \<Longrightarrow> t \<notin> live s"
    and c: "\<And>c. ce_cond e = Some c \<Longrightarrow> conds s c = None"
  shows "in_user (snd (st_thread_create e f a joinable n s)) \<and>
    ev_part (snd (st_thread_create e f a joinable n s)) = ev_part s"
proof -
  obtain res s1 where r: "st_stack_new (adjust_stk_size (pagesize s) n) (ce_stack e) (ce_segment e) (ce_random e) s = (res, s1)"
    by fastforce
  obtain k where k: "s1 = s\<lparr>stks := k\<rparr>" using stack_new_parts [OF r] by blast
  show ?thesis
  proof (cases res)
    case None
    have "in_user s1" by (rule in_user_stks [OF u]) (simp_all add: k)
    then show ?thesis using None r k by (simp add: st_thread_create_def Let_def)
  next
    case (Some ts)
    define x where "x = nat (l_thread (carve_stack (ce_size_thread e) (stk_top (stk_of k ts))))"
    have x: "x \<notin> live s" using t r Some k by (simp add: create_addr_def x_def)
    define s3 where "s3 = upd_thr x (\<lambda>_. blank_thread f a ts) (s\<lparr>stks := k\<lparr>stk_of := (stk_of k)
       (ts := (stk_of k ts)\<lparr>sp := l_sp (carve_stack (ce_size_thread e) (stk_top (stk_of k ts)))\<rparr>)\<rparr>\<rparr>)"
    define fin where "fin z = ST_ADD_THREADQ x (ST_ADD_RUNQ x
        ((set_state x ST_RUNNABLE z)\<lparr>active_count := active_count z + 1\<rparr>))" for z
    have new: "in_user (fin z) \<and> ev_part (fin z) = ev_part s"
      if z: "z = (case tc of None \<Rightarrow> s3 | Some c \<Rightarrow> upd_thr x (\<lambda>z. z\<lparr>term_cv := Some c\<rparr>) (s3\<lparr>conds := (conds s)(c \<mapsto> [])\<rparr>))"
        and tc: "\<And>c. tc = Some c \<Longrightarrow> conds s c = None" for z tc
    proof -
      have zp: "thread_q z = thread_q s" "run_q z = run_q s" "zombie_q z = zombie_q s" "io_q z = io_q s"
          "pollqs z = pollqs s" "mutexes z = mutexes s" "idle_thread z = idle_thread s" "active_count z = active_count s"
          "this_thread z = this_thread s" "sleep_q z = sleep_q s" "sleepq_size z = sleepq_size s"
          "\<And>v. v \<noteq> x \<Longrightarrow> thr z v = thr s v" "flags (thr z x) = 0" "ctx (thr z x) = K_start"
          "term_cv (thr z x) = tc" "conds z = (case tc of None \<Rightarrow> conds s | Some c \<Rightarrow> (conds s)(c \<mapsto> []))"
          "ev_part z = ev_part s"
        by (cases tc; simp add: z s3_def blank_thread_def)+
      have xv: "v \<noteq> x" if "v \<in> live s" for v using that x by auto
      have "in_user (fin z)"
        by (rule in_user_new_thread [OF u x])
          (use tc xv in \<open>simp_all add: fin_def zp ST_ADD_THREADQ_def ST_ADD_RUNQ_def set_state_def\<close>)
      then show ?thesis
        by (simp add: fin_def zp ST_ADD_THREADQ_def ST_ADD_RUNQ_def)
    qed
    have fail: "in_user (st_stack_free (Some ts) s3) \<and> ev_part (st_stack_free (Some ts) s3) = ev_part s"
    proof -
      obtain k' where k': "st_stack_free (Some ts) s3 = s3\<lparr>stks := k'\<rparr>" using stack_free_parts [of "Some ts" s3] by blast
      have "in_user (s3\<lparr>stks := k'\<rparr>)"
        by (rule in_user_stks [OF u]) (use x in \<open>auto simp: s3_def\<close>)
      then show ?thesis unfolding k' by (simp add: s3_def)
    qed
    have eq: "st_thread_create e f a joinable n s =
        (if \<not> joinable then (Some x, fin s3)
         else case ce_cond e of None \<Rightarrow> (None, st_stack_free (Some ts) s3)
           | Some c \<Rightarrow> (Some x, fin (upd_thr x (\<lambda>z. z\<lparr>term_cv := Some c\<rparr>) (s3\<lparr>conds := (conds s)(c \<mapsto> [])\<rparr>))))"
      using r Some k
      by (simp add: st_thread_create_def Let_def x_def [symmetric] s3_def [symmetric] st_cond_new_def fin_def split: option.split)
        (simp add: s3_def)
    show ?thesis
      using new [of s3 None] new [of _ "ce_cond e"] fail c
      by (cases "ce_cond e") (simp_all add: eq)
  qed
qed


section \<open>Exit\<close>

lemma join_okD:
  assumes "join_ok s" "u \<in> live s" "ctx (thr s u) = K_join t c"
  shows "u \<noteq> t" "t \<in> live s" "term_cv (thr s t) = Some c" "ctx (thr s t) = K_zombie \<longrightarrow> state (thr s t) = ST_ZOMBIE"
    "v \<in> live s \<Longrightarrow> ctx (thr s v) = K_join t c' \<Longrightarrow> v = u"
  using assms unfolding join_ok_def by blast+

lemma term_okD:
  assumes "term_ok s" "t \<in> live s" "term_cv (thr s t) = Some c"
  shows "\<exists>q. conds s c = Some q" "u \<in> live s \<Longrightarrow> term_cv (thr s u) = Some c \<Longrightarrow> u = t" "u \<in> live s \<Longrightarrow> ctx (thr s u) \<noteq> K_cond c"
  using assms unfolding term_ok_def by blast+

lemma no_waiters:
  assumes t: "term_ok s" and j: "join_ok s" and tl: "t \<in> live s" and c: "term_cv (thr s t) = Some c"
    and N: "\<And>u c. u \<in> live s \<Longrightarrow> ctx (thr s u) \<noteq> K_join t c" and u: "u \<in> live s"
  shows "cwait (ctx (thr s u)) \<noteq> Some c"
proof
  assume w: "cwait (ctx (thr s u)) = Some c"
  show False
  proof (cases "ctx (thr s u)")
    case (K_cond c')
    then show False using w term_okD(3) [OF t tl c u] by simp
  next
    case (K_join v c')
    then have "c' = c" using w by simp
    then have "v = t" using join_okD(2,3) [OF j u K_join] term_okD(2) [OF t tl c] by blast
    then show False using N [OF u, of c'] K_join by simp
  qed (use w in auto)
qed

text \<open>A thread that nobody joins leaves, with its termination condition variable.\<close>

lemma inv0_remove:
  assumes i: "inv0 (Some t) s" and ti: "t \<noteq> idle_thread s" and k: "ctx (thr s t) = K_run \<or> ctx (thr s t) = K_zombie"
    and N: "\<And>u c. u \<in> live s \<Longrightarrow> ctx (thr s u) \<noteq> K_join t c"
    and b: "thread_q b = remove1 t (thread_q s)" "run_q b = run_q s" "zombie_q b = zombie_q s" "io_q b = io_q s"
      "pollqs b = pollqs s" "mutexes b = mutexes s" "idle_thread b = idle_thread s"
      "active_count b = active_count s - (if ctx (thr s t) = K_zombie then 0 else 1)"
      "conds b = (case term_cv (thr s t) of None \<Rightarrow> conds s | Some c \<Rightarrow> (conds s)(c := None))"
    and g: "\<And>v. v \<noteq> t \<Longrightarrow> thr b v = thr s v"
  shows "inv0 None b \<and> sleepers b = sleepers s"
proof -
  have q: "queues_ok (Some t) s" and T: "\<And>v. v \<in> live s \<Longrightarrow> thread_ok (Some t) s v"
    and C: "cond_ok s" "term_ok s" "join_ok s" "mutex_ok s" "count_ok s"
    using i by (simp_all add: inv0_def)
  have tl: "t \<in> live s" using q by (simp add: queues_ok_def)
  have L: "live b = live s - {t}" using q by (auto simp: live_def b queues_ok_def)
  have rt: "state (thr s t) = ST_RUNNING" using thread_ok_state(5) [OF T [OF tl]] by simp
  have no: "t \<notin> set (run_q s)" "t \<notin> set (zombie_q s)" "t \<notin> set (io_q s)"
    using thread_ok_state(4,8,10) [OF T [OF tl]] rt k by auto
  have cd: "conds b c = (if term_cv (thr s t) = Some c then None else conds s c)" for c
    by (cases "term_cv (thr s t)") (auto simp: b)
  have nw: "cwait (ctx (thr s u)) \<noteq> Some c" if "u \<in> live s" "term_cv (thr s t) = Some c" for u c
    by (rule no_waiters [OF C(2,3) tl that(2) N that(1)])
  have "queues_ok None b"
  proof -
    note Q = q [unfolded queues_ok_def]
    have "set (run_q s) \<subseteq> live s - {t}" "set (zombie_q s) \<subseteq> live s - {t}" "set (io_q s) \<subseteq> live s - {t}"
      using Q no by blast+
    then show ?thesis using Q ti by (simp add: queues_ok_def L b)
  qed
  moreover have "thread_ok None b v" if "v \<in> live b" for v
    by (rule thread_ok_other [OF T]) (use that g in \<open>auto simp: L b\<close>)
  moreover have "cond_ok b"
    unfolding cond_ok_def
  proof (intro conjI allI impI, goal_cases)
    case (1 c q)
    then show ?case using C(1) cd [of c] by (auto simp: cond_ok_def split: if_splits)
  next
    case (2 c q v)
    then have c: "conds s c = Some q" using cd [of c] by (simp split: if_splits)
    then have "v \<in> set q \<longleftrightarrow> v \<in> live s \<and> cwait (ctx (thr s v)) = Some c" using C(1) by (auto simp: cond_ok_def)
    then show ?case using g [of v] k by (cases "v = t") (auto simp: L)
  next
    case (3 v c)
    then have v: "v \<in> live s" "cwait (ctx (thr s v)) = Some c" using g [of v] by (auto simp: L)
    then have "conds s c \<noteq> None" using C(1) unfolding cond_ok_def by blast
    moreover have "term_cv (thr s t) \<noteq> Some c" using nw [OF v(1)] v(2) by blast
    ultimately show ?case using cd [of c] by simp
  qed
  moreover have "term_ok b"
    unfolding term_ok_def
  proof (intro allI impI)
    fix v c assume "v \<in> live b" "term_cv (thr b v) = Some c"
    then have v: "v \<in> live s" "v \<noteq> t" "term_cv (thr s v) = Some c" using g [of v] by (auto simp: L)
    have X: "conds s c \<noteq> None" "\<And>u. u \<in> live s \<Longrightarrow> term_cv (thr s u) = Some c \<Longrightarrow> u = v"
        "\<And>u. u \<in> live s \<Longrightarrow> ctx (thr s u) \<noteq> K_cond c"
      using C(2) v unfolding term_ok_def by blast+
    have "term_cv (thr s t) \<noteq> Some c" using X(2) [OF tl] v(2) by blast
    then show "conds b c \<noteq> None \<and> (\<forall>u. u \<in> live b \<longrightarrow> term_cv (thr b u) = Some c \<longrightarrow> u = v) \<and>
        (\<forall>u. u \<in> live b \<longrightarrow> ctx (thr b u) \<noteq> K_cond c)"
      using X cd [of c] g by (auto simp: L)
  qed
  moreover have "join_ok b"
    unfolding join_ok_def
  proof (intro allI impI)
    fix u v c assume "u \<in> live b" "ctx (thr b u) = K_join v c"
    then have u: "u \<in> live s" "u \<noteq> t" "ctx (thr s u) = K_join v c" using g [of u] by (auto simp: L)
    then have J: "u \<noteq> v \<and> v \<in> live s \<and> term_cv (thr s v) = Some c \<and>
        (ctx (thr s v) = K_zombie \<longrightarrow> state (thr s v) = ST_ZOMBIE) \<and>
        (\<forall>w c'. w \<in> live s \<longrightarrow> ctx (thr s w) = K_join v c' \<longrightarrow> w = u)"
      using C(3) unfolding join_ok_def by blast
    have "v \<noteq> t" using N [OF u(1)] u(3) by blast
    then show "u \<noteq> v \<and> v \<in> live b \<and> term_cv (thr b v) = Some c \<and>
        (ctx (thr b v) = K_zombie \<longrightarrow> state (thr b v) = ST_ZOMBIE) \<and>
        (\<forall>w c'. w \<in> live b \<longrightarrow> ctx (thr b w) = K_join v c' \<longrightarrow> w = u)"
      using J g by (auto simp: L)
  qed
  moreover have "mutex_ok b"
  proof -
    have "t \<notin> set (m_wait_q l)" if "mutexes s m = Some l" for m l
      using mutex_okD(2) [OF C(4) that, of t] k by auto
    then have m: "v \<in> set (m_wait_q l) \<longleftrightarrow> v \<in> live b \<and> ctx (thr b v) = K_mutex m"
      "v \<in> set (m_wait_q l) \<Longrightarrow> state (thr b v) = state (thr s v)" if "mutexes s m = Some l" for v m l
      using mutex_okD(2) [OF C(4) that, of v] g [of v] that by (cases "v = t"; auto simp: L)+
    have "mutexes s m \<noteq> None" if "v \<in> live b" "ctx (thr b v) = K_mutex m" for v m
      using mutex_okD2 [OF C(4), of v m] g [of v] that by (auto simp: L)
    then show ?thesis
      unfolding mutex_ok_def b(6) using m mutex_okD(1,3) [OF C(4)] by metis
  qed
  moreover have "count_ok b"
  proof -
    let ?A = "{v \<in> live s. v \<noteq> idle_thread s \<and> ctx (thr s v) \<noteq> K_zombie}"
    have A: "{v \<in> live b. v \<noteq> idle_thread b \<and> ctx (thr b v) \<noteq> K_zombie} = ?A - {t}"
      using g by (auto simp: L b)
    have fin: "finite ?A" by (simp add: live_def)
    show ?thesis
    proof (cases "ctx (thr s t) = K_zombie")
      case True
      then have "?A - {t} = ?A" by auto
      then show ?thesis using C(5) True unfolding count_ok_def A b(8) by simp
    next
      case False
      then have "t \<in> ?A" using tl ti by simp
      then have "card (?A - {t}) + 1 = card ?A" using card_Suc_Diff1 [OF fin] by simp
      then have "int (card (?A - {t})) = int (card ?A) - 1" by linarith
      then show ?thesis using C(5) False unfolding count_ok_def A b(8) by simp
    qed
  qed
  moreover have "sleepers b = sleepers s"
  proof -
    have "\<not> has_flag (flags (thr s t)) FL_ON_SLEEPQ"
      using thread_ok_state(6) [OF T [OF tl]] rt by auto
    then have "u \<in> sleepers b \<longleftrightarrow> u \<in> sleepers s" for u
      using g [of u] by (cases "u = t") (simp_all add: sleepers_def L)
    then show ?thesis by blast
  qed
  ultimately show ?thesis by (simp add: inv0_def)
qed


text \<open>The switch away from a thread that has left for good.\<close>

lemma exit_finish_run:
  assumes v: "vp_inv (Some t) s" and ti: "t \<noteq> idle_thread s" and k: "ctx (thr s t) = K_run \<or> ctx (thr s t) = K_zombie"
    and N: "\<And>u c. u \<in> live s \<Longrightarrow> ctx (thr s u) \<noteq> K_join t c"
    and z: "thread_q z = thread_q s" "run_q z = run_q s" "zombie_q z = zombie_q s" "io_q z = io_q s"
      "pollqs z = pollqs s" "mutexes z = mutexes s" "idle_thread z = idle_thread s" "this_thread z = t"
      "active_count z = active_count s - (if ctx (thr s t) = K_zombie then 0 else 1)"
      "conds z = (case term_cv (thr s t) of None \<Rightarrow> conds s | Some c \<Rightarrow> (conds s)(c := None))"
      "sleep_q z = sleep_q s" "sleepq_size z = sleepq_size s" "ev_part z = ev_part s"
    and g: "\<And>v. v \<noteq> t \<Longrightarrow> thr z v = thr s v"
  shows "\<exists>s'. exit_finish z = Some s' \<and> vp_ok s' \<and> ev_part s' = ev_part s"
proof -
  note R = running_facts [OF v]
  define y where "y = (let s1 = ST_DEL_THREADQ t z in if has_flag (flags (thr s1 t)) FL_PRIMORDIAL then s1
      else st_stack_free (stack (thr s1 t)) s1)"
  obtain kk where kk: "y = (ST_DEL_THREADQ t z)\<lparr>stks := kk\<rparr>"
  proof (cases "has_flag (flags (thr z t)) FL_PRIMORDIAL")
    case True
    then have "y = (ST_DEL_THREADQ t z)\<lparr>stks := stks (ST_DEL_THREADQ t z)\<rparr>" by (simp add: y_def ST_DEL_THREADQ_def)
    then show ?thesis by (rule that)
  next
    case False
    then show ?thesis
      using stack_free_parts [of "stack (thr z t)" "ST_DEL_THREADQ t z"] that by (simp add: y_def ST_DEL_THREADQ_def)
  qed
  have e: "exit_finish z = ST_SWITCH_CONTEXT K_dead t y"
    by (simp add: exit_finish_def Let_def z y_def ST_DEL_THREADQ_def)
  have yp: "thread_q y = remove1 t (thread_q s)" "run_q y = run_q s" "zombie_q y = zombie_q s" "io_q y = io_q s"
      "pollqs y = pollqs s" "mutexes y = mutexes s" "idle_thread y = idle_thread s"
      "active_count y = active_count s - (if ctx (thr s t) = K_zombie then 0 else 1)"
      "conds y = (case term_cv (thr s t) of None \<Rightarrow> conds s | Some c \<Rightarrow> (conds s)(c := None))"
      "\<And>v. v \<noteq> t \<Longrightarrow> thr y v = thr s v" "sleep_q y = sleep_q s" "sleepq_size y = sleepq_size s" "ev_part y = ev_part s"
    by (simp_all add: kk ST_DEL_THREADQ_def z g)
  have i: "inv0 None (set_ctx t K_dead y) \<and> sleepers (set_ctx t K_dead y) = sleepers s"
    by (rule inv0_remove [OF R(4) ti k N]) (simp_all add: yp, simp add: set_ctx_def yp)
  have "sleepq_is y (sleepers s)"
    by (rule sleepq_is_local [OF R(10) yp(11,12)]) (use yp(10) R(7) in metis)
  then show ?thesis
    using switch_inv [of y "sleepers s" t K_dead] i e yp(13) by (auto simp: vp_ok_def)
qed


text \<open>A signal does not look at the points where threads stopped.\<close>

definition wake1 :: "tid \<Rightarrow> st \<Rightarrow> st" where
  "wake1 t s = make_runnable t (unset_due t s)"

lemma noheap_wake1: "noheap (wake1 t s) = wake1 t (noheap s)"
  unfolding wake1_def unset_due_def noheap_make_runnable by (simp add: noheap_upd_thr)

lemma noheap_fold_wake1: "noheap (fold wake1 W s) = fold wake1 W (noheap s)"
  by (induction W arbitrary: s) (simp_all add: noheap_wake1)

lemma fold_wake1_set_ctx: "fold wake1 W (set_ctx t k s) = set_ctx t k (fold wake1 W s)"
proof (induction W arbitrary: s)
  case (Cons u W)
  have "wake1 u (set_ctx t k s) = set_ctx t k (wake1 u s)"
    by (rule st.equality) (auto simp: wake1_def make_runnable_def unset_due_def set_state_def set_ctx_def ST_ADD_RUNQ_def)
  then show ?case by (simp add: Cons.IH)
qed simp

lemma signal_heap_run:
  assumes "sleepq_is s T" "\<And>t. t \<in> set q \<Longrightarrow> t \<in> T \<longleftrightarrow> has_flag (flags (thr s t)) FL_ON_SLEEPQ" "distinct q"
  shows "\<exists>s'. cond_signal_loop br q s = Some s' \<and>
    (let w = filter (\<lambda>t. state (thr s t) = ST_COND_WAIT) q; W = (if br then w else take 1 w)
     in sleepq_is s' (T - set W) \<and> noheap s' = noheap (fold wake1 W s))"
  using assms
proof (induction q arbitrary: s T)
  case (Cons t q)
  show ?case
  proof (cases "state (thr s t) = ST_COND_WAIT")
    case True
    obtain s1 where s1: "off_sleepq t s = Some s1" "sleepq_is s1 (T - {t})" "noheap s1 = noheap (unset_due t s)"
      using off_sleepq_run [OF Cons.prems(1), of t] Cons.prems(2) by auto
    let ?s2 = "make_runnable t s1"
    have n2: "noheap ?s2 = noheap (wake1 t s)" by (simp add: wake1_def noheap_make_runnable s1(3))
    have h2: "sleepq_is ?s2 (T - {t})" by (rule sleepq_is_frame [OF s1(2)]) simp
    have tq: "t \<notin> set q" "distinct q" using Cons.prems(3) by simp_all
    have same: "state (thr ?s2 u) = state (thr s u)" "flags (thr ?s2 u) = flags (thr s u)" if "u \<noteq> t" for u
      using noheap_eqD(25,26) [OF n2, of u] that
      by (simp_all add: wake1_def make_runnable_def unset_due_def set_state_def ST_ADD_RUNQ_def)
    have "u \<in> T - {t} \<longleftrightarrow> has_flag (flags (thr ?s2 u)) FL_ON_SLEEPQ" if "u \<in> set q" for u
    proof -
      have "u \<noteq> t" using that tq by auto
      then show ?thesis using that same [of u] Cons.prems(2) [of u] by simp
    qed
    note IH = Cons.IH [OF h2 this tq(2)]
    have f: "filter (\<lambda>u. state (thr ?s2 u) = ST_COND_WAIT) q = filter (\<lambda>u. state (thr s u) = ST_COND_WAIT) q"
      by (rule filter_cong) (use same(1) tq in metis)+
    have n: "noheap (fold wake1 W ?s2) = noheap (fold wake1 W (wake1 t s))" for W
      by (simp add: noheap_fold_wake1 n2)
    define w where "w = filter (\<lambda>u. state (thr s u) = ST_COND_WAIT) q"
    show ?thesis
    proof (cases br)
      case br: True
      obtain s' where s': "cond_signal_loop br q ?s2 = Some s'" "sleepq_is s' (T - {t} - set w)"
          "noheap s' = noheap (fold wake1 w (wake1 t s))"
      proof -
        have "\<exists>s'. cond_signal_loop br q ?s2 = Some s' \<and> sleepq_is s' (T - {t} - set w) \<and>
            noheap s' = noheap (fold wake1 w (wake1 t s))"
          using IH by (simp only: Let_def f n w_def br if_True)
        then show ?thesis using that by blast
      qed
      have "T - set (t # w) = T - {t} - set w" by auto
      then show ?thesis
        using s' s1(1) True br by (simp add: w_def [symmetric])
    next
      case br: False
      show ?thesis using s1(1) True h2 n2 br by simp
    qed
  next
    case False
    then show ?thesis using Cons.IH [OF Cons.prems(1)] Cons.prems by (auto simp: Let_def)
  qed
qed (simp add: Let_def)

lemma inv0_zombie:
  assumes u: "in_user s" and c: "term_cv (thr s (this_thread s)) \<noteq> None"
    and b: "thread_q b = thread_q s" "run_q b = run_q s" "zombie_q b = zombie_q s @ [this_thread s]" "io_q b = io_q s"
      "pollqs b = pollqs s" "mutexes b = mutexes s" "conds b = conds s" "idle_thread b = idle_thread s"
      "active_count b = active_count s - 1"
    and g: "\<And>v. v \<noteq> this_thread s \<Longrightarrow> thr b v = thr s v"
    and n: "state (thr b (this_thread s)) = ST_ZOMBIE" "ctx (thr b (this_thread s)) = K_zombie"
      "flags (thr b (this_thread s)) = flags (thr s (this_thread s))"
      "term_cv (thr b (this_thread s)) = term_cv (thr s (this_thread s))"
  shows "inv0 None b \<and> sleepers b = sleepers s"
proof -
  let ?t = "this_thread s"
  note U = in_userD [OF u]
  note R = running_facts [OF U(1)]
  note C = in_user_clauses [OF u]
  have L: "live b = live s" by (simp add: live_def b)
  have tc: "term_cv (thr b v) = term_cv (thr s v)" for v using g n(4) by (cases "v = ?t") simp_all
  have so: "same_others ?t s b" using g tc by (simp add: same_others_def L)
  have q: "queues_ok (Some ?t) s" and T: "\<And>v. v \<in> live s \<Longrightarrow> thread_ok (Some ?t) s v" and K: "count_ok s"
    using R(4) by (simp_all add: inv0_def)
  have "queues_ok None b"
    using q R(1,9) by (simp add: queues_ok_def b L)
  moreover have "thread_ok None b v" if "v \<in> live b" for v
  proof (cases "v = ?t")
    case True
    then show ?thesis
      using R U n c by (simp add: thread_ok_def tok_def b)
  next
    case False
    show ?thesis by (rule thread_ok_other [OF T]) (use that False g in \<open>simp_all add: L b\<close>)
  qed
  moreover have "cond_ok b" by (rule cond_ok_stay [OF C(1) so b(7)]) (simp_all add: n U)
  moreover have "term_ok b" by (rule term_ok_step [OF C(2) so]) (simp_all add: b n)
  moreover have "join_ok b" by (rule join_ok_step [OF C(3) so]) (simp_all add: n)
  moreover have "mutex_ok b" by (rule mutex_ok_stay [OF C(4) so b(6)]) (simp_all add: n U)
  moreover have "count_ok b"
  proof -
    let ?A = "{v \<in> live s. v \<noteq> idle_thread s \<and> ctx (thr s v) \<noteq> K_zombie}"
    have "{v \<in> live b. v \<noteq> idle_thread b \<and> ctx (thr b v) \<noteq> K_zombie} = ?A - {?t}"
    proof -
      have "v \<in> live b \<and> v \<noteq> idle_thread b \<and> ctx (thr b v) \<noteq> K_zombie \<longleftrightarrow> v \<in> ?A - {?t}" for v
        using g [of v] n by (cases "v = ?t") (simp_all add: L b)
      then show ?thesis by blast
    qed
    moreover have fin: "finite ?A" by (simp add: live_def)
    have "?t \<in> ?A" using C(6) U by simp
    then have "card (?A - {?t}) + 1 = card ?A" using card_Suc_Diff1 [OF fin] by simp
    then have "int (card (?A - {?t})) = int (card ?A) - 1" by linarith
    ultimately show ?thesis using K unfolding count_ok_def b(9) by simp
  qed
  ultimately have "inv0 None b" by (simp add: inv0_def)
  moreover have "v \<in> sleepers b \<longleftrightarrow> v \<in> sleepers s" for v
    using g [of v] n(3) by (cases "v = ?t") (simp_all add: sleepers_def L)
  ultimately show ?thesis by blast
qed


lemma cleanup_parts [simp]:
  "thread_q (cleanup_loop n k t s) = thread_q s" "run_q (cleanup_loop n k t s) = run_q s"
  "zombie_q (cleanup_loop n k t s) = zombie_q s" "io_q (cleanup_loop n k t s) = io_q s"
  "pollqs (cleanup_loop n k t s) = pollqs s" "mutexes (cleanup_loop n k t s) = mutexes s"
  "conds (cleanup_loop n k t s) = conds s" "idle_thread (cleanup_loop n k t s) = idle_thread s"
  "sleep_q (cleanup_loop n k t s) = sleep_q s" "sleepq_size (cleanup_loop n k t s) = sleepq_size s"
  "ev_part (cleanup_loop n k t s) = ev_part s"
  by (induction n k t s rule: cleanup_loop.induct) (auto simp: Let_def set_private_def call_destructor_def)

lemma exit_run:
  assumes u: "in_user s"
  shows "\<exists>s'. st_thread_exit rv s = Some s' \<and> vp_ok s' \<and> ev_part s' = ev_part s"
proof -
  let ?t = "this_thread s"
  note U = in_userD [OF u]
  note R = running_facts [OF U(1)]
  note C = in_user_clauses [OF u]
  define z where "z = (let s2 = st_thread_cleanup ?t (upd_thr ?t (\<lambda>z. z\<lparr>retval := rv\<rparr>) s)
     in s2\<lparr>active_count := active_count s2 - 1\<rparr>)"
  have zp: "thread_q z = thread_q s" "run_q z = run_q s" "zombie_q z = zombie_q s" "io_q z = io_q s"
      "pollqs z = pollqs s" "mutexes z = mutexes s" "idle_thread z = idle_thread s" "this_thread z = ?t"
      "active_count z = active_count s - 1" "conds z = conds s" "sleep_q z = sleep_q s" "sleepq_size z = sleepq_size s"
      "ev_part z = ev_part s" "\<And>v. v \<noteq> ?t \<Longrightarrow> thr z v = thr s v" "state (thr z ?t) = state (thr s ?t)"
      "flags (thr z ?t) = flags (thr s ?t)" "term_cv (thr z ?t) = term_cv (thr s ?t)"
    by (simp_all add: z_def Let_def st_thread_cleanup_def)
  have e: "st_thread_exit rv s = (case term_cv (thr s ?t) of None \<Rightarrow> exit_finish z
      | Some c \<Rightarrow> Option.bind (st_cond_signal c (ST_ADD_ZOMBIEQ ?t (set_state ?t ST_ZOMBIE z))) (ST_SWITCH_CONTEXT K_zombie ?t))"
    by (simp add: st_thread_exit_def Let_def z_def st_thread_cleanup_def split: option.split)
  show ?thesis
  proof (cases "term_cv (thr s ?t)")
    case None
    have "\<exists>s'. exit_finish z = Some s' \<and> vp_ok s' \<and> ev_part s' = ev_part s"
    proof (rule exit_finish_run [OF U(1) U(3)])
      show "ctx (thr s v) \<noteq> K_join ?t c" if "v \<in> live s" for v c
        using join_okD(3) [OF C(3) that] None by auto
    qed (simp_all add: zp None U)
    then show ?thesis using e None by simp
  next
    case (Some c)
    define x where "x = ST_ADD_ZOMBIEQ ?t (set_state ?t ST_ZOMBIE z)"
    define y where "y = set_ctx ?t K_zombie x"
    have xp: "thread_q x = thread_q s" "run_q x = run_q s" "zombie_q x = zombie_q s @ [?t]" "io_q x = io_q s"
      "pollqs x = pollqs s" "mutexes x = mutexes s" "idle_thread x = idle_thread s" "this_thread x = ?t"
      "active_count x = active_count s - 1" "conds x = conds s" "sleep_q x = sleep_q s" "sleepq_size x = sleepq_size s"
      "ev_part x = ev_part s" "\<And>v. v \<noteq> ?t \<Longrightarrow> thr x v = thr s v" "state (thr x ?t) = ST_ZOMBIE"
      "flags (thr x ?t) = flags (thr s ?t)" "term_cv (thr x ?t) = term_cv (thr s ?t)"
      by (simp_all add: x_def ST_ADD_ZOMBIEQ_def zp) (simp_all add: set_state_def zp)
    have iy: "inv0 None y \<and> sleepers y = sleepers s"
      by (rule inv0_zombie [OF u]) (use Some in \<open>simp_all add: y_def xp\<close>, simp add: set_ctx_def xp)
    have hx: "sleepq_is x (sleepers s)"
      by (rule sleepq_is_local [OF R(10) xp(11,12)]) (use xp(14) R(7) in metis)
    have hy: "sleepq_is y (sleepers s)" unfolding y_def by (rule sleepq_is_frame [OF hx]) simp
    have vy: "vp_inv None y" using iy hy by (simp add: vp_inv_def)
    obtain q where q: "conds s c = Some q"
      using C(2,6) Some unfolding term_ok_def by blast
    have dq: "distinct q" "set q \<subseteq> live s" using C(1) q by (auto simp: cond_ok_def)
    define W where "W = (let w = filter (\<lambda>t. state (thr x t) = ST_COND_WAIT) q in if False then w else take 1 w)"
    have W2: "W = (let w = filter (\<lambda>t. state (thr y t) = ST_COND_WAIT) q in if False then w else take 1 w)"
      by (simp add: W_def y_def)
    have fl: "v \<in> sleepers s \<longleftrightarrow> has_flag (flags (thr x v)) FL_ON_SLEEPQ" if "v \<in> set q" for v
    proof -
      have "flags (thr x v) = flags (thr s v)" using xp(14,16) by (cases "v = ?t") simp_all
      then show ?thesis using that dq(2) by (auto simp: sleepers_def)
    qed
    have fly: "v \<in> sleepers s \<longleftrightarrow> has_flag (flags (thr y v)) FL_ON_SLEEPQ" if "v \<in> set q" for v
      using fl [OF that] by (simp add: y_def)
    obtain x' where x': "cond_signal_loop False q x = Some x'" "sleepq_is x' (sleepers s - set W)"
        "noheap x' = noheap (fold wake1 W x)"
      using signal_heap_run [OF hx fl dq(1), of False] unfolding Let_def [of _ "\<lambda>w. let W = _ w in _ w W"]
      by (auto simp: W_def Let_def)
    obtain y' where y': "cond_signal_loop False q y = Some y'" "noheap y' = noheap (fold wake1 W y)"
      using signal_heap_run [OF hy fly dq(1), of False] by (auto simp: W2 Let_def)
    have "conds y c = Some q" by (simp add: y_def xp q)
    then obtain y'' where y'': "cond_signal_loop False q y = Some y''" "vp_inv None y''" "woke {} W y y''"
      using signal_run [OF vy, of c q False] by (auto simp: W2 cond_signal_gen_def)
    have n: "noheap (set_ctx ?t K_zombie x') = noheap y''"
      using x'(3) y' y''(1) by (simp add: noheap_set_ctx y_def fold_wake1_set_ctx)
    have i: "inv0 None (set_ctx ?t K_zombie x')"
      using y''(2) inv0_same [OF n] by (simp add: vp_inv_def)
    have "sleepers y'' = sleepers s - set W"
      using y''(3) iy by (auto simp: sleepers_def live_def woke_def)
    then have sl: "sleepers (set_ctx ?t K_zombie x') = sleepers s - set W"
      using sleepers_same [OF n] by simp
    have "ev_part (set_ctx ?t K_zombie x') = ev_part y''" by (rule ev_part_noheap [OF n])
    then have ev: "ev_part x' = ev_part s" using y''(3) by (simp add: woke_def y_def xp)
    show ?thesis
      using switch_inv [OF x'(2) i sl] e Some x'(1) q ev
      by (auto simp: x_def [symmetric] st_cond_signal_def cond_signal_gen_def xp vp_ok_def)
  qed
qed


lemma exit_resume_run:
  assumes v: "vp_ok s" and k: "ctx (thr s (this_thread s)) = K_zombie"
  shows "\<exists>s'. st_thread_exit_resume s = Some s' \<and> vp_ok s' \<and> ev_part s' = ev_part s"
proof -
  let ?t = "this_thread s"
  note V = vp_okD [OF v]
  note R = running_facts [OF V]
  note C = vp_ok_clauses [OF v]
  have ti: "?t \<noteq> idle_thread s" using not_idle [OF v] k by simp
  obtain c where c: "term_cv (thr s ?t) = Some c"
    using R(3) k by (auto simp: thread_ok_def tok_def)
  have N: "ctx (thr s u) \<noteq> K_join ?t c'" if "u \<in> live s" for u c'
    using join_okD(4) [OF C(3) that] k R(5) by auto
  obtain q where q: "conds s c = Some q" using term_okD(1) [OF C(2,6) c] by blast
  have "u \<notin> set q" for u
    using C(1) q no_waiters [OF C(2,3,6) c N, of u] by (auto simp: cond_ok_def)
  then have q0: "q = []" by (cases q) auto
  define z where "z = upd_thr ?t (\<lambda>z. z\<lparr>term_cv := None\<rparr>) ((switched_in s)\<lparr>conds := (conds s)(c := None)\<rparr>)"
  have "st_thread_exit_resume s = exit_finish z"
    using c q q0 by (simp add: st_thread_exit_resume_def Let_def st_cond_destroy_def z_def)
  moreover have "\<exists>s'. exit_finish z = Some s' \<and> vp_ok s' \<and> ev_part s' = ev_part s"
  proof (rule exit_finish_run [OF V ti])
    show "sleep_q z = sleep_q s" "sleepq_size z = sleepq_size s"
      by (simp_all add: z_def switched_in_def Let_def set_ctx_def)
    show "thr z u = thr s u" if "u \<noteq> ?t" for u
      using that by (simp add: z_def switched_in_def Let_def set_ctx_def)
  qed (use N k c in \<open>simp_all add: z_def\<close>)
  ultimately show ?thesis by simp
qed

lemma main_enter_run:
  assumes v: "vp_ok s" and k: "ctx (thr s (this_thread s)) = K_start" "this_thread s \<noteq> idle_thread s"
  shows "in_user (snd (snd (st_thread_main_enter s))) \<and> ev_part (snd (snd (st_thread_main_enter s))) = ev_part s"
proof -
  let ?t = "this_thread s" let ?b = "set_ctx (this_thread s) K_run s"
  note C = vp_ok_clauses [OF v]
  have so: "same_others ?t s ?b" by (simp add: same_others_def live_def)
  have "vp_ok ?b \<and> in_user ?b"
  proof (rule resume_ok [OF v])
    show "cond_ok ?b" by (rule cond_ok_stay [OF C(1) so]) (simp_all add: k)
    show "mutex_ok ?b" by (rule mutex_ok_stay [OF C(4) so]) (simp_all add: k)
  qed (use k not_polling [OF v] C in \<open>simp_all add: only_thread_def\<close>)
  then show ?thesis by (simp add: st_thread_main_enter_def Let_def)
qed

lemma main_return_run:
  assumes "in_user s"
  shows "\<exists>s'. st_thread_main_return rv s = Some s' \<and> vp_ok s' \<and> ev_part s' = ev_part s"
proof -
  let ?s = "upd_thr (this_thread s) (\<lambda>z. z\<lparr>retval := rv\<rparr>) s"
  have "in_user ?s"
  proof -
    note U = in_userD [OF assms]
    note R = running_facts [OF U(1)]
    note C = in_user_clauses [OF assms]
    have so: "same_others (this_thread s) s ?s" by (simp add: same_others_def live_def)
    have "vp_inv (Some (this_thread s)) ?s"
    proof (rule go_on_inv [OF U(1)])
      show "heap_part ?s = heap_part s" by (auto simp: heap_part_def fun_eq_iff simp del: rd_left rd_right)
      show "cond_ok ?s" by (rule cond_ok_stay [OF C(1) so]) (simp_all add: U)
      show "term_ok ?s" by (rule term_ok_step [OF C(2) so]) simp_all
      show "join_ok ?s" by (rule join_ok_step [OF C(3) so]) (simp_all add: U)
      show "mutex_ok ?s" by (rule mutex_ok_stay [OF C(4) so]) (simp_all add: U)
    qed (use U R C in \<open>simp_all add: only_thread_def thread_ok_def\<close>)
    then show ?thesis using assms U by (simp add: in_user_def vp_ok_def idle_ok_def)
  qed
  then show ?thesis
    using exit_run [of ?s rv] by (simp add: st_thread_main_return_def Let_def)
qed

section \<open>Join\<close>

text \<open>A dead thread that is released runs once more, to clean up after itself.\<close>

lemma release_zombie:
  assumes u: "in_user s" and t: "t \<in> live s" "state (thr s t) = ST_ZOMBIE"
    and N: "\<And>v c. v \<in> live s \<Longrightarrow> ctx (thr s v) \<noteq> K_join t c"
  shows "in_user (ST_ADD_RUNQ t (ST_DEL_ZOMBIEQ t (set_state t ST_RUNNABLE s)))"
proof -
  let ?b = "ST_ADD_RUNQ t (ST_DEL_ZOMBIEQ t (set_state t ST_RUNNABLE s))" let ?me = "this_thread s"
  note U = in_userD [OF u]
  note R = running_facts [OF U(1)]
  note C = in_user_clauses [OF u]
  have b: "thread_q ?b = thread_q s" "run_q ?b = run_q s @ [t]" "zombie_q ?b = remove1 t (zombie_q s)" "io_q ?b = io_q s"
      "pollqs ?b = pollqs s" "mutexes ?b = mutexes s" "conds ?b = conds s" "idle_thread ?b = idle_thread s"
      "active_count ?b = active_count s" "this_thread ?b = ?me" "heap_part ?b = heap_part s"
      "thr ?b = thr (set_state t ST_RUNNABLE s)"
    by (simp_all add: ST_ADD_RUNQ_def ST_DEL_ZOMBIEQ_def)
  have L: "live ?b = live s" by (simp add: live_def b)
  have q: "queues_ok (Some ?me) s" and T: "\<And>v. v \<in> live s \<Longrightarrow> thread_ok (Some ?me) s v" and K: "count_ok s"
    using R(4) by (simp_all add: inv0_def)
  have tk: "t \<noteq> ?me" using t(2) R(5) by auto
  have tz: "t \<notin> set (run_q s)" "t \<noteq> idle_thread s"
    using T [OF t(1)] t(2) by (auto simp: thread_ok_def tok_def)
  note Q = q [unfolded queues_ok_def]
  have "queues_ok (Some ?me) ?b"
    unfolding queues_ok_def L b using Q tz t(1) set_remove1_subset [of t "zombie_q s"] by auto
  moreover have "thread_ok (Some ?me) ?b v" if "v \<in> live ?b" for v
  proof (cases "v = t")
    case True
    have "t \<notin> set (remove1 t (zombie_q s))" using Q by simp
    then show ?thesis
      using T [OF t(1)] t(2) tk tz True Q by (simp add: thread_ok_def tok_def b)
  next
    case False
    have "thr (set_state t ST_RUNNABLE s) v = thr s v" by (simp add: set_state_def False)
    then have e: "thr ?b v = thr s v" by (simp only: b)
    have m: "v \<in> set (remove1 t (zombie_q s)) \<longleftrightarrow> v \<in> set (zombie_q s)" using False by simp
    show ?thesis by (rule thread_ok_other [OF T]) (use that False in \<open>simp_all add: L e b(2,3,4,5,8) m\<close>)
  qed
  moreover have "cond_ok ?b" using C(1) cond_ok_cong [of ?b s] by (simp add: L b)
  moreover have "term_ok ?b" using C(2) term_ok_cong [of ?b s] by (simp add: L b)
  moreover have "count_ok ?b" using K count_ok_cong [of ?b s] by (simp add: L b)
  moreover have "mutex_ok ?b" by (rule mutex_ok_mono [OF C(4)]) (simp_all add: L b split: if_splits)
  moreover have "join_ok ?b"
    unfolding join_ok_def L b set_state_parts
  proof (intro allI impI)
    fix w v c assume w: "w \<in> live s" "ctx (thr s w) = K_join v c"
    then have "v \<noteq> t" using N by blast
    then show "w \<noteq> v \<and> v \<in> live s \<and> term_cv (thr s v) = Some c \<and>
       (ctx (thr s v) = K_zombie \<longrightarrow> (if v = t then ST_RUNNABLE else state (thr s v)) = ST_ZOMBIE) \<and>
       (\<forall>x c'. x \<in> live s \<longrightarrow> ctx (thr s x) = K_join v c' \<longrightarrow> x = w)"
      using join_okD [OF C(3) w] by simp
  qed
  ultimately have "inv0 (Some ?me) ?b" by (simp add: inv0_def)
  moreover have "sleepers ?b = sleepers s" by (simp add: sleepers_def L b)
  ultimately have "vp_inv (Some ?me) ?b"
    using sleepq_is_frame [OF R(10) b(11)] by (simp add: vp_inv_def)
  then show ?thesis using U tz by (simp add: in_user_def vp_ok_def idle_ok_def b)
qed

text \<open>A handle that may be joined: of a thread that exists and has not been joined before.\<close>

definition joinable :: "st \<Rightarrow> tid \<Rightarrow> bool" where
  "joinable s t \<longleftrightarrow> t \<in> set (thread_q s) \<and> (ctx (thr s t) = K_zombie \<longrightarrow> state (thr s t) = ST_ZOMBIE)"

lemma join_loop_runs:
  assumes u: "in_user s" and t: "joinable s t" "t \<noteq> this_thread s" "term_cv (thr s t) = Some c"
    and N: "\<And>v c. v \<in> live s \<Longrightarrow> ctx (thr s v) \<noteq> K_join t c"
  shows "runs (join_loop t c s) s"
proof -
  note C = in_user_clauses [OF u]
  have tl: "t \<in> live s" using t(1) by (simp add: joinable_def live_def)
  obtain q where q: "conds s c = Some q" using term_okD(1) [OF C(2) tl t(3)] by blast
  show ?thesis
  proof (cases "state (thr s t) = ST_ZOMBIE")
    case True
    have "ev_part (ST_ADD_RUNQ t (ST_DEL_ZOMBIEQ t (set_state t ST_RUNNABLE s))) = ev_part s"
      by (simp add: ST_ADD_RUNQ_def ST_DEL_ZOMBIEQ_def)
    then show ?thesis
      using release_zombie [OF u tl True N] True by (simp add: join_loop_def runs_def in_user_def)
  next
    case False
    have "runs (cond_wait_enter (K_join t c) c NO_TIMEOUT s) s"
      by (rule cond_wait_runs [OF u q]) (use t tl N in \<open>auto simp: joinable_def\<close>)
    then show ?thesis using False by (simp add: join_loop_def)
  qed
qed

lemma join_runs:
  assumes u: "in_user s" and t: "joinable s t"
  shows "runs (st_thread_join t s) s"
proof -
  note C = in_user_clauses [OF u]
  have v: "vp_ok s" using u by (simp add: in_user_def)
  have tl: "t \<in> live s" using t by (simp add: joinable_def live_def)
  show ?thesis
  proof (cases "term_cv (thr s t)")
    case None
    then show ?thesis using v by (simp add: st_thread_join_def runs_def)
  next
    case (Some c)
    obtain q where q: "conds s c = Some q" using term_okD(1) [OF C(2) tl Some] by blast
    have N: "ctx (thr s v) \<noteq> K_join t c'" if e: "q = []" and vl: "v \<in> live s" for v c'
    proof
      assume k: "ctx (thr s v) = K_join t c'"
      then have "c' = c" using join_okD(3) [OF C(3) vl k] Some by simp
      then have "v \<in> set q" using C(1) q vl k by (simp add: cond_ok_def)
      then show False using e by simp
    qed
    show ?thesis
      using join_loop_runs [OF u t _ Some N] v q Some by (auto simp: st_thread_join_def runs_def)
  qed
qed

lemma join_resume_runs:
  assumes v: "vp_ok s" and k: "ctx (thr s (this_thread s)) = K_join t c"
  shows "runs (st_thread_join_resume t c s) s"
proof -
  let ?me = "this_thread s"
  note C = vp_ok_clauses [OF v]
  note J = join_okD [OF C(3,6) k]
  obtain r s1 where r: "st_cond_timedwait_resume c s = Some (r, s1)" and u: "in_user s1"
    and e: "ev_part s1 = ev_part s" "this_thread s1 = ?me" "thread_q s1 = thread_q s"
      "\<And>v. v \<noteq> ?me \<Longrightarrow> thr s1 v = thr s v"
    using cond_resume_user [OF v, of c] k by auto
  have "joinable s1 t" "term_cv (thr s1 t) = Some c"
    using J e by (auto simp: joinable_def live_def)
  moreover have "ctx (thr s1 w) \<noteq> K_join t c'" if "w \<in> live s1" for w c'
  proof (cases "w = ?me")
    case True
    then show ?thesis using in_userD(2) [OF u] e by simp
  next
    case False
    then show ?thesis using J(5) [of w c'] that e by (auto simp: live_def)
  qed
  ultimately have "runs (join_loop t c s1) s1"
    using J(1) e(2) by (intro join_loop_runs [OF u]) auto
  then show ?thesis
    using r u e(1) by (auto simp: st_thread_join_resume_def runs_def in_user_def split: sum.split)
qed

end
