(* ===== verification/ST_VpRun.thy ===== *)
theory ST_VpRun
  imports ST_VpThreads
begin

text \<open>
  The operations that involve the event system (\<open>st_poll\<close> and the idle thread), and those that
  neither block nor wake a thread: they keep the invariant of the virtual processor and of the event
  system (\<open>sys_ok\<close>).
\<close>

section \<open>Polling\<close>

definition sys_ok :: "ctl_oracle \<Rightarrow> st \<Rightarrow> bool" where
  "sys_ok ctl s \<longleftrightarrow> vp_ok s \<and> ev_ok ctl s"

lemma sys_ok_frame: "sys_ok ctl s \<Longrightarrow> vp_ok s' \<Longrightarrow> ev_part s' = ev_part s \<Longrightarrow> sys_ok ctl s'"
  using evs.frame [of "undefined\<lparr>w_ep := undefined\<lparr>ev_ctl := ctl\<rparr>\<rparr>" s s'] by (simp add: sys_ok_def)

lemma vp_ok_events:
  assumes "same_but_events s s'" "vp_ok s"
  shows "vp_ok s'"
proof -
  note E = same_but_eventsD [OF assms(1)]
  have "vp_inv (Some (this_thread s)) s'"
    by (rule vp_inv_cong [OF _ _ _ _ _ _ _ _ _ _ _ _ _ vp_okD [OF assms(2)]]) (simp_all add: E)
  then show ?thesis using assms(2) E by (simp add: vp_ok_def idle_ok_def)
qed

lemma in_user_events: "same_but_events s s' \<Longrightarrow> in_user s \<Longrightarrow> in_user s'"
  using vp_ok_events [of s s'] same_but_eventsD [of s s'] by (simp add: in_user_def)

text \<open>The thread blocks in \<open>st_poll\<close>, its request on the io queue.\<close>

lemma poll_block:
  assumes u: "in_user s"
    and z: "sleepq_is z (timed_set (this_thread s) d (sleepers s))"
      "noheap z = noheap (timed (this_thread s) d (set_state (this_thread s) ST_IO_WAIT (enqueue_pollq (this_thread s) ps s)))"
  shows "\<exists>s'. ST_SWITCH_CONTEXT K_poll (this_thread s) z = Some s' \<and> vp_ok s' \<and>
    ev_part s' = ev_part (enqueue_pollq (this_thread s) ps s)"
proof -
  let ?t = "this_thread s" let ?e = "enqueue_pollq (this_thread s) ps s"
  let ?b = "set_state ?t ST_IO_WAIT ?e" let ?c = "set_ctx ?t K_poll ?b"
  note U = in_userD [OF u]
  note R = running_facts [OF U(1)]
  have v: "vp_ok s" using u by (simp add: in_user_def)
  note C = vp_ok_clauses [OF v]
  note E = enqueue_pollq_def ST_ADD_IOQ_def
  have o: "same_others ?t s ?c" by (simp add: same_others_def live_def E)
  have "cond_ok ?c" by (rule cond_ok_stay [OF C(1) o]) (use U in \<open>simp_all add: E\<close>)
  moreover have "term_ok ?c" by (rule term_ok_step [OF C(2) o]) (simp_all add: E)
  moreover have "join_ok ?c" by (rule join_ok_step [OF C(3) o]) simp_all
  moreover have "mutex_ok ?c" by (rule mutex_ok_stay [OF C(4) o]) (use U in \<open>simp_all add: E\<close>)
  moreover have "thread_ok None ?c ?t"
    using R U by (auto simp: thread_ok_def tok_def E)
  moreover have "only_thread ?t s ?b"
    using R(12) U(4) by (auto simp: only_thread_def E)
  ultimately have "\<exists>s'. ST_SWITCH_CONTEXT K_poll ?t z = Some s' \<and> vp_ok s' \<and> ev_part s' = ev_part ?b \<and>
    this_thread s' = next_thread s"
    by (intro block_inv [OF U(1) z]) (use U in \<open>auto simp: E\<close>)
  then show ?thesis by auto
qed

lemma timed_set_state: "timed t d (set_state t x s) = set_state t x (timed t d s)"
  by (cases "thr s t") (auto simp: timed_def set_due_def set_state_def upd_thr_def)

lemma poll_enter_run:
  assumes u: "in_user s" and k: "ev_ok (ev_ctl (w_ep w)) s"
  shows "\<exists>r s'. st_poll w ps d s = Some (r, s') \<and> sys_ok (ev_ctl (w_ep w)) s'"
proof (cases "has_flag (flags (thr s (this_thread s))) FL_INTERRUPT")
  case True
  have "sys_ok (ev_ctl (w_ep w)) s" using u k by (simp add: sys_ok_def in_user_def)
  then have "sys_ok (ev_ctl (w_ep w)) (clear_fl (this_thread s) FL_INTERRUPT s)"
    by (rule sys_ok_frame) (use u in \<open>simp_all add: vp_ok_clear_fl in_user_def\<close>)
  then show ?thesis using True by (simp add: st_poll_def check_interrupt_def Let_def)
next
  case False
  let ?t = "this_thread s"
  obtain r s1 where a: "ev_pollset_add w ps s = Some (r, s1)" "same_but_events s s1"
    and c: "case r of Inl _ \<Rightarrow> ev_ok (ev_ctl (w_ep w)) s1 | Inr _ \<Rightarrow> ev_ok (ev_ctl (w_ep w)) (enqueue_pollq ?t ps s1)"
    using evs.add_law [OF k in_userD(4) [OF u], of ps] by blast
  have u1: "in_user s1" by (rule in_user_events [OF a(2) u])
  note E = same_but_eventsD [OF a(2)]
  show ?thesis
  proof (cases r)
    case (Inl e)
    then show ?thesis
      using a c u1 False by (auto simp: st_poll_def check_interrupt_def Let_def sys_ok_def in_user_def)
  next
    case (Inr x)
    let ?e = "enqueue_pollq ?t ps s1"
    note R = running_facts [OF in_userD(1) [OF u1]]
    have "sleepq_is ?e (sleepers s1)"
      by (rule sleepq_is_frame [OF R(10)]) (simp add: enqueue_pollq_def ST_ADD_IOQ_def)
    then obtain z where z: "(if d \<noteq> NO_TIMEOUT then st_add_sleep_q ?t d ?e else Some ?e) = Some z"
        "sleepq_is z (timed_set ?t d (sleepers s1))" "noheap z = noheap (timed ?t d ?e)"
      using timed_run [of ?e "sleepers s1" ?t d] R(7) E by auto
    have "sleepq_is (set_state ?t ST_IO_WAIT z) (timed_set (this_thread s1) d (sleepers s1))"
      using sleepq_is_frame [OF z(2)] E by simp
    moreover have "noheap (set_state ?t ST_IO_WAIT z) =
        noheap (timed (this_thread s1) d (set_state (this_thread s1) ST_IO_WAIT (enqueue_pollq (this_thread s1) ps s1)))"
      using z(3) by (simp add: timed_set_state noheap_set_state E)
    ultimately have "\<exists>s'. ST_SWITCH_CONTEXT K_poll (this_thread s1) (set_state ?t ST_IO_WAIT z) = Some s' \<and> vp_ok s' \<and>
        ev_part s' = ev_part (enqueue_pollq (this_thread s1) ps s1)"
      by (rule poll_block [OF u1])
    then obtain s' where s': "ST_SWITCH_CONTEXT K_poll ?t (set_state ?t ST_IO_WAIT z) = Some s'" "vp_ok s'"
        "ev_part s' = ev_part ?e"
      unfolding E(2) by blast
    have "ev_ok (ev_ctl (w_ep w)) s'"
      using evs.frame [OF _ s'(3)] c Inr by simp
    moreover have "st_poll w ps d s = Some (Blocked, s')"
      using a(1) z(1) s'(1) Inr False
      by (auto simp: st_poll_def check_interrupt_def Let_def enqueue_pollq_def split: if_splits)
    ultimately show ?thesis using s'(2) by (simp add: sys_ok_def)
  qed
qed

text \<open>The rest of \<open>st_poll\<close>: a request that timed out or was interrupted is taken back.\<close>

lemma poll_leave_user:
  assumes v: "vp_ok s" and k: "ctx (thr s (this_thread s)) = K_poll"
    and b: "b = switched_in s \<and> this_thread s \<notin> set (io_q s) \<or> b = ST_DEL_IOQ (this_thread s) (switched_in s)"
  shows "in_user b"
proof -
  note C = vp_ok_clauses [OF v]
  have p: "thread_q b = thread_q s" "run_q b = run_q s" "zombie_q b = zombie_q s" "idle_thread b = idle_thread s"
    "active_count b = active_count s" "this_thread b = this_thread s" "conds b = conds s" "mutexes b = mutexes s"
    "pollqs b = pollqs s" "thr b = thr (switched_in s)" "heap_part b = heap_part s"
    "io_q b = io_q s \<or> io_q b = remove1 (this_thread s) (io_q s)" "this_thread s \<notin> set (io_q b)"
    using b C(5) by (auto simp: ST_DEL_IOQ_def)
  have d: "distinct (io_q b)" using p(12) C(5) by auto
  have io: "u \<in> set (io_q b) \<longleftrightarrow> u \<in> set (io_q s)" if "u \<noteq> this_thread s" for u
    using p(12) that C(5) by auto
  have so: "same_others (this_thread s) s b"
    by (simp add: same_others_def live_def p)
  have "vp_ok b \<and> in_user b"
  proof (rule resume_ok [OF v])
    show "cond_ok b" by (rule cond_ok_stay [OF C(1) so]) (simp_all add: k p)
    show "mutex_ok b" by (rule mutex_ok_stay [OF C(4) so]) (simp_all add: k p)
    show "only_thread (this_thread s) s b" using d io by (simp add: only_thread_def p)
  qed (use k not_idle [OF v] C in \<open>simp_all add: p\<close>)
  then show ?thesis by blast
qed

lemma poll_resume_run:
  assumes v: "sys_ok (ev_ctl (w_ep w)) s" and k: "ctx (thr s (this_thread s)) = K_poll"
  shows "\<exists>r s'. st_poll_resume w s = Some (r, s') \<and> sys_ok (ev_ctl (w_ep w)) s'"
proof -
  let ?t = "this_thread s" let ?n = "switched_in s"
  have vp: "vp_ok s" and ev: "ev_ok (ev_ctl (w_ep w)) s" using v by (simp_all add: sys_ok_def)
  note C = vp_ok_clauses [OF vp]
  have io: "?t \<in> set (io_q s) \<longleftrightarrow> on_ioq (pollqs s ?t)"
    using thread_ok_state(8) [OF running_tok [OF vp]] k by simp
  have n: "ev_ok (ev_ctl (w_ep w)) ?n" "io_q ?n = io_q s" "pollqs ?n = pollqs s" "this_thread ?n = ?t"
    using evs.frame [OF ev] by simp_all
  obtain m s1 where s1: "(if on_ioq (pollqs ?n ?t)
        then do { s' \<leftarrow> ev_pollset_del w (pds (pollqs ?n ?t)) (ST_DEL_IOQ ?t ?n); Some (0, s') }
        else Some (poll_count (pds (pollqs ?n ?t)), ?n)) = Some (m, s1)" "in_user s1" "ev_ok (ev_ctl (w_ep w)) s1"
  proof (cases "on_ioq (pollqs s ?t)")
    case True
    then obtain s1 where a: "ev_pollset_del w (pds (pollqs ?n ?t)) (ST_DEL_IOQ ?t ?n) = Some s1"
        "same_but_events (ST_DEL_IOQ ?t ?n) s1" "ev_ok (ev_ctl (w_ep w)) s1"
      using evs.del_law [OF n(1), of ?t] io C(5) n by auto
    have "in_user s1"
      by (rule in_user_events [OF a(2) poll_leave_user [OF vp k]]) simp
    with a True n(3) show thesis by (intro that [of 0 s1]) simp_all
  next
    case False
    then show thesis
      using poll_leave_user [OF vp k, of ?n] io n by (intro that [of "poll_count (pds (pollqs ?n ?t))" ?n]) simp_all
  qed
  have "\<exists>r s'. check_interrupt (\<lambda>s. Some (Returned (Inr m), s)) s1 = Some (r, s') \<and> vp_ok s' \<and> ev_part s' = ev_part s1"
    by (rule check_interrupt_run) (use s1(2) in \<open>simp_all add: in_user_def\<close>)
  then obtain r s' where "check_interrupt (\<lambda>s. Some (Returned (Inr m), s)) s1 = Some (r, s')" "sys_ok (ev_ctl (w_ep w)) s'"
    using sys_ok_frame [of _ s1] s1 by (auto simp: sys_ok_def in_user_def)
  moreover have "st_poll_resume w s = check_interrupt (\<lambda>s. Some (Returned (Inr m), s)) s1"
    unfolding st_poll_resume_def Let_def n(4) s1(1) [unfolded n(4)] by simp
  ultimately show ?thesis by auto
qed

section \<open>The idle thread\<close>

lemma idle_round_run:
  assumes v: "sys_ok (ev_ctl (w_ep w)) s" and t: "this_thread s = idle_thread s" and f: "ev_fits w s"
  shows "active_count s \<le> 0 \<and> idle_round w c s = Some (Inl ()) \<or>
    (\<exists>s'. active_count s > 0 \<and> idle_round w c s = Some (Inr s') \<and> sys_ok (ev_ctl (w_ep w)) s')"
proof (cases "active_count s > 0")
  case True
  let ?i = "idle_thread s"
  have vp: "vp_inv (Some ?i) s" "run_q s = []" and ev: "ev_ok (ev_ctl (w_ep w)) s"
    using v t by (auto simp: sys_ok_def vp_ok_def idle_ok_def)
  obtain s1 where s1: "ev_dispatch w s = Some s1" "vp_inv (Some ?i) s1" "ev_ok (ev_ctl (w_ep w)) s1" "disp_frame s s1"
    using evs.disp_law [OF ev f pending_start [OF vp]] by blast
  obtain s2 W where s2: "st_vp_check_clock (c_now c) (c_time c) s1 = Some s2" "vp_inv (Some ?i) s2"
      "woke {t \<in> set W. state (thr s1 t) = ST_COND_WAIT} W (at_time (c_now c) (c_time c) s1) s2"
    using check_clock_run [OF s1(2)] by blast
  have p: "idle_thread s2 = ?i" "this_thread s2 = ?i" "ev_part s2 = ev_part s1"
    using s1(4) s2(3) t by (simp_all add: woke_def disp_frame_def)
  note R = running_facts [OF s2(2)]
  let ?b = "set_state ?i ST_RUNNABLE s2" let ?c = "set_ctx ?i K_idle ?b"
  have k: "ctx (thr s2 ?i) \<in> {K_start, K_idle}"
    using R(3) p by (simp add: thread_ok_def tok_def)
  then have k': "cwait (ctx (thr s2 ?i)) = None" "ctx (thr s2 ?i) \<noteq> K_zombie" "\<And>m. ctx (thr s2 ?i) \<noteq> K_mutex m"
    by auto
  have i: "cond_ok s2" "term_ok s2" "join_ok s2" "mutex_ok s2" using R(4) by (simp_all add: inv0_def)
  have o: "same_others ?i s2 ?c" by (simp add: same_others_def live_def)
  have "cond_ok ?c" by (rule cond_ok_stay [OF i(1) o]) (use k' in simp_all)
  moreover have "term_ok ?c" by (rule term_ok_step [OF i(2) o]) simp_all
  moreover have "join_ok ?c" by (rule join_ok_step [OF i(3) o]) simp_all
  moreover have "mutex_ok ?c" by (rule mutex_ok_stay [OF i(4) o]) (use k' in simp_all)
  moreover have "thread_ok None ?c ?i"
    using R p k by (auto simp: thread_ok_def tok_def)
  moreover have "only_thread ?i s2 ?b"
    using R(12) by (simp add: only_thread_def)
  moreover have "sleepq_is ?b (timed_set ?i NO_TIMEOUT (sleepers s2))"
    using sleepq_is_frame [OF R(10)] by (simp add: timed_set_def)
  ultimately have "\<exists>s'. ST_SWITCH_CONTEXT K_idle ?i ?b = Some s' \<and> vp_ok s' \<and> ev_part s' = ev_part ?b \<and>
    this_thread s' = next_thread s2"
    using k' by (intro block_inv [OF s2(2)]) (auto simp: timed_def)
  then obtain s' where s': "ST_SWITCH_CONTEXT K_idle ?i ?b = Some s'" "vp_ok s'" "ev_part s' = ev_part s1"
    using p by auto
  moreover have "ev_ok (ev_ctl (w_ep w)) s'" using evs.frame [OF s1(3) s'(3)] .
  ultimately show ?thesis
    using True s1(1) s2(1) t by (auto simp: idle_round_def Let_def sys_ok_def)
qed (simp add: idle_round_def Let_def)

section \<open>Operations on objects\<close>

text \<open>A call that returns at once, to the thread that made it, whatever its result.\<close>

definition stays :: "st \<Rightarrow> st \<Rightarrow> bool" where
  "stays s s' \<longleftrightarrow> in_user s' \<and> ev_part s' = ev_part s \<and> this_thread s' = this_thread s"

lemma stays_refl: "in_user s \<Longrightarrow> stays s s"
  by (simp add: stays_def)

lemma stays_sys: "sys_ok ctl s \<Longrightarrow> stays s s' \<Longrightarrow> sys_ok ctl s'"
  using sys_ok_frame by (simp add: stays_def in_user_def)

lemma stays_objects:
  assumes "in_user s" "b = s\<lparr>conds := cs, mutexes := ms\<rparr>" "cond_ok b" "term_ok b" "mutex_ok b"
  shows "stays s b"
  using in_user_objects [OF assms] assms(2) by (simp add: stays_def)

text \<open>One object changes; the clauses for the others stay.\<close>

lemma cond_ok_local:
  assumes k: "cond_ok s" and b: "\<And>c'. c' \<noteq> c \<Longrightarrow> conds b c' = conds s c'" "thr b = thr s" "thread_q b = thread_q s"
    and c: "\<And>q. conds b c = Some q \<Longrightarrow> distinct q \<and> (\<forall>t. t \<in> set q \<longleftrightarrow> t \<in> live s \<and> cwait (ctx (thr s t)) = Some c)"
      "\<And>t. conds b c = None \<Longrightarrow> t \<in> live s \<Longrightarrow> cwait (ctx (thr s t)) \<noteq> Some c"
  shows "cond_ok b"
proof -
  have l: "live b = live s" by (simp add: live_def b)
  have "distinct q \<and> (\<forall>t. t \<in> set q \<longleftrightarrow> t \<in> live s \<and> cwait (ctx (thr s t)) = Some c')" if "conds b c' = Some q" for c' q
    using k c(1) [of q] b(1) [of c'] that unfolding cond_ok_def by (cases "c' = c") auto
  moreover have "conds b c' \<noteq> None" if "t \<in> live s" "cwait (ctx (thr s t)) = Some c'" for t c'
  proof (cases "c' = c")
    case False
    then show ?thesis using k b(1) [OF False] that unfolding cond_ok_def by metis
  qed (use c(2) that in auto)
  ultimately show ?thesis unfolding cond_ok_def l b(2) by blast
qed

lemma mutex_ok_local:
  assumes k: "mutex_ok s" and b: "\<And>m'. m' \<noteq> m \<Longrightarrow> mutexes b m' = mutexes s m'" "thr b = thr s" "thread_q b = thread_q s"
    and c: "\<And>l. mutexes b m = Some l \<Longrightarrow> m_wait_q l = []" "\<And>t. t \<in> live s \<Longrightarrow> ctx (thr s t) \<noteq> K_mutex m"
  shows "mutex_ok b"
proof -
  have l: "live b = live s" by (simp add: live_def b)
  have "distinct (m_wait_q x) \<and> (\<forall>t. t \<in> set (m_wait_q x) \<longleftrightarrow> t \<in> live s \<and> ctx (thr s t) = K_mutex m') \<and>
      (\<forall>t \<in> set (m_wait_q x). state (thr s t) = ST_LOCK_WAIT \<longrightarrow> owner x \<noteq> None \<and> owner x \<noteq> Some t)"
    if "mutexes b m' = Some x" for m' x
  proof (cases "m' = m")
    case False
    then have "mutexes s m' = Some x" using b(1) that by simp
    then show ?thesis using mutex_okD [OF k] by metis
  qed (use c that in auto)
  moreover have "mutexes b m' \<noteq> None" if "t \<in> live s" "ctx (thr s t) = K_mutex m'" for t m'
    using mutex_okD2 [OF k that] b(1) [of m'] c(2) [OF that(1)] that(2) by (cases "m' = m") auto
  ultimately show ?thesis unfolding mutex_ok_def l b(2) by blast
qed

lemma term_ok_more:
  "term_ok s \<Longrightarrow> thr b = thr s \<Longrightarrow> thread_q b = thread_q s \<Longrightarrow>
   (\<And>t c. t \<in> live s \<Longrightarrow> term_cv (thr s t) = Some c \<Longrightarrow> conds s c \<noteq> None \<Longrightarrow> conds b c \<noteq> None) \<Longrightarrow> term_ok b"
  unfolding term_ok_def live_def by metis

lemma cond_new_stays:
  assumes u: "in_user s" and c: "\<And>c. ob = Some c \<Longrightarrow> conds s c = None"
  shows "stays s (snd (st_cond_new ob s))"
proof (cases ob)
  case (Some c)
  note C = in_user_clauses [OF u]
  let ?b = "s\<lparr>conds := (conds s)(c \<mapsto> []), mutexes := mutexes s\<rparr>"
  have n: "conds s c = None" using c Some by blast
  have w: "cwait (ctx (thr s t)) \<noteq> Some c" if "t \<in> live s" for t
    using C(1) n that unfolding cond_ok_def by metis
  have "cond_ok ?b" by (rule cond_ok_local [OF C(1), of c]) (use w in auto)
  moreover have "term_ok ?b" by (rule term_ok_more [OF C(2)]) auto
  moreover have "mutex_ok ?b" by (rule mutex_ok_mono [OF C(4)]) (simp_all add: live_def)
  ultimately have "stays s ?b" by (rule stays_objects [OF u refl])
  then show ?thesis using Some by (simp add: st_cond_new_def)
qed (simp add: st_cond_new_def stays_refl u)

lemma cond_destroy_stays:
  assumes u: "in_user s" and c: "user_cond s c"
  shows "\<exists>r s'. st_cond_destroy c s = Some (r, s') \<and> stays s s'"
proof -
  note C = in_user_clauses [OF u]
  obtain q where q: "conds s c = Some q" using c by (auto simp: user_cond_def)
  show ?thesis
  proof (cases "q = []")
    case True
    let ?b = "s\<lparr>conds := (conds s)(c := None), mutexes := mutexes s\<rparr>"
    have w: "cwait (ctx (thr s t)) \<noteq> Some c" if "t \<in> live s" for t
    proof -
      have "t \<notin> set q" using True by simp
      then show ?thesis using C(1) q that unfolding cond_ok_def by blast
    qed
    have t: "term_cv (thr s t) \<noteq> Some c" if "t \<in> live s" for t
      using c that by (auto simp: user_cond_def list_all_iff live_def)
    have "cond_ok ?b" by (rule cond_ok_local [OF C(1), of c]) (use w in auto)
    moreover have "term_ok ?b" by (rule term_ok_more [OF C(2)]) (use t in auto)
    moreover have "mutex_ok ?b" by (rule mutex_ok_mono [OF C(4)]) (simp_all add: live_def)
    ultimately have "stays s ?b" by (rule stays_objects [OF u refl])
    then show ?thesis using True q by (simp add: st_cond_destroy_def)
  next
    case False
    then show ?thesis using q u by (auto simp: st_cond_destroy_def intro: stays_refl)
  qed
qed

lemma signal_stays:
  assumes u: "in_user s" and c: "conds s c = Some q"
  shows "\<exists>s'. cond_signal_gen br c s = Some s' \<and> stays s s'"
proof -
  note U = in_userD [OF u]
  obtain s' where s': "cond_signal_gen br c s = Some s'" "vp_inv (Some (this_thread s)) s'"
    "woke {} (let w = filter (\<lambda>t. state (thr s t) = ST_COND_WAIT) q in if br then w else take 1 w) s s'"
    using signal_run [OF U(1) c] by blast
  have "in_user s'" by (rule woke_in_user [OF s'(3,2) u])
  then show ?thesis using s'(1,3) unfolding stays_def woke_def by blast
qed

lemma mutex_new_stays:
  assumes u: "in_user s" and m: "\<And>m. ob = Some m \<Longrightarrow> mutexes s m = None"
  shows "stays s (snd (st_mutex_new ob s))"
proof (cases ob)
  case (Some m)
  note C = in_user_clauses [OF u]
  let ?b = "s\<lparr>conds := conds s, mutexes := (mutexes s)(m \<mapsto> \<lparr>owner = None, m_wait_q = []\<rparr>)\<rparr>"
  have n: "mutexes s m = None" using m Some by blast
  have "cond_ok ?b" "term_ok ?b"
    using C(1,2) cond_ok_cong [of ?b s] term_ok_cong [of ?b s] by (simp_all add: live_def)
  moreover have "mutex_ok ?b"
    by (rule mutex_ok_local [OF C(4), of m]) (use n mutex_okD2 [OF C(4)] in force)+
  ultimately have "stays s ?b" by (rule stays_objects [OF u refl])
  then show ?thesis using Some by (simp add: st_mutex_new_def set_mutex_def)
qed (simp add: st_mutex_new_def stays_refl u)

lemma mutex_destroy_stays:
  assumes u: "in_user s" and m: "mutexes s m = Some l"
  shows "\<exists>r s'. st_mutex_destroy m s = Some (r, s') \<and> stays s s'"
proof (cases "owner l \<noteq> None \<or> m_wait_q l \<noteq> []")
  case False
  note C = in_user_clauses [OF u]
  let ?b = "s\<lparr>conds := conds s, mutexes := (mutexes s)(m := None)\<rparr>"
  have w: "ctx (thr s t) \<noteq> K_mutex m" if "t \<in> live s" for t
    using mutex_okD(2) [OF C(4) m, of t] that False by auto
  have "cond_ok ?b" "term_ok ?b"
    using C(1,2) cond_ok_cong [of ?b s] term_ok_cong [of ?b s] by (simp_all add: live_def)
  moreover have "mutex_ok ?b"
    by (rule mutex_ok_local [OF C(4), of m]) (use w in auto)
  ultimately have "stays s ?b" by (rule stays_objects [OF u refl])
  then show ?thesis using False m by (simp add: st_mutex_destroy_def)
qed (use m u in \<open>auto simp: st_mutex_destroy_def intro: stays_refl\<close>)

lemma trylock_stays:
  assumes u: "in_user s" and m: "mutexes s m = Some l"
  shows "\<exists>r s'. st_mutex_trylock m s = Some (r, s') \<and> stays s s'"
proof (cases "owner l = None")
  case True
  note C = in_user_clauses [OF u]
  have "in_user (set_mutex m (l\<lparr>owner := Some (this_thread s)\<rparr>) s)"
    by (rule set_mutex_user [OF u m]) (use mutex_okD(3) [OF C(4) m] True in auto)
  then show ?thesis using True m by (simp add: st_mutex_trylock_def stays_def set_mutex_def)
qed (use m u in \<open>auto simp: st_mutex_trylock_def intro: stays_refl\<close>)

lemma unlock_stays:
  assumes u: "in_user s" and m: "mutexes s m = Some l"
  shows "\<exists>r s'. st_mutex_unlock m s = Some (r, s') \<and> stays s s'"
proof (cases "owner l = Some (this_thread s)")
  case True
  have "this_thread (unlock_loop m l (m_wait_q l) s) = this_thread s"
    by (simp add: unlock_loop_eq set_mutex_def make_runnable_def ST_ADD_RUNQ_def split: list.split)
  then show ?thesis
    using unlock_run [OF u m] True m by (simp add: st_mutex_unlock_def stays_def)
qed (use m u in \<open>auto simp: st_mutex_unlock_def intro: stays_refl\<close>)

section \<open>Keys, callbacks and the time cache\<close>

lemma vp_inv_private:
  "vp_inv cur (upd_thr t (\<lambda>z. z\<lparr>private_data := p\<rparr>) s) = vp_inv cur s"
proof -
  define b where "b = upd_thr t (\<lambda>z. z\<lparr>private_data := p\<rparr>) s"
  have f: "state (thr b u) = state (thr s u)" "flags (thr b u) = flags (thr s u)" "ctx (thr b u) = ctx (thr s u)"
    "term_cv (thr b u) = term_cv (thr s u)" for u
    by (simp_all add: b_def)
  have q: "thread_q b = thread_q s" "run_q b = run_q s" "zombie_q b = zombie_q s" "io_q b = io_q s" "pollqs b = pollqs s"
    "conds b = conds s" "mutexes b = mutexes s" "idle_thread b = idle_thread s" "active_count b = active_count s"
    "this_thread b = this_thread s"
    by (simp_all add: b_def)
  have "inv0 cur b = inv0 cur s" by (simp add: inv0_defs f q)
  moreover have "heap_part b = heap_part s"
    by (auto simp: b_def heap_part_def fun_eq_iff simp del: rd_left rd_right)
  moreover have "sleepers b = sleepers s"
    by (simp add: sleepers_def live_def f q)
  ultimately show ?thesis
    unfolding b_def [symmetric] vp_inv_def using sleepq_is_frame by metis
qed

lemma stays_private: "in_user s \<Longrightarrow> stays s (upd_thr t (\<lambda>z. z\<lparr>private_data := p\<rparr>) s)"
  by (simp add: stays_def in_user_def vp_ok_def idle_ok_def vp_inv_private) auto

lemma stays_cong:
  assumes "in_user s" "thr b = thr s" "thread_q b = thread_q s" "run_q b = run_q s" "zombie_q b = zombie_q s"
    "conds b = conds s" "mutexes b = mutexes s" "idle_thread b = idle_thread s"
    "active_count b = active_count s" "this_thread b = this_thread s" "sleep_q b = sleep_q s" "sleepq_size b = sleepq_size s"
    "ev_part b = ev_part s"
  shows "stays s b"
proof -
  have "vp_inv (Some (this_thread s)) b"
    by (rule vp_inv_cong [OF _ _ _ _ _ _ _ _ _ _ _ _ _ in_userD(1) [OF assms(1)]])
      (use ev_partD(5,6) [OF assms(13)] in \<open>simp_all add: assms(2-12)\<close>)
  then show ?thesis using assms by (simp add: stays_def in_user_def vp_ok_def idle_ok_def)
qed

lemma stays_trans: "stays s s1 \<Longrightarrow> stays s1 s2 \<Longrightarrow> stays s s2"
  by (simp add: stays_def)

lemma setspecific_stays: "in_user s \<Longrightarrow> stays s (snd (st_thread_setspecific k v s))"
proof -
  assume u: "in_user s"
  have "stays s (call_destructor d x s)" for d x
    by (rule stays_cong [OF u]) (simp_all add: call_destructor_def)
  moreover have "stays s (set_private t n v s)" if "in_user s" for t n s
  proof -
    have "set_private t n v s = upd_thr t (\<lambda>z. z\<lparr>private_data := (private_data (thr s t))[n := v]\<rparr>) s"
      by (simp add: set_private_def upd_thr_def)
    then show ?thesis using stays_private [OF that] by simp
  qed
  ultimately have "stays s (set_private t n v (call_destructor d x s))" for t n d x
    using stays_trans by (meson stays_def)
  moreover have "stays s (set_private t n v s)" for t n
    using \<open>\<And>t n s. in_user s \<Longrightarrow> stays s (set_private t n v s)\<close> u by blast
  ultimately show ?thesis
    using stays_refl [OF u] by (auto simp: st_thread_setspecific_def Let_def)
qed

lemma key_create_stays: "in_user s \<Longrightarrow> stays s (snd (st_key_create d s))"
  using stays_refl by (auto simp: st_key_create_def Let_def intro: stays_cong)

lemma callbacks_stay:
  "in_user s \<Longrightarrow> stays s (snd (st_set_switch_in_cb cb s))" "in_user s \<Longrightarrow> stays s (snd (st_set_switch_out_cb cb s))"
  by (auto simp: st_set_switch_in_cb_def st_set_switch_out_cb_def ev_part_def intro!: stays_cong)

lemma timecache_stays: "in_user s \<Longrightarrow> stays s (snd (st_timecache_set on t n s))"
  by (auto simp: st_timecache_set_def Let_def intro!: stays_cong)

end
