(* ===== verification/ST_System.thy ===== *)
theory ST_System
  imports ST_VpRun
begin

text \<open>
  The program as a transition system. A step is a call of the library by the running thread, up to
  its return or to the switch to another thread (\<open>exec\<close>); the rest of a call of a thread that has been
  switched to, or its start (\<open>resume\<close>); or a round of the idle thread. \<open>allowed\<close> says what the library
  asks of its caller: that the objects it names exist. All threads but the idle one run code of the
  program between the calls.
\<close>

section \<open>Calls\<close>

datatype call =
    C_poll world "pollfd list" utime
  | C_usleep utime
  | C_sleep int
  | C_cond_new "cvid option"
  | C_cond_destroy cvid
  | C_cond_timedwait cvid utime
  | C_cond_signal cvid
  | C_cond_broadcast cvid
  | C_mutex_new "mid option"
  | C_mutex_destroy mid
  | C_mutex_lock mid
  | C_mutex_unlock mid
  | C_mutex_trylock mid
  | C_create create_env ptr ptr bool int
  | C_join tid
  | C_exit ptr
  | C_return ptr \<comment> \<open>the start function of the thread returns\<close>
  | C_interrupt tid
  | C_key_create ptr
  | C_setspecific int ptr
  | C_switch_in_cb ptr
  | C_switch_out_cb ptr
  | C_timecache bool int utime

fun exec :: "call \<Rightarrow> st \<Rightarrow> st option" where
  "exec (C_poll w ps d) s = map_option snd (st_poll w ps d s)"
| "exec (C_usleep d) s = map_option snd (st_usleep d s)"
| "exec (C_sleep n) s = map_option snd (st_sleep n s)"
| "exec (C_cond_new ob) s = Some (snd (st_cond_new ob s))"
| "exec (C_cond_destroy c) s = map_option snd (st_cond_destroy c s)"
| "exec (C_cond_timedwait c d) s = map_option snd (st_cond_timedwait c d s)"
| "exec (C_cond_signal c) s = st_cond_signal c s"
| "exec (C_cond_broadcast c) s = st_cond_broadcast c s"
| "exec (C_mutex_new ob) s = Some (snd (st_mutex_new ob s))"
| "exec (C_mutex_destroy m) s = map_option snd (st_mutex_destroy m s)"
| "exec (C_mutex_lock m) s = map_option snd (st_mutex_lock m s)"
| "exec (C_mutex_unlock m) s = map_option snd (st_mutex_unlock m s)"
| "exec (C_mutex_trylock m) s = map_option snd (st_mutex_trylock m s)"
| "exec (C_create e f a j n) s = Some (snd (st_thread_create e f a j n s))"
| "exec (C_join t) s = map_option snd (st_thread_join t s)"
| "exec (C_exit rv) s = st_thread_exit rv s"
| "exec (C_return rv) s = st_thread_main_return rv s"
| "exec (C_interrupt t) s = st_thread_interrupt t s"
| "exec (C_key_create d) s = Some (snd (st_key_create d s))"
| "exec (C_setspecific k v) s = Some (snd (st_thread_setspecific k v s))"
| "exec (C_switch_in_cb cb) s = Some (snd (st_set_switch_in_cb cb s))"
| "exec (C_switch_out_cb cb) s = Some (snd (st_set_switch_out_cb cb s))"
| "exec (C_timecache on t n) s = Some (snd (st_timecache_set on t n s))"

text \<open>An object that \<open>calloc\<close> returns is not in use.\<close>

fun allowed :: "ctl_oracle \<Rightarrow> call \<Rightarrow> st \<Rightarrow> bool" where
  "allowed ctl (C_poll w ps d) s = (ev_ctl (w_ep w) = ctl)"
| "allowed ctl (C_cond_new ob) s = (\<forall>c \<in> set_option ob. conds s c = None)"
| "allowed ctl (C_cond_destroy c) s = user_cond s c"
| "allowed ctl (C_cond_timedwait c d) s = user_cond s c"
| "allowed ctl (C_cond_signal c) s = user_cond s c"
| "allowed ctl (C_cond_broadcast c) s = user_cond s c"
| "allowed ctl (C_mutex_new ob) s = (\<forall>m \<in> set_option ob. mutexes s m = None)"
| "allowed ctl (C_mutex_destroy m) s = (mutexes s m \<noteq> None)"
| "allowed ctl (C_mutex_lock m) s = (mutexes s m \<noteq> None)"
| "allowed ctl (C_mutex_unlock m) s = (mutexes s m \<noteq> None)"
| "allowed ctl (C_mutex_trylock m) s = (mutexes s m \<noteq> None)"
| "allowed ctl (C_create e f a j n) s =
     ((\<forall>t \<in> set_option (create_addr e n s). t \<notin> set (thread_q s)) \<and>
      (\<forall>c \<in> set_option (ce_cond e). conds s c = None))"
| "allowed ctl (C_join t) s = joinable s t"
| "allowed ctl (C_interrupt t) s = (t \<in> set (thread_q s))"
| "allowed ctl _ s = True"

section \<open>Going on after a switch\<close>

definition resume :: "world \<Rightarrow> st \<Rightarrow> st option" where
  "resume w s =
     (case ctx (thr s (this_thread s)) of
        K_start \<Rightarrow> Some (snd (snd (st_thread_main_enter s)))
      | K_usleep \<Rightarrow> map_option snd (st_usleep_resume s)
      | K_cond c \<Rightarrow> map_option snd (st_cond_timedwait_resume c s)
      | K_join t c \<Rightarrow> map_option snd (st_thread_join_resume t c s)
      | K_mutex m \<Rightarrow> map_option snd (st_mutex_lock_resume m s)
      | K_poll \<Rightarrow> map_option snd (st_poll_resume w s)
      | K_zombie \<Rightarrow> st_thread_exit_resume s
      | _ \<Rightarrow> None)"

section \<open>Steps\<close>

inductive step :: "ctl_oracle \<Rightarrow> st \<Rightarrow> st \<Rightarrow> bool" for ctl where
  call: "ctx (thr s (this_thread s)) = K_run \<Longrightarrow> allowed ctl op s \<Longrightarrow> exec op s = Some s' \<Longrightarrow> step ctl s s'"
| go_on: "this_thread s \<noteq> idle_thread s \<Longrightarrow> ctx (thr s (this_thread s)) \<noteq> K_run \<Longrightarrow> ev_ctl (w_ep w) = ctl \<Longrightarrow>
    resume w s = Some s' \<Longrightarrow> step ctl s s'"
| idle: "this_thread s = idle_thread s \<Longrightarrow> ev_ctl (w_ep w) = ctl \<Longrightarrow> ev_fits w s \<Longrightarrow>
    idle_round w c s = Some (Inr s') \<Longrightarrow> step ctl s s'"

inductive reachable :: "ctl_oracle \<Rightarrow> st \<Rightarrow> bool" for ctl where
  init: "st_init e (snd (st_set_eventsys cfg p n static_st)) = Some (True, s) \<Longrightarrow>
    idle_thread s \<noteq> this_thread s \<Longrightarrow> reachable ctl s"
| step: "reachable ctl s \<Longrightarrow> step ctl s s' \<Longrightarrow> reachable ctl s'"

inductive_cases stepE: "step ctl s s'"

section \<open>Every call returns or blocks\<close>

lemma runs_sys:
  assumes "sys_ok ctl s" "runs res s"
  shows "\<exists>s'. map_option snd res = Some s' \<and> sys_ok ctl s'"
  using assms sys_ok_frame unfolding runs_def by fastforce

lemma stays_opt:
  assumes "sys_ok ctl s" "\<exists>r s'. res = Some (r, s') \<and> stays s s'"
  shows "\<exists>s'. map_option snd res = Some s' \<and> sys_ok ctl s'"
  using assms stays_sys by fastforce

lemma parts_sys:
  assumes "sys_ok ctl s" "\<exists>s'. res = Some s' \<and> vp_ok s' \<and> ev_part s' = ev_part s"
  shows "\<exists>s'. res = Some s' \<and> sys_ok ctl s'"
  using assms sys_ok_frame by blast

lemma exec_run:
  assumes s: "sys_ok ctl s" and k: "ctx (thr s (this_thread s)) = K_run" and a: "allowed ctl op s"
  shows "\<exists>s'. exec op s = Some s' \<and> sys_ok ctl s'"
proof -
  have u: "in_user s" using s k by (simp add: in_user_def sys_ok_def)
  note ST = stays_sys [OF s]
  show ?thesis
  proof (cases op)
    case (C_poll w ps d)
    then show ?thesis using poll_enter_run [OF u, of w ps d] s a by (auto simp: sys_ok_def)
  next
    case (C_usleep d)
    then show ?thesis using runs_sys [OF s usleep_runs [OF u]] by simp
  next
    case (C_sleep n)
    then show ?thesis using runs_sys [OF s usleep_runs [OF u]] by (simp add: st_sleep_def)
  next
    case (C_cond_new ob)
    then show ?thesis using ST [OF cond_new_stays [OF u]] a by simp
  next
    case (C_cond_destroy c)
    then show ?thesis using stays_opt [OF s cond_destroy_stays [OF u]] a by simp
  next
    case (C_cond_timedwait c d)
    then obtain q where q: "conds s c = Some q" "user_cond s c" using a by (auto simp: user_cond_def)
    then have "runs (st_cond_timedwait c d s) s"
      unfolding st_cond_timedwait_def by (intro cond_wait_runs [OF u]) auto
    from runs_sys [OF s this] show ?thesis using C_cond_timedwait by simp
  next
    case (C_cond_signal c)
    then obtain q where "conds s c = Some q" using a by (auto simp: user_cond_def)
    from signal_stays [OF u this] show ?thesis using ST C_cond_signal by (fastforce simp: st_cond_signal_def)
  next
    case (C_cond_broadcast c)
    then obtain q where "conds s c = Some q" using a by (auto simp: user_cond_def)
    from signal_stays [OF u this] show ?thesis using ST C_cond_broadcast by (fastforce simp: st_cond_broadcast_def)
  next
    case (C_mutex_new ob)
    then show ?thesis using ST [OF mutex_new_stays [OF u]] a by simp
  next
    case (C_mutex_destroy m)
    then show ?thesis using stays_opt [OF s mutex_destroy_stays [OF u]] a by auto
  next
    case (C_mutex_lock m)
    then show ?thesis using runs_sys [OF s mutex_lock_runs [OF u]] a by auto
  next
    case (C_mutex_unlock m)
    then show ?thesis using stays_opt [OF s unlock_stays [OF u]] a by auto
  next
    case (C_mutex_trylock m)
    then show ?thesis using stays_opt [OF s trylock_stays [OF u]] a by auto
  next
    case (C_create e f x j n)
    then have "in_user (snd (st_thread_create e f x j n s)) \<and> ev_part (snd (st_thread_create e f x j n s)) = ev_part s"
      using a by (intro create_run [OF u]) (auto simp: live_def)
    then show ?thesis using sys_ok_frame [OF s] C_create by (simp add: in_user_def)
  next
    case (C_join t)
    then show ?thesis using runs_sys [OF s join_runs [OF u]] a by simp
  next
    case (C_exit rv)
    then show ?thesis using parts_sys [OF s exit_run [OF u]] by simp
  next
    case (C_return rv)
    then show ?thesis using parts_sys [OF s main_return_run [OF u]] by simp
  next
    case (C_interrupt t)
    then have "t \<in> live s" using a by (simp add: live_def)
    then show ?thesis using interrupt_run [OF u] sys_ok_frame [OF s] C_interrupt by (auto simp: in_user_def)
  next
    case (C_key_create d)
    then show ?thesis using ST [OF key_create_stays [OF u]] by simp
  next
    case (C_setspecific k v)
    then show ?thesis using ST [OF setspecific_stays [OF u]] by simp
  next
    case (C_switch_in_cb cb)
    then show ?thesis using ST [OF callbacks_stay(1) [OF u]] by simp
  next
    case (C_switch_out_cb cb)
    then show ?thesis using ST [OF callbacks_stay(2) [OF u]] by simp
  next
    case (C_timecache on t n)
    then show ?thesis using ST [OF timecache_stays [OF u]] by simp
  qed
qed

lemma resume_run:
  assumes s: "sys_ok ctl s" and k: "ctx (thr s (this_thread s)) \<noteq> K_run" "this_thread s \<noteq> idle_thread s"
    and w: "ev_ctl (w_ep w) = ctl"
  shows "\<exists>s'. resume w s = Some s' \<and> sys_ok ctl s'"
proof -
  have v: "vp_ok s" using s by (simp add: sys_ok_def)
  have t: "ctx (thr s (this_thread s)) \<noteq> K_dead" "ctx (thr s (this_thread s)) \<noteq> K_idle"
    using running_tok [OF v] k by (simp_all add: thread_ok_def tok_def)
  show ?thesis
  proof (cases "ctx (thr s (this_thread s))")
    case K_start
    then show ?thesis
      using main_enter_run [OF v K_start k(2)] sys_ok_frame [OF s] by (simp add: resume_def in_user_def)
  next
    case K_usleep
    then show ?thesis using runs_sys [OF s usleep_resume_runs [OF v]] by (simp add: resume_def)
  next
    case (K_cond c)
    then show ?thesis using runs_sys [OF s cond_resume_runs [OF v]] by (simp add: resume_def)
  next
    case (K_join t c)
    then show ?thesis using runs_sys [OF s join_resume_runs [OF v]] by (simp add: resume_def)
  next
    case (K_mutex m)
    then show ?thesis using runs_sys [OF s mutex_resume_runs [OF v]] by (simp add: resume_def)
  next
    case K_poll
    then show ?thesis using poll_resume_run [of w s] s w by (auto simp: resume_def)
  next
    case K_zombie
    then show ?thesis using parts_sys [OF s exit_resume_run [OF v]] by (simp add: resume_def)
  qed (use k t in simp_all)
qed

lemma step_ok:
  assumes "step ctl s s'" "sys_ok ctl s"
  shows "sys_ok ctl s'"
  using assms(1)
proof cases
  case (call op)
  then show ?thesis using exec_run [OF assms(2)] by fastforce
next
  case (go_on w)
  then show ?thesis using resume_run [OF assms(2)] by fastforce
next
  case (idle w c)
  then show ?thesis using idle_round_run [of w s c] assms(2) by fastforce
qed

section \<open>The start\<close>

lemma sleepq_is_empty: "sleep_q s = None \<Longrightarrow> sleepq_size s = 0 \<Longrightarrow> sleepq_is s {}"
  unfolding sleepq_is_def sleepq_tree_def
  by (intro exI [of _ Leaf]) (simp add: complete_def rd_loc.simps)

lemma ev_init_ok:
  assumes "ev_init w s = Some (Inr x, s')" "io_q s = []"
  shows "ev_ok ctl s' \<and> same_but_events s s'"
proof -
  have w: "watchers s' e f = 0" if "io_q s' = []" for e f
    using that by (simp add: watchers_def)
  show ?thesis
  proof (cases "evsys s")
    case (Some y)
    show ?thesis
    proof (cases y)
      case SELECT
      then have s': "s' = s\<lparr>sel := \<lparr>fd_read_set = (\<lambda>_. False), fd_write_set = (\<lambda>_. False),
              fd_exception_set = (\<lambda>_. False), sel_read_cnt = (\<lambda>_. 0), sel_write_cnt = (\<lambda>_. 0),
              sel_excep_cnt = (\<lambda>_. 0), maxfd = - 1\<rparr>\<rparr>"
        using assms Some by (auto simp: ev_init_def st_select_init_def split: if_splits)
      have e: "io_q s' = []" "evsys s' = Some SELECT" using assms Some SELECT by (simp_all add: s')
      have "ev_ok ctl s'"
        by (simp add: ev_ok_def sel_ok_def sel_base_def sel_sync_def sel_cnt_ok_def sel_pds_ok_def sel_max_ok_def e w)
          (simp add: s')
      then show ?thesis by (simp add: s')
    next
      case POLL
      then have s': "s' = s\<lparr>pol := \<lparr>pollfds_size = ST_MIN_POLLFDS_SIZE, fdcnt = 0\<rparr>\<rparr>"
        using assms Some by (auto simp: ev_init_def st_poll_init_def split: if_splits)
      then show ?thesis using Some POLL assms(2) by (simp add: ev_ok_def pol_ok_def)
    next
      case KQUEUE
      then obtain k where s': "s' = s\<lparr>kqd := \<lparr>kq_rd_ref_cnt = (\<lambda>_. 0), kq_wr_ref_cnt = (\<lambda>_. 0), kq_revents = (\<lambda>_. 0),
                 kq_fd_data_size = KQ_FD_SETSIZE, kq_evtlist_size = ST_KQ_MIN_EVTLIST_SIZE,
                 addlist = [], addlist_size = ST_KQ_MIN_EVTLIST_SIZE,
                 dellist = [], dellist_size = ST_KQ_MIN_EVTLIST_SIZE, kq = k, kq_pid = kv_pid (w_kq w),
                 kq_deleted = []\<rparr>\<rparr>"
        using assms Some by (auto simp: ev_init_def st_kq_init_def split: if_splits sum.splits)
      have e: "io_q s' = []" "evsys s' = Some KQUEUE" using assms Some KQUEUE by (simp_all add: s')
      have "ev_ok ctl s'"
        by (simp add: ev_ok_def kq_ok_def kq_cnt_ok_def kq_pds_ok_def e w)
          (simp add: s' kq_safe_def kq_clean_def kq_inside_def KQ_FD_SETSIZE_def ST_KQ_MIN_EVTLIST_SIZE_def)
      then show ?thesis by (simp add: s')
    next
      case EPOLL
      then obtain k where s': "s' = s\<lparr>epd := \<lparr>ep_rd_ref_cnt = (\<lambda>_. 0), ep_wr_ref_cnt = (\<lambda>_. 0), ep_ex_ref_cnt = (\<lambda>_. 0),
                    ep_revents = (\<lambda>_. 0), ep_fd_data_size = epoll_fd_hint (w_fdlim w), evtlist_size = epoll_fd_hint (w_fdlim w),
                    evtlist_cnt = 0, fd_hint = epoll_fd_hint (w_fdlim w), epfd = k, ep_pid = ev_pid (w_ep w), ctl_log = []\<rparr>\<rparr>"
        using assms Some by (auto simp: ev_init_def st_epoll_init_def Let_def split: if_splits sum.splits)
      have e: "io_q s' = []" "evsys s' = Some EPOLL" using assms Some EPOLL by (simp_all add: s')
      have "ev_ok ctl s'"
        by (simp add: ev_ok_def ep_all_ok_def ep_ok_def ep_cnt_ok_def ep_pds_ok_def e w)
          (simp add: s' ep_safe_def ep_clean_def ep_inside_def ep_sync_def wanted_def epoll_fd_hint_def
            ST_EPOLL_EVTLIST_SIZE_def ep_events_def)
      then show ?thesis by (simp add: s')
    qed
  qed (use assms in \<open>simp add: ev_init_def\<close>)
qed

text \<open>The state \<open>st_init\<close> leaves: the idle thread \<open>i\<close> and the primordial thread \<open>m\<close>, which runs.\<close>

lemma two_threads_ok:
  assumes q: "thread_q s = [i, m]" "run_q s = []" "zombie_q s = []" "io_q s = []" "conds s = Map.empty" "mutexes s = Map.empty"
      "idle_thread s = i" "this_thread s = m" "active_count s = 1" "sleep_q s = None" "sleepq_size s = 0" "i \<noteq> m"
    and t: "state (thr s i) = ST_RUNNABLE" "flags (thr s i) = FL_IDLE_THREAD" "ctx (thr s i) = K_start" "term_cv (thr s i) = None"
      "state (thr s m) = ST_RUNNING" "flags (thr s m) = FL_PRIMORDIAL" "ctx (thr s m) = K_run" "term_cv (thr s m) = None"
  shows "in_user s"
proof -
  have l: "live s = {i, m}" by (simp add: live_def q)
  have mi: "m \<noteq> i" using q(12) by simp
  have "queues_ok (Some m) s" using q(12) by (simp add: queues_ok_def l q)
  moreover have "thread_ok (Some m) s i" "thread_ok (Some m) s m"
    using mi by (auto simp: thread_ok_def tok_def q t flag_simps)
  moreover have "cond_ok s" "term_ok s" "join_ok s" "mutex_ok s"
    by (auto simp: cond_ok_def term_ok_def join_ok_def mutex_ok_def l q t)
  moreover have "{t \<in> live s. t \<noteq> idle_thread s \<and> ctx (thr s t) \<noteq> K_zombie} = {m}"
    using mi by (auto simp: l q t)
  then have "count_ok s" by (simp add: count_ok_def q)
  ultimately have "inv0 (Some m) s" by (simp add: inv0_def l)
  moreover have "sleepers s = {}" by (auto simp: sleepers_def l t flag_simps)
  ultimately show ?thesis
    using sleepq_is_empty [OF q(10,11)] q t by (simp add: in_user_def vp_ok_def vp_inv_def idle_ok_def)
qed

lemma set_eventsys_parts: "snd (st_set_eventsys cfg p n s) = s\<lparr>evsys := evsys (snd (st_set_eventsys cfg p n s))\<rparr>"
  by (rule st.equality) (simp_all add: st_set_eventsys_def)

lemma create_detached:
  assumes "st_thread_create e f a False n s = (Some t, s')"
  shows "\<exists>ts k. s' = s\<lparr>thr := (thr s)(t := (blank_thread f a ts)\<lparr>state := ST_RUNNABLE\<rparr>), thread_q := thread_q s @ [t],
    run_q := run_q s @ [t], active_count := active_count s + 1, stks := k\<rparr>"
proof -
  obtain ts s1 where r: "st_stack_new (adjust_stk_size (pagesize s) n) (ce_stack e) (ce_segment e) (ce_random e) s = (Some ts, s1)"
    using assms by (auto simp: st_thread_create_def Let_def split: option.splits prod.splits)
  obtain k where "s1 = s\<lparr>stks := k\<rparr>" using stack_new_parts [OF r] by blast
  then show ?thesis
    using assms r
    by (intro exI [of _ ts] exI [of _ "stks s'"])
      (auto simp: st_thread_create_def Let_def upd_thr_def set_state_def ST_ADD_RUNQ_def ST_ADD_THREADQ_def)
qed

lemma init_run:
  assumes i: "st_init e (snd (st_set_eventsys cfg p n static_st)) = Some (True, s)" and m: "idle_thread s \<noteq> this_thread s"
  shows "sys_ok ctl s" "ctx (thr s (this_thread s)) = K_run" "mutexes s = Map.empty"
proof -
  define s0 where "s0 = snd (st_set_eventsys cfg p n static_st)"
  obtain x where s0: "s0 = static_st\<lparr>evsys := x\<rparr>" unfolding s0_def using set_eventsys_parts by blast
  define s1 where "s1 = snd (st_set_eventsys (ie_config e) (ie_probe e) ST_EVENTSYS_DEFAULT s0)"
  have "s1 = s0\<lparr>evsys := evsys s1\<rparr>" unfolding s1_def by (rule set_eventsys_parts)
  then have s1: "s1 = static_st\<lparr>evsys := evsys s1\<rparr>" by (simp add: s0)
  have a0: "active_count s0 = 0" by (simp add: s0 static_st_def)
  obtain v s2 where s2: "ev_init (ie_world e) (clear_vp s1) = Some (Inr v, s2)"
    using i unfolding s0_def [symmetric] st_init_def Let_def s1_def [symmetric]
    by (auto simp: a0 split: if_splits sum.splits bind_splits)
  have "io_q (clear_vp s1) = []" by (simp add: clear_vp_def)
  note E = ev_init_ok [OF s2 this, THEN conjunct1] same_but_eventsD [OF ev_init_ok [OF s2 this, THEN conjunct2]]
  define s3 where "s3 = s2\<lparr>pagesize := ie_pagesize e, last_clock := ie_now e\<rparr>"
  obtain t s4 where s4: "st_thread_create (ie_create e) (ie_start e) NULLP False 0 s3 = (Some t, s4)"
    using i s2 unfolding s0_def [symmetric] st_init_def Let_def s1_def [symmetric]
    by (auto simp: a0 s3_def [symmetric] split: if_splits option.splits prod.splits)
  obtain m' where m': "ie_main e = Some m'"
    using i s2 s4 unfolding s0_def [symmetric] st_init_def Let_def s1_def [symmetric]
    by (auto simp: a0 s3_def [symmetric] split: if_splits option.splits)
  obtain ts k where k: "s4 = s3\<lparr>thr := (thr s3)(t := (blank_thread (ie_start e) NULLP ts)\<lparr>state := ST_RUNNABLE\<rparr>),
      thread_q := thread_q s3 @ [t], run_q := run_q s3 @ [t], active_count := active_count s3 + 1, stks := k\<rparr>"
    using create_detached [OF s4] by blast
  have s: "s = ST_ADD_THREADQ m' ((upd_thr m' (\<lambda>_. primordial) (ST_DEL_RUNQ t
      ((upd_thr t (\<lambda>z. z\<lparr>flags := FL_IDLE_THREAD\<rparr>) (s4\<lparr>idle_thread := t\<rparr>))\<lparr>active_count := active_count s4 - 1\<rparr>)))
      \<lparr>this_thread := m', active_count := active_count s4\<rparr>)"
    using i s2 s4 m' unfolding s0_def [symmetric] st_init_def Let_def s1_def [symmetric]
    by (auto simp: a0 s3_def [symmetric] ST_DEL_RUNQ_def split: if_splits)
  have q1: "conds s1 = Map.empty" "mutexes s1 = Map.empty" "active_count s1 = 0"
    by (subst s1, simp add: static_st_def)+
  have q3: "thread_q s3 = []" "run_q s3 = []" "zombie_q s3 = []" "io_q s3 = []" "conds s3 = Map.empty" "mutexes s3 = Map.empty"
    "sleep_q s3 = None" "sleepq_size s3 = 0" "active_count s3 = 0"
    by (simp_all add: s3_def E clear_vp_def q1)
  have tm: "t \<noteq> m'" using m unfolding s by (simp add: ST_ADD_THREADQ_def ST_DEL_RUNQ_def)
  have "in_user s"
    by (rule two_threads_ok [of _ t m'])
      (use tm q3 in \<open>simp_all add: s k ST_ADD_THREADQ_def ST_DEL_RUNQ_def upd_thr_def blank_thread_def primordial_def\<close>)
  moreover have "ev_part s = ev_part s2"
    by (simp add: s k s3_def ev_part_def ST_ADD_THREADQ_def ST_DEL_RUNQ_def upd_thr_def)
  moreover show "mutexes s = Map.empty"
    by (simp add: s k q3 ST_ADD_THREADQ_def ST_DEL_RUNQ_def)
  ultimately show "sys_ok ctl s" "ctx (thr s (this_thread s)) = K_run"
    using evs.frame [of "undefined\<lparr>w_ep := undefined\<lparr>ev_ctl := ctl\<rparr>\<rparr>" s2 s] E(1) [of ctl]
    by (simp_all add: sys_ok_def in_user_def)
qed

text \<open>Every state the program can reach.\<close>

lemma reachable_sys_ok: "reachable ctl s \<Longrightarrow> sys_ok ctl s"
  by (induction rule: reachable.induct) (auto intro: init_run step_ok)

end
