(* ===== verification/ST_SysLaws.thy ===== *)
theory ST_SysLaws
  imports ST_System
begin

text \<open>
  What holds in every state the program can reach, and what the operations of the scheduler do
  there. The examples start from \<open>boot\<close>, the state after \<open>st_init\<close> on one machine.
\<close>

section \<open>An example\<close>

definition boot_world :: world where
  "boot_world = \<lparr>w_sel = \<lparr>sa_nfd = 0, sa_errno = EINTR, sa_read = (\<lambda>_. False), sa_write = (\<lambda>_. False),
       sa_excep = (\<lambda>_. False), sa_fcntl_ok = (\<lambda>_. True)\<rparr>,
     w_poll = \<lparr>pa_nfd = 0, pa_revents = [], pa_malloc_ok = True\<rparr>,
     w_kq = \<lparr>kv_mem = (\<lambda>_ _. True), kv_pid = 7, kv_first = Kq_ready [], kv_kqueue = Inr 3, kv_second = Kq_ready []\<rparr>,
     w_ep = \<lparr>ev_mem = (\<lambda>_. True), ev_ctl = (\<lambda>_. None), ev_pid = 7, ev_create = 3, ev_wait = []\<rparr>,
     w_init_mem = (\<lambda>_ _. True), w_fdlim = 0, w_queue_fd = Inr 3\<rparr>"

definition boot_env :: init_env where
  "boot_env = \<lparr>ie_world = boot_world,
     ie_config = \<lparr>USE_POLL = False, MD_HAVE_POLL = True, MD_HAVE_KQUEUE = False, MD_HAVE_EPOLL = False\<rparr>,
     ie_probe = EINTR, ie_io_ok = True, ie_pagesize = 4096, ie_now = 1000,
     ie_create = \<lparr>ce_size_thread = 256, ce_stack = Some 0, ce_segment = Some 65536, ce_random = 0, ce_cond = None\<rparr>,
     ie_start = 3, ie_main = Some 2\<rparr>"

definition boot :: st where
  "boot = snd (the (st_init boot_env static_st))"

lemmas boot_simps = st_init_def boot_env_def boot_world_def static_st_def Let_def st_set_eventsys_def
  ST_EVENTSYS_DEFAULT_def ST_EVENTSYS_SELECT_def clear_vp_def ev_init_def st_select_init_def st_thread_create_def
  st_stack_new_def adjust_stk_size_def ST_DEFAULT_STACK_SIZE_def carve_stack_def upd_thr_def set_state_def queue_defs
  blank_thread_def primordial_def new_stack_def SIZEOF_PTR_def ST_KEYS_MAX_def

lemma boot_init: "st_init boot_env (snd (st_set_eventsys (ie_config boot_env) EINTR ST_EVENTSYS_SELECT static_st)) = Some (True, boot)"
  unfolding boot_def by (simp add: boot_simps)

lemma boot_parts:
  "this_thread boot = 2" "idle_thread boot = 134784" "thread_q boot = [134784, 2]" "run_q boot = []" "conds boot = Map.empty"
  "mutexes boot = Map.empty" "sleep_q boot = None" "sleepq_size boot = 0" "last_clock boot = 1000" "thr boot 2 = primordial"
  "switch_out_cb boot = NULLP" "switch_in_cb boot = NULLP" "zombie_q boot = []" "io_q boot = []" "evsys boot = Some SELECT"
  "state (thr boot 134784) = ST_RUNNABLE" "ctx (thr boot 134784) = K_start" "term_cv (thr boot 134784) = None"
  unfolding boot_def by (simp_all add: boot_simps)

lemma boot_reachable: "reachable ctl boot"
  by (rule reachable.init [OF boot_init]) (simp add: boot_parts)

lemma boot_runs: "ctx (thr boot (this_thread boot)) = K_run"
  by (simp add: boot_parts primordial_def)

lemma reach_call:
  "reachable ctl s \<Longrightarrow> ctx (thr s (this_thread s)) = K_run \<Longrightarrow> allowed ctl op s \<Longrightarrow> exec op s = Some s' \<Longrightarrow> reachable ctl s'"
  by (rule reachable.step [OF _ step.call])

section \<open>Every reachable state\<close>

text \<open>
  C1: In every state a program can reach from \<open>st_init\<close>, exactly the current thread is running, the
  run queue holds exactly the runnable threads and the zombie queue exactly those that wait to be
  joined, a thread that waits is in the queue it waits on, the idle thread runs only when no other can, and
  \<open>_st_active_count\<close> is the number of threads that have not ended.
\<close>

theorem reachable_consistent:
  assumes "reachable ctl s"
  shows "this_thread s \<in> set (thread_q s) \<and> distinct (run_q s) \<and> set (run_q s) \<subseteq> set (thread_q s) \<and>
    (this_thread s = idle_thread s \<longrightarrow> run_q s = []) \<and>
    (\<forall>t \<in> set (thread_q s).
       (state (thr s t) = ST_RUNNING \<longleftrightarrow> t = this_thread s) \<and>
       (t \<in> set (run_q s) \<longleftrightarrow> state (thr s t) = ST_RUNNABLE \<and> t \<noteq> idle_thread s) \<and>
       (t \<in> set (zombie_q s) \<longleftrightarrow> state (thr s t) = ST_ZOMBIE) \<and>
       (state (thr s t) = ST_IO_WAIT \<longrightarrow> t \<in> set (io_q s)) \<and>
       (state (thr s t) = ST_LOCK_WAIT \<longrightarrow> (\<exists>m l. mutexes s m = Some l \<and> t \<in> set (m_wait_q l))) \<and>
       (state (thr s t) = ST_COND_WAIT \<longrightarrow> (\<exists>c q. conds s c = Some q \<and> t \<in> set q))) \<and>
    active_count s = int (card {t \<in> set (thread_q s). t \<noteq> idle_thread s \<and> ctx (thr s t) \<noteq> K_zombie})"
proof -
  have v: "vp_ok s" using reachable_sys_ok [OF assms] by (simp add: sys_ok_def)
  note V = vp_okD [OF v] note C = vp_ok_clauses [OF v]
  have i: "inv0 (Some (this_thread s)) s" using V by (simp add: vp_inv_def)
  have q: "queues_ok (Some (this_thread s)) s" "count_ok s" using i by (simp_all add: inv0_def)
  have t: "(state (thr s t) = ST_RUNNING \<longleftrightarrow> t = this_thread s) \<and>
       (t \<in> set (run_q s) \<longleftrightarrow> state (thr s t) = ST_RUNNABLE \<and> t \<noteq> idle_thread s) \<and>
       (t \<in> set (zombie_q s) \<longleftrightarrow> state (thr s t) = ST_ZOMBIE) \<and>
       (state (thr s t) = ST_IO_WAIT \<longrightarrow> t \<in> set (io_q s)) \<and>
       (state (thr s t) = ST_LOCK_WAIT \<longrightarrow> (\<exists>m l. mutexes s m = Some l \<and> t \<in> set (m_wait_q l))) \<and>
       (state (thr s t) = ST_COND_WAIT \<longrightarrow> (\<exists>c q. conds s c = Some q \<and> t \<in> set q))" if t: "t \<in> live s" for t
  proof -
    have k: "thread_ok (Some (this_thread s)) s t" using i t by (simp add: inv0_def)
    note K = thread_ok_state [OF k]
    have "\<exists>m l. mutexes s m = Some l \<and> t \<in> set (m_wait_q l)" if "state (thr s t) = ST_LOCK_WAIT"
      using K(2) [OF that] mutex_okD2 [OF C(4) t] mutex_okD(2) [OF C(4)] t by blast
    moreover have "\<exists>c q. conds s c = Some q \<and> t \<in> set q" if "state (thr s t) = ST_COND_WAIT"
      using K(3) [OF that] C(1) t unfolding cond_ok_def by blast
    ultimately show ?thesis using K by auto
  qed
  have "idle_ok s" using v by (simp add: vp_ok_def)
  then show ?thesis
    using q t unfolding queues_ok_def count_ok_def idle_ok_def live_def by blast
qed

lemma reachable_consistent_witness:
  "state (thr boot 2) = ST_RUNNING \<and> state (thr boot 134784) \<noteq> ST_RUNNING"
  using reachable_consistent [OF boot_reachable] by (simp add: boot_parts)



end
