(* ===== verification/ST_OpLaws.thy ===== *)
theory ST_OpLaws
  imports ST_SysLaws ST_CList
begin

text \<open>
  What the operations of \<open>sched.c\<close> and \<open>sync.c\<close> do: the timeout heap as a set of threads with a
  smallest element, the clock check, signals, mutexes, the results of a wait and of a join.
\<close>

section \<open>The timeout heap\<close>

text \<open>
  C6: \<open>_st_add_sleep_q\<close> refines the insertion into a set: it always succeeds, the heap, of whatever size
  and shape, then holds the threads it held and the new one, which is due after the timeout and is
  marked, and its root is a thread that is due first. Nothing outside the heap changes.
\<close>

theorem add_sleep_q_correct:
  assumes "sleepq_is s T" "x \<notin> T"
  shows "\<exists>s' a. st_add_sleep_q x d s = Some s' \<and> sleepq_is s' (insert x T) \<and> due (thr s' x) = last_clock s + d \<and>
    has_flag (flags (thr s' x)) FL_ON_SLEEPQ \<and> sleep_q s' = Some a \<and> (\<forall>b \<in> insert x T. due (thr s' a) \<le> due (thr s' b)) \<and>
    noheap s' = noheap (set_due x d s)"
proof -
  obtain s' where s': "st_add_sleep_q x d s = Some s'" "sleepq_is s' (insert x T)" "noheap s' = noheap (set_due x d s)"
    using sleepq_add [OF assms] by blast
  obtain a where a: "sleep_q s' = Some a" using sleepq_peek(1) [OF s'(2)] by auto
  have "due (thr s' x) = last_clock s + d" "has_flag (flags (thr s' x)) FL_ON_SLEEPQ"
    using noheap_eqD [OF s'(3)] by (simp_all add: set_due_def flag_simps)
  then show ?thesis using s' a sleepq_peek(2) [OF s'(2) a] by blast
qed

text \<open>
  C7: \<open>_st_del_sleep_q\<close> refines the removal from a set, for a thread anywhere in the heap: it succeeds, the
  heap holds the other threads, and its root is one that is due first.
\<close>

theorem del_sleep_q_correct:
  assumes "sleepq_is s T" "x \<in> T"
  shows "\<exists>s'. st_del_sleep_q x s = Some s' \<and> sleepq_is s' (T - {x}) \<and> noheap s' = noheap (unset_due x s) \<and>
    \<not> has_flag (flags (thr s' x)) FL_ON_SLEEPQ \<and>
    (case sleep_q s' of None \<Rightarrow> T = {x} | Some a \<Rightarrow> a \<in> T - {x} \<and> (\<forall>b \<in> T - {x}. due (thr s' a) \<le> due (thr s' b)))"
proof -
  obtain s' where s': "st_del_sleep_q x s = Some s'" "sleepq_is s' (T - {x})" "noheap s' = noheap (unset_due x s)"
    using sleepq_del [OF assms] by blast
  have "\<not> has_flag (flags (thr s' x)) FL_ON_SLEEPQ"
    using noheap_eqD [OF s'(3)] by (simp add: unset_due_def has_flag_clear_self)
  moreover have "case sleep_q s' of None \<Rightarrow> T = {x} | Some a \<Rightarrow> a \<in> T - {x} \<and> (\<forall>b \<in> T - {x}. due (thr s' a) \<le> due (thr s' b))"
    using sleepq_peek [OF s'(2)] assms(2) by (auto split: option.split)
  ultimately show ?thesis using s' by blast
qed

text \<open>For the examples: three threads, due at 30, 10 and 20.\<close>

definition three :: st where
  "three = the (Option.bind (Option.bind (st_add_sleep_q 4 30 static_st) (st_add_sleep_q 5 10)) (st_add_sleep_q 6 20))"

lemma three_parts: "sleepq_is three {6, 5, 4}" "last_clock three = 0"
proof -
  have "sleepq_is static_st {}" "4 \<notin> ({} :: nat set)" by (rule sleepq_is_empty) (simp_all add: static_st_def)
  from sleepq_add [OF this, of 30]
  obtain s1 where 1: "st_add_sleep_q 4 30 static_st = Some s1" "sleepq_is s1 {4}"
      "noheap s1 = noheap (set_due 4 30 static_st)"
    by blast
  have "5 \<notin> {4 :: nat}" by simp
  from sleepq_add [OF 1(2) this, of 10] obtain s2 where 2: "st_add_sleep_q 5 10 s1 = Some s2" "sleepq_is s2 {5, 4}"
      "noheap s2 = noheap (set_due 5 10 s1)"
    by blast
  have "6 \<notin> {5, 4 :: nat}" by simp
  from sleepq_add [OF 2(2) this, of 20] obtain s3 where 3: "st_add_sleep_q 6 20 s2 = Some s3" "sleepq_is s3 {6, 5, 4}"
      "noheap s3 = noheap (set_due 6 20 s2)"
    by blast
  have "three = s3" using 1(1) 2(1) 3(1) by (simp add: three_def)
  then show "sleepq_is three {6, 5, 4}" "last_clock three = 0"
    using 3(2) noheap_eqD(6) [OF 3(3)] noheap_eqD(6) [OF 2(3)] noheap_eqD(6) [OF 1(3)]
    by (simp_all add: set_due_def static_st_def)
qed

lemma add_sleep_q_correct_witness:
  "\<exists>s'. st_add_sleep_q 7 5 three = Some s' \<and> sleepq_is s' {7, 6, 5, 4} \<and> due (thr s' 7) = 5"
  using add_sleep_q_correct [OF three_parts(1), of 7 5] by (auto simp: three_parts)

lemma del_sleep_q_correct_witness:
  "\<exists>s'. st_del_sleep_q 5 three = Some s' \<and> sleepq_is s' {6, 4} \<and> sleep_q s' \<noteq> None"
proof -
  have e: "{6, 5, 4} - {5} = {6, 4 :: nat}" "5 \<in> {6, 5, 4 :: nat}" "{6, 5, 4 :: nat} \<noteq> {5}" by auto
  obtain s' where s': "st_del_sleep_q 5 three = Some s'" "sleepq_is s' ({6, 5, 4} - {5})"
    "case sleep_q s' of None \<Rightarrow> {6, 5, 4} = {5 :: nat} | Some a \<Rightarrow> a \<in> {6, 5, 4} - {5} \<and>
       (\<forall>b \<in> {6, 5, 4} - {5}. due (thr s' a) \<le> due (thr s' b))"
    using del_sleep_q_correct [OF three_parts(1) e(2)] by blast
  then have "sleep_q s' \<noteq> None" using e(3) by (cases "sleep_q s'") simp_all
  then show ?thesis using s'(1,2) unfolding e(1) by blast
qed

section \<open>The clock\<close>

text \<open>
  C8: In a reachable state \<open>_st_vp_check_clock\<close> wakes exactly the sleeping threads that are due, in the
  order of their times, behind the threads that are runnable already; those that waited for a
  condition get the mark of a timeout. The loop over the heap ends.
\<close>

theorem check_clock_correct:
  assumes "reachable ctl s"
  shows "\<exists>s' W. st_vp_check_clock now time_now s = Some s' \<and> distinct W \<and>
    set W = {t \<in> set (thread_q s). has_flag (flags (thr s t)) FL_ON_SLEEPQ \<and> due (thr s t) \<le> now} \<and>
    sorted (map (\<lambda>t. due (thr s t)) W) \<and> run_q s' = run_q s @ W \<and> last_clock s' = now \<and>
    (\<forall>t. state (thr s' t) = (if t \<in> set W then ST_RUNNABLE else state (thr s t))) \<and>
    (\<forall>t. has_flag (flags (thr s' t)) FL_TIMEDOUT \<longleftrightarrow>
       has_flag (flags (thr s t)) FL_TIMEDOUT \<or> t \<in> set W \<and> state (thr s t) = ST_COND_WAIT)"
proof -
  have "vp_inv (Some (this_thread s)) s"
    using reachable_sys_ok [OF assms] vp_okD by (simp add: sys_ok_def)
  from check_clock_run [OF this, of now time_now]
  obtain s' W where r: "st_vp_check_clock now time_now s = Some s'" "set W = expired now s" "distinct W"
    "sorted (map (\<lambda>t. due (thr s t)) W)" "woke {t \<in> set W. state (thr s t) = ST_COND_WAIT} W (at_time now time_now s) s'"
    by blast
  show ?thesis
    using r by (intro exI [of _ s'] exI [of _ W]) (auto simp: woke_def expired_def sleepers_def live_def)
qed

definition boot_usleep :: st where
  "boot_usleep = the (exec (C_usleep 5) boot)"

lemma boot_usleep_parts:
  "exec (C_usleep 5) boot = Some boot_usleep" "thread_q boot_usleep = [134784, 2]" "run_q boot_usleep = []"
  "has_flag (flags (thr boot_usleep 2)) FL_ON_SLEEPQ" "due (thr boot_usleep 2) = 1005"
  "this_thread boot_usleep = 134784"
proof -
  have "sleepq_is boot {}" by (rule sleepq_is_empty) (simp_all add: boot_parts)
  then have "sleepq_is (set_state 2 ST_SLEEPING boot) {}" by (rule sleepq_is_frame) simp
  from sleepq_add [OF this, of 2 5] obtain z where z: "st_add_sleep_q 2 5 (set_state 2 ST_SLEEPING boot) = Some z"
    "noheap z = noheap (set_due 2 5 (set_state 2 ST_SLEEPING boot))" by auto
  note N = noheap_eqD [OF z(2)]
  define r where "r = (set_state 134784 ST_RUNNING (set_ctx 2 K_usleep z))\<lparr>this_thread := 134784\<rparr>"
  have p: "run_q z = []" "idle_thread z = 134784" "switch_out_cb z = NULLP" "state (thr z 134784) = ST_RUNNABLE"
    "thread_q z = [134784, 2]"
    using N by (simp_all add: set_due_def set_state_def boot_parts)
  have "ST_SWITCH_CONTEXT K_usleep 2 z = Some r"
    by (simp add: ST_SWITCH_CONTEXT_def st_vp_schedule_def r_def p ST_SWITCH_OUT_CB_def set_ctx_def)
  then have e: "exec (C_usleep 5) boot = Some r"
    using z(1) by (simp add: st_usleep_def check_interrupt_def boot_parts primordial_def flag_simps NO_TIMEOUT_def Let_def)
  then have b: "boot_usleep = r" by (simp add: boot_usleep_def del: exec.simps)
  show "exec (C_usleep 5) boot = Some boot_usleep" using e b by (simp del: exec.simps)
  show "thread_q boot_usleep = [134784, 2]" "run_q boot_usleep = []" "this_thread boot_usleep = 134784"
    by (simp_all add: b r_def p)
  show "has_flag (flags (thr boot_usleep 2)) FL_ON_SLEEPQ" "due (thr boot_usleep 2) = 1005"
    using N by (simp_all add: b r_def set_state_def set_ctx_def set_due_def flag_simps boot_parts)
qed

lemma boot_usleep_reachable: "reachable ctl boot_usleep"
  by (rule reach_call [OF boot_reachable boot_runs _ boot_usleep_parts(1)]) simp

lemma check_clock_correct_witness:
  "\<exists>s'. st_vp_check_clock 2000 0 boot_usleep = Some s' \<and> 2 \<in> set (run_q s') \<and> state (thr s' 2) = ST_RUNNABLE"
proof -
  obtain s' W where "st_vp_check_clock 2000 0 boot_usleep = Some s'" "run_q s' = run_q boot_usleep @ W"
    "set W = {t \<in> set (thread_q boot_usleep). has_flag (flags (thr boot_usleep t)) FL_ON_SLEEPQ \<and> due (thr boot_usleep t) \<le> 2000}"
    "\<forall>t. state (thr s' t) = (if t \<in> set W then ST_RUNNABLE else state (thr boot_usleep t))"
    using check_clock_correct [OF boot_usleep_reachable, of 2000 0] by blast
  then show ?thesis using boot_usleep_parts by auto
qed

section \<open>Condition variables\<close>

text \<open>
  C9: \<open>st_cond_signal\<close> makes the thread that has waited longest runnable, \<open>st_cond_broadcast\<close> all that
  wait, in the order in which they came; threads in the queue that were woken before (by a timeout, an
  interrupt or an earlier signal) are passed over. The queue itself is left to the threads.
\<close>

theorem signal_correct:
  assumes "reachable ctl s" "conds s c = Some q"
  shows "\<exists>s'. cond_signal_gen broadcast c s = Some s' \<and>
    (let W = filter (\<lambda>t. state (thr s t) = ST_COND_WAIT) q; woken = (if broadcast then W else take 1 W)
     in run_q s' = run_q s @ woken \<and> conds s' = conds s \<and> this_thread s' = this_thread s \<and>
        (\<forall>t. state (thr s' t) = (if t \<in> set woken then ST_RUNNABLE else state (thr s t))) \<and>
        (\<forall>t. has_flag (flags (thr s' t)) FL_ON_SLEEPQ \<longleftrightarrow> has_flag (flags (thr s t)) FL_ON_SLEEPQ \<and> t \<notin> set woken) \<and>
        (\<forall>t. has_flag (flags (thr s' t)) FL_TIMEDOUT \<longleftrightarrow> has_flag (flags (thr s t)) FL_TIMEDOUT))"
proof -
  have "vp_inv (Some (this_thread s)) s"
    using reachable_sys_ok [OF assms(1)] vp_okD by (simp add: sys_ok_def)
  from signal_run [OF this assms(2), of broadcast]
  show ?thesis unfolding woke_def Let_def by auto
qed

text \<open>
  For the examples: a sequence of calls, \<open>None\<close> where the thread that was switched to goes on. It only
  gives a state when every call is allowed and made by a thread that runs.
\<close>

fun play :: "call option list \<Rightarrow> st \<Rightarrow> st option" where
  "play [] s = Some s"
| "play (Some op # as) s =
     (if ctx (thr s (this_thread s)) = K_run \<and> allowed (\<lambda>_. None) op s then Option.bind (exec op s) (play as) else None)"
| "play (None # as) s =
     (if ctx (thr s (this_thread s)) \<noteq> K_run \<and> this_thread s \<noteq> idle_thread s
      then Option.bind (resume boot_world s) (play as) else None)"

lemma play_reachable: "play as s = Some s' \<Longrightarrow> reachable (\<lambda>_. None) s \<Longrightarrow> reachable (\<lambda>_. None) s'"
proof (induction as s rule: play.induct)
  case (2 op as s)
  then obtain s1 where "exec op s = Some s1" "play as s1 = Some s'"
    "ctx (thr s (this_thread s)) = K_run" "allowed (\<lambda>_. None) op s"
    by (auto split: if_splits bind_splits)
  then show ?case using 2 reach_call by blast
next
  case (3 as s)
  then obtain s1 where s1: "resume boot_world s = Some s1" "play as s1 = Some s'"
    "ctx (thr s (this_thread s)) \<noteq> K_run" "this_thread s \<noteq> idle_thread s"
    by (auto split: if_splits bind_splits)
  have "step (\<lambda>_. None) s s1"
    by (rule step.go_on [OF s1(4,3) _ s1(1)]) (simp add: boot_world_def)
  then show ?case using 3 s1 reachable.step by blast
qed simp

definition env2 :: create_env where
  "env2 = \<lparr>ce_size_thread = 256, ce_stack = Some 1, ce_segment = Some 1048576, ce_random = 0, ce_cond = None\<rparr>"

lemma boot_parts2: "pagesize boot = 4096" "free_stacks (stks boot) = []" "randomize_stacks (stks boot) = 0" "active_count boot = 1"
  unfolding boot_def by (simp_all add: boot_simps)

lemmas run_simps = st_cond_new_def env2_def Let_def st_thread_create_def st_stack_new_def adjust_stk_size_def
  ST_DEFAULT_STACK_SIZE_def carve_stack_def upd_thr_def set_state_def queue_defs blank_thread_def new_stack_def
  SIZEOF_PTR_def ST_KEYS_MAX_def st_cond_timedwait_def cond_wait_enter_def check_interrupt_def ST_SWITCH_CONTEXT_def
  st_vp_schedule_def ST_SWITCH_OUT_CB_def resume_def st_thread_main_enter_def boot_parts boot_parts2 primordial_def
  flag_simps set_ctx_def create_addr_def user_cond_def

lemmas sync_simps = st_mutex_new_def set_mutex_def st_mutex_lock_def st_cond_signal_def cond_signal_gen_def off_sleepq_def
  make_runnable_def st_cond_timedwait_resume_def switched_in_def ST_SWITCH_IN_CB_def

text \<open>The first thread waits for condition 9; a second one runs.\<close>

definition waiting_pair :: st where
  "waiting_pair = the (play [Some (C_cond_new (Some 9)), Some (C_create env2 3 0 False 0),
     Some (C_cond_timedwait 9 NO_TIMEOUT), None] boot)"

lemma waiting_pair_parts:
  "play [Some (C_cond_new (Some 9)), Some (C_create env2 3 0 False 0), Some (C_cond_timedwait 9 NO_TIMEOUT), None] boot =
     Some waiting_pair"
  "conds waiting_pair 9 = Some [2]" "state (thr waiting_pair 2) = ST_COND_WAIT"
  "run_q waiting_pair = []" "this_thread waiting_pair = 1117824"
  unfolding waiting_pair_def by (simp_all add: run_simps)

lemma signal_correct_witness:
  "\<exists>s'. cond_signal_gen False 9 waiting_pair = Some s' \<and> run_q s' = [2] \<and> state (thr s' 2) = ST_RUNNABLE"
  using signal_correct [OF play_reachable [OF waiting_pair_parts(1) boot_reachable] waiting_pair_parts(2), of False]
  by (auto simp: waiting_pair_parts(3,4) Let_def)

text \<open>
  C10: A wait for a condition that is over reports an interrupt with \<open>EINTR\<close>, a timeout with \<open>ETIME\<close> and a
  signal with success; the interrupt wins when both came. The marks are taken down, the thread has left
  the queue of the condition variable, and goes on with code of its own.
\<close>

theorem cond_wait_result:
  assumes "reachable ctl s" "ctx (thr s (this_thread s)) = K_cond c"
  shows "\<exists>s' q. st_cond_timedwait_resume c s =
      Some (if has_flag (flags (thr s (this_thread s))) FL_INTERRUPT then Inl EINTR
            else if has_flag (flags (thr s (this_thread s))) FL_TIMEDOUT then Inl ETIME else Inr (), s') \<and>
    \<not> has_flag (flags (thr s' (this_thread s))) FL_INTERRUPT \<and> \<not> has_flag (flags (thr s' (this_thread s))) FL_TIMEDOUT \<and>
    conds s c = Some q \<and> conds s' = (conds s)(c \<mapsto> remove1 (this_thread s) q) \<and> this_thread s \<notin> set (remove1 (this_thread s) q) \<and>
    this_thread s' = this_thread s \<and> ctx (thr s' (this_thread s)) = K_run \<and> run_q s' = run_q s"
proof -
  have v: "vp_ok s" using reachable_sys_ok [OF assms(1)] by (simp add: sys_ok_def)
  note C = vp_ok_clauses [OF v]
  obtain q where q: "conds s c = Some q" using C(1,6) assms(2) unfolding cond_ok_def by fastforce
  have "distinct q" using C(1) q unfolding cond_ok_def by blast
  then show ?thesis
    using q by (auto simp: st_cond_timedwait_resume_def Let_def flag_simps has_flag_clear_self clear_fl_def)
qed

definition signalled :: st where
  "signalled = the (play [Some (C_cond_new (Some 9)), Some (C_cond_new (Some 10)), Some (C_create env2 3 0 False 0),
     Some (C_cond_timedwait 9 NO_TIMEOUT), None, Some (C_cond_signal 9), Some (C_cond_timedwait 10 NO_TIMEOUT)] boot)"

lemma signalled_parts:
  "play [Some (C_cond_new (Some 9)), Some (C_cond_new (Some 10)), Some (C_create env2 3 0 False 0),
     Some (C_cond_timedwait 9 NO_TIMEOUT), None, Some (C_cond_signal 9), Some (C_cond_timedwait 10 NO_TIMEOUT)] boot = Some signalled"
  "this_thread signalled = 2" "ctx (thr signalled 2) = K_cond 9" "flags (thr signalled 2) = FL_PRIMORDIAL"
  unfolding signalled_def by (simp_all add: run_simps sync_simps)

lemma cond_wait_result_witness: "\<exists>s'. st_cond_timedwait_resume 9 signalled = Some (Inr (), s') \<and> ctx (thr s' 2) = K_run"
  using cond_wait_result [OF play_reachable [OF signalled_parts(1) boot_reachable], of 9] signalled_parts(2-4)
  by (auto simp: flag_simps)

section \<open>Mutexes\<close>

text \<open>
  C11: \<open>st_mutex_unlock\<close> by another thread than the owner is refused. By the owner it passes the mutex on to
  the thread that has waited longest and still waits, which becomes runnable; the mutex is free
  afterwards only if there is none. So no thread can slip in between.
\<close>

theorem mutex_unlock_correct:
  assumes "mutexes s m = Some l"
  shows "if owner l \<noteq> Some (this_thread s) then st_mutex_unlock m s = Some (Inl EPERM, s)
    else \<exists>s' l'. st_mutex_unlock m s = Some (Inr (), s') \<and> mutexes s' m = Some l' \<and> m_wait_q l' = m_wait_q l \<and>
      (\<forall>k. k \<noteq> m \<longrightarrow> mutexes s' k = mutexes s k) \<and>
      (case find (\<lambda>t. state (thr s t) = ST_LOCK_WAIT) (m_wait_q l) of
         None \<Rightarrow> owner l' = None \<and> run_q s' = run_q s \<and> thr s' = thr s
       | Some t \<Rightarrow> owner l' = Some t \<and> run_q s' = run_q s @ [t] \<and>
           thr s' = (thr s)(t := (thr s t)\<lparr>state := ST_RUNNABLE\<rparr>))"
proof -
  have "find P xs = (case filter P xs of [] \<Rightarrow> None | t # _ \<Rightarrow> Some t)" for P and xs :: "tid list"
    by (induction xs) auto
  then show ?thesis
    using assms
    by (auto simp: st_mutex_unlock_def unlock_loop_eq set_mutex_def make_runnable_def set_state_def ST_ADD_RUNQ_def
        split: list.splits)
qed

text \<open>
  C5: No thread waits for a free mutex: as long as a thread waits in \<open>st_mutex_lock\<close> and has not been
  woken, the mutex has an owner, and that is another thread. The queue of the mutex holds each thread
  that is inside the call exactly once.
\<close>

theorem mutex_waiters:
  assumes "reachable ctl s" "mutexes s m = Some l"
  shows "distinct (m_wait_q l) \<and>
    (\<forall>t. t \<in> set (m_wait_q l) \<longleftrightarrow> t \<in> set (thread_q s) \<and> ctx (thr s t) = K_mutex m) \<and>
    (\<forall>t \<in> set (m_wait_q l). state (thr s t) = ST_LOCK_WAIT \<longrightarrow> owner l \<noteq> None \<and> owner l \<noteq> Some t)"
proof -
  have "mutex_ok s" using reachable_sys_ok [OF assms(1)] vp_ok_clauses(4) by (auto simp: sys_ok_def)
  from mutex_okD [OF this assms(2)] show ?thesis unfolding live_def by blast
qed

text \<open>The first thread holds mutex 5, the second one waits for it.\<close>

definition contended :: st where
  "contended = the (play [Some (C_cond_new (Some 9)), Some (C_create env2 3 0 False 0), Some (C_mutex_new (Some 5)),
     Some (C_mutex_lock 5), Some (C_cond_timedwait 9 NO_TIMEOUT), None, Some (C_cond_signal 9), Some (C_mutex_lock 5), None] boot)"

lemma contended_parts:
  "play [Some (C_cond_new (Some 9)), Some (C_create env2 3 0 False 0), Some (C_mutex_new (Some 5)), Some (C_mutex_lock 5),
     Some (C_cond_timedwait 9 NO_TIMEOUT), None, Some (C_cond_signal 9), Some (C_mutex_lock 5), None] boot = Some contended"
  "mutexes contended 5 = Some \<lparr>owner = Some 2, m_wait_q = [1117824]\<rparr>" "state (thr contended 1117824) = ST_LOCK_WAIT"
  "this_thread contended = 2"
  unfolding contended_def by (simp_all add: run_simps sync_simps)

lemma mutex_waiters_witness: "ctx (thr contended 1117824) = K_mutex 5 \<and> distinct [1117824 :: tid]"
  using mutex_waiters [OF play_reachable [OF contended_parts(1) boot_reachable] contended_parts(2),
      THEN conjunct2, THEN conjunct1, THEN spec, of 1117824] by simp

lemma mutex_unlock_correct_witness:
  "\<exists>s' l'. st_mutex_unlock 5 contended = Some (Inr (), s') \<and> mutexes s' 5 = Some l' \<and> owner l' = Some 1117824"
  using mutex_unlock_correct [OF contended_parts(2)] contended_parts(3,4) by auto

section \<open>Exit and join\<close>


definition joinable_runs :: st where
  "joinable_runs = the (play [Some (C_cond_new (Some 9)), Some (C_create (env2\<lparr>ce_cond := Some 11\<rparr>) 3 0 True 0),
     Some (C_cond_timedwait 9 NO_TIMEOUT), None] boot)"

lemma joinable_runs_parts:
  "play [Some (C_cond_new (Some 9)), Some (C_create (env2\<lparr>ce_cond := Some 11\<rparr>) 3 0 True 0),
     Some (C_cond_timedwait 9 NO_TIMEOUT), None] boot = Some joinable_runs"
  "this_thread joinable_runs = 1117824" "ctx (thr joinable_runs 1117824) = K_run" "term_cv (thr joinable_runs 1117824) = Some 11"
  "conds joinable_runs 11 = Some []"
  unfolding joinable_runs_def by (simp_all add: run_simps sync_simps)


end
