(* ===== verification/ST_PollLaws.thy ===== *)
theory ST_PollLaws
  imports ST_OpLaws
begin

text \<open>
  The event systems in a running program: what their counters hold in every reachable state, and that
  \<open>select\<close> and \<open>poll\<close> wake the same threads when the system reports the same descriptors ready.
\<close>

section \<open>The counters\<close>


definition polling :: st where
  "polling = the (play [Some (C_poll boot_world [\<lparr>fd = 4, events = POLLIN, revents = 0\<rparr>] NO_TIMEOUT)] boot)"

lemma boot_sel: "sel boot = \<lparr>fd_read_set = (\<lambda>_. False), fd_write_set = (\<lambda>_. False), fd_exception_set = (\<lambda>_. False),
    sel_read_cnt = (\<lambda>_. 0), sel_write_cnt = (\<lambda>_. 0), sel_excep_cnt = (\<lambda>_. 0), maxfd = - 1\<rparr>"
  unfolding boot_def by (simp add: boot_simps)

lemmas poll_simps = st_poll_def ev_pollset_add_def st_select_pollset_add_def boot_sel wants_def POLL_defs FD_SETSIZE_def sel_pd_ok_def

lemma polling_parts:
  "play [Some (C_poll boot_world [\<lparr>fd = 4, events = POLLIN, revents = 0\<rparr>] NO_TIMEOUT)] boot = Some polling"
  "evsys polling = Some SELECT" "io_q polling = [2]" "pds (pollqs polling 2) = [\<lparr>fd = 4, events = POLLIN, revents = 0\<rparr>]"
  "this_thread polling = 134784" "idle_thread polling = 134784" "run_q polling = []"
  unfolding polling_def by (simp_all add: run_simps poll_simps boot_world_def)

lemmas polling_reachable = play_reachable [OF polling_parts(1) boot_reachable]


section \<open>Select and poll\<close>

text \<open>The same process on \<open>poll\<close> instead of \<open>select\<close>.\<close>

definition on_poll :: "st \<Rightarrow> st" where
  "on_poll s = s\<lparr>evsys := Some POLL, pol := \<lparr>pollfds_size = ST_MIN_POLLFDS_SIZE, fdcnt = int (length (gathered s))\<rparr>\<rparr>"

lemma on_poll_pending: "pending cur (io_q s) s \<Longrightarrow> pending cur (io_q (on_poll s)) (on_poll s)"
proof -
  assume p: "pending cur (io_q s) s"
  then have "vp_inv cur (on_poll s)"
    by (intro vp_inv_cong [of "on_poll s" s]) (simp_all add: on_poll_def pending_def)
  then show ?thesis using p by (simp add: pending_def on_poll_def)
qed

lemma poll_part_same:
  assumes "pa_revents b = map r (gathered s)" "q \<in> set (io_q s)"
  shows "poll_part b s q = map (\<lambda>pd. pd\<lparr>revents := r pd\<rparr>) (pds (pollqs s q))"
proof -
  have "answered b (gathered s) = map (\<lambda>pd. pd\<lparr>revents := r pd\<rparr>) (gathered s)"
  proof -
    have "map2 (\<lambda>pd x. pd\<lparr>revents := x\<rparr>) ps (map r ps) = map (\<lambda>pd. pd\<lparr>revents := r pd\<rparr>) ps" for ps
      by (induction ps) simp_all
    then show ?thesis by (simp add: answered_def assms(1))
  qed
  then show ?thesis
    unfolding poll_part_def by (simp add: map_poll_slice [symmetric] gathered_def poll_slice_concat [OF assms(2)])
qed

text \<open>
  C14: \<open>_st_select_dispatch\<close> and \<open>_st_poll_dispatch\<close> agree: when the idle thread calls them on the same
  requests and the system reports the same events, they take the same requests off the io queue, make
  the same threads runnable in the same order, namely that of the io queue, and hand them the same events.
\<close>

theorem select_poll_agree:
  assumes "reachable ctl s" "evsys s = Some SELECT" "this_thread s = idle_thread s"
    and "sa_nfd a > 0" "pa_nfd b > 0" "pa_malloc_ok b" "pa_revents b = map (sel_revents a) (gathered s)"
  shows "\<exists>s1 s2. st_select_dispatch a s = Some s1 \<and> st_poll_dispatch b (on_poll s) = Some s2 \<and>
    io_q s1 = io_q s2 \<and> run_q s1 = run_q s2 \<and>
    run_q s1 = filter (\<lambda>q. \<exists>pd \<in> set (pds (pollqs s q)). sel_revents a pd \<noteq> 0) (io_q s) \<and>
    (\<forall>q \<in> set (run_q s1). pds (pollqs s1 q) = map (\<lambda>pd. pd\<lparr>revents := sel_revents a pd\<rparr>) (pds (pollqs s q)) \<and>
       pds (pollqs s2 q) = pds (pollqs s1 q))"
proof -
  have k: "sys_ok ctl s" by (rule reachable_sys_ok [OF assms(1)])
  then have v: "vp_inv (Some (idle_thread s)) s" "run_q s = []" "sel_ok s"
    using assms(2,3) by (simp_all add: sys_ok_def vp_ok_def idle_ok_def ev_ok_def)
  have p: "pending (Some (idle_thread s)) (io_q s) s" by (rule pending_start [OF v(1,2)])
  let ?g = "\<lambda>pd. pd\<lparr>revents := sel_revents a pd\<rparr>"
  let ?N = "\<lambda>q. ready (map ?g (pds (pollqs s q)))"
  obtain s1 where s1: "st_select_dispatch a s = Some s1" "dispatched ?N (\<lambda>q. map ?g (pds (pollqs s q))) s s1"
    using sel_dispatch_run [OF p v(3) assms(4)] by blast
  have g: "gathered (on_poll s) = gathered s" "io_q (on_poll s) = io_q s" "pollqs (on_poll s) = pollqs s" "run_q (on_poll s) = []"
    using v(2) by (simp_all add: on_poll_def gathered_def)
  have k2: "pol_ok (on_poll s)"
    by (simp add: pol_ok_def length_gathered [symmetric] g) (simp add: on_poll_def)
  have l: "length (pa_revents b) = length (gathered (on_poll s))" by (simp add: assms(7) g)
  have pm: "pa_malloc_ok b \<or> fdcnt (pol (on_poll s)) \<le> pollfds_size (pol (on_poll s))" using assms(6) by simp
  obtain s2 where s2: "st_poll_dispatch b (on_poll s) = Some s2"
    "walked (Some (idle_thread s)) (\<lambda>q. ready (poll_part b (on_poll s) q))
       (\<lambda>q. if ready (poll_part b (on_poll s) q) then poll_part b (on_poll s) q else pds (pollqs (on_poll s) q)) (on_poll s) [] s2"
    using poll_dispatch_run [OF on_poll_pending [OF p] k2 l pm] assms(5) by auto
  note D = walked_end [OF s2(2), THEN conjunct2, THEN conjunct1, unfolded dispatched_def g]
  have pp: "poll_part b (on_poll s) q = map ?g (pds (pollqs s q))" if "q \<in> set (io_q s)" for q
    using poll_part_same [of b "sel_revents a" "on_poll s" q] that assms(7) by (simp add: g)
  have f: "filter (\<lambda>q. ready (poll_part b (on_poll s) q)) (io_q s) = filter ?N (io_q s)"
    "filter (\<lambda>q. \<not> ready (poll_part b (on_poll s) q)) (io_q s) = filter (\<lambda>q. \<not> ?N q) (io_q s)"
    by (simp_all add: pp cong: filter_cong)
  have r: "?N q \<longleftrightarrow> (\<exists>pd \<in> set (pds (pollqs s q)). sel_revents a pd \<noteq> 0)" for q
    by (induction "pds (pollqs s q)") (auto simp: ready_def list_ex_iff)
  have q: "io_q s1 = io_q s2" "run_q s1 = run_q s2" "run_q s1 = filter ?N (io_q s)"
    using s1(2) D f v(2) by (simp_all add: dispatched_def)
  have d: "pds (pollqs s1 q) = map ?g (pds (pollqs s q))" "pds (pollqs s2 q) = map ?g (pds (pollqs s q))"
    if "q \<in> set (run_q s1)" for q
  proof -
    have u: "q \<in> set (io_q s)" "?N q" using that q(3) by simp_all
    then show "pds (pollqs s1 q) = map ?g (pds (pollqs s q))" using s1(2) by (simp add: dispatched_def)
    show "pds (pollqs s2 q) = map ?g (pds (pollqs s q))" using D u pp [OF u(1)] by simp
  qed
  show ?thesis
    by (intro exI [of _ s1] exI [of _ s2] conjI ballI s1(1) s2(1) q(1,2) q(3) [unfolded r]) (simp_all only: d)
qed

lemma select_poll_agree_witness:
  "\<exists>s1 s2. st_select_dispatch \<lparr>sa_nfd = 1, sa_errno = EINTR, sa_read = (\<lambda>_. True), sa_write = (\<lambda>_. False),
       sa_excep = (\<lambda>_. False), sa_fcntl_ok = (\<lambda>_. True)\<rparr> polling = Some s1 \<and>
     st_poll_dispatch \<lparr>pa_nfd = 1, pa_revents = [POLLIN], pa_malloc_ok = True\<rparr> (on_poll polling) = Some s2 \<and> run_q s1 = [2] \<and> run_q s2 = [2]"
proof -
  let ?a = "\<lparr>sa_nfd = 1, sa_errno = EINTR, sa_read = (\<lambda>_. True), sa_write = (\<lambda>_. False),
       sa_excep = (\<lambda>_. False), sa_fcntl_ok = (\<lambda>_. True)\<rparr>"
  let ?b = "\<lparr>pa_nfd = 1, pa_revents = [POLLIN], pa_malloc_ok = True\<rparr>"
  have "pa_revents ?b = map (sel_revents ?a) (gathered polling)" "sel_revents ?a \<lparr>fd = 4, events = POLLIN, revents = 0\<rparr> = 1"
    by (simp_all add: gathered_def polling_parts sel_revents_def wants_def POLL_defs)
  note R = this
  have t: "this_thread polling = idle_thread polling" "sa_nfd ?a > 0" "pa_nfd ?b > 0" "pa_malloc_ok ?b"
    by (simp_all add: polling_parts)
  obtain s1 s2 where r: "st_select_dispatch ?a polling = Some s1" "st_poll_dispatch ?b (on_poll polling) = Some s2"
    "run_q s1 = run_q s2" "run_q s1 = filter (\<lambda>q. \<exists>pd \<in> set (pds (pollqs polling q)). sel_revents ?a pd \<noteq> 0) (io_q polling)"
    using select_poll_agree [OF polling_reachable polling_parts(2) t R(1)] by blast
  have "run_q s1 = [2]" unfolding r(4) by (simp add: polling_parts R(2))
  then show ?thesis using r(1-3) by auto
qed

end
