(* ===== verification/ST_Exclusion.thy ===== *)
theory ST_Exclusion
  imports ST_OpLaws
begin

text \<open>
  Mutual exclusion. A thread that waits for a mutex is set going only by the thread that hands it
  over, or by an interrupt; so \<open>st_mutex_lock\<close> returns success exactly to the owner, and an owner
  stays the owner until it calls \<open>st_mutex_unlock\<close>. Both rest on one relation between states,
  \<open>quiet\<close>, that every step keeps but the ones on the mutex itself.
\<close>

section \<open>Quiet steps\<close>

definition holder :: "st \<Rightarrow> mid \<Rightarrow> tid option" where
  "holder s m = Option.bind (mutexes s m) owner"

text \<open>A thread stopped in \<open>st_mutex_lock\<close> still waits, or was interrupted, or was given the mutex.\<close>

definition fine :: "st \<Rightarrow> tid \<Rightarrow> mid \<Rightarrow> bool" where
  "fine s t m \<longleftrightarrow> state (thr s t) = ST_LOCK_WAIT \<or> has_flag (flags (thr s t)) FL_INTERRUPT \<or> holder s m = Some t"

definition hand_ok :: "st \<Rightarrow> bool" where
  "hand_ok s \<longleftrightarrow> (\<forall>t m. t \<in> live s \<longrightarrow> ctx (thr s t) = K_mutex m \<longrightarrow> fine s t m)"

definition quiet :: "st \<Rightarrow> st \<Rightarrow> bool" where
  "quiet s s' \<longleftrightarrow>
     (\<forall>t m. t \<in> live s' \<longrightarrow> ctx (thr s' t) = K_mutex m \<longrightarrow>
        t \<in> live s \<and> ctx (thr s t) = K_mutex m \<and> (fine s t m \<longrightarrow> fine s' t m)) \<and>
     (\<forall>m t. holder s m = Some t \<longrightarrow> holder s' m = Some t)"

lemma quiet_hand: "quiet s s' \<Longrightarrow> hand_ok s \<Longrightarrow> hand_ok s'"
  by (auto simp: quiet_def hand_ok_def)

lemma quiet_owner: "quiet s s' \<Longrightarrow> holder s m = Some t \<Longrightarrow> holder s' m = Some t"
  by (simp add: quiet_def)

lemma quiet_refl [simp]: "quiet s s"
  by (simp add: quiet_def)

lemma quiet_trans: "quiet s s1 \<Longrightarrow> quiet s1 s2 \<Longrightarrow> quiet s s2"
  unfolding quiet_def by blast

text \<open>Threads, their list and the mutexes are all that matters.\<close>

lemma quietI:
  assumes "mutexes s' = mutexes s" "live s' \<subseteq> live s"
    and "\<And>t m. ctx (thr s' t) = K_mutex m \<Longrightarrow> ctx (thr s t) = K_mutex m \<and>
      (has_flag (flags (thr s t)) FL_INTERRUPT \<longrightarrow> has_flag (flags (thr s' t)) FL_INTERRUPT) \<and>
      (state (thr s t) = ST_LOCK_WAIT \<longrightarrow> state (thr s' t) = ST_LOCK_WAIT \<or> has_flag (flags (thr s' t)) FL_INTERRUPT)"
  shows "quiet s s'"
  using assms unfolding quiet_def fine_def holder_def by fastforce

lemma quiet_threads:
  assumes "mutexes s' = mutexes s" "live s' = live s"
    and "\<And>t. ctx (thr s' t) = ctx (thr s t) \<and>
      has_flag (flags (thr s' t)) FL_INTERRUPT = has_flag (flags (thr s t)) FL_INTERRUPT \<and>
      (state (thr s t) = ST_LOCK_WAIT \<longrightarrow> state (thr s' t) = ST_LOCK_WAIT)"
  shows "quiet s s'"
  by (rule quietI) (simp_all add: assms)

lemma quiet_same: "thr s' = thr s \<Longrightarrow> live s' \<subseteq> live s \<Longrightarrow> mutexes s' = mutexes s \<Longrightarrow> quiet s s'"
  by (rule quietI) simp_all

lemma quiet_one:
  assumes "mutexes s' = mutexes s" "live s' \<subseteq> insert t (live s)" "\<And>u. u \<noteq> t \<Longrightarrow> thr s' u = thr s u" "\<And>m. ctx (thr s' t) \<noteq> K_mutex m"
  shows "quiet s s'"
proof -
  have "t \<in> live s' \<longrightarrow> ctx (thr s' t) = K_mutex m \<longrightarrow> False" for m
    using assms(4) by simp
  moreover have "u \<in> live s' \<Longrightarrow> u \<noteq> t \<Longrightarrow> u \<in> live s" for u
    using assms(2) by blast
  ultimately show ?thesis
    using assms(1,3) unfolding quiet_def fine_def holder_def by metis
qed

section \<open>The timeout heap\<close>

text \<open>The heap only touches its links, the due time and the flag \<open>FL_ON_SLEEPQ\<close>.\<close>

definition steady :: "st \<Rightarrow> st \<Rightarrow> bool" where
  "steady s s' \<longleftrightarrow> mutexes s' = mutexes s \<and> thread_q s' = thread_q s \<and>
     (\<forall>t. ctx (thr s' t) = ctx (thr s t) \<and> state (thr s' t) = state (thr s t) \<and>
        has_flag (flags (thr s' t)) FL_INTERRUPT = has_flag (flags (thr s t)) FL_INTERRUPT)"

lemma steady_quiet: "steady s s' \<Longrightarrow> quiet s s'"
  by (rule quietI) (simp_all add: steady_def live_def)

lemma steady_refl [simp]: "steady s s"
  by (simp add: steady_def)

lemma steady_trans: "steady s s1 \<Longrightarrow> steady s1 s2 \<Longrightarrow> steady s s2"
  by (simp add: steady_def)

lemma steady_upd:
  assumes "steady a s" "\<And>x. ctx (f x) = ctx x" "\<And>x. state (f x) = state x"
    "\<And>x. has_flag (flags (f x)) FL_INTERRUPT = has_flag (flags x) FL_INTERRUPT"
  shows "steady a (upd_thr t f s)"
  using assms by (simp add: steady_def)

lemma steady_wr_loc: "steady a s \<Longrightarrow> steady a (wr_loc p v s)"
  by (cases p) (simp_all add: steady_def)

lemma steady_size: "steady a s \<Longrightarrow> steady a (s\<lparr>sleepq_size := n\<rparr>)"
  by (simp add: steady_def)

lemmas steady_intros = steady_refl steady_upd steady_wr_loc steady_size

lemma insert_loop_steady:
  "heap_insert_loop bt target p i t s = Some (p', i', t', s') \<Longrightarrow> steady s s'"
proof (induction bt target p i t s rule: heap_insert_loop.induct)
  case (2 bt target p index thread s)
  obtain t where t: "rd_loc s p = Some t"
    using 2(3) by (auto split: option.splits)
  define r where "r = (if due (thr s thread) < due (thr s t)
                then (t, upd_thr thread (\<lambda>x. x\<lparr>heap_index := index\<rparr>)
                           (wr_loc p (Some thread)
                             (upd_thr thread (\<lambda>x. x\<lparr>left := left (thr s t),
                                                    right := right (thr s t)\<rparr>) s)))
                else (thread, s))"
  obtain thread' s1 where r1: "r = (thread', s1)" by (cases r)
  have "steady s s1"
    using r1 by (auto simp: r_def intro!: steady_intros split: if_splits)
  moreover obtain q where q: "rd_loc s1 p = Some q"
    using 2(3) r1 by (auto simp: t r_def split: option.splits)
  moreover have "heap_insert_loop bt target (if odd (target div 2 ^ bt) then RightOf q else LeftOf q)
      (if odd (target div 2 ^ bt) then 2 * index + 1 else 2 * index) thread' s1 = Some (p', i', t', s')"
    using 2(3) r1 q by (simp add: t flip: r_def split: if_splits)
  then have "steady s1 s'"
    using 2(1) [OF t r1 [unfolded r_def, symmetric] refl q] 2(2) [OF t r1 [unfolded r_def, symmetric] refl q]
    by (auto split: if_splits)
  ultimately show ?case
    using steady_trans by blast
qed simp

lemma heap_insert_steady: "heap_insert t s = Some (p, s') \<Longrightarrow> steady s s'"
  using insert_loop_steady by (fastforce simp: heap_insert_def Let_def intro: steady_intros split: option.splits)

lemma steady_index_steps:
  "steady s (upd_thr y (\<lambda>x. x\<lparr>heap_index := i\<rparr>) (upd_thr t (\<lambda>x. x\<lparr>heap_index := j\<rparr>)
     (upd_thr t (\<lambda>x. x\<lparr>left := l', right := r'\<rparr>) (upd_thr y (\<lambda>x. x\<lparr>left := l, right := r\<rparr>) (wr_loc p v s)))))"
  by (intro steady_intros) simp_all

lemma heap_sink_steady:
  assumes "heap_sink t p s = Some s'"
  shows "steady s s'"
proof (rule heap_sink.raw_induct [OF _ assms])
  fix sink t p s s'
  assume IH: "\<And>t p s s'. sink t p s = Some s' \<Longrightarrow> steady s s'"
    and eq: "(case left (thr s t) of
        None \<Rightarrow> Some s
      | Some tl0 \<Rightarrow>
         let y = (case right (thr s t) of
                    None \<Rightarrow> tl0
                  | Some tr0 \<Rightarrow> if due (thr s tl0) < due (thr s tr0) then tl0 else tr0)
         in if due (thr s t) > due (thr s y)
            then let yl = left (thr s y);
                     yr = right (thr s y);
                     s1 = wr_loc p (Some y) s;
                     (s2, p') =
                       (if y = tl0
                        then (upd_thr y (\<lambda>x. x\<lparr>left := Some t, right := right (thr s1 t)\<rparr>) s1, LeftOf y)
                        else (upd_thr y (\<lambda>x. x\<lparr>left := left (thr s1 t), right := Some t\<rparr>) s1, RightOf y));
                     s3 = upd_thr t (\<lambda>x. x\<lparr>left := yl, right := yr\<rparr>) s2;
                     index_tmp = heap_index (thr s3 t);
                     s4 = upd_thr t (\<lambda>x. x\<lparr>heap_index := heap_index (thr s3 y)\<rparr>) s3;
                     s5 = upd_thr y (\<lambda>x. x\<lparr>heap_index := index_tmp\<rparr>) s4
                 in sink t p' s5
            else Some s) = Some s'"
  show "steady s s'"
  proof (cases "left (thr s t)")
    case None
    then show ?thesis using eq by simp
  next
    case (Some tl0)
    define y where "y = (case right (thr s t) of None \<Rightarrow> tl0
                  | Some tr0 \<Rightarrow> if due (thr s tl0) < due (thr s tr0) then tl0 else tr0)"
    show ?thesis
    proof (cases "due (thr s t) > due (thr s y)")
      case True
      have "\<exists>q l r l' r' i j. sink t q (upd_thr y (\<lambda>x. x\<lparr>heap_index := i\<rparr>) (upd_thr t (\<lambda>x. x\<lparr>heap_index := j\<rparr>)
          (upd_thr t (\<lambda>x. x\<lparr>left := l', right := r'\<rparr>) (upd_thr y (\<lambda>x. x\<lparr>left := l, right := r\<rparr>) (wr_loc p (Some y) s))))) = Some s'"
      proof (cases "y = tl0")
        case left: True
        show ?thesis
          using eq unfolding Some option.case Let_def y_def [symmetric] if_P [OF True] if_P [OF left] prod.case by blast
      next
        case right: False
        show ?thesis
          using eq unfolding Some option.case Let_def y_def [symmetric] if_P [OF True] if_not_P [OF right] prod.case by blast
      qed
      then obtain q z where "sink t q z = Some s'" "steady s z"
        by (blast intro: that steady_index_steps)
      then show ?thesis
        using IH steady_trans by blast
    next
      case False
      then show ?thesis using eq Some by (simp add: y_def)
    qed
  qed
qed

lemma heap_delete_steady: "heap_delete t s = Some s' \<Longrightarrow> steady s s'"
  unfolding heap_delete_def Let_def
  by (auto split: option.splits if_splits intro!: steady_intros
      dest!: heap_insert_steady heap_sink_steady elim!: steady_trans [rotated])

lemma add_sleep_steady: "st_add_sleep_q t d s = Some s' \<Longrightarrow> steady s s'"
  unfolding st_add_sleep_q_def Let_def
  by (auto simp: flag_simps intro!: steady_intros dest!: heap_insert_steady elim!: steady_trans [rotated])

lemma del_sleep_steady: "st_del_sleep_q t s = Some s' \<Longrightarrow> steady s s'"
  unfolding st_del_sleep_q_def
  by (auto simp: flag_simps intro!: steady_upd dest!: heap_delete_steady)

lemma off_sleepq_steady: "off_sleepq t s = Some s' \<Longrightarrow> steady s s'"
  using del_sleep_steady by (auto simp: off_sleepq_def split: if_splits)

section \<open>The scheduler\<close>

lemma make_runnable_quiet:
  assumes "state (thr s t) \<noteq> ST_LOCK_WAIT \<or> has_flag (flags (thr s t)) FL_INTERRUPT"
  shows "quiet s (make_runnable t s)"
  by (rule quietI) (use assms in \<open>auto simp: make_runnable_def ST_ADD_RUNQ_def live_def set_state_def\<close>)

lemma schedule_quiet: "st_vp_schedule s = Some s' \<Longrightarrow> quiet s s'"
  by (rule quietI)
    (auto simp: st_vp_schedule_def Let_def ST_DEL_RUNQ_def live_def set_state_def split: list.splits if_splits)

lemma set_ctx_quiet: "(\<And>m. k \<noteq> K_mutex m) \<Longrightarrow> quiet s (set_ctx t k s)"
  by (rule quiet_one [where t = t]) (auto simp: set_ctx_def live_def)

lemma switch_quiet:
  assumes "ST_SWITCH_CONTEXT k t s = Some s'" "\<And>m. k \<noteq> K_mutex m"
  shows "quiet s s'"
proof -
  have "quiet s (ST_SWITCH_OUT_CB t s)"
    by (rule quiet_same) (simp_all add: live_def)
  then have "quiet s (set_ctx t k (ST_SWITCH_OUT_CB t s))"
    by (rule quiet_trans [OF _ set_ctx_quiet]) (rule assms(2))
  then show ?thesis
    using quiet_trans schedule_quiet assms(1) by (auto simp: ST_SWITCH_CONTEXT_def)
qed

lemma switched_in_quiet: "quiet s (switched_in s)"
  by (rule quiet_one [where t = "this_thread s"]) (auto simp: live_def switched_in_def Let_def set_ctx_def)

lemma set_state_quiet: "ctx (thr s t) = K_run \<Longrightarrow> quiet s (set_state t x s)"
  by (rule quiet_one [where t = t]) (auto simp: set_state_def live_def)

lemma clear_fl_quiet: "ctx (thr s t) = K_run \<Longrightarrow> quiet s (clear_fl t f s)"
  by (rule quiet_one [where t = t]) (auto simp: clear_fl_def live_def)

lemma check_interrupt_cases:
  assumes "check_interrupt k s = Some (r, s')" "ctx (thr s (this_thread s)) = K_run"
  shows "quiet s s' \<or> k s = Some (r, s')"
  using assms clear_fl_quiet [OF assms(2)] by (auto simp: check_interrupt_def Let_def split: if_splits)

section \<open>Waiting and signalling\<close>

lemma set_fl_interrupt_quiet: "quiet s (set_fl t f s)"
  by (rule quietI) (auto simp: set_fl_def live_def flag_simps)

lemma timed_steady: "(if d \<noteq> NO_TIMEOUT then st_add_sleep_q t d b else Some b) = Some z \<Longrightarrow> steady b z"
  using add_sleep_steady by (auto split: if_splits)

lemma enter_quiet:
  assumes "(if d \<noteq> NO_TIMEOUT then st_add_sleep_q t d b else Some b) = Some z" "ST_SWITCH_CONTEXT k t' z = Some s'"
    and "quiet s b" "\<And>m. k \<noteq> K_mutex m"
  shows "quiet s s'"
  using quiet_trans [OF assms(3) quiet_trans [OF steady_quiet [OF timed_steady [OF assms(1)]] switch_quiet [OF assms(2,4)]]] .

lemma usleep_quiet:
  assumes "st_usleep d s = Some (r, s')" "ctx (thr s (this_thread s)) = K_run"
  shows "quiet s s'"
proof -
  let ?b = "set_state (this_thread s) (if d \<noteq> NO_TIMEOUT then ST_SLEEPING else ST_SUSPENDED) s"
  show ?thesis
    using check_interrupt_cases [OF assms(1) [unfolded st_usleep_def] assms(2)] set_state_quiet [OF assms(2)]
      enter_quiet [of d "this_thread s" ?b]
    by (auto simp: Let_def split: if_splits bind_splits)
qed

lemma poll_quiet:
  assumes "st_poll w ps d s = Some (r, s')" "in_user s" "ev_ok (ev_ctl (w_ep w)) s"
  shows "quiet s s'"
proof -
  let ?t = "this_thread s"
  have k: "ctx (thr s ?t) = K_run" and io: "?t \<notin> set (io_q s)"
    using assms(2) not_polling by (auto simp: in_user_def)
  obtain x s1 where a: "ev_pollset_add w ps s = Some (x, s1)" "same_but_events s s1"
    using evs.add_law [OF assms(3) io] by blast
  note E = same_but_eventsD [OF a(2)]
  define b where "b = ST_ADD_IOQ ?t (s1\<lparr>pollqs := (pollqs s1)(?t := \<lparr>pq_thread = ?t, pds = ps, on_ioq = True\<rparr>)\<rparr>)"
  have b: "quiet s b" "thr b = thr s"
    using E by (auto simp: b_def ST_ADD_IOQ_def live_def intro!: quiet_same)
  have s1: "quiet s s1"
    using E by (intro quiet_same) (simp_all add: live_def)
  have w: "quiet s s2" if z: "(if d \<noteq> NO_TIMEOUT then st_add_sleep_q ?t d b else Some b) = Some z"
      "ST_SWITCH_CONTEXT K_poll ?t (set_state ?t ST_IO_WAIT z) = Some s2" for z s2
  proof -
    note st = timed_steady [OF z(1)]
    then have "ctx (thr z ?t) = K_run" using b(2) k by (simp add: steady_def)
    from set_state_quiet [OF this] show ?thesis
      using quiet_trans [OF b(1)] quiet_trans [OF steady_quiet [OF st]] quiet_trans switch_quiet [OF z(2)] by blast
  qed
  from check_interrupt_cases [OF assms(1) [unfolded st_poll_def] k] show ?thesis
  proof
    assume "(let me = ?t in
       do {
         (r, s1) \<leftarrow> ev_pollset_add w ps s;
         (case r of
            Inl e \<Rightarrow> Some (Returned (Inl e), s1)
          | Inr _ \<Rightarrow>
             do {
               let s2 = ST_ADD_IOQ me (s1\<lparr>pollqs := (pollqs s1)
                 (me := \<lparr>pq_thread = me, pds = ps, on_ioq = True\<rparr>)\<rparr>);
               s3 \<leftarrow> (if d \<noteq> NO_TIMEOUT then st_add_sleep_q me d s2 else Some s2);
               s4 \<leftarrow> ST_SWITCH_CONTEXT K_poll me (set_state me ST_IO_WAIT s3);
               Some (Blocked, s4)
             })
       }) = Some (r, s')"
    then show ?thesis
      using a(1) s1 w by (auto simp: Let_def b_def [symmetric] split: sum.splits bind_splits)
  qed
qed

lemma poll_resume_quiet:
  assumes "st_poll_resume w s = Some (r, s')" "sys_ok (ev_ctl (w_ep w)) s" "ctx (thr s (this_thread s)) = K_poll"
  shows "quiet s s'"
proof -
  let ?t = "this_thread s" let ?n = "switched_in s"
  have vp: "vp_ok s" and ev: "ev_ok (ev_ctl (w_ep w)) s" using assms(2) by (simp_all add: sys_ok_def)
  have io: "?t \<in> set (io_q s) \<longleftrightarrow> on_ioq (pollqs s ?t)"
    using thread_ok_state(8) [OF running_tok [OF vp]] assms(3) by simp
  have n: "ev_ok (ev_ctl (w_ep w)) ?n" "io_q ?n = io_q s" "pollqs ?n = pollqs s" "distinct (io_q ?n)"
    using evs.frame [OF ev] vp_ok_clauses(5) [OF vp] by simp_all
  obtain m s1 where s1: "(if on_ioq (pollqs ?n ?t)
        then do { s' \<leftarrow> ev_pollset_del w (pds (pollqs ?n ?t)) (ST_DEL_IOQ ?t ?n); Some (0, s') }
        else Some (poll_count (pds (pollqs ?n ?t)), ?n)) = Some (m, s1)"
    and c: "check_interrupt (\<lambda>s. Some (Returned (Inr m), s)) s1 = Some (r, s')"
    using assms(1) by (auto simp: st_poll_resume_def Let_def split: bind_splits if_splits)
  have "quiet ?n s1 \<and> thr s1 = thr ?n \<and> this_thread s1 = ?t"
  proof (cases "on_ioq (pollqs s ?t)")
    case True
    then obtain z where z: "ev_pollset_del w (pds (pollqs ?n ?t)) (ST_DEL_IOQ ?t ?n) = Some z"
        "same_but_events (ST_DEL_IOQ ?t ?n) z"
      using evs.del_law [OF n(1) _ n(4), of ?t] io n by auto
    then have "z = s1" using s1 True n by simp
    then show ?thesis
      using same_but_eventsD [OF z(2)] by (auto simp: ST_DEL_IOQ_def live_def intro!: quiet_same)
  next
    case False
    then have "s1 = ?n" using s1 n by simp
    then show ?thesis by simp
  qed
  moreover from this have "quiet s1 s'"
    using check_interrupt_cases [OF c] by auto
  ultimately show ?thesis
    using switched_in_quiet quiet_trans by blast
qed

lemma cond_enter_quiet:
  assumes "cond_wait_enter k c d s = Some (r, s')" "ctx (thr s (this_thread s)) = K_run" "\<And>m. k \<noteq> K_mutex m"
  shows "quiet s s'"
proof -
  define b where "b q = (set_state (this_thread s) ST_COND_WAIT s)\<lparr>conds := (conds (set_state (this_thread s) ST_COND_WAIT s))
    (c \<mapsto> q @ [this_thread s])\<rparr>" for q
  have "quiet s (b q)" for q
    by (rule quiet_trans [OF set_state_quiet [OF assms(2)] quiet_same]) (simp_all add: b_def live_def)
  moreover have "quiet s s' \<or> (\<exists>q z. (if d \<noteq> NO_TIMEOUT then st_add_sleep_q (this_thread s) d (b q) else Some (b q)) = Some z \<and>
      ST_SWITCH_CONTEXT k (this_thread s) z = Some s')"
    using check_interrupt_cases [OF assms(1) [unfolded cond_wait_enter_def] assms(2)] unfolding b_def Let_def
    by (auto split: bind_splits if_splits cong: if_cong)
  ultimately show ?thesis
    using enter_quiet [OF _ _ _ assms(3)] by blast
qed

lemma signal_loop_quiet: "cond_signal_loop br q s = Some s' \<Longrightarrow> quiet s s'"
proof (induction q arbitrary: s)
  case (Cons t q)
  show ?case
  proof (cases "state (thr s t) = ST_COND_WAIT")
    case True
    then obtain s1 where s1: "off_sleepq t s = Some s1" "quiet (make_runnable t s1) s'"
      using Cons by (auto simp: Let_def split: bind_splits if_splits)
    note st = off_sleepq_steady [OF s1(1)]
    then have "quiet s1 (make_runnable t s1)"
      using True by (intro make_runnable_quiet) (simp add: steady_def)
    then show ?thesis
      using quiet_trans steady_quiet [OF st] s1(2) by blast
  qed (use Cons in simp)
qed simp

lemma signal_quiet: "cond_signal_gen br c s = Some s' \<Longrightarrow> quiet s s'"
  using signal_loop_quiet by (auto simp: cond_signal_gen_def split: bind_splits)

lemma cond_resume_quiet:
  assumes "st_cond_timedwait_resume c s = Some (r, s')"
  shows "quiet s s' \<and> this_thread s' = this_thread s \<and> ctx (thr s' (this_thread s)) = K_run"
proof -
  let ?t = "this_thread s" let ?n = "switched_in s"
  define clr where "clr f b = (if has_flag (flags (thr b ?t)) f then clear_fl ?t f b else b)" for f b
  have clr: "quiet b (clr f b) \<and> this_thread (clr f b) = this_thread b \<and> ctx (thr (clr f b) ?t) = K_run"
    if "ctx (thr b ?t) = K_run" for f b
    using clear_fl_quiet [OF that, of f] that by (simp add: clr_def) (simp add: clear_fl_def)
  obtain q where q: "conds ?n c = Some q" and s': "s' = clr FL_INTERRUPT (clr FL_TIMEDOUT (?n\<lparr>conds := (conds ?n)(c \<mapsto> remove1 ?t q)\<rparr>))"
    using assms by (auto simp: st_cond_timedwait_resume_def Let_def clr_def split: bind_splits if_splits)
  let ?b = "?n\<lparr>conds := (conds ?n)(c \<mapsto> remove1 ?t q)\<rparr>"
  have "quiet s ?b"
    by (rule quiet_trans [OF switched_in_quiet quiet_same]) (simp_all add: live_def)
  moreover have "ctx (thr ?b ?t) = K_run" "this_thread ?b = ?t"
    by simp_all
  ultimately show ?thesis
    using clr [of ?b FL_TIMEDOUT] clr [of "clr FL_TIMEDOUT ?b" FL_INTERRUPT] unfolding s'
    by (auto intro: quiet_trans)
qed

lemma join_loop_quiet:
  assumes "join_loop t c s = Some (r, s')" "ctx (thr s (this_thread s)) = K_run"
  shows "quiet s s'"
proof (cases "state (thr s t) = ST_ZOMBIE")
  case True
  have "quiet s (set_state t ST_RUNNABLE s)"
    by (rule quietI) (use True in \<open>auto simp: set_state_def live_def\<close>)
  moreover have "quiet (set_state t ST_RUNNABLE s) s'"
    using True assms(1) by (auto simp: join_loop_def queue_defs live_def intro!: quiet_same)
  ultimately show ?thesis
    using quiet_trans by blast
next
  case False
  then show ?thesis
    using assms cond_enter_quiet [of "K_join t c" c NO_TIMEOUT s r s'] by (auto simp: join_loop_def)
qed

section \<open>Interrupts, creation and the end of a thread\<close>

lemma interrupt_quiet:
  assumes "st_thread_interrupt t s = Some s'"
  shows "quiet s s'"
proof -
  have q: "quiet s (set_fl t FL_INTERRUPT s)"
    by (rule set_fl_interrupt_quiet)
  have "quiet s (make_runnable t s2)" if "off_sleepq t (set_fl t FL_INTERRUPT s) = Some s2" for s2
  proof -
    note st = off_sleepq_steady [OF that]
    have "has_flag (flags (thr (set_fl t FL_INTERRUPT s) t)) FL_INTERRUPT"
      by (simp add: set_fl_def flag_simps)
    then have "quiet s2 (make_runnable t s2)"
      using st by (intro make_runnable_quiet) (simp add: steady_def)
    then show ?thesis
      using q quiet_trans steady_quiet [OF st] by blast
  qed
  then show ?thesis
    using assms q by (auto simp: st_thread_interrupt_def Let_def split: if_splits bind_splits)
qed

lemma create_quiet: "quiet s (snd (st_thread_create e f a jn n s))"
proof -
  obtain res s1 where r: "st_stack_new (adjust_stk_size (pagesize s) n) (ce_stack e) (ce_segment e) (ce_random e) s = (res, s1)"
    by fastforce
  obtain k where k: "s1 = s\<lparr>stks := k\<rparr>" using stack_new_parts [OF r] by blast
  have free: "mutexes (st_stack_free ts z) = mutexes z" "thr (st_stack_free ts z) = thr z" "live (st_stack_free ts z) = live z" for ts z
    by (subst stack_free_parts, simp add: live_def)+
  show ?thesis
  proof (cases res)
    case None
    then show ?thesis
      using r k by (auto simp: st_thread_create_def Let_def live_def intro!: quiet_same)
  next
    case (Some ts)
    show ?thesis
      by (rule quiet_one [where t = "nat (l_thread (carve_stack (ce_size_thread e) (stk_top (stk_of k ts))))"])
        (use r Some k free in \<open>auto simp: st_thread_create_def Let_def st_cond_new_def blank_thread_def live_def set_state_def
          ST_ADD_THREADQ_def ST_ADD_RUNQ_def split: option.splits\<close>)
  qed
qed

lemma private_quiet:
  "quiet s (set_private t k v s)" "quiet s (call_destructor d v s)"
  by (rule steady_quiet, simp add: steady_def set_private_def call_destructor_def)+

lemma cleanup_quiet: "quiet s (cleanup_loop n k t s)"
proof (induction n arbitrary: k s)
  case (Suc n)
  define v d where "v = private_data (thr s t) ! k" and "d = destructors (keys s) ! k"
  have "quiet s (if v \<noteq> NULLP \<and> d \<noteq> NULLP then set_private t k NULLP (call_destructor d v s) else s)"
    using quiet_trans [OF private_quiet(2) private_quiet(1)] by simp
  then show ?case
    unfolding cleanup_loop.simps Let_def v_def [symmetric] d_def [symmetric] by (rule quiet_trans [OF _ Suc.IH])
qed simp

lemma cleanup_ctx: "ctx (thr (cleanup_loop n k t s) u) = ctx (thr s u)"
  by (induction n k t s rule: cleanup_loop.induct) (auto simp: Let_def set_private_def call_destructor_def)

lemma exit_finish_quiet:
  assumes "exit_finish s = Some s'"
  shows "quiet s s'"
proof -
  have free: "mutexes (st_stack_free ts z) = mutexes z" "thr (st_stack_free ts z) = thr z" "live (st_stack_free ts z) = live z" for ts z
    by (subst stack_free_parts, simp add: live_def)+
  let ?y = "ST_DEL_THREADQ (this_thread s) s"
  define z where "z = (if has_flag (flags (thr ?y (this_thread s))) FL_PRIMORDIAL then ?y
    else st_stack_free (stack (thr ?y (this_thread s))) ?y)"
  have "live ?y \<subseteq> live s"
    by (simp add: ST_DEL_THREADQ_def live_def set_remove1_subset)
  then have z: "mutexes z = mutexes s" "thr z = thr s" "live z \<subseteq> live s"
    by (simp_all add: z_def free) (simp_all add: ST_DEL_THREADQ_def)
  have sw: "ST_SWITCH_CONTEXT K_dead (this_thread s) z = Some s'"
    using assms by (simp add: exit_finish_def Let_def z_def)
  show ?thesis
    using quiet_trans [OF quiet_same switch_quiet [OF sw]] z by simp
qed

lemma exit_quiet:
  assumes "st_thread_exit rv s = Some s'" "ctx (thr s (this_thread s)) = K_run"
  shows "quiet s s'"
proof -
  let ?t = "this_thread s"
  define z where "z = (let s2 = st_thread_cleanup ?t (upd_thr ?t (\<lambda>z. z\<lparr>retval := rv\<rparr>) s)
     in s2\<lparr>active_count := active_count s2 - 1\<rparr>)"
  have "quiet s (upd_thr ?t (\<lambda>z. z\<lparr>retval := rv\<rparr>) s)"
    by (intro steady_quiet steady_intros) simp_all
  moreover have "quiet (upd_thr ?t (\<lambda>z. z\<lparr>retval := rv\<rparr>) s) z"
    using quiet_trans [OF cleanup_quiet quiet_same] by (simp add: z_def Let_def st_thread_cleanup_def live_def)
  ultimately have z: "quiet s z"
    by (rule quiet_trans)
  have kz: "ctx (thr z ?t) = K_run"
    using assms(2) by (simp add: z_def Let_def st_thread_cleanup_def cleanup_ctx)
  let ?x = "ST_ADD_ZOMBIEQ ?t (set_state ?t ST_ZOMBIE z)"
  have x: "quiet z ?x"
    by (rule quiet_trans [OF set_state_quiet [OF kz] quiet_same]) (simp_all add: ST_ADD_ZOMBIEQ_def live_def)
  have "exit_finish z = Some s' \<or> (\<exists>c x'. st_cond_signal c ?x = Some x' \<and> ST_SWITCH_CONTEXT K_zombie ?t x' = Some s')"
    using assms(1) unfolding st_thread_exit_def Let_def z_def [unfolded Let_def, symmetric]
    by (auto split: option.splits bind_splits)
  then show ?thesis
    using exit_finish_quiet [of z s'] signal_quiet [of False _ ?x] switch_quiet [of K_zombie ?t _ s'] quiet_trans [OF z] quiet_trans [OF x] quiet_trans
    unfolding st_cond_signal_def by blast
qed

lemma exit_resume_quiet:
  assumes "st_thread_exit_resume s = Some s'"
  shows "quiet s s'"
proof -
  let ?n = "switched_in s"
  obtain c r s1 where c: "st_cond_destroy c ?n = Some (r, s1)"
    "exit_finish (upd_thr (this_thread s) (\<lambda>z. z\<lparr>term_cv := None\<rparr>) s1) = Some s'"
    using assms by (auto simp: st_thread_exit_resume_def Let_def split: bind_splits)
  have "quiet ?n s1"
    using c(1) by (auto simp: st_cond_destroy_def live_def split: bind_splits option.splits if_splits intro!: quiet_same)
  moreover have "quiet s1 (upd_thr (this_thread s) (\<lambda>z. z\<lparr>term_cv := None\<rparr>) s1)"
    by (intro steady_quiet steady_intros) simp_all
  ultimately show ?thesis
    using exit_finish_quiet [OF c(2)] switched_in_quiet quiet_trans by blast
qed

section \<open>Mutexes\<close>

lemma quiet_mutex:
  assumes "thr s' = thr s" "live s' = live s" "\<And>m t. holder s m = Some t \<Longrightarrow> holder s' m = Some t"
  shows "quiet s s'"
  using assms by (simp add: quiet_def fine_def)

lemma set_mutex_parts [simp]:
  "thr (set_mutex m l s) = thr s" "live (set_mutex m l s) = live s" "this_thread (set_mutex m l s) = this_thread s"
  "holder (set_mutex m l s) m' = (if m' = m then owner l else holder s m')"
  by (simp_all add: set_mutex_def live_def holder_def)

lemma mutex_new_quiet:
  assumes "\<forall>m \<in> set_option ob. mutexes s m = None"
  shows "quiet s (snd (st_mutex_new ob s))"
  using assms by (auto simp: st_mutex_new_def holder_def set_mutex_def live_def intro!: quiet_mutex split: option.splits)

lemma mutex_destroy_quiet:
  assumes "st_mutex_destroy m s = Some (r, s')"
  shows "quiet s s'"
  using assms by (auto simp: st_mutex_destroy_def holder_def live_def intro!: quiet_mutex split: bind_splits if_splits)

lemma trylock_quiet:
  assumes "st_mutex_trylock m s = Some (r, s')"
  shows "quiet s s'"
  using assms by (auto simp: st_mutex_trylock_def holder_def live_def set_mutex_def intro!: quiet_mutex split: bind_splits if_splits)

text \<open>Locking: the caller gets a free mutex at once, or stops and waits.\<close>

lemma lock_hand:
  assumes "st_mutex_lock m s = Some (r, s')" "in_user s" "hand_ok s"
  shows "hand_ok s' \<and> (\<forall>m t. holder s m = Some t \<longrightarrow> holder s' m = Some t)"
proof -
  let ?t = "this_thread s"
  have k: "ctx (thr s ?t) = K_run"
    using assms(2) by (simp add: in_user_def)
  have quick: ?thesis if "quiet s s'"
    using that assms(3) quiet_hand quiet_owner by blast
  show ?thesis
  proof (cases "quiet s s'")
    case False
    obtain l where l: "mutexes s m = Some l"
      and c: "owner l = None \<and> s' = set_mutex m (l\<lparr>owner := Some ?t\<rparr>) s \<or> s' = s \<or>
        ST_SWITCH_CONTEXT (K_mutex m) ?t (set_mutex m (l\<lparr>m_wait_q := m_wait_q l @ [?t]\<rparr>) (set_state ?t ST_LOCK_WAIT s)) = Some s'"
      using check_interrupt_cases [OF assms(1) [unfolded st_mutex_lock_def] k] False
      by (auto simp: Let_def split: bind_splits if_splits)
    from c show ?thesis
    proof (elim disjE)
      assume "owner l = None \<and> s' = set_mutex m (l\<lparr>owner := Some ?t\<rparr>) s"
      then have "quiet s s'"
        using l by (auto simp: holder_def set_mutex_def live_def intro!: quiet_mutex)
      then show ?thesis by (rule quick)
    next
      assume "s' = s"
      then show ?thesis using quick by simp
    next
      let ?w = "set_mutex m (l\<lparr>m_wait_q := m_wait_q l @ [?t]\<rparr>) (set_state ?t ST_LOCK_WAIT s)"
      let ?b = "set_ctx ?t (K_mutex m) (ST_SWITCH_OUT_CB ?t ?w)"
      assume "ST_SWITCH_CONTEXT (K_mutex m) ?t ?w = Some s'"
      then have sw: "quiet ?b s'"
        using schedule_quiet by (simp add: ST_SWITCH_CONTEXT_def)
      have o: "holder ?b m' = holder s m'" for m'
        using l by (auto simp: holder_def set_mutex_def)
      have "fine ?b ?t m"
        by (simp add: fine_def set_state_def)
      moreover have "live ?b = live s" "\<And>u. u \<noteq> ?t \<Longrightarrow> thr ?b u = thr s u" "ctx (thr ?b ?t) = K_mutex m"
        by (simp_all add: live_def set_ctx_def set_state_def set_mutex_def)
      ultimately have "hand_ok ?b"
        using assms(3) o unfolding hand_ok_def fine_def by (metis kont.inject(3))
      then show ?thesis
        using quiet_hand [OF sw] quiet_owner [OF sw] o by simp
    qed
  qed (rule quick)
qed

text \<open>Unlocking: the first thread that still waits becomes the owner, and only the owner can do it.\<close>

lemma unlock_loop_other:
  "(\<forall>m'. m' \<noteq> m \<longrightarrow> holder (unlock_loop m l q s) m' = holder s m') \<and>
   live (unlock_loop m l q s) = live s \<and> this_thread (unlock_loop m l q s) = this_thread s"
  by (induction m l q s rule: unlock_loop.induct)
    (auto simp: set_mutex_def make_runnable_def ST_ADD_RUNQ_def holder_def live_def)

lemma unlock_loop_fine:
  "ctx (thr (unlock_loop m l q s) t) = ctx (thr s t) \<and>
   has_flag (flags (thr (unlock_loop m l q s) t)) FL_INTERRUPT = has_flag (flags (thr s t)) FL_INTERRUPT \<and>
   (state (thr s t) = ST_LOCK_WAIT \<longrightarrow> fine (unlock_loop m l q s) t m)"
proof (induction m l q s rule: unlock_loop.induct)
  case (1 m l s)
  then show ?case by (simp add: fine_def)
next
  case (2 m l u q s)
  then show ?case
    by (auto simp: fine_def make_runnable_def set_state_def ST_ADD_RUNQ_def set_mutex_def holder_def)
qed

lemma unlock_loop_state:
  "state (thr s t) \<noteq> ST_LOCK_WAIT \<or> t \<notin> set q \<Longrightarrow> state (thr (unlock_loop m l q s) t) = state (thr s t)"
  by (induction m l q s rule: unlock_loop.induct)
    (auto simp: make_runnable_def set_state_def ST_ADD_RUNQ_def set_mutex_def)

lemma unlock_hand:
  assumes "st_mutex_unlock m s = Some (r, s')" "in_user s" "hand_ok s"
  shows "hand_ok s' \<and> (\<forall>m' t. holder s m' = Some t \<longrightarrow> holder s' m' = Some t \<or> m' = m \<and> t = this_thread s)"
proof -
  have v: "vp_ok s" and k: "ctx (thr s (this_thread s)) = K_run"
    using assms(2) by (simp_all add: in_user_def)
  obtain l where l: "mutexes s m = Some l" "s' = s \<or> owner l = Some (this_thread s) \<and> s' = unlock_loop m l (m_wait_q l) s"
    using assms(1) by (auto simp: st_mutex_unlock_def split: bind_splits if_splits)
  have q: "ctx (thr s t) = K_mutex m" if "t \<in> set (m_wait_q l)" for t
    using vp_ok_clauses(4) [OF v] l(1) that unfolding mutex_ok_def by blast
  show ?thesis
  proof (cases "s' = s")
    case False
    then have s': "owner l = Some (this_thread s)" "s' = unlock_loop m l (m_wait_q l) s"
      using l(2) by simp_all
    note other = unlock_loop_other [of m l "m_wait_q l" s, folded s'(2)]
    note fn = unlock_loop_fine [of m l "m_wait_q l" s, folded s'(2)]
    note st = unlock_loop_state [of s _ "m_wait_q l" m l, folded s'(2)]
    have "fine s' t n" if t: "t \<in> live s" "ctx (thr s t) = K_mutex n" for t n
    proof -
      have f: "fine s t n" using assms(3) t by (simp add: hand_ok_def)
      show ?thesis
      proof (cases "n = m")
        case True
        have "holder s m \<noteq> Some t"
          using l(1) s'(1) k t by (auto simp: holder_def)
        then show ?thesis
          using f True fn [of t] by (auto simp: fine_def)
      next
        case False
        then have "t \<notin> set (m_wait_q l)" using q t by auto
        then show ?thesis
          using f st [of t] fn [of t] other False by (auto simp: fine_def)
      qed
    qed
    then have "hand_ok s'"
      using other fn by (simp add: hand_ok_def)
    moreover have "holder s m = Some (this_thread s)"
      using l(1) s'(1) by (simp add: holder_def)
    ultimately show ?thesis
      using other by (metis option.inject)
  qed (use assms(3) in simp)
qed

lemma lock_resume_quiet:
  assumes "st_mutex_lock_resume m s = Some (r, s')"
  shows "quiet s s'"
proof -
  let ?t = "this_thread s" let ?n = "switched_in s"
  obtain l where l: "mutexes s m = Some l"
    using assms by (auto simp: st_mutex_lock_resume_def Let_def split: bind_splits)
  let ?b = "set_mutex m (l\<lparr>m_wait_q := remove1 ?t (m_wait_q l)\<rparr>) ?n"
  have "quiet ?n ?b"
    using l by (intro quiet_mutex) (auto simp: holder_def set_mutex_def live_def)
  then have b: "quiet s ?b"
    using switched_in_quiet quiet_trans by blast
  have "s' = ?b \<or> s' = clear_fl ?t FL_INTERRUPT ?b"
    using assms l by (auto simp: st_mutex_lock_resume_def Let_def split: if_splits)
  then show ?thesis
    using b quiet_trans [OF b clear_fl_quiet [of ?b ?t FL_INTERRUPT]] by auto
qed

section \<open>Every step\<close>

lemma objects_quiet:
  "quiet s (snd (st_cond_new ob s))" "quiet s (snd (st_key_create d s))" "quiet s (snd (st_thread_setspecific k v s))"
  "quiet s (snd (st_set_switch_in_cb cb s))" "quiet s (snd (st_set_switch_out_cb cb s))" "quiet s (snd (st_timecache_set on t n s))"
proof -
  show "quiet s (snd (st_thread_setspecific k v s))"
    using private_quiet quiet_trans [OF private_quiet(2) private_quiet(1)]
    by (simp add: st_thread_setspecific_def Let_def)
qed (auto simp: st_cond_new_def st_key_create_def st_set_switch_in_cb_def st_set_switch_out_cb_def st_timecache_set_def Let_def live_def
    intro!: quiet_same split: option.splits)

lemma cond_destroy_quiet: "st_cond_destroy c s = Some (r, s') \<Longrightarrow> quiet s s'"
  by (auto simp: st_cond_destroy_def live_def intro!: quiet_same split: bind_splits option.splits if_splits)

lemma exec_hand:
  assumes e: "exec op s = Some s'" and s: "sys_ok ctl s" and k: "ctx (thr s (this_thread s)) = K_run"
    and a: "allowed ctl op s" and h: "hand_ok s"
  shows "hand_ok s' \<and> (\<forall>m t. holder s m = Some t \<longrightarrow> holder s' m = Some t \<or> op = C_mutex_unlock m \<and> t = this_thread s)"
proof -
  have u: "in_user s" and v: "vp_ok s" using s k by (simp_all add: in_user_def sys_ok_def)
  have quick: ?thesis if "quiet s s'"
    using that h quiet_hand quiet_owner by blast
  show ?thesis
  proof (cases op)
    case (C_poll w ps d)
    then show ?thesis using e a s poll_quiet [of w ps d s _ s', OF _ u] by (intro quick) (auto simp: sys_ok_def)
  next
    case (C_usleep d)
    then show ?thesis using e usleep_quiet [OF _ k] by (intro quick) auto
  next
    case (C_sleep n)
    then show ?thesis using e usleep_quiet [OF _ k] by (intro quick) (auto simp: st_sleep_def)
  next
    case (C_cond_new ob)
    then show ?thesis using e objects_quiet by (intro quick) auto
  next
    case (C_cond_destroy c)
    then show ?thesis using e cond_destroy_quiet by (intro quick) auto
  next
    case (C_cond_timedwait c d)
    then show ?thesis using e cond_enter_quiet [OF _ k, of "K_cond c"] by (intro quick) (auto simp: st_cond_timedwait_def)
  next
    case (C_cond_signal c)
    then show ?thesis using e signal_quiet by (intro quick) (auto simp: st_cond_signal_def)
  next
    case (C_cond_broadcast c)
    then show ?thesis using e signal_quiet by (intro quick) (auto simp: st_cond_broadcast_def)
  next
    case (C_mutex_new ob)
    then show ?thesis using e a mutex_new_quiet by (intro quick) auto
  next
    case (C_mutex_destroy m)
    then show ?thesis using e mutex_destroy_quiet by (intro quick) auto
  next
    case (C_mutex_lock m)
    then show ?thesis using e lock_hand [OF _ u h] by auto
  next
    case (C_mutex_unlock m)
    then obtain r where "st_mutex_unlock m s = Some (r, s')" using e by auto
    from unlock_hand [OF this u h] show ?thesis using C_mutex_unlock by blast
  next
    case (C_mutex_trylock m)
    then show ?thesis using e trylock_quiet by (intro quick) auto
  next
    case (C_create ev f x j n)
    then show ?thesis using e create_quiet by (intro quick) auto
  next
    case (C_join t)
    have "quiet s s'"
      using e a C_join join_loop_quiet [OF _ k]
      by (auto simp: st_thread_join_def joinable_def split: option.splits if_splits bind_splits)
    then show ?thesis by (rule quick)
  next
    case (C_exit rv)
    then show ?thesis using e exit_quiet [OF _ k] by (intro quick) auto
  next
    case (C_return rv)
    have "quiet s (upd_thr (this_thread s) (\<lambda>z. z\<lparr>retval := rv\<rparr>) s)"
      by (intro steady_quiet steady_intros) simp_all
    moreover have "quiet (upd_thr (this_thread s) (\<lambda>z. z\<lparr>retval := rv\<rparr>) s) s'"
      using e C_return k by (intro exit_quiet) (auto simp: st_thread_main_return_def Let_def)
    ultimately show ?thesis using quick quiet_trans by blast
  next
    case (C_interrupt t)
    then show ?thesis using e interrupt_quiet by (intro quick) auto
  next
    case (C_key_create d)
    then show ?thesis using e objects_quiet by (intro quick) auto
  next
    case (C_setspecific k v)
    then show ?thesis using e objects_quiet by (intro quick) auto
  next
    case (C_switch_in_cb cb)
    then show ?thesis using e objects_quiet by (intro quick) auto
  next
    case (C_switch_out_cb cb)
    then show ?thesis using e objects_quiet by (intro quick) auto
  next
    case (C_timecache on t n)
    then show ?thesis using e objects_quiet by (intro quick) auto
  qed
qed

lemma resume_quiet:
  assumes e: "resume w s = Some s'" and s: "sys_ok (ev_ctl (w_ep w)) s"
  shows "quiet s s'"
proof -
  have v: "vp_ok s" using s by (simp add: sys_ok_def)
  have n: "quiet s (switched_in s)" "ctx (thr (switched_in s) (this_thread (switched_in s))) = K_run"
    by (rule switched_in_quiet) simp
  have ci: "quiet b z" if "check_interrupt (\<lambda>s. Some (Returned (Inr ()), s)) b = Some (r, z)"
    "ctx (thr b (this_thread b)) = K_run" for b z r
    using check_interrupt_cases [OF that] by auto
  show ?thesis
  proof (cases "ctx (thr s (this_thread s))")
    case K_start
    have "quiet s (set_ctx (this_thread s) K_run s)" by (rule set_ctx_quiet) simp
    then show ?thesis using e K_start by (simp add: resume_def st_thread_main_enter_def Let_def)
  next
    case K_usleep
    then show ?thesis
      using e ci [OF _ n(2)] quiet_trans [OF n(1)] by (auto simp: resume_def st_usleep_resume_def)
  next
    case (K_cond c)
    then show ?thesis using e cond_resume_quiet by (auto simp: resume_def)
  next
    case (K_join t c)
    then obtain r where r: "st_thread_join_resume t c s = Some (r, s')"
      using e by (auto simp: resume_def)
    then obtain rv s1 where s1: "st_cond_timedwait_resume c s = Some (rv, s1)"
      "(case rv of Inl e \<Rightarrow> Some (Returned (Inl e), s1) | Inr _ \<Rightarrow> join_loop t c s1) = Some (r, s')"
      by (auto simp: st_thread_join_resume_def split: bind_splits)
    note q = cond_resume_quiet [OF s1(1)]
    then have "quiet s1 s'"
      using s1(2) join_loop_quiet [of t c s1 r s'] by (auto split: sum.splits)
    then show ?thesis using q quiet_trans by blast
  next
    case (K_mutex m)
    then show ?thesis using e lock_resume_quiet by (auto simp: resume_def)
  next
    case K_poll
    show ?thesis using poll_resume_quiet [OF _ s K_poll] e K_poll by (auto simp: resume_def)
  next
    case K_zombie
    then show ?thesis using e exit_resume_quiet by (auto simp: resume_def)
  qed (use e in \<open>simp_all add: resume_def\<close>)
qed

lemma idle_quiet:
  assumes e: "idle_round w c s = Some (Inr s')" and s: "sys_ok (ev_ctl (w_ep w)) s"
    and t: "this_thread s = idle_thread s" and f: "ev_fits w s"
  shows "quiet s s'"
proof -
  let ?i = "idle_thread s"
  have vp: "vp_inv (Some ?i) s" "run_q s = []" and ev: "ev_ok (ev_ctl (w_ep w)) s"
    using s t by (auto simp: sys_ok_def vp_ok_def idle_ok_def)
  obtain s1 where s1: "ev_dispatch w s = Some s1" "vp_inv (Some ?i) s1" "disp_frame s s1"
    using evs.disp_law [OF ev f pending_start [OF vp]] by blast
  obtain s2 W where s2: "st_vp_check_clock (c_now c) (c_time c) s1 = Some s2" "set W = expired (c_now c) s1"
      "woke {t \<in> set W. state (thr s1 t) = ST_COND_WAIT} W (at_time (c_now c) (c_time c) s1) s2"
    using check_clock_run [OF s1(2)] by blast
  have d: "quiet s s1"
  proof (rule quiet_threads)
    fix u
    have "ctx (thr s1 u) = ctx (thr s u) \<and>
        has_flag (flags (thr s1 u)) FL_INTERRUPT = has_flag (flags (thr s u)) FL_INTERRUPT \<and>
        (state (thr s1 u) = state (thr s u) \<or> state (thr s u) = ST_IO_WAIT)"
      using s1(3) by (simp add: disp_frame_def parked_def)
    then show "ctx (thr s1 u) = ctx (thr s u) \<and>
        has_flag (flags (thr s1 u)) FL_INTERRUPT = has_flag (flags (thr s u)) FL_INTERRUPT \<and>
        (state (thr s u) = ST_LOCK_WAIT \<longrightarrow> state (thr s1 u) = ST_LOCK_WAIT)"
      by auto
  qed (use s1(3) in \<open>simp_all add: disp_frame_def live_def\<close>)
  have awake: "state (thr s1 u) \<noteq> ST_LOCK_WAIT" if "u \<in> set W" for u
  proof -
    have "u \<in> sleepers s1" using that s2(2) by (simp add: expired_def)
    then have u: "u \<in> live s1" "has_flag (flags (thr s1 u)) FL_ON_SLEEPQ" by (simp_all add: sleepers_def)
    then have "thread_ok (Some ?i) s1 u" using s1(2) by (simp add: vp_inv_def inv0_def)
    with u(2) have "state (thr s1 u) \<in> {ST_IO_WAIT, ST_COND_WAIT, ST_SLEEPING}" by (simp only: thread_ok_def tok_def)
    then show ?thesis by auto
  qed
  have W: "ctx (thr s2 u) = ctx (thr s1 u)" "has_flag (flags (thr s2 u)) FL_INTERRUPT = has_flag (flags (thr s1 u)) FL_INTERRUPT"
      "state (thr s2 u) = (if u \<in> set W then ST_RUNNABLE else state (thr s1 u))" for u
    using s2(3) by (simp_all add: woke_def)
  have w: "quiet s1 s2"
  proof (rule quiet_threads)
    fix u
    show "ctx (thr s2 u) = ctx (thr s1 u) \<and>
        has_flag (flags (thr s2 u)) FL_INTERRUPT = has_flag (flags (thr s1 u)) FL_INTERRUPT \<and>
        (state (thr s1 u) = ST_LOCK_WAIT \<longrightarrow> state (thr s2 u) = ST_LOCK_WAIT)"
      using W [of u] awake [of u] by auto
  qed (use s2(3) in \<open>simp_all add: woke_def live_def\<close>)
  have "idle_thread s1 = ?i"
    using s1(3) by (simp add: disp_frame_def)
  then have k: "ctx (thr s2 ?i) \<noteq> K_mutex m" for m
    using tok_kont(1) [OF running_facts(3) [OF s1(2), unfolded thread_ok_def]] W(1) [of ?i] by auto
  have b: "quiet s2 (set_state ?i ST_RUNNABLE s2)"
    by (rule quiet_one [where t = ?i]) (use k in \<open>auto simp: set_state_def live_def\<close>)
  have "ST_SWITCH_CONTEXT K_idle ?i (set_state ?i ST_RUNNABLE s2) = Some s'"
    using e s1(1) s2(1) t by (auto simp: idle_round_def Let_def split: if_splits bind_splits)
  then have "quiet (set_state ?i ST_RUNNABLE s2) s'"
    by (rule switch_quiet) simp
  then show ?thesis
    using d w b quiet_trans by blast
qed

lemma step_hand:
  assumes "step ctl s s'" "sys_ok ctl s" "hand_ok s"
  shows "hand_ok s' \<and>
    (\<forall>m t. holder s m = Some t \<longrightarrow> holder s' m = Some t \<or> t = this_thread s \<and> exec (C_mutex_unlock m) s = Some s')"
  using assms(1)
proof cases
  case (call op)
  from exec_hand [OF call(3) assms(2) call(1,2) assms(3)] show ?thesis
    using call(3) by blast
next
  case (go_on w)
  then have "quiet s s'"
    using resume_quiet [of w s s'] assms(2) by simp
  then show ?thesis
    using assms(3) quiet_hand quiet_owner by blast
next
  case (idle w c)
  then have "quiet s s'"
    using idle_quiet [of w c s s'] assms(2) by simp
  then show ?thesis
    using assms(3) quiet_hand quiet_owner by blast
qed

lemma reachable_hand: "reachable ctl s \<Longrightarrow> hand_ok s"
proof (induction rule: reachable.induct)
  case (init e cfg p n s)
  have "sys_ok ctl s" "mutexes s = Map.empty"
    using init_run [OF init] by simp_all
  then have "ctx (thr s t) \<noteq> K_mutex m" if "t \<in> live s" for t m
    using vp_ok_clauses(4) [of s] that by (auto simp: sys_ok_def mutex_ok_def)
  then show ?case
    by (simp add: hand_ok_def)
next
  case (step s s')
  then show ?case
    using step_hand reachable_sys_ok by blast
qed

section \<open>Mutual exclusion\<close>

lemma lock_resume_result:
  assumes "reachable ctl s" "ctx (thr s (this_thread s)) = K_mutex m" "st_mutex_lock_resume m s = Some (r, s')"
  shows "(r = Inr () \<longleftrightarrow> holder s' m = Some (this_thread s)) \<and> (r \<noteq> Inr () \<longrightarrow> r = Inl EINTR) \<and> holder s' m = holder s m"
proof -
  let ?t = "this_thread s"
  have v: "vp_ok s"
    using reachable_sys_ok [OF assms(1)] by (simp add: sys_ok_def)
  have t: "?t \<in> live s" "state (thr s ?t) = ST_RUNNING"
    using vp_ok_clauses(6) [OF v] running_tok [OF v] by (simp_all add: thread_ok_def tok_def)
  then have "fine s ?t m"
    using reachable_hand [OF assms(1)] assms(2) by (simp add: hand_ok_def)
  then have f: "has_flag (flags (thr s ?t)) FL_INTERRUPT \<or> holder s m = Some ?t"
    using t by (simp add: fine_def)
  obtain l where l: "mutexes s m = Some l"
    using assms(3) by (auto simp: st_mutex_lock_resume_def Let_def split: bind_splits)
  have h: "holder s m = owner l"
    using l by (simp add: holder_def)
  let ?b = "set_mutex m (l\<lparr>m_wait_q := remove1 ?t (m_wait_q l)\<rparr>) (switched_in s)"
  have "holder s' m = owner l"
    using assms(3) l by (auto simp: st_mutex_lock_resume_def Let_def holder_def set_mutex_def clear_fl_def split: if_splits)
  moreover have "r = (if has_flag (flags (thr s ?t)) FL_INTERRUPT \<and> owner l \<noteq> Some ?t then Inl EINTR else Inr ())"
    using assms(3) l by (auto simp: st_mutex_lock_resume_def Let_def split: if_splits)
  ultimately show ?thesis
    using f h by auto
qed

text \<open>
  C4: A thread that waited in \<open>st_mutex_lock\<close> is told the truth: the call returns success exactly when the
  thread is the owner of the mutex then, and otherwise it fails with \<open>EINTR\<close>. Whatever else happened while it
  waited (signals, timeouts, descriptors, other mutexes), only a hand-over or an interrupt ends the wait.
\<close>

theorem lock_success:
  assumes "reachable ctl s" "ctx (thr s (this_thread s)) = K_mutex m"
  shows "\<exists>r s'. st_mutex_lock_resume m s = Some (r, s') \<and>
    (r = Inr () \<longleftrightarrow> holder s' m = Some (this_thread s)) \<and> (r \<noteq> Inr () \<longrightarrow> r = Inl EINTR)"
proof -
  have "vp_ok s"
    using reachable_sys_ok [OF assms(1)] by (simp add: sys_ok_def)
  from mutex_resume_runs [OF this assms(2)] obtain r s' where "st_mutex_lock_resume m s = Some (r, s')"
    by (auto simp: runs_def)
  then show ?thesis
    using lock_resume_result [OF assms] by blast
qed

text \<open>The second thread was handed mutex 5 and goes on.\<close>

definition handed :: st where
  "handed = the (play [Some (C_cond_new (Some 9)), Some (C_create env2 3 0 False 0), Some (C_mutex_new (Some 5)),
     Some (C_mutex_lock 5), Some (C_cond_timedwait 9 NO_TIMEOUT), None, Some (C_cond_signal 9), Some (C_mutex_lock 5), None,
     Some (C_mutex_unlock 5), Some (C_cond_timedwait 9 NO_TIMEOUT)] boot)"

lemma handed_parts:
  "play [Some (C_cond_new (Some 9)), Some (C_create env2 3 0 False 0), Some (C_mutex_new (Some 5)), Some (C_mutex_lock 5),
     Some (C_cond_timedwait 9 NO_TIMEOUT), None, Some (C_cond_signal 9), Some (C_mutex_lock 5), None,
     Some (C_mutex_unlock 5), Some (C_cond_timedwait 9 NO_TIMEOUT)] boot = Some handed"
  "this_thread handed = 1117824" "ctx (thr handed 1117824) = K_mutex 5" "holder handed 5 = Some 1117824"
  "\<not> has_flag (flags (thr handed 1117824)) FL_INTERRUPT"
  unfolding handed_def by (simp_all add: run_simps sync_simps st_mutex_unlock_def holder_def)

lemma lock_success_witness:
  "\<exists>s'. st_mutex_lock_resume 5 handed = Some (Inr (), s') \<and> holder s' 5 = Some 1117824"
proof -
  have k: "ctx (thr handed (this_thread handed)) = K_mutex 5"
    by (simp add: handed_parts)
  obtain r s' where r: "st_mutex_lock_resume 5 handed = Some (r, s')" "r = Inr () \<longleftrightarrow> holder s' 5 = Some 1117824"
    using lock_success [OF play_reachable [OF handed_parts(1) boot_reachable] k] by (auto simp: handed_parts(2))
  then have "r = Inr ()"
    using handed_parts(2,5) by (auto simp: st_mutex_lock_resume_def Let_def split: bind_splits if_splits)
  then show ?thesis
    using r by simp
qed

text \<open>A step in which \<open>t\<close> does not unlock \<open>m\<close>.\<close>

definition keeps :: "ctl_oracle \<Rightarrow> tid \<Rightarrow> mid \<Rightarrow> st \<Rightarrow> st \<Rightarrow> bool" where
  "keeps ctl t m a b \<longleftrightarrow> step ctl a b \<and> \<not> (this_thread a = t \<and> exec (C_mutex_unlock m) a = Some b)"

lemma keeps_owner:
  assumes "(keeps ctl t m)\<^sup>*\<^sup>* s s'" "reachable ctl s" "holder s m = Some t"
  shows "reachable ctl s' \<and> holder s' m = Some t"
  using assms
proof (induction rule: rtranclp_induct)
  case (step a b)
  then have a: "reachable ctl a" "holder a m = Some t" and k: "keeps ctl t m a b"
    by simp_all
  have "step ctl a b"
    using k by (simp add: keeps_def)
  from step_hand [OF this reachable_sys_ok [OF a(1)] reachable_hand [OF a(1)]] show ?case
    using a k reachable.step [OF a(1) \<open>step ctl a b\<close>] unfolding keeps_def by blast
qed simp

text \<open>
  C3: Mutual exclusion. From the moment a thread owns a mutex until it unlocks it itself, in any run of the
  program (calls, switches, interrupts, timeouts, thread exits, rounds of the idle thread), it stays the owner, and
  no other thread gets the mutex: neither a new call of \<open>st_mutex_lock\<close> or \<open>st_mutex_trylock\<close> nor the end of a
  wait begun earlier returns success, and no other thread can unlock or destroy it.
\<close>

theorem mutual_exclusion:
  assumes "reachable ctl s" "holder s m = Some t" "(keeps ctl t m)\<^sup>*\<^sup>* s s'" "this_thread s' \<noteq> t"
  shows "holder s' m = Some t \<and>
    st_mutex_lock m s' \<noteq> Some (Returned (Inr ()), s2) \<and>
    st_mutex_trylock m s' = Some (Inl EBUSY, s') \<and>
    st_mutex_unlock m s' = Some (Inl EPERM, s') \<and>
    st_mutex_destroy m s' = Some (Inl EBUSY, s') \<and>
    \<not> (ctx (thr s' (this_thread s')) = K_mutex m \<and> st_mutex_lock_resume m s' = Some (Inr (), s2))"
proof -
  have r: "reachable ctl s'" and h: "holder s' m = Some t"
    using keeps_owner [OF assms(3,1,2)] by simp_all
  obtain l where l: "mutexes s' m = Some l" "owner l = Some t"
    using h by (auto simp: holder_def split: bind_splits)
  have "\<not> (ctx (thr s' (this_thread s')) = K_mutex m \<and> st_mutex_lock_resume m s' = Some (Inr (), s2))"
    using lock_resume_result [OF r, of m "Inr ()" s2] h assms(4) by auto
  moreover have "st_mutex_lock m s' \<noteq> Some (Returned (Inr ()), s2)"
    using l assms(4) by (auto simp: st_mutex_lock_def check_interrupt_def Let_def split: bind_splits if_splits)
  ultimately show ?thesis
    using l h assms(4) by (simp add: st_mutex_trylock_def st_mutex_unlock_def st_mutex_destroy_def)
qed

text \<open>The first thread took mutex 5 and waits for a condition; the second one runs.\<close>

definition held :: st where
  "held = the (play [Some (C_cond_new (Some 9)), Some (C_create env2 3 0 False 0), Some (C_mutex_new (Some 5)),
     Some (C_mutex_lock 5), Some (C_cond_timedwait 9 NO_TIMEOUT), None] boot)"

lemma held_parts:
  "play [Some (C_cond_new (Some 9)), Some (C_create env2 3 0 False 0), Some (C_mutex_new (Some 5)), Some (C_mutex_lock 5),
     Some (C_cond_timedwait 9 NO_TIMEOUT), None] boot = Some held"
  "this_thread held = 1117824" "ctx (thr held 1117824) = K_run" "holder held 5 = Some 2"
  unfolding held_def by (simp_all add: run_simps sync_simps holder_def)

lemma mutual_exclusion_witness:
  "st_mutex_trylock 5 held = Some (Inl EBUSY, held) \<and> st_mutex_unlock 5 held = Some (Inl EPERM, held)"
  using mutual_exclusion [OF play_reachable [OF held_parts(1) boot_reachable] held_parts(4) rtranclp.rtrancl_refl]
  by (simp add: held_parts(2))

end
