(* ===== verification/ST_Netfd.thy ===== *)
theory ST_Netfd
  imports ST_EventSys
begin

text \<open>
  Descriptor objects (\<open>io.c\<close>): initialisation, the free list of \<open>_st_netfd_t\<close> objects, opening,
  closing and the private data of a descriptor. An object is named by its address; the free list is
  threaded through the \<open>next\<close> members as in the code. The results of system calls and of \<open>calloc\<close>
  are arguments; \<open>None\<close> is a call through the \<open>NULL\<close> event system.
\<close>

type_synonym nfd = nat

record netfd =
  nf_osfd :: int
  nf_inuse :: bool
  nf_private :: ptr
  nf_destructor :: ptr
  nf_aux :: "(nfd \<times> nfd) option"
  nf_next :: "nfd option"

record fdtab =
  nf_of :: "nfd \<Rightarrow> netfd"
  netfd_freelist :: "nfd option"
  osfd_limit :: int
  nf_calls :: "(ptr \<times> ptr) list" \<comment> \<open>destructors called\<close>
  closed :: "int list" \<comment> \<open>the \<open>close\<close> calls made\<close>

definition upd_nf :: "nfd \<Rightarrow> (netfd \<Rightarrow> netfd) \<Rightarrow> fdtab \<Rightarrow> fdtab" where
  "upd_nf f g n = n\<lparr>nf_of := (nf_of n)(f := g (nf_of n f))\<rparr>"

section \<open>Initialisation\<close>

text \<open>
  \<open>rlim\<close> is what \<open>getrlimit\<close> says of the hard limit; the limit kept is that number cut down to an
  \<open>int\<close>.
\<close>

definition st_io_init :: "bool \<Rightarrow> 64 word option \<Rightarrow> bool \<Rightarrow> st \<Rightarrow> fdtab \<Rightarrow> (bool \<times> fdtab) option" where
  "st_io_init sigaction_ok rlim setrlimit_ok s n =
     (if \<not> sigaction_ok then Some (False, n)
      else case rlim of
        None \<Rightarrow> Some (False, n)
      | Some hard \<Rightarrow>
          do {
            fdlim \<leftarrow> ev_fd_getlimit s;
            let lim = (if fdlim > 0 \<and> hard > word_of_int fdlim then word_of_int fdlim else hard);
            (if \<not> setrlimit_ok then Some (False, n)
             else Some (True, n\<lparr>osfd_limit := sint (ucast lim :: 32 word)\<rparr>))
          })"

definition st_getfdlimit :: "fdtab \<Rightarrow> int" where
  "st_getfdlimit n = osfd_limit n"

section \<open>Freeing and closing\<close>

text \<open>
  \<open>st_netfd_free\<close>, \<open>_st_netfd_free_aux_data\<close> and \<open>st_netfd_close\<close> call each other; the first is
  written with the other two in place.
\<close>

partial_function (option) st_netfd_free :: "st \<Rightarrow> nfd \<Rightarrow> fdtab \<Rightarrow> fdtab option" where
  "st_netfd_free s f n =
     (if \<not> nf_inuse (nf_of n f) then Some n
      else
        let n1 = upd_nf f (\<lambda>x. x\<lparr>nf_inuse := False\<rparr>) n in
        Option.bind
          (case nf_aux (nf_of n1 f) of
             None \<Rightarrow> Some n1
           | Some (p, q) \<Rightarrow>
              Option.bind
                (Option.bind (ev_fd_close (nf_osfd (nf_of n1 p)) s) (\<lambda>r.
                   case r of
                     Inl e \<Rightarrow> Some n1
                   | Inr u \<Rightarrow> Option.bind (st_netfd_free s p n1) (\<lambda>m.
                       Some (m\<lparr>closed := closed m @ [nf_osfd (nf_of m p)]\<rparr>)))) (\<lambda>n2.
              Option.bind
                (Option.bind (ev_fd_close (nf_osfd (nf_of n2 q)) s) (\<lambda>r.
                   case r of
                     Inl e \<Rightarrow> Some n2
                   | Inr u \<Rightarrow> Option.bind (st_netfd_free s q n2) (\<lambda>m.
                       Some (m\<lparr>closed := closed m @ [nf_osfd (nf_of m q)]\<rparr>)))) (\<lambda>n3.
              Some (upd_nf f (\<lambda>x. x\<lparr>nf_aux := None\<rparr>) n3)))) (\<lambda>n4.
        let x = nf_of n4 f;
            n5 = (if nf_private x \<noteq> NULLP \<and> nf_destructor x \<noteq> NULLP
                  then n4\<lparr>nf_calls := nf_calls n4 @ [(nf_destructor x, nf_private x)]\<rparr> else n4)
        in Some ((upd_nf f (\<lambda>x. x\<lparr>nf_private := NULLP, nf_destructor := NULLP,
                     nf_next := netfd_freelist n5\<rparr>) n5)\<lparr>netfd_freelist := Some f\<rparr>)))"

definition st_netfd_close ::
    "(errno + unit) \<Rightarrow> st \<Rightarrow> nfd \<Rightarrow> fdtab \<Rightarrow> ((errno + unit) \<times> fdtab) option" where
  "st_netfd_close close_result s f n =
     do {
       r \<leftarrow> ev_fd_close (nf_osfd (nf_of n f)) s;
       (case r of
          Inl e \<Rightarrow> Some (Inl e, n)
        | Inr _ \<Rightarrow>
           do {
             m \<leftarrow> st_netfd_free s f n;
             Some (close_result, m\<lparr>closed := closed m @ [nf_osfd (nf_of m f)]\<rparr>)
           })
     }"

definition st_netfd_free_aux_data :: "st \<Rightarrow> nfd \<Rightarrow> fdtab \<Rightarrow> fdtab option" where
  "st_netfd_free_aux_data s f n =
     (case nf_aux (nf_of n f) of
        None \<Rightarrow> None
      | Some (p, q) \<Rightarrow>
         do {
           (_, n2) \<leftarrow> st_netfd_close (Inr ()) s p n;
           (_, n3) \<leftarrow> st_netfd_close (Inr ()) s q n2;
           Some (upd_nf f (\<lambda>x. x\<lparr>nf_aux := None\<rparr>) n3)
         })"

section \<open>Opening\<close>

record open_env =
  oe_object :: "nfd option" \<comment> \<open>\<open>calloc\<close>\<close>
  oe_fionbio :: bool
  oe_fcntl :: bool

definition blank_netfd :: netfd where
  "blank_netfd = \<lparr>nf_osfd = 0, nf_inuse = False, nf_private = NULLP, nf_destructor = NULLP,
     nf_aux = None, nf_next = None\<rparr>"

definition take_netfd :: "nfd option \<Rightarrow> fdtab \<Rightarrow> (nfd \<times> fdtab) option" where
  "take_netfd object n =
     (case netfd_freelist n of
        Some f \<Rightarrow> Some (f, n\<lparr>netfd_freelist := nf_next (nf_of n f)\<rparr>)
      | None \<Rightarrow> (case object of
                   None \<Rightarrow> None
                 | Some f \<Rightarrow> Some (f, upd_nf f (\<lambda>_. blank_netfd) n)))"

definition st_netfd_new ::
    "world \<Rightarrow> open_env \<Rightarrow> int \<Rightarrow> bool \<Rightarrow> bool \<Rightarrow> st \<times> fdtab \<Rightarrow> (nfd option \<times> st \<times> fdtab) option" where
  "st_netfd_new w e osfd nonblock is_socket = (\<lambda>(s, n).
     do {
       (r, s1) \<leftarrow> ev_fd_new w osfd s;
       (case r of
          Inl _ \<Rightarrow> Some (None, s1, n)
        | Inr _ \<Rightarrow>
           (case take_netfd (oe_object e) n of
              None \<Rightarrow> Some (None, s1, n)
            | Some (f, n1) \<Rightarrow>
               let n2 = upd_nf f (\<lambda>x. x\<lparr>nf_osfd := osfd, nf_inuse := True, nf_next := None\<rparr>) n1 in
               if nonblock \<and> \<not> (is_socket \<and> oe_fionbio e) \<and> \<not> oe_fcntl e
               then do { n3 \<leftarrow> st_netfd_free s1 f n2; Some (None, s1, n3) }
               else Some (Some f, s1, n2)))
     })"

definition st_netfd_open :: "world \<Rightarrow> open_env \<Rightarrow> int \<Rightarrow> st \<times> fdtab \<Rightarrow> (nfd option \<times> st \<times> fdtab) option" where
  "st_netfd_open w e osfd = st_netfd_new w e osfd True False"

definition st_netfd_open_socket ::
    "world \<Rightarrow> open_env \<Rightarrow> int \<Rightarrow> st \<times> fdtab \<Rightarrow> (nfd option \<times> st \<times> fdtab) option" where
  "st_netfd_open_socket w e osfd = st_netfd_new w e osfd True True"

section \<open>Members\<close>

definition st_netfd_fileno :: "nfd \<Rightarrow> fdtab \<Rightarrow> int" where
  "st_netfd_fileno f n = nf_osfd (nf_of n f)"

definition st_netfd_setspecific :: "nfd \<Rightarrow> ptr \<Rightarrow> ptr \<Rightarrow> fdtab \<Rightarrow> fdtab" where
  "st_netfd_setspecific f val d n =
     (let x = nf_of n f;
          n1 = (if val \<noteq> nf_private x \<and> nf_private x \<noteq> NULLP \<and> nf_destructor x \<noteq> NULLP
                then n\<lparr>nf_calls := nf_calls n @ [(nf_destructor x, nf_private x)]\<rparr> else n)
      in upd_nf f (\<lambda>x. x\<lparr>nf_private := val, nf_destructor := d\<rparr>) n1)"

definition st_netfd_getspecific :: "nfd \<Rightarrow> fdtab \<Rightarrow> ptr" where
  "st_netfd_getspecific f n = nf_private (nf_of n f)"

section \<open>Serialised accept\<close>

text \<open>
  \<open>st_netfd_serialize_accept\<close> in the builds that need it: a pipe with one byte in it is the
  semaphore. Its two ends become the auxiliary data. In the other builds it only clears the data.
\<close>

record pipe_env =
  pe_calloc :: bool
  pe_pipe :: "(int \<times> int) option"
  pe_open0 :: open_env
  pe_open1 :: open_env
  pe_write :: bool

definition opt_free :: "st \<Rightarrow> nfd option \<Rightarrow> fdtab \<Rightarrow> fdtab option" where
  "opt_free s p n = (case p of None \<Rightarrow> Some n | Some f \<Rightarrow> st_netfd_free s f n)"

definition st_netfd_serialize_accept ::
    "world \<Rightarrow> pipe_env \<Rightarrow> nfd \<Rightarrow> st \<times> fdtab \<Rightarrow> ((errno + unit) \<times> st \<times> fdtab) option" where
  "st_netfd_serialize_accept w e f = (\<lambda>(s, n).
     if nf_aux (nf_of n f) \<noteq> None then Some (Inl EINVAL, s, n)
     else if \<not> pe_calloc e then Some (Inl ENOMEM, s, n)
     else case pe_pipe e of
       None \<Rightarrow> Some (Inl EMFILE, s, n)
     | Some (o0, o1) \<Rightarrow>
        do {
          (p0, s1, n1) \<leftarrow> st_netfd_open w (pe_open0 e) o0 (s, n);
          (p1, s2, n2) \<leftarrow> (if p0 = None then Some (None, s1, n1)
                          else st_netfd_open w (pe_open1 e) o1 (s1, n1));
          (if p0 \<noteq> None \<and> p1 \<noteq> None \<and> pe_write e
           then Some (Inr (), s2, upd_nf f (\<lambda>x. x\<lparr>nf_aux := Some (the p0, the p1)\<rparr>) n2)
           else do {
             n3 \<leftarrow> opt_free s2 p0 n2;
             n4 \<leftarrow> opt_free s2 p1 n3;
             Some (Inl (EOTHER 0), s2, n4\<lparr>closed := closed n4 @ [o0, o1]\<rparr>)
           })
        })"

definition serialize_accept_noop :: "nfd \<Rightarrow> fdtab \<Rightarrow> (errno + unit) \<times> fdtab" where
  "serialize_accept_noop f n = (Inr (), upd_nf f (\<lambda>x. x\<lparr>nf_aux := None\<rparr>) n)"

section \<open>The free list\<close>

text \<open>The list threaded through \<open>next\<close> from an object on.\<close>

fun fl_chain :: "fdtab \<Rightarrow> nfd option \<Rightarrow> nfd list \<Rightarrow> bool" where
  "fl_chain n p [] \<longleftrightarrow> p = None"
| "fl_chain n p (f # fs) \<longleftrightarrow> p = Some f \<and> fl_chain n (nf_next (nf_of n f)) fs"

text \<open>
  The free list is \<open>fs\<close>: no object is on it twice, and an object on it is out of use, with nothing
  left of its last owner.
\<close>

definition free_netfds :: "fdtab \<Rightarrow> nfd list \<Rightarrow> bool" where
  "free_netfds n fs \<longleftrightarrow> fl_chain n (netfd_freelist n) fs \<and> distinct fs \<and>
     (\<forall>f \<in> set fs. \<not> nf_inuse (nf_of n f) \<and> nf_private (nf_of n f) = NULLP \<and>
        nf_destructor (nf_of n f) = NULLP \<and> nf_aux (nf_of n f) = None)"

lemma upd_nf_parts [simp]:
  "nf_of (upd_nf f g n) = (nf_of n)(f := g (nf_of n f))" "netfd_freelist (upd_nf f g n) = netfd_freelist n"
  "osfd_limit (upd_nf f g n) = osfd_limit n" "nf_calls (upd_nf f g n) = nf_calls n"
  "closed (upd_nf f g n) = closed n"
  by (simp_all add: upd_nf_def)

lemma fl_chain_cong:
  "(\<And>f. f \<in> set fs \<Longrightarrow> nf_next (nf_of n' f) = nf_next (nf_of n f)) \<Longrightarrow> fl_chain n' p fs \<longleftrightarrow> fl_chain n p fs"
  by (induction fs arbitrary: p) auto

text \<open>Changing an object that is not on the list does not change the list.\<close>

lemma free_netfds_frame:
  assumes "free_netfds n fs" and "netfd_freelist n' = netfd_freelist n"
    and "\<And>f. f \<in> set fs \<Longrightarrow> nf_of n' f = nf_of n f"
  shows "free_netfds n' fs"
  using assms fl_chain_cong [of fs n' n] by (simp add: free_netfds_def)

text \<open>The state after a descriptor without auxiliary data has been freed.\<close>

definition freed :: "nfd \<Rightarrow> fdtab \<Rightarrow> fdtab" where
  "freed f n =
     (let x = nf_of n f;
          n1 = (if nf_private x \<noteq> NULLP \<and> nf_destructor x \<noteq> NULLP
                then n\<lparr>nf_calls := nf_calls n @ [(nf_destructor x, nf_private x)]\<rparr> else n)
      in (upd_nf f (\<lambda>x. x\<lparr>nf_inuse := False, nf_private := NULLP, nf_destructor := NULLP,
             nf_next := netfd_freelist n\<rparr>) n1)\<lparr>netfd_freelist := Some f\<rparr>)"

lemma free_plain:
  assumes "nf_inuse (nf_of n f)" "nf_aux (nf_of n f) = None"
  shows "st_netfd_free s f n = Some (freed f n)"
  using assms by (subst st_netfd_free.simps) (simp add: freed_def upd_nf_def Let_def)

lemma free_unused: "\<not> nf_inuse (nf_of n f) \<Longrightarrow> st_netfd_free s f n = Some n"
  by (subst st_netfd_free.simps) simp

lemma freed_list:
  assumes F: "free_netfds n fs" and f: "nf_inuse (nf_of n f)" "nf_aux (nf_of n f) = None"
  shows "free_netfds (freed f n) (f # fs)" "f \<notin> set fs"
proof -
  show nf: "f \<notin> set fs" using F f(1) by (auto simp: free_netfds_def)
  have "fl_chain (freed f n) p fs \<longleftrightarrow> fl_chain n p fs" for p
    by (rule fl_chain_cong) (use nf in \<open>auto simp: freed_def Let_def\<close>)
  then show "free_netfds (freed f n) (f # fs)"
    using F f nf by (auto simp: free_netfds_def freed_def Let_def)
qed

section \<open>Properties\<close>

text \<open>
  \<open>st_netfd_free\<close> puts an open descriptor at the head of the free list, calls its destructor once,
  if it has private data and a destructor, leaves the other objects alone, and does nothing when it
  is called again for the same descriptor.
\<close>

theorem netfd_free_correct:
  assumes F: "free_netfds n fs" and f: "nf_inuse (nf_of n f)" "nf_aux (nf_of n f) = None"
  shows "\<exists>n'. st_netfd_free s f n = Some n' \<and> free_netfds n' (f # fs) \<and>
    nf_calls n' = nf_calls n @
      (if nf_private (nf_of n f) \<noteq> NULLP \<and> nf_destructor (nf_of n f) \<noteq> NULLP
       then [(nf_destructor (nf_of n f), nf_private (nf_of n f))] else []) \<and>
    (\<forall>g. g \<noteq> f \<longrightarrow> nf_of n' g = nf_of n g) \<and> closed n' = closed n \<and> st_netfd_free s f n' = Some n'"
proof (intro exI conjI allI impI)
  show "st_netfd_free s f n = Some (freed f n)" by (rule free_plain [OF f])
  show "free_netfds (freed f n) (f # fs)" by (rule freed_list [OF F f])
  show "st_netfd_free s f (freed f n) = Some (freed f n)"
    by (rule free_unused) (simp add: freed_def Let_def)
qed (simp_all add: freed_def Let_def)

definition demo_fdtab :: fdtab where
  "demo_fdtab = \<lparr>nf_of = (\<lambda>_. blank_netfd)(3 := blank_netfd\<lparr>nf_osfd := 6, nf_inuse := True, nf_private := 40,
     nf_destructor := 41\<rparr>), netfd_freelist = Some 1, osfd_limit = 64, nf_calls = [], closed = []\<rparr>"

lemma netfd_free_correct_witness:
  "\<exists>n'. st_netfd_free static_st 3 demo_fdtab = Some n' \<and> free_netfds n' [3, 1] \<and> nf_calls n' = [(41, 40)]"
proof -
  have "free_netfds demo_fdtab [1]" "nf_inuse (nf_of demo_fdtab 3)" "nf_aux (nf_of demo_fdtab 3) = None"
    by (simp_all add: free_netfds_def demo_fdtab_def blank_netfd_def)
  from netfd_free_correct [OF this, of static_st] show ?thesis
    by (auto simp: demo_fdtab_def NULLP_def)
qed

text \<open>
  Opening a descriptor takes the object freed last, and gives it to its new owner with the private
  data, destructor and auxiliary data cleared; the rest of the free list stays.
\<close>

theorem netfd_reuse:
  assumes F: "free_netfds n (f # fs)" and new: "ev_fd_new w osfd s = Some (Inr (), s1)"
    and nb: "nonblock \<Longrightarrow> is_socket \<and> oe_fionbio e \<or> oe_fcntl e"
  shows "\<exists>n'. st_netfd_new w e osfd nonblock is_socket (s, n) = Some (Some f, s1, n') \<and> free_netfds n' fs \<and>
    nf_of n' = (nf_of n)(f := \<lparr>nf_osfd = osfd, nf_inuse = True, nf_private = NULLP, nf_destructor = NULLP,
                              nf_aux = None, nf_next = None\<rparr>)"
proof -
  have hd: "netfd_freelist n = Some f" and clean: "nf_private (nf_of n f) = NULLP"
    "nf_destructor (nf_of n f) = NULLP" "nf_aux (nf_of n f) = None" and nf: "f \<notin> set fs"
    using F by (auto simp: free_netfds_def)
  let ?n1 = "n\<lparr>netfd_freelist := nf_next (nf_of n f)\<rparr>"
  let ?n2 = "upd_nf f (\<lambda>x. x\<lparr>nf_osfd := osfd, nf_inuse := True, nf_next := None\<rparr>) ?n1"
  have tk: "take_netfd (oe_object e) n = Some (f, ?n1)" by (simp add: take_netfd_def hd)
  have run: "st_netfd_new w e osfd nonblock is_socket (s, n) = Some (Some f, s1, ?n2)"
    using nb by (auto simp: st_netfd_new_def new tk Let_def)
  have "fl_chain ?n1 p xs \<longleftrightarrow> fl_chain n p xs" for p xs by (rule fl_chain_cong) simp
  then have "free_netfds ?n1 fs" using F by (simp add: free_netfds_def)
  then have "free_netfds ?n2 fs" by (rule free_netfds_frame) (use nf in auto)
  moreover have "nf_of ?n2 = (nf_of n)(f := \<lparr>nf_osfd = osfd, nf_inuse = True, nf_private = NULLP,
      nf_destructor = NULLP, nf_aux = None, nf_next = None\<rparr>)"
    using clean by (auto simp: fun_eq_iff intro: netfd.equality)
  ultimately show ?thesis using run by blast
qed

lemma netfd_reuse_witness:
  "\<forall>w. \<exists>n'. st_netfd_new w \<lparr>oe_object = None, oe_fionbio = True, oe_fcntl = False\<rparr> 9 True True
     (static_st\<lparr>evsys := Some POLL\<rparr>, demo_fdtab) = Some (Some 1, static_st\<lparr>evsys := Some POLL\<rparr>, n') \<and>
     free_netfds n' [] \<and> nf_osfd (nf_of n' 1) = 9"
proof -
  have F: "free_netfds demo_fdtab [1]" by (simp add: free_netfds_def demo_fdtab_def blank_netfd_def)
  have new: "ev_fd_new w 9 (static_st\<lparr>evsys := Some POLL\<rparr>) = Some (Inr (), static_st\<lparr>evsys := Some POLL\<rparr>)" for w
    by (simp add: ev_fd_new_def st_poll_fd_new_def)
  show ?thesis
  proof
    fix w
    obtain n' where "st_netfd_new w \<lparr>oe_object = None, oe_fionbio = True, oe_fcntl = False\<rparr> 9 True True
      (static_st\<lparr>evsys := Some POLL\<rparr>, demo_fdtab) = Some (Some 1, static_st\<lparr>evsys := Some POLL\<rparr>, n')"
      "free_netfds n' []" "nf_osfd (nf_of n' 1) = 9"
      using netfd_reuse [OF F new [of w], of True True "\<lparr>oe_object = None, oe_fionbio = True, oe_fcntl = False\<rparr>"]
      by auto
    then show "\<exists>n'. st_netfd_new w \<lparr>oe_object = None, oe_fionbio = True, oe_fcntl = False\<rparr> 9 True True
      (static_st\<lparr>evsys := Some POLL\<rparr>, demo_fdtab) = Some (Some 1, static_st\<lparr>evsys := Some POLL\<rparr>, n') \<and>
      free_netfds n' [] \<and> nf_osfd (nf_of n' 1) = 9" by blast
  qed
qed

text \<open>
  A descriptor that cannot be made non-blocking is not opened, and its object is not lost: it is
  at the head of the free list again.
\<close>

theorem netfd_open_failure:
  assumes F: "free_netfds n fs" and new: "ev_fd_new w osfd s = Some (Inr (), s1)"
    and e: "\<not> oe_fcntl e" "\<not> (is_socket \<and> oe_fionbio e)" "oe_object e = Some g" "g \<notin> set fs"
  shows "\<exists>n'. st_netfd_new w e osfd True is_socket (s, n) = Some (None, s1, n') \<and>
    free_netfds n' (if fs = [] then [g] else fs) \<and> nf_calls n' = nf_calls n"
proof -
  obtain f n1 where tk: "take_netfd (oe_object e) n = Some (f, n1)" and F1: "free_netfds n1 (tl fs)"
    and f: "f \<notin> set (tl fs)" "nf_private (nf_of n1 f) = NULLP" "nf_destructor (nf_of n1 f) = NULLP"
      "nf_aux (nf_of n1 f) = None" and ls: "f # tl fs = (if fs = [] then [g] else fs)" and c: "nf_calls n1 = nf_calls n"
  proof (cases fs)
    case Nil
    then have "take_netfd (oe_object e) n = Some (g, upd_nf g (\<lambda>_. blank_netfd) n)"
      using F by (simp add: take_netfd_def free_netfds_def e)
    then show ?thesis
      by (rule that) (use Nil F in \<open>auto simp: free_netfds_def blank_netfd_def\<close>)
  next
    case (Cons h hs)
    let ?m = "n\<lparr>netfd_freelist := nf_next (nf_of n h)\<rparr>"
    have "fl_chain ?m p xs \<longleftrightarrow> fl_chain n p xs" for p xs by (rule fl_chain_cong) simp
    moreover have "take_netfd (oe_object e) n = Some (h, ?m)"
      using F Cons by (simp add: take_netfd_def free_netfds_def)
    ultimately show ?thesis
      by (intro that [of h ?m]) (use Cons F in \<open>auto simp: free_netfds_def\<close>)
  qed
  let ?n2 = "upd_nf f (\<lambda>x. x\<lparr>nf_osfd := osfd, nf_inuse := True, nf_next := None\<rparr>) n1"
  have F2: "free_netfds ?n2 (tl fs)" by (rule free_netfds_frame [OF F1]) (use f in auto)
  have u: "nf_inuse (nf_of ?n2 f)" "nf_aux (nf_of ?n2 f) = None" using f by simp_all
  have "st_netfd_new w e osfd True is_socket (s, n) = Some (None, s1, freed f ?n2)"
    using free_plain [OF u, of s1] e(1,2) tk [unfolded e(3)] by (auto simp: st_netfd_new_def new e(3) Let_def)
  moreover have "free_netfds (freed f ?n2) (if fs = [] then [g] else fs)"
    using freed_list(1) [OF F2 u] ls by simp
  moreover have "nf_calls (freed f ?n2) = nf_calls n" using f c by (simp add: freed_def Let_def)
  ultimately show ?thesis by blast
qed

lemma netfd_open_failure_witness:
  "\<forall>w. \<exists>n'. st_netfd_new w \<lparr>oe_object = Some 8, oe_fionbio = False, oe_fcntl = False\<rparr> 9 True True
     (static_st\<lparr>evsys := Some POLL\<rparr>, demo_fdtab) = Some (None, static_st\<lparr>evsys := Some POLL\<rparr>, n') \<and>
     free_netfds n' [1]"
proof -
  have F: "free_netfds demo_fdtab [1]" by (simp add: free_netfds_def demo_fdtab_def blank_netfd_def)
  have new: "ev_fd_new w 9 (static_st\<lparr>evsys := Some POLL\<rparr>) = Some (Inr (), static_st\<lparr>evsys := Some POLL\<rparr>)" for w
    by (simp add: ev_fd_new_def st_poll_fd_new_def)
  from netfd_open_failure [OF F new, of "\<lparr>oe_object = Some 8, oe_fionbio = False, oe_fcntl = False\<rparr>" True 8]
  show ?thesis by (simp, blast)
qed

text \<open>The last part of \<open>st_netfd_free\<close>, after the auxiliary data.\<close>

lemma freed_again:
  assumes "\<not> nf_inuse (nf_of m f)"
  shows "freed f (upd_nf f (\<lambda>x. x\<lparr>nf_inuse := True\<rparr>) m) =
    (let x = nf_of m f;
         n5 = (if nf_private x \<noteq> NULLP \<and> nf_destructor x \<noteq> NULLP
               then m\<lparr>nf_calls := nf_calls m @ [(nf_destructor x, nf_private x)]\<rparr> else m)
     in (upd_nf f (\<lambda>x. x\<lparr>nf_private := NULLP, nf_destructor := NULLP, nf_next := netfd_freelist n5\<rparr>) n5)
          \<lparr>netfd_freelist := Some f\<rparr>)"
  using assms by (intro fdtab.equality) (auto simp: freed_def Let_def fun_eq_iff intro: netfd.equality)

lemma close_inlined:
  "map_option snd (st_netfd_close (Inr ()) s p n1) =
     Option.bind (ev_fd_close (nf_osfd (nf_of n1 p)) s) (\<lambda>r.
       case r of
         Inl e \<Rightarrow> Some n1
       | Inr u \<Rightarrow> Option.bind (st_netfd_free s p n1) (\<lambda>m.
           Some (m\<lparr>closed := closed m @ [nf_osfd (nf_of m p)]\<rparr>)))"
  by (cases "ev_fd_close (nf_osfd (nf_of n1 p)) s"; cases "st_netfd_free s p n1")
    (simp_all add: st_netfd_close_def split: sum.split)

lemma free_aux_run:
  assumes "nf_inuse (nf_of n f)" "nf_aux (nf_of n f) = Some (p, q)" "f \<noteq> p" "f \<noteq> q"
    and "n1 = upd_nf f (\<lambda>x. x\<lparr>nf_inuse := False\<rparr>) n"
    and P: "st_netfd_close (Inr ()) s p n1 = Some (r, n2)" and Q: "st_netfd_close (Inr ()) s q n2 = Some (r', n3)"
    and i: "\<not> nf_inuse (nf_of n3 f)"
  shows "st_netfd_free s f n =
    Some (freed f (upd_nf f (\<lambda>x. x\<lparr>nf_inuse := True\<rparr>) (upd_nf f (\<lambda>x. x\<lparr>nf_aux := None\<rparr>) n3)))"
proof -
  let ?m = "upd_nf f (\<lambda>x. x\<lparr>nf_aux := None\<rparr>) n3"
  have fin: "\<not> nf_inuse (nf_of ?m f)" using i by simp
  have aux: "nf_aux (nf_of (upd_nf f (\<lambda>x. x\<lparr>nf_inuse := False\<rparr>) n) f) = Some (p, q)" using assms(2) by simp
  show ?thesis
    unfolding freed_again [OF fin]
    by (subst st_netfd_free.simps)
      (simp only: assms(1,5) not_True_eq_False if_False Let_def close_inlined [symmetric] P [unfolded assms(5)] Q
        aux option.case prod.case option.map snd_conv bind.simps)
qed

text \<open>
  Closing a descriptor whose accepts are serialised also closes both ends of the pipe and puts
  all three objects on the free list, and forgets the auxiliary data.
\<close>

theorem netfd_close_serialized:
  assumes F: "free_netfds n fs"
    and u: "nf_inuse (nf_of n f)" "nf_inuse (nf_of n p)" "nf_inuse (nf_of n q)"
    and a: "nf_aux (nf_of n f) = Some (p, q)" "nf_aux (nf_of n p) = None" "nf_aux (nf_of n q) = None"
    and d: "p \<noteq> q"
    and c: "\<And>fd. fd \<in> {nf_osfd (nf_of n f), nf_osfd (nf_of n p), nf_osfd (nf_of n q)} \<Longrightarrow>
              ev_fd_close fd s = Some (Inr ())"
  shows "\<exists>n'. st_netfd_close (Inr ()) s f n = Some (Inr (), n') \<and> free_netfds n' (f # q # p # fs) \<and>
    closed n' = closed n @ [nf_osfd (nf_of n p), nf_osfd (nf_of n q), nf_osfd (nf_of n f)] \<and>
    nf_aux (nf_of n' f) = None"
proof -
  have df: "f \<noteq> p" "f \<noteq> q" using a by auto
  let ?close = "\<lambda>g m. (freed g m)\<lparr>closed := closed m @ [nf_osfd (nf_of m g)]\<rparr>"
  let ?n1 = "upd_nf f (\<lambda>x. x\<lparr>nf_inuse := False\<rparr>) n"
  let ?n2 = "?close p ?n1" let ?n3 = "?close q ?n2"
  let ?n4 = "upd_nf f (\<lambda>x. x\<lparr>nf_inuse := True\<rparr>) (upd_nf f (\<lambda>x. x\<lparr>nf_aux := None\<rparr>) ?n3)"
  have cl: "closed (freed g m) = closed m" "nf_osfd (nf_of (freed g m) h) = nf_osfd (nf_of m h)"
    "nf_aux (nf_of (freed g m) h) = nf_aux (nf_of m h)"
    "h \<noteq> g \<Longrightarrow> nf_of (freed g m) h = nf_of m h" for g h m by (simp_all add: freed_def Let_def)
  have run: "st_netfd_close (Inr ()) s g m = Some (Inr (), ?close g m)"
    if "nf_inuse (nf_of m g)" "nf_aux (nf_of m g) = None" "ev_fd_close (nf_osfd (nf_of m g)) s = Some (Inr ())" for g m
    using that free_plain [OF that(1,2), of s] by (simp add: st_netfd_close_def cl)
  have F1: "free_netfds ?n1 fs" by (rule free_netfds_frame [OF F]) (use F u in \<open>auto simp: free_netfds_def\<close>)
  have P: "nf_inuse (nf_of ?n1 p)" "nf_aux (nf_of ?n1 p) = None" using u a df by simp_all
  have F2: "free_netfds ?n2 (p # fs)"
    by (rule free_netfds_frame [OF freed_list(1) [OF F1 P]]) simp_all
  have Q: "nf_inuse (nf_of ?n2 q)" "nf_aux (nf_of ?n2 q) = None" using u a df d by (simp_all add: cl)
  have F3: "free_netfds ?n3 (q # p # fs)"
    by (rule free_netfds_frame [OF freed_list(1) [OF F2 Q]]) simp_all
  have nf: "f \<notin> set fs" using F u(1) by (auto simp: free_netfds_def)
  have F4: "free_netfds ?n4 (q # p # fs)"
    by (rule free_netfds_frame [OF F3]) (use df nf in auto)
  have R: "nf_inuse (nf_of ?n4 f)" "nf_aux (nf_of ?n4 f) = None" by simp_all
  have c1: "st_netfd_close (Inr ()) s p ?n1 = Some (Inr (), ?n2)"
    by (rule run [OF P]) (use c df in simp)
  have c2: "st_netfd_close (Inr ()) s q ?n2 = Some (Inr (), ?n3)"
    by (rule run [OF Q]) (use c df d in \<open>simp add: cl\<close>)
  have fr: "st_netfd_free s f n = Some (freed f ?n4)"
    by (rule free_aux_run [OF u(1) a(1) df refl c1 c2]) (use df in \<open>simp add: cl\<close>)
  have "st_netfd_close (Inr ()) s f n = Some (Inr (), (freed f ?n4)\<lparr>closed := closed (freed f ?n4) @ [nf_osfd (nf_of n f)]\<rparr>)"
    using fr c df by (simp add: st_netfd_close_def cl)
  moreover have "free_netfds ((freed f ?n4)\<lparr>closed := x\<rparr>) (f # q # p # fs)" for x
    by (rule free_netfds_frame [OF freed_list(1) [OF F4 R]]) simp_all
  ultimately show ?thesis using df d by (simp add: cl)
qed

lemma netfd_close_serialized_witness:
  "\<exists>n'. st_netfd_close (Inr ()) (static_st\<lparr>evsys := Some POLL\<rparr>) 3
      (demo_fdtab\<lparr>nf_of := (nf_of demo_fdtab)
         (3 := blank_netfd\<lparr>nf_osfd := 6, nf_inuse := True, nf_aux := Some (4, 5)\<rparr>,
          4 := blank_netfd\<lparr>nf_osfd := 7, nf_inuse := True\<rparr>, 5 := blank_netfd\<lparr>nf_osfd := 8, nf_inuse := True\<rparr>)\<rparr>) =
     Some (Inr (), n') \<and> free_netfds n' [3, 5, 4, 1] \<and> closed n' = [7, 8, 6]"
proof -
  let ?n = "demo_fdtab\<lparr>nf_of := (nf_of demo_fdtab)
         (3 := blank_netfd\<lparr>nf_osfd := 6, nf_inuse := True, nf_aux := Some (4, 5)\<rparr>,
          4 := blank_netfd\<lparr>nf_osfd := 7, nf_inuse := True\<rparr>, 5 := blank_netfd\<lparr>nf_osfd := 8, nf_inuse := True\<rparr>)\<rparr>"
  have F: "free_netfds ?n [1]" by (simp add: free_netfds_def demo_fdtab_def blank_netfd_def)
  have "ev_fd_close fd (static_st\<lparr>evsys := Some POLL\<rparr>) = Some (Inr ())" for fd
    by (simp add: ev_fd_close_def st_poll_fd_close_def)
  then obtain n' where "st_netfd_close (Inr ()) (static_st\<lparr>evsys := Some POLL\<rparr>) 3 ?n = Some (Inr (), n')"
    "free_netfds n' [3, 5, 4, 1]" "closed n' = [7, 8, 6]"
    using netfd_close_serialized [OF F, of 3 4 5 "static_st\<lparr>evsys := Some POLL\<rparr>"]
    by (auto simp: demo_fdtab_def blank_netfd_def)
  then show ?thesis by blast
qed

end
