(* ===== verification/ST_Io.thy ===== *)
theory ST_Io
  imports ST_Netfd ST_Vp "HOL-Library.Monad_Syntax"
begin

text \<open>
  Input and output (\<open>io.c\<close>). The calls of \<open>io.c\<close> are loops around one system call: it is made again
  when it was interrupted, after a wait in \<open>st_poll\<close> when the descriptor is not ready. The answers of
  the operating system and of \<open>st_poll\<close> come from a script that the calls use up; a script that ends,
  or an answer no system call can give (more bytes than were asked for), makes the result \<open>None\<close>.
  Memory is a map from addresses to bytes. For the statements, the bytes taken from and handed to
  each descriptor and the waits made are kept.
\<close>

type_synonym byte = "8 word"

datatype io_event =
    Failed errno
  | Bytes "byte list"
  | Moved nat
  | SoError "errno option"
  | Polled "errno + int \<times> eventw" \<comment> \<open>the result of \<open>st_poll\<close> and the \<open>revents\<close> it set\<close>

record io =
  mem :: "nat \<Rightarrow> byte"
  io_script :: "io_event list"
  io_in :: "int \<Rightarrow> byte list"
  io_out :: "int \<Rightarrow> byte list"
  io_polls :: "(int \<times> eventw \<times> utime) list"

record iovec =
  iov_base :: nat
  iov_len :: nat

section \<open>Memory\<close>

definition bytes_at :: "(nat \<Rightarrow> byte) \<Rightarrow> nat \<Rightarrow> nat \<Rightarrow> byte list" where
  "bytes_at m a n = map (\<lambda>i. m (a + i)) [0..<n]"

definition store :: "byte list \<Rightarrow> nat \<Rightarrow> (nat \<Rightarrow> byte) \<Rightarrow> nat \<Rightarrow> byte" where
  "store bs a m = (\<lambda>x. if a \<le> x \<and> x < a + length bs then bs ! (x - a) else m x)"

definition gather :: "(nat \<Rightarrow> byte) \<Rightarrow> iovec list \<Rightarrow> byte list" where
  "gather m iov = concat (map (\<lambda>v. bytes_at m (iov_base v) (iov_len v)) iov)"

fun scatter :: "byte list \<Rightarrow> iovec list \<Rightarrow> (nat \<Rightarrow> byte) \<Rightarrow> nat \<Rightarrow> byte" where
  "scatter bs [] m = m"
| "scatter bs (v # vs) m =
     scatter (drop (iov_len v) bs) vs (store (take (iov_len v) bs) (iov_base v) m)"

definition iov_total :: "iovec list \<Rightarrow> nat" where
  "iov_total iov = sum_list (map iov_len iov)"

section \<open>System calls\<close>

definition sys_readv :: "int \<Rightarrow> iovec list \<Rightarrow> io \<Rightarrow> ((errno + nat) \<times> io) option" where
  "sys_readv d iov s =
     (case io_script s of
        Failed e # es \<Rightarrow> Some (Inl e, s\<lparr>io_script := es\<rparr>)
      | Bytes bs # es \<Rightarrow>
          if length bs \<le> iov_total iov
          then Some (Inr (length bs), s\<lparr>io_script := es, mem := scatter bs iov (mem s),
                       io_in := (io_in s)(d := io_in s d @ bs)\<rparr>)
          else None
      | _ \<Rightarrow> None)"

definition sys_read :: "int \<Rightarrow> nat \<Rightarrow> nat \<Rightarrow> io \<Rightarrow> ((errno + nat) \<times> io) option" where
  "sys_read d buf n = sys_readv d [\<lparr>iov_base = buf, iov_len = n\<rparr>]"

definition sys_writev :: "int \<Rightarrow> iovec list \<Rightarrow> io \<Rightarrow> ((errno + nat) \<times> io) option" where
  "sys_writev d iov s =
     (case io_script s of
        Failed e # es \<Rightarrow> Some (Inl e, s\<lparr>io_script := es\<rparr>)
      | Moved k # es \<Rightarrow>
          if k \<le> iov_total iov
          then Some (Inr k, s\<lparr>io_script := es,
                       io_out := (io_out s)(d := io_out s d @ take k (gather (mem s) iov))\<rparr>)
          else None
      | _ \<Rightarrow> None)"

definition sys_write :: "int \<Rightarrow> nat \<Rightarrow> nat \<Rightarrow> io \<Rightarrow> ((errno + nat) \<times> io) option" where
  "sys_write d buf n = sys_writev d [\<lparr>iov_base = buf, iov_len = n\<rparr>]"

text \<open>\<open>accept\<close>, \<open>connect\<close> and \<open>open\<close>: only the number returned counts.\<close>

definition sys_number :: "io \<Rightarrow> ((errno + nat) \<times> io) option" where
  "sys_number s =
     (case io_script s of
        Failed e # es \<Rightarrow> Some (Inl e, s\<lparr>io_script := es\<rparr>)
      | Moved k # es \<Rightarrow> Some (Inr k, s\<lparr>io_script := es\<rparr>)
      | _ \<Rightarrow> None)"

definition sys_so_error :: "io \<Rightarrow> ((errno + errno option) \<times> io) option" where
  "sys_so_error s =
     (case io_script s of
        Failed e # es \<Rightarrow> Some (Inl e, s\<lparr>io_script := es\<rparr>)
      | SoError x # es \<Rightarrow> Some (Inr x, s\<lparr>io_script := es\<rparr>)
      | _ \<Rightarrow> None)"

section \<open>Waiting for one descriptor\<close>

fun netfd_poll_result :: "errno + int \<times> eventw \<Rightarrow> errno + unit" where
  "netfd_poll_result (Inl e) = Inl e"
| "netfd_poll_result (Inr (n, rv)) =
     (if n = 0 then Inl ETIME else if has_flag rv POLLNVAL then Inl EBADF else Inr ())"

definition st_netfd_poll :: "int \<Rightarrow> eventw \<Rightarrow> utime \<Rightarrow> io \<Rightarrow> ((errno + unit) \<times> io) option" where
  "st_netfd_poll d how timeout s =
     (case io_script s of
        Polled r # es \<Rightarrow>
          Some (netfd_poll_result r, s\<lparr>io_script := es, io_polls := io_polls s @ [(d, how, timeout)]\<rparr>)
      | _ \<Rightarrow> None)"

text \<open>The call of \<open>st_poll\<close> inside \<open>st_netfd_poll\<close>, which gives up the processor.\<close>

definition netfd_poll_enter :: "world \<Rightarrow> int \<Rightarrow> eventw \<Rightarrow> utime \<Rightarrow> st \<Rightarrow> (int outcome \<times> st) option" where
  "netfd_poll_enter w osfd how timeout = st_poll w [\<lparr>fd = osfd, events = how, revents = 0\<rparr>] timeout"

section \<open>One system call, made until it succeeds\<close>

text \<open>The loop that \<open>st_read\<close>, \<open>st_readv\<close>, \<open>st_recvfrom\<close> and the others share.\<close>

partial_function (option) io_retry ::
    "(io \<Rightarrow> ((errno + 'a) \<times> io) option) \<Rightarrow> int \<Rightarrow> eventw \<Rightarrow> utime \<Rightarrow> io \<Rightarrow> ((errno + 'a) \<times> io) option" where
  "io_retry call d how timeout s =
     Option.bind (call s) (\<lambda>(r, s1).
       case r of
         Inr x \<Rightarrow> Some (Inr x, s1)
       | Inl e \<Rightarrow>
           if e = EINTR then io_retry call d how timeout s1
           else if e \<noteq> EAGAIN then Some (Inl e, s1)
           else Option.bind (st_netfd_poll d how timeout s1) (\<lambda>(p, s2).
                  case p of Inl e' \<Rightarrow> Some (Inl e', s2) | Inr u \<Rightarrow> io_retry call d how timeout s2))"

definition st_read :: "int \<Rightarrow> nat \<Rightarrow> nat \<Rightarrow> utime \<Rightarrow> io \<Rightarrow> ((errno + nat) \<times> io) option" where
  "st_read d buf nbyte timeout = io_retry (sys_read d buf nbyte) d POLLIN timeout"

definition st_readv :: "int \<Rightarrow> iovec list \<Rightarrow> utime \<Rightarrow> io \<Rightarrow> ((errno + nat) \<times> io) option" where
  "st_readv d iov timeout = io_retry (sys_readv d iov) d POLLIN timeout"

definition st_recvfrom :: "int \<Rightarrow> nat \<Rightarrow> nat \<Rightarrow> utime \<Rightarrow> io \<Rightarrow> ((errno + nat) \<times> io) option" where
  "st_recvfrom d buf n timeout = io_retry (sys_read d buf n) d POLLIN timeout"

definition st_sendto :: "int \<Rightarrow> nat \<Rightarrow> nat \<Rightarrow> utime \<Rightarrow> io \<Rightarrow> ((errno + nat) \<times> io) option" where
  "st_sendto d msg n timeout = io_retry (sys_write d msg n) d POLLOUT timeout"

definition st_recvmsg :: "int \<Rightarrow> iovec list \<Rightarrow> utime \<Rightarrow> io \<Rightarrow> ((errno + nat) \<times> io) option" where
  "st_recvmsg d msg timeout = io_retry (sys_readv d msg) d POLLIN timeout"

definition st_sendmsg :: "int \<Rightarrow> iovec list \<Rightarrow> utime \<Rightarrow> io \<Rightarrow> ((errno + nat) \<times> io) option" where
  "st_sendmsg d msg timeout = io_retry (sys_writev d msg) d POLLOUT timeout"

section \<open>Transfers that go on until everything is done\<close>

text \<open>
  The vectors of a transfer are an array with a pointer into it: \<open>dn\<close> is the part in front of the
  pointer \<open>*iov\<close>, \<open>td\<close> the \<open>*iov_size\<close> vectors from it on. A vector that has been used up keeps its
  place with length \<open>0\<close>. \<open>iov_advance\<close> is the inner loop that skips the vectors used up by \<open>n\<close> bytes;
  running past the array is \<open>None\<close>.
\<close>

definition eat :: "nat \<Rightarrow> iovec \<Rightarrow> iovec" where
  "eat k v = v\<lparr>iov_base := iov_base v + k, iov_len := iov_len v - k\<rparr>"

fun iov_advance :: "nat \<Rightarrow> iovec list \<Rightarrow> iovec list \<Rightarrow> (nat \<times> iovec list \<times> iovec list) option" where
  "iov_advance n dn [] = None"
| "iov_advance n dn (v # vs) =
     (if n \<ge> iov_len v
      then (if n - iov_len v = 0 then Some (0, dn @ [eat (iov_len v) v], vs)
            else iov_advance (n - iov_len v) (dn @ [eat (iov_len v) v]) vs)
      else Some (n, dn, v # vs))"

definition readv_some :: "int \<Rightarrow> iovec list \<Rightarrow> io \<Rightarrow> ((errno + nat) \<times> io) option" where
  "readv_some d td = (case td of [v] \<Rightarrow> sys_read d (iov_base v) (iov_len v) | _ \<Rightarrow> sys_readv d td)"

definition writev_some :: "int \<Rightarrow> iovec list \<Rightarrow> io \<Rightarrow> ((errno + nat) \<times> io) option" where
  "writev_some d td = (case td of [v] \<Rightarrow> sys_write d (iov_base v) (iov_len v) | _ \<Rightarrow> sys_writev d td)"

type_synonym resid = "(errno + unit) \<times> iovec list \<times> iovec list \<times> io"

partial_function (option) st_readv_resid :: "int \<Rightarrow> utime \<Rightarrow> iovec list \<Rightarrow> iovec list \<Rightarrow> io \<Rightarrow> resid option" where
  "st_readv_resid d timeout dn td s =
     (if td = [] then Some (Inr (), dn, td, s)
      else Option.bind (readv_some d td s) (\<lambda>(r, s1).
        case r of
          Inl e \<Rightarrow>
            if e = EINTR then st_readv_resid d timeout dn td s1
            else if e \<noteq> EAGAIN then Some (Inl e, dn, td, s1)
            else Option.bind (st_netfd_poll d POLLIN timeout s1) (\<lambda>(p, s2).
              case p of Inl e' \<Rightarrow> Some (Inl e', dn, td, s2) | Inr u \<Rightarrow> st_readv_resid d timeout dn td s2)
        | Inr n \<Rightarrow>
            if n = 0 then Some (Inr (), dn, td, s1)
            else Option.bind (iov_advance n dn td) (\<lambda>(k, dn', td').
              case td' of
                [] \<Rightarrow> Some (Inr (), dn', td', s1)
              | v # vs \<Rightarrow> Option.bind (st_netfd_poll d POLLIN timeout s1) (\<lambda>(p, s2).
                  case p of
                    Inl e' \<Rightarrow> Some (Inl e', dn', eat k v # vs, s2)
                  | Inr u \<Rightarrow> st_readv_resid d timeout dn' (eat k v # vs) s2))))"

partial_function (option) st_writev_resid :: "int \<Rightarrow> utime \<Rightarrow> iovec list \<Rightarrow> iovec list \<Rightarrow> io \<Rightarrow> resid option" where
  "st_writev_resid d timeout dn td s =
     (if td = [] then Some (Inr (), dn, td, s)
      else Option.bind (writev_some d td s) (\<lambda>(r, s1).
        case r of
          Inl e \<Rightarrow>
            if e = EINTR then st_writev_resid d timeout dn td s1
            else if e \<noteq> EAGAIN then Some (Inl e, dn, td, s1)
            else Option.bind (st_netfd_poll d POLLOUT timeout s1) (\<lambda>(p, s2).
              case p of Inl e' \<Rightarrow> Some (Inl e', dn, td, s2) | Inr u \<Rightarrow> st_writev_resid d timeout dn td s2)
        | Inr n \<Rightarrow>
            Option.bind (iov_advance n dn td) (\<lambda>(k, dn', td').
              case td' of
                [] \<Rightarrow> Some (Inr (), dn', td', s1)
              | v # vs \<Rightarrow> Option.bind (st_netfd_poll d POLLOUT timeout s1) (\<lambda>(p, s2).
                  case p of
                    Inl e' \<Rightarrow> Some (Inl e', dn', eat k v # vs, s2)
                  | Inr u \<Rightarrow> st_writev_resid d timeout dn' (eat k v # vs) s2))))"

text \<open>
  \<open>st_read_resid\<close> and \<open>st_write_resid\<close>: one vector; what is left of it is the new \<open>*resid\<close>.
\<close>

definition st_read_resid :: "int \<Rightarrow> nat \<Rightarrow> nat \<Rightarrow> utime \<Rightarrow> io \<Rightarrow> ((errno + unit) \<times> nat \<times> io) option" where
  "st_read_resid d buf resid timeout s =
     map_option (\<lambda>(r, dn, td, s'). (r, iov_len (hd (dn @ td)), s'))
       (st_readv_resid d timeout [] [\<lparr>iov_base = buf, iov_len = resid\<rparr>] s)"

definition st_read_fully :: "int \<Rightarrow> nat \<Rightarrow> nat \<Rightarrow> utime \<Rightarrow> io \<Rightarrow> ((errno + nat) \<times> io) option" where
  "st_read_fully d buf nbyte timeout s =
     map_option (\<lambda>(r, resid, s'). (case r of Inl e \<Rightarrow> Inl e | Inr _ \<Rightarrow> Inr (nbyte - resid), s'))
       (st_read_resid d buf nbyte timeout s)"

definition st_write_resid :: "int \<Rightarrow> nat \<Rightarrow> nat \<Rightarrow> utime \<Rightarrow> io \<Rightarrow> ((errno + unit) \<times> nat \<times> io) option" where
  "st_write_resid d buf resid timeout s =
     map_option (\<lambda>(r, dn, td, s'). (r, iov_len (hd (dn @ td)), s'))
       (st_writev_resid d timeout [] [\<lparr>iov_base = buf, iov_len = resid\<rparr>] s)"

definition st_write :: "int \<Rightarrow> nat \<Rightarrow> nat \<Rightarrow> utime \<Rightarrow> io \<Rightarrow> ((errno + nat) \<times> io) option" where
  "st_write d buf nbyte timeout s =
     map_option (\<lambda>(r, resid, s'). (case r of Inl e \<Rightarrow> Inl e | Inr _ \<Rightarrow> Inr (nbyte - resid), s'))
       (st_write_resid d buf nbyte timeout s)"

section \<open>Writing a vector\<close>

definition LOCAL_MAXIOV :: nat where "LOCAL_MAXIOV = 16"

text \<open>
  The first vector that \<open>n\<close> written bytes do not use up, with the number of bytes written of it and
  the vectors after it.
\<close>

fun next_unwritten :: "nat \<Rightarrow> iovec list \<Rightarrow> (nat \<times> iovec list) option" where
  "next_unwritten n [] = None"
| "next_unwritten n (v # vs) =
     (if n \<ge> iov_len v then next_unwritten (n - iov_len v) vs else Some (n, v # vs))"

text \<open>
  The loop of \<open>st_writev\<close>. \<open>tmp\<close> is \<open>tmp_iov\<close> with its \<open>iov_cnt\<close> vectors, \<open>own\<close> tells whether it is
  still the array of the caller; \<open>alloc\<close> is the success of \<open>calloc\<close>. A short count of \<open>st_write\<close>
  gives \<open>-1\<close> without an error number.
\<close>

partial_function (option) writev_loop ::
    "int \<Rightarrow> iovec list \<Rightarrow> nat \<Rightarrow> bool \<Rightarrow> utime \<Rightarrow> iovec list \<Rightarrow> bool \<Rightarrow> nat \<Rightarrow> io \<Rightarrow> ((errno + nat) \<times> io) option" where
  "writev_loop d iov nbyte alloc timeout tmp own nleft s =
     (if nleft = 0 then Some (Inr nbyte, s)
      else if length tmp = 1
      then Option.bind (st_write d (iov_base (hd tmp)) nleft timeout s) (\<lambda>(r, s1).
             Some (case r of Inl e \<Rightarrow> Inl e | Inr k \<Rightarrow> (if k = nleft then Inr nbyte else Inl (EOTHER 0)), s1))
      else Option.bind (sys_writev d tmp s) (\<lambda>(r, s1).
        case r of
          Inl e \<Rightarrow>
            if e = EINTR then writev_loop d iov nbyte alloc timeout tmp own nleft s1
            else if e \<noteq> EAGAIN then Some (Inl e, s1)
            else Option.bind (st_netfd_poll d POLLOUT timeout s1) (\<lambda>(p, s2).
              case p of Inl e' \<Rightarrow> Some (Inl e', s2)
              | Inr u \<Rightarrow> writev_loop d iov nbyte alloc timeout tmp own nleft s2)
        | Inr n \<Rightarrow>
            if n = nleft then Some (Inr nbyte, s1)
            else Option.bind (next_unwritten (nbyte - (nleft - n)) iov) (\<lambda>(k, rest).
              if own \<and> length rest > LOCAL_MAXIOV \<and> \<not> alloc then Some (Inl ENOMEM, s1)
              else Option.bind (st_netfd_poll d POLLOUT timeout s1) (\<lambda>(p, s2).
                case p of Inl e' \<Rightarrow> Some (Inl e', s2)
                | Inr u \<Rightarrow> writev_loop d iov nbyte alloc timeout (eat k (hd rest) # tl rest) False (nleft - n) s2))))"

definition st_writev :: "int \<Rightarrow> iovec list \<Rightarrow> bool \<Rightarrow> utime \<Rightarrow> io \<Rightarrow> ((errno + nat) \<times> io) option" where
  "st_writev d iov alloc timeout =
     writev_loop d iov (iov_total iov) alloc timeout iov True (iov_total iov)"

section \<open>Connecting, accepting, opening\<close>

text \<open>\<open>interrupted\<close> is what the code keeps in \<open>err\<close> until \<open>getsockopt\<close> overwrites it.\<close>

partial_function (option) connect_loop :: "int \<Rightarrow> utime \<Rightarrow> bool \<Rightarrow> io \<Rightarrow> ((errno + unit) \<times> io) option" where
  "connect_loop d timeout interrupted s =
     Option.bind (sys_number s) (\<lambda>(r, s1).
       case r of
         Inr x \<Rightarrow> Some (Inr (), s1)
       | Inl e \<Rightarrow>
           if e = EINTR then connect_loop d timeout True s1
           else if e \<noteq> EINPROGRESS \<and> (e \<noteq> EADDRINUSE \<or> \<not> interrupted) then Some (Inl e, s1)
           else Option.bind (st_netfd_poll d POLLOUT timeout s1) (\<lambda>(p, s2).
             case p of
               Inl e' \<Rightarrow> Some (Inl e', s2)
             | Inr u \<Rightarrow> Option.bind (sys_so_error s2) (\<lambda>(q, s3).
                 case q of
                   Inl e' \<Rightarrow> Some (Inl e', s3)
                 | Inr (Some e') \<Rightarrow> Some (Inl e', s3)
                 | Inr None \<Rightarrow> Some (Inr (), s3))))"

definition st_connect :: "int \<Rightarrow> utime \<Rightarrow> io \<Rightarrow> ((errno + unit) \<times> io) option" where
  "st_connect d timeout = connect_loop d timeout False"

text \<open>
  One round of the serialised \<open>st_accept\<close>: with the pipe, a byte is taken from it before \<open>accept\<close> and
  put back after it, whatever \<open>accept\<close> has returned. \<open>Inl\<close> is a failure to get the lock, \<open>cbuf\<close> the
  address of \<open>c\<close>; a failed assertion is \<open>None\<close>.
\<close>

definition accept_round ::
    "(int \<times> int) option \<Rightarrow> nat \<Rightarrow> utime \<Rightarrow> io \<Rightarrow> ((errno + (errno + nat)) \<times> io) option" where
  "accept_round lock cbuf timeout s =
     (case lock of
        None \<Rightarrow> do { (r, s1) \<leftarrow> sys_number s; Some (Inr r, s1) }
      | Some (p0, p1) \<Rightarrow>
         do {
           (n, s1) \<leftarrow> st_read p0 cbuf 1 timeout s;
           (case n of
              Inl e \<Rightarrow> Some (Inl e, s1)
            | Inr k \<Rightarrow>
               if k \<noteq> 1 then None
               else do {
                 (r, s2) \<leftarrow> sys_number s1;
                 (m, s3) \<leftarrow> st_write p1 cbuf 1 timeout s2;
                 (if m = Inr 1 then Some (Inr r, s3) else None)
               })
         })"

partial_function (option) accept_loop ::
    "int \<Rightarrow> (int \<times> int) option \<Rightarrow> nat \<Rightarrow> utime \<Rightarrow> io \<Rightarrow> ((errno + nat) \<times> io) option" where
  "accept_loop d lock cbuf timeout s =
     Option.bind (accept_round lock cbuf timeout s) (\<lambda>(q, s1).
       case q of
         Inl e \<Rightarrow> Some (Inl e, s1)
       | Inr (Inr x) \<Rightarrow> Some (Inr x, s1)
       | Inr (Inl e) \<Rightarrow>
           if e = EINTR then accept_loop d lock cbuf timeout s1
           else if e \<noteq> EAGAIN then Some (Inl e, s1)
           else Option.bind (st_netfd_poll d POLLIN timeout s1) (\<lambda>(p, s2).
             case p of Inl e' \<Rightarrow> Some (Inl e', s2) | Inr u \<Rightarrow> accept_loop d lock cbuf timeout s2))"

text \<open>
  After the system call the new descriptor gets an object, or is closed when there is none. The
  state given is the one at that time; \<open>inherited\<close> says whether a new socket is non-blocking already.
\<close>

definition adopt_netfd ::
    "world \<Rightarrow> open_env \<Rightarrow> bool \<Rightarrow> bool \<Rightarrow> errno + nat \<Rightarrow> st \<times> fdtab \<Rightarrow> (nfd option \<times> st \<times> fdtab) option" where
  "adopt_netfd w e nonblock is_socket r sn =
     (case r of
        Inl _ \<Rightarrow> Some (None, sn)
      | Inr k \<Rightarrow>
         do {
           (nf, s', n') \<leftarrow> st_netfd_new w e (int k) nonblock is_socket sn;
           (case nf of
              None \<Rightarrow> Some (None, s', n'\<lparr>closed := closed n' @ [int k]\<rparr>)
            | Some f \<Rightarrow> Some (Some f, s', n'))
         })"

definition st_accept_unserialized ::
    "world \<Rightarrow> open_env \<Rightarrow> bool \<Rightarrow> nfd \<Rightarrow> utime \<Rightarrow> st \<times> fdtab \<Rightarrow> io \<Rightarrow> (nfd option \<times> (st \<times> fdtab) \<times> io) option" where
  "st_accept_unserialized w e inherited f timeout sn s =
     do {
       (r, s1) \<leftarrow> io_retry sys_number (nf_osfd (nf_of (snd sn) f)) POLLIN timeout s;
       (nf, sn') \<leftarrow> adopt_netfd w e (\<not> inherited) True r sn;
       Some (nf, sn', s1)
     }"

definition st_accept ::
    "world \<Rightarrow> open_env \<Rightarrow> bool \<Rightarrow> nat \<Rightarrow> nfd \<Rightarrow> utime \<Rightarrow> st \<times> fdtab \<Rightarrow> io \<Rightarrow>
     (nfd option \<times> (st \<times> fdtab) \<times> io) option" where
  "st_accept w e inherited cbuf f timeout sn s =
     (let n = snd sn;
          lock = map_option (\<lambda>(p, q). (nf_osfd (nf_of n p), nf_osfd (nf_of n q))) (nf_aux (nf_of n f))
      in do {
        (r, s1) \<leftarrow> accept_loop (nf_osfd (nf_of n f)) lock cbuf timeout s;
        (nf, sn') \<leftarrow> adopt_netfd w e (\<not> inherited) True r sn;
        Some (nf, sn', s1)
      })"

text \<open>\<open>open\<close> is made again only when it was interrupted.\<close>

partial_function (option) open_loop :: "io \<Rightarrow> ((errno + nat) \<times> io) option" where
  "open_loop s =
     Option.bind (sys_number s) (\<lambda>(r, s1).
       case r of
         Inr x \<Rightarrow> Some (Inr x, s1)
       | Inl e \<Rightarrow> if e = EINTR then open_loop s1 else Some (Inl e, s1))"

definition st_open ::
    "world \<Rightarrow> open_env \<Rightarrow> st \<times> fdtab \<Rightarrow> io \<Rightarrow> (nfd option \<times> (st \<times> fdtab) \<times> io) option" where
  "st_open w e sn s =
     do {
       (r, s1) \<leftarrow> open_loop s;
       (nf, sn') \<leftarrow> adopt_netfd w e False False r sn;
       Some (nf, sn', s1)
     }"

end
