(* ===== verification/ST_IoLaws.thy ===== *)
theory ST_IoLaws
  imports ST_Io
begin

text \<open>
  Correctness of the transfers of \<open>io.c\<close>: what a call hands to a descriptor is a prefix of what it was
  given, and all of it when the call succeeds; what it reads ends up in the buffer and nowhere else;
  and when the system makes progress the calls return.
\<close>

section \<open>Memory and vectors\<close>

lemma length_bytes_at [simp]: "length (bytes_at m a n) = n"
  by (simp add: bytes_at_def)

lemma bytes_at_0 [simp]: "bytes_at m a 0 = []"
  by (simp add: bytes_at_def)

lemma bytes_at_add: "bytes_at m a (k + n) = bytes_at m a k @ bytes_at m (a + k) n"
  by (rule nth_equalityI) (auto simp: bytes_at_def nth_append)

lemma bytes_at_split: "k \<le> n \<Longrightarrow> bytes_at m a n = bytes_at m a k @ bytes_at m (a + k) (n - k)"
  using bytes_at_add [of m a k "n - k"] by simp

lemma store_Nil [simp]: "store [] a m = m"
  by (rule ext) (auto simp: store_def)

lemma store_outside: "x < a \<or> a + length bs \<le> x \<Longrightarrow> store bs a m x = m x"
  by (auto simp: store_def)

lemma bytes_at_store [simp]: "bytes_at (store bs a m) a (length bs) = bs"
  by (rule nth_equalityI) (auto simp: bytes_at_def store_def)

lemma bytes_at_store_before: "a' + n \<le> a \<Longrightarrow> bytes_at (store bs a m) a' n = bytes_at m a' n"
  by (auto simp: bytes_at_def store_def)

lemma gather_simps [simp]:
  "gather m [] = []" "gather m (v # vs) = bytes_at m (iov_base v) (iov_len v) @ gather m vs"
  "gather m (vs @ ws) = gather m vs @ gather m ws"
  by (simp_all add: gather_def)

lemma iov_total_simps [simp]:
  "iov_total [] = 0" "iov_total (v # vs) = iov_len v + iov_total vs"
  "iov_total (vs @ ws) = iov_total vs + iov_total ws"
  by (simp_all add: iov_total_def)

lemma length_gather [simp]: "length (gather m iov) = iov_total iov"
  by (induction iov) auto

lemma eat_simps [simp]: "iov_base (eat k v) = iov_base v + k" "iov_len (eat k v) = iov_len v - k"
  by (simp_all add: eat_def)

lemma gather_eat:
  "k \<le> iov_len v \<Longrightarrow> bytes_at m (iov_base v) (iov_len v) =
     bytes_at m (iov_base v) k @ bytes_at m (iov_base v + k) (iov_len v - k)"
  by (rule bytes_at_split)

text \<open>What \<open>iov_advance\<close> leaves: the vectors after the first \<open>n\<close> bytes.\<close>

definition left_over :: "nat \<Rightarrow> iovec list \<Rightarrow> iovec list" where
  "left_over k td = (case td of [] \<Rightarrow> [] | v # vs \<Rightarrow> eat k v # vs)"

lemma left_over_simps [simp]: "left_over k [] = []" "left_over k (v # vs) = eat k v # vs"
  by (simp_all add: left_over_def)

lemma iov_advance_all:
  "iov_advance n dn td = Some (k, dn', td') \<Longrightarrow>
     n \<le> iov_total td \<and> gather m td = take n (gather m td) @ gather m (left_over k td') \<and>
     iov_total (left_over k td') = iov_total td - n \<and> length dn' + length td' = length dn + length td \<and>
     ((\<forall>v \<in> set dn. iov_len v = 0) \<longrightarrow> (\<forall>v \<in> set dn'. iov_len v = 0)) \<and>
     (td' \<noteq> [] \<longrightarrow> k \<le> iov_len (hd td')) \<and> (td' = [] \<longrightarrow> k = 0)"
proof (induction n dn td rule: iov_advance.induct)
  case (2 n dn v vs)
  show ?case
  proof (cases "n > iov_len v")
    case True
    then have le: "iov_len v \<le> n" "n - iov_len v \<noteq> 0" by simp_all
    then have "iov_advance (n - iov_len v) (dn @ [eat (iov_len v) v]) vs = Some (k, dn', td')"
      using "2.prems" by simp
    from "2.IH" [OF le this] show ?thesis using True by auto
  next
    case False
    then consider "n = iov_len v" | "n < iov_len v" by linarith
    then show ?thesis
    proof cases
      case 1
      have "gather m (left_over 0 vs) = gather m vs" "iov_total (left_over 0 vs) = iov_total vs"
        by (cases vs; simp)+
      then show ?thesis using "2.prems" 1 by auto
    next
      case 2
      then have "td' = v # vs" "k = n" "dn' = dn" using "2.prems" by simp_all
      moreover have "gather m (v # vs) = take n (gather m (v # vs)) @ gather m (left_over n (v # vs))"
        using gather_eat [of n v m] 2 by simp
      ultimately show ?thesis using 2 by simp
    qed
  qed
qed simp

lemma iov_advance_spec:
  assumes "iov_advance n dn td = Some (k, dn', td')"
  shows "n \<le> iov_total td" "gather m td = take n (gather m td) @ gather m (left_over k td')"
    "iov_total (left_over k td') = iov_total td - n" "length dn' + length td' = length dn + length td"
    "\<forall>v \<in> set dn. iov_len v = 0 \<Longrightarrow> \<forall>v \<in> set dn'. iov_len v = 0"
    "td' \<noteq> [] \<Longrightarrow> k \<le> iov_len (hd td')" "td' = [] \<Longrightarrow> k = 0"
  using iov_advance_all [OF assms, of m] by auto

lemma iov_advance_total: "n \<le> iov_total td \<Longrightarrow> td \<noteq> [] \<Longrightarrow> \<exists>k dn' td'. iov_advance n dn td = Some (k, dn', td')"
proof (induction n dn td rule: iov_advance.induct)
  case (2 n dn v vs)
  then show ?case by (cases vs) auto
qed simp

lemma iovec_eta [simp]: "\<lparr>iov_base = iov_base v, iov_len = iov_len v\<rparr> = v"
  by (cases v) simp

lemma readv_some_eq [simp]: "readv_some d td = sys_readv d td"
  by (auto simp: readv_some_def sys_read_def fun_eq_iff split: list.split)

lemma writev_some_eq [simp]: "writev_some d td = sys_writev d td"
  by (auto simp: writev_some_def sys_write_def fun_eq_iff split: list.split)

section \<open>System calls\<close>

lemma sys_writev_run:
  "sys_writev d iov s = Some (Inr n, s') \<Longrightarrow>
     n \<le> iov_total iov \<and> length (io_script s') < length (io_script s) \<and> mem s' = mem s \<and> io_in s' = io_in s \<and>
     io_out s' = (io_out s)(d := io_out s d @ take n (gather (mem s) iov)) \<and> io_polls s' = io_polls s"
  "sys_writev d iov s = Some (Inl e, s') \<Longrightarrow>
     length (io_script s') < length (io_script s) \<and> mem s' = mem s \<and> io_in s' = io_in s \<and> io_out s' = io_out s \<and> io_polls s' = io_polls s"
  by (auto simp: sys_writev_def split: list.splits io_event.splits if_splits)

lemma sys_readv_run:
  "sys_readv d iov s = Some (Inr n, s') \<Longrightarrow>
     \<exists>bs. n = length bs \<and> n \<le> iov_total iov \<and> length (io_script s') < length (io_script s) \<and> mem s' = scatter bs iov (mem s) \<and> io_out s' = io_out s \<and>
       io_in s' = (io_in s)(d := io_in s d @ bs) \<and> io_polls s' = io_polls s"
  "sys_readv d iov s = Some (Inl e, s') \<Longrightarrow>
     length (io_script s') < length (io_script s) \<and> mem s' = mem s \<and> io_in s' = io_in s \<and> io_out s' = io_out s \<and> io_polls s' = io_polls s"
  by (auto simp: sys_readv_def split: list.splits io_event.splits if_splits)

lemma netfd_poll_run:
  "st_netfd_poll d how timeout s = Some (p, s') \<Longrightarrow>
     length (io_script s') < length (io_script s) \<and> mem s' = mem s \<and> io_in s' = io_in s \<and> io_out s' = io_out s \<and>
     io_polls s' = io_polls s @ [(d, how, timeout)]"
  by (auto simp: st_netfd_poll_def split: list.splits io_event.splits)

lemma poll_ok:
  "io_script s = Polled (Inr (1, rv)) # es \<Longrightarrow> \<not> has_flag rv POLLNVAL \<Longrightarrow>
     \<exists>s2. st_netfd_poll d how t s = Some (Inr (), s2) \<and> io_script s2 = es \<and> io_in s2 = io_in s"
  by (simp add: st_netfd_poll_def)

text \<open>Waits appended to the log: all for the same descriptor, direction and timeout.\<close>

definition waited :: "int \<Rightarrow> eventw \<Rightarrow> utime \<Rightarrow> io \<Rightarrow> io \<Rightarrow> bool" where
  "waited d how timeout s s' \<longleftrightarrow> (\<exists>k. io_polls s' = io_polls s @ replicate k (d, how, timeout))"

lemma waited_refl [simp]: "waited d how timeout s s"
  unfolding waited_def by (rule exI [of _ 0]) simp

lemma waited_same: "io_polls s1 = io_polls s \<Longrightarrow> waited d how timeout s1 s' = waited d how timeout s s'"
  by (simp add: waited_def)

lemma waited_step:
  "io_polls s1 = io_polls s @ [(d, how, timeout)] \<Longrightarrow> waited d how timeout s1 s' \<Longrightarrow> waited d how timeout s s'"
  unfolding waited_def by (metis append.assoc append_Cons append_Nil replicate_Suc)

section \<open>Writing\<close>

text \<open>What a transfer out of the vectors \<open>td\<close> has done when \<open>td'\<close> is left.\<close>

definition wrote :: "int \<Rightarrow> iovec list \<Rightarrow> iovec list \<Rightarrow> io \<Rightarrow> io \<Rightarrow> bool" where
  "wrote d td td' s s' \<longleftrightarrow> mem s' = mem s \<and> io_in s' = io_in s \<and>
     (\<exists>ws. io_out s' = (io_out s)(d := io_out s d @ ws) \<and> gather (mem s) td = ws @ gather (mem s) td')"

lemma wrote_refl: "mem s' = mem s \<Longrightarrow> io_in s' = io_in s \<Longrightarrow> io_out s' = io_out s \<Longrightarrow> wrote d td td s s'"
  by (auto simp: wrote_def)

lemma wrote_trans: "wrote d td td1 s s1 \<Longrightarrow> wrote d td1 td2 s1 s2 \<Longrightarrow> wrote d td td2 s s2"
  by (auto simp: wrote_def)

text \<open>The branches of \<open>st_writev_resid\<close>.\<close>

lemma writev_resid_steps:
  "st_writev_resid d t dn [] s = Some (Inr (), dn, [], s)"
  "td \<noteq> [] \<Longrightarrow> sys_writev d td s = None \<Longrightarrow> st_writev_resid d t dn td s = None"
  "td \<noteq> [] \<Longrightarrow> sys_writev d td s = Some (Inl EINTR, s1) \<Longrightarrow> st_writev_resid d t dn td s = st_writev_resid d t dn td s1"
  "td \<noteq> [] \<Longrightarrow> sys_writev d td s = Some (Inl e, s1) \<Longrightarrow> e \<noteq> EINTR \<Longrightarrow> e \<noteq> EAGAIN \<Longrightarrow>
     st_writev_resid d t dn td s = Some (Inl e, dn, td, s1)"
  "td \<noteq> [] \<Longrightarrow> sys_writev d td s = Some (Inl EAGAIN, s1) \<Longrightarrow> st_writev_resid d t dn td s =
     Option.bind (st_netfd_poll d POLLOUT t s1) (\<lambda>(p, s2).
       case p of Inl e' \<Rightarrow> Some (Inl e', dn, td, s2) | Inr u \<Rightarrow> st_writev_resid d t dn td s2)"
  "td \<noteq> [] \<Longrightarrow> sys_writev d td s = Some (Inr n, s1) \<Longrightarrow> iov_advance n dn td = Some (k, dn1, []) \<Longrightarrow>
     st_writev_resid d t dn td s = Some (Inr (), dn1, [], s1)"
  "td \<noteq> [] \<Longrightarrow> sys_writev d td s = Some (Inr n, s1) \<Longrightarrow> iov_advance n dn td = Some (k, dn1, v # vs) \<Longrightarrow>
     st_writev_resid d t dn td s =
       Option.bind (st_netfd_poll d POLLOUT t s1) (\<lambda>(p, s2).
         case p of Inl e' \<Rightarrow> Some (Inl e', dn1, eat k v # vs, s2)
         | Inr u \<Rightarrow> st_writev_resid d t dn1 (eat k v # vs) s2)"
  by (subst st_writev_resid.simps; simp)+

text \<open>
  However \<open>st_writev_resid\<close> ends, the descriptor has got what lies between the old and the new position
  in the vectors; it ends without an error only at their end.
\<close>

lemma writev_resid_run:
  assumes "st_writev_resid d timeout dn td s = Some (r, dn', td', s')"
  shows "wrote d td td' s s' \<and> (r = Inr () \<longrightarrow> td' = []) \<and> waited d POLLOUT timeout s s' \<and>
    length dn' + length td' = length dn + length td \<and>
    ((\<forall>v \<in> set dn. iov_len v = 0) \<longrightarrow> (\<forall>v \<in> set dn'. iov_len v = 0))"
  using assms
proof (induction "length (io_script s)" arbitrary: s dn td rule: less_induct)
  case less
  note S = writev_resid_steps
  have again: ?case
    if "st_writev_resid d timeout dn1 td1 s2 = Some (r, dn', td', s')" "length (io_script s2) < length (io_script s)"
      "wrote d td td1 s s2" "io_polls s2 = io_polls s \<or> io_polls s2 = io_polls s @ [(d, POLLOUT, timeout)]"
      "length dn1 + length td1 = length dn + length td"
      "(\<forall>v \<in> set dn. iov_len v = 0) \<longrightarrow> (\<forall>v \<in> set dn1. iov_len v = 0)" for dn1 td1 s2
  proof -
    note H = less.hyps [OF that(2,1)]
    have "wrote d td1 td' s2 s'" and w: "waited d POLLOUT timeout s2 s'" using H by simp_all
    then have "wrote d td td' s s'" by (intro wrote_trans [OF that(3)])
    moreover have "waited d POLLOUT timeout s s'" using that(4)
    proof
      assume "io_polls s2 = io_polls s"
      then show ?thesis using waited_same [of s2 s d POLLOUT timeout s'] w by simp
    next
      assume "io_polls s2 = io_polls s @ [(d, POLLOUT, timeout)]"
      then show ?thesis using w by (rule waited_step)
    qed
    moreover have "length dn' + length td' = length dn + length td" "r = Inr () \<longrightarrow> td' = []"
      using H that(5) by simp_all
    moreover have "(\<forall>v \<in> set dn. iov_len v = 0) \<longrightarrow> (\<forall>v \<in> set dn'. iov_len v = 0)" using H that(6) by blast
    ultimately show ?case by blast
  qed
  show ?case
  proof (cases "td = []")
    case True
    then show ?thesis using less.prems by (auto simp: S(1) wrote_refl)
  next
    case ne: False
    obtain q s1 where c: "sys_writev d td s = Some (q, s1)"
      using less.prems S(2) [OF ne] by (cases "sys_writev d td s") auto
    show ?thesis
    proof (cases q)
      case (Inl e)
      note C = sys_writev_run(2) [OF c [unfolded Inl]]
      have W: "wrote d td td s s1" using C by (simp add: wrote_refl)
      have W1: "waited d POLLOUT timeout s s1" using C waited_same [of s1 s d POLLOUT timeout s1] by simp
      show ?thesis
      proof (cases "e = EINTR")
        case True
        then have "st_writev_resid d timeout dn td s1 = Some (r, dn', td', s')" using less.prems S(3) [OF ne] c Inl by simp
        from again [OF this _ W] C show ?thesis by simp
      next
        case e: False
        show ?thesis
        proof (cases "e = EAGAIN")
          case True
          obtain p s2 where w: "st_netfd_poll d POLLOUT timeout s1 = Some (p, s2)"
            using less.prems S(5) [OF ne] c Inl True by (cases "st_netfd_poll d POLLOUT timeout s1") auto
          note N = netfd_poll_run [OF w]
          have W2: "wrote d td td s s2" using C N by (simp add: wrote_refl)
          have W3: "waited d POLLOUT timeout s s2" by (rule waited_step [of s2 s]) (use C N in simp_all)
          show ?thesis
          proof (cases p)
            case p: (Inl e')
            then show ?thesis using less.prems S(5) [OF ne] c Inl True w W2 W3 by auto
          next
            case (Inr u)
            then have "st_writev_resid d timeout dn td s2 = Some (r, dn', td', s')"
              using less.prems S(5) [OF ne] c Inl True w by simp
            from again [OF this _ W2] C N show ?thesis by simp
          qed
        next
          case False
          then show ?thesis using less.prems S(4) [OF ne c [unfolded Inl] e False] W W1 by auto
        qed
      qed
    next
      case (Inr n)
      note C = sys_writev_run(1) [OF c [unfolded Inr]]
      obtain k dn1 td1 where v: "iov_advance n dn td = Some (k, dn1, td1)"
        using iov_advance_total [of n td dn] C ne by auto
      note A = iov_advance_spec [OF v]
      have W: "wrote d td (left_over k td1) s s1"
        using A(1,2) C by (auto simp: wrote_def)
      have W1: "waited d POLLOUT timeout s s1" using C waited_same [of s1 s d POLLOUT timeout s1] by simp
      show ?thesis
      proof (cases td1)
        case Nil
        then show ?thesis using less.prems S(6) [OF ne c [unfolded Inr] v [unfolded Nil]] W W1 A by auto
      next
        case (Cons v1 vs)
        obtain p s2 where w: "st_netfd_poll d POLLOUT timeout s1 = Some (p, s2)"
          using less.prems S(7) [OF ne c [unfolded Inr] v [unfolded Cons]]
          by (cases "st_netfd_poll d POLLOUT timeout s1") auto
        note N = netfd_poll_run [OF w]
        have W2: "wrote d td (eat k v1 # vs) s s2"
          using wrote_trans [OF W wrote_refl [of s2 s1]] N Cons by simp
        have W3: "waited d POLLOUT timeout s s2" by (rule waited_step [of s2 s]) (use C N in simp_all)
        show ?thesis
        proof (cases p)
          case p: (Inl e')
          then show ?thesis 
            using less.prems S(7) [OF ne c [unfolded Inr] v [unfolded Cons]] w W2 W3 A(4,5) Cons by auto
        next
          case p: (Inr u)
          then have "st_writev_resid d timeout dn1 (eat k v1 # vs) s2 = Some (r, dn', td', s')"
            using less.prems S(7) [OF ne c [unfolded Inr] v [unfolded Cons]] w by simp
          then show ?thesis
          proof (rule again [OF _ _ W2])
            show "length (io_script s2) < length (io_script s)"
              "io_polls s2 = io_polls s \<or> io_polls s2 = io_polls s @ [(d, POLLOUT, timeout)]"
              using C N by simp_all
            show "length dn1 + length (eat k v1 # vs) = length dn + length td" using A(4) Cons by simp
          qed (use A(5) in blast)
        qed
      qed
    qed
  qed
qed

text \<open>One buffer.\<close>

lemma write_run:
  assumes "st_write d buf n timeout s = Some (r, s')"
  shows "\<exists>k \<le> n. io_out s' = (io_out s)(d := io_out s d @ bytes_at (mem s) buf k) \<and> mem s' = mem s \<and>
    io_in s' = io_in s \<and> waited d POLLOUT timeout s s' \<and> (\<forall>j. r = Inr j \<longrightarrow> j = n \<and> k = n)"
proof -
  let ?v = "\<lparr>iov_base = buf, iov_len = n\<rparr>"
  obtain q dn td where run: "st_writev_resid d timeout [] [?v] s = Some (q, dn, td, s')"
    and r: "r = (case q of Inl e \<Rightarrow> Inl e | Inr u \<Rightarrow> Inr (n - iov_len (hd (dn @ td))))"
    using assms by (auto simp: st_write_def st_write_resid_def)
  note R = writev_resid_run [OF run]
  obtain ws where ws: "io_out s' = (io_out s)(d := io_out s d @ ws)"
    "bytes_at (mem s) buf n = ws @ gather (mem s) td"
    using R by (auto simp: wrote_def)
  have len: "length ws + iov_total td = n" using arg_cong [OF ws(2), of length] by simp
  then have k: "length ws \<le> n" by simp
  have "ws = take (length ws) (bytes_at (mem s) buf n)" using ws(2) by simp
  then have w: "ws = bytes_at (mem s) buf (length ws)"
    using bytes_at_split [OF k, of "mem s" buf] by simp
  have z: "iov_len (hd dn) = 0" if "td = []"
  proof -
    have "length dn = 1" "\<forall>v \<in> set dn. iov_len v = 0" using R that by simp_all
    then show ?thesis by (cases dn) auto
  qed
  have "j = n \<and> length ws = n" if "r = Inr j" for j
  proof -
    have td: "td = []" using that r R by (cases q) simp_all
    then have "dn \<noteq> []" using R by auto
    then show ?thesis using that r td z len by (cases q) simp_all
  qed
  moreover have "mem s' = mem s" "io_in s' = io_in s" "waited d POLLOUT timeout s s'"
    using R by (simp_all add: wrote_def)
  ultimately show ?thesis using ws(1) w k by (intro exI [of _ "length ws"]) simp
qed

text \<open>
  A script in which the system makes progress: the call may be interrupted, find the descriptor not
  ready, or move a part of what is left, and in the end moves the rest.
\<close>

datatype turn = Interrupted | Not_ready | Part nat

fun write_script :: "turn list \<Rightarrow> nat \<Rightarrow> io_event list" where
  "write_script [] n = [Moved n]"
| "write_script (Interrupted # ts) n = Failed EINTR # write_script ts n"
| "write_script (Not_ready # ts) n = Failed EAGAIN # Polled (Inr (1, POLLOUT)) # write_script ts n"
| "write_script (Part k # ts) n =
     (if k < n then Moved k # Polled (Inr (1, POLLOUT)) # write_script ts (n - k) else [Moved n])"

lemma POLLOUT_not_POLLNVAL [simp]: "\<not> has_flag POLLOUT POLLNVAL" "\<not> has_flag POLLIN POLLNVAL"
  by (simp_all add: has_flag_def POLL_defs)

lemma write_resid_live:
  "io_script s = write_script ts (iov_len v) @ rest \<Longrightarrow>
     \<exists>dn' s'. st_writev_resid d t dn [v] s = Some (Inr (), dn', [], s') \<and> io_script s' = rest"
proof (induction ts arbitrary: s v dn)
  case Nil
  then obtain s1 where "sys_writev d [v] s = Some (Inr (iov_len v), s1)" "io_script s1 = rest"
    by (auto simp: sys_writev_def)
  then show ?case using writev_resid_steps(6) [of "[v]" d s "iov_len v" s1 dn 0 "dn @ [eat (iov_len v) v]" t] by simp
next
  case (Cons x ts)
  show ?case
  proof (cases x)
    case Interrupted
    then obtain s1 where "sys_writev d [v] s = Some (Inl EINTR, s1)" "io_script s1 = write_script ts (iov_len v) @ rest"
      using Cons.prems by (auto simp: sys_writev_def)
    then show ?thesis using writev_resid_steps(3) [of "[v]" d s s1 t dn] Cons.IH [of s1 v dn] by simp
  next
    case Not_ready
    then obtain s1 s2 where "sys_writev d [v] s = Some (Inl EAGAIN, s1)"
        "st_netfd_poll d POLLOUT t s1 = Some (Inr (), s2)" "io_script s2 = write_script ts (iov_len v) @ rest"
      using Cons.prems by (auto simp: sys_writev_def st_netfd_poll_def)
    then show ?thesis using writev_resid_steps(5) [of "[v]" d s s1 t dn] Cons.IH [of s2 v dn] by simp
  next
    case (Part k)
    show ?thesis
    proof (cases "k < iov_len v")
      case True
      then obtain s1 s2 where "sys_writev d [v] s = Some (Inr k, s1)"
          "st_netfd_poll d POLLOUT t s1 = Some (Inr (), s2)"
          "io_script s2 = write_script ts (iov_len (eat k v)) @ rest"
        using Cons.prems Part by (auto simp: sys_writev_def st_netfd_poll_def)
      then show ?thesis
        using writev_resid_steps(7) [of "[v]" d s k s1 dn k dn v "[]" t] Cons.IH [of s2 "eat k v" dn] True by simp
    next
      case False
      then obtain s1 where "sys_writev d [v] s = Some (Inr (iov_len v), s1)" "io_script s1 = rest"
        using Cons.prems Part by (auto simp: sys_writev_def)
      then show ?thesis
        using writev_resid_steps(6) [of "[v]" d s "iov_len v" s1 dn 0 "dn @ [eat (iov_len v) v]" t] by simp
    qed
  qed
qed

section \<open>Writing vectors\<close>

lemma next_unwritten_spec:
  "next_unwritten n iov = Some (k, rest) \<Longrightarrow>
     rest \<noteq> [] \<and> n < iov_total iov \<and> gather m (eat k (hd rest) # tl rest) = drop n (gather m iov) \<and>
     iov_total (eat k (hd rest) # tl rest) = iov_total iov - n"
proof (induction n iov rule: next_unwritten.induct)
  case (2 n v vs)
  show ?case
  proof (cases "n \<ge> iov_len v")
    case True
    then show ?thesis using 2 by auto
  next
    case False
    then show ?thesis using "2.prems" gather_eat [of n v m] by auto
  qed
qed simp

lemma next_unwritten_length: "next_unwritten n iov = Some (k, rest) \<Longrightarrow> length rest \<le> length iov"
  by (induction n iov rule: next_unwritten.induct) (force split: if_splits)+

lemma next_unwritten_total: "n < iov_total iov \<Longrightarrow> \<exists>k rest. next_unwritten n iov = Some (k, rest)"
  by (induction n iov rule: next_unwritten.induct) auto

lemma writev_loop_steps:
  "writev_loop d iov nb al t tmp own 0 s = Some (Inr nb, s)"
  "nl \<noteq> 0 \<Longrightarrow> writev_loop d iov nb al t [v] own nl s =
     Option.bind (st_write d (iov_base v) nl t s) (\<lambda>(r, s1).
       Some (case r of Inl e \<Rightarrow> Inl e | Inr k \<Rightarrow> (if k = nl then Inr nb else Inl (EOTHER 0)), s1))"
  "nl \<noteq> 0 \<Longrightarrow> length tmp \<noteq> 1 \<Longrightarrow> sys_writev d tmp s = None \<Longrightarrow> writev_loop d iov nb al t tmp own nl s = None"
  "nl \<noteq> 0 \<Longrightarrow> length tmp \<noteq> 1 \<Longrightarrow> sys_writev d tmp s = Some (Inl EINTR, s1) \<Longrightarrow>
     writev_loop d iov nb al t tmp own nl s = writev_loop d iov nb al t tmp own nl s1"
  "nl \<noteq> 0 \<Longrightarrow> length tmp \<noteq> 1 \<Longrightarrow> sys_writev d tmp s = Some (Inl e, s1) \<Longrightarrow> e \<noteq> EINTR \<Longrightarrow> e \<noteq> EAGAIN \<Longrightarrow>
     writev_loop d iov nb al t tmp own nl s = Some (Inl e, s1)"
  "nl \<noteq> 0 \<Longrightarrow> length tmp \<noteq> 1 \<Longrightarrow> sys_writev d tmp s = Some (Inl EAGAIN, s1) \<Longrightarrow>
     writev_loop d iov nb al t tmp own nl s =
       Option.bind (st_netfd_poll d POLLOUT t s1) (\<lambda>(p, s2).
         case p of Inl e' \<Rightarrow> Some (Inl e', s2) | Inr u \<Rightarrow> writev_loop d iov nb al t tmp own nl s2)"
  "nl \<noteq> 0 \<Longrightarrow> length tmp \<noteq> 1 \<Longrightarrow> sys_writev d tmp s = Some (Inr nl, s1) \<Longrightarrow>
     writev_loop d iov nb al t tmp own nl s = Some (Inr nb, s1)"
  "nl \<noteq> 0 \<Longrightarrow> length tmp \<noteq> 1 \<Longrightarrow> sys_writev d tmp s = Some (Inr n, s1) \<Longrightarrow> n \<noteq> nl \<Longrightarrow>
     next_unwritten (nb - (nl - n)) iov = Some (k, rest) \<Longrightarrow>
     writev_loop d iov nb al t tmp own nl s =
       (if own \<and> length rest > LOCAL_MAXIOV \<and> \<not> al then Some (Inl ENOMEM, s1)
        else Option.bind (st_netfd_poll d POLLOUT t s1) (\<lambda>(p, s2).
         case p of Inl e' \<Rightarrow> Some (Inl e', s2)
         | Inr u \<Rightarrow> writev_loop d iov nb al t (eat k (hd rest) # tl rest) False (nl - n) s2))"
  by (subst writev_loop.simps; simp)+

text \<open>What a writing call has done: a prefix of \<open>bs\<close> is out, and all of it if the call succeeds.\<close>

definition sent :: "int \<Rightarrow> byte list \<Rightarrow> bool \<Rightarrow> io \<Rightarrow> io \<Rightarrow> bool" where
  "sent d bs all s s' \<longleftrightarrow> mem s' = mem s \<and> io_in s' = io_in s \<and>
     (\<exists>k \<le> length bs. io_out s' = (io_out s)(d := io_out s d @ take k bs) \<and> (all \<longrightarrow> k = length bs))"

lemma sent_mono: "sent d bs all s s' \<Longrightarrow> (all' \<Longrightarrow> all) \<Longrightarrow> sent d bs all' s s'"
  unfolding sent_def by blast

lemma sent_none: "mem s' = mem s \<Longrightarrow> io_in s' = io_in s \<Longrightarrow> io_out s' = io_out s \<Longrightarrow> sent d bs False s s'"
  unfolding sent_def by (intro conjI exI [of _ 0]) auto

lemma sent_step:
  assumes "mem s1 = mem s" "io_in s1 = io_in s" "io_out s1 = (io_out s)(d := io_out s d @ take n bs)"
    and "sent d (drop n bs) all s1 s'" "n \<le> length bs"
  shows "sent d bs all s s'"
proof -
  obtain k where k: "k \<le> length (drop n bs)" "io_out s' = (io_out s1)(d := io_out s1 d @ take k (drop n bs))"
    "all \<longrightarrow> k = length (drop n bs)" "mem s' = mem s1" "io_in s' = io_in s1"
    using assms(4) unfolding sent_def by blast
  have "io_out s' = (io_out s)(d := io_out s d @ take (n + k) bs)"
    using k(2) assms(3) by (simp add: take_add)
  then show ?thesis using k assms(1,2,5) unfolding sent_def by (intro conjI exI [of _ "n + k"]) auto
qed

lemma write_sent: "st_write d buf n t s = Some (r, s') \<Longrightarrow> sent d (bytes_at (mem s) buf n) (\<exists>k. r = Inr k) s s'"
proof -
  assume "st_write d buf n t s = Some (r, s')"
  from write_run [OF this] obtain k where k: "k \<le> n" "io_out s' = (io_out s)(d := io_out s d @ bytes_at (mem s) buf k)"
    "mem s' = mem s" "io_in s' = io_in s" "\<forall>j. r = Inr j \<longrightarrow> j = n \<and> k = n" by blast
  moreover have "take k (bytes_at (mem s) buf n) = bytes_at (mem s) buf k" using bytes_at_split [OF k(1), of "mem s" buf] by simp
  ultimately show ?thesis unfolding sent_def by (intro conjI exI [of _ k]) auto
qed

lemma writev_loop_run:
  assumes "writev_loop d iov nb al t tmp own nl s = Some (r, s')"
    and "nb = iov_total iov" "nl \<le> nb" "iov_total tmp = nl" "gather (mem s) tmp = drop (nb - nl) (gather (mem s) iov)"
  shows "sent d (gather (mem s) tmp) (\<exists>k. r = Inr k) s s' \<and> (\<forall>k. r = Inr k \<longrightarrow> k = nb)"
  using assms
proof (induction "length (io_script s)" arbitrary: s tmp own nl rule: less_induct)
  case less
  note S = writev_loop_steps and run = less.prems(1)
  let ?Q = "\<lambda>s tmp. sent d (gather (mem s) tmp) (\<exists>k. r = Inr k) s s' \<and> (\<forall>k. r = Inr k \<longrightarrow> k = nb)"
  consider "nl = 0" | v where "nl \<noteq> 0" "tmp = [v]" | "nl \<noteq> 0" "length tmp \<noteq> 1"
    by (metis One_nat_def length_0_conv length_Suc_conv)
  then show ?case
  proof cases
    case 1
    then have "gather (mem s) tmp = []" using less.prems(4) by (metis length_0_conv length_gather)
    then show ?thesis using run S(1) [of d iov nb al t tmp own s] 1 by (auto simp: sent_def)
  next
    case 2
    obtain q s1 where w: "st_write d (iov_base v) nl t s = Some (q, s1)"
      using run S(2) [OF 2(1), of d iov nb al t v own s] 2(2) by (cases "st_write d (iov_base v) nl t s") auto
    then have r: "s' = s1" "r = (case q of Inl e \<Rightarrow> Inl e | Inr k \<Rightarrow> (if k = nl then Inr nb else Inl (EOTHER 0)))"
      using run S(2) [OF 2(1), of d iov nb al t v own s] 2(2) by auto
    have "gather (mem s) tmp = bytes_at (mem s) (iov_base v) nl" using 2 less.prems(4) by simp
    then show ?thesis
      using sent_mono [OF write_sent [OF w], of "\<exists>k. r = Inr k"] r by (auto split: sum.splits if_splits)
  next
    case 3
    obtain q s1 where c: "sys_writev d tmp s = Some (q, s1)"
      using run S(3) [OF 3] by (cases "sys_writev d tmp s") auto
    show ?thesis
    proof (cases q)
      case (Inl e)
      note C = sys_writev_run(2) [OF c [unfolded Inl]]
      have again: "?Q s tmp" if "writev_loop d iov nb al t tmp own nl s2 = Some (r, s')"
        "length (io_script s2) < length (io_script s)" "mem s2 = mem s" "io_in s2 = io_in s" "io_out s2 = io_out s" for s2
      proof -
        have "?Q s2 tmp" using less.hyps [OF that(2,1) less.prems(2-4)] less.prems(5) that(3) by simp
        then show ?thesis using that(3-5) by (simp add: sent_def)
      qed
      consider "e = EINTR" | "e = EAGAIN" | "e \<noteq> EINTR" "e \<noteq> EAGAIN" by blast
      then show ?thesis
      proof cases
        case 1
        then show ?thesis using again [of s1] run S(4) [OF 3] c Inl C by simp
      next
        case 2
        obtain p s2 where w: "st_netfd_poll d POLLOUT t s1 = Some (p, s2)"
          using run S(6) [OF 3] c Inl 2 by (cases "st_netfd_poll d POLLOUT t s1") auto
        note N = netfd_poll_run [OF w]
        show ?thesis
        proof (cases p)
          case (Inl e')
          then have "r = Inl e'" "s' = s2" using run S(6) [OF 3] c \<open>q = Inl e\<close> 2 w by auto
          then show ?thesis using C N sent_none [of s2 s] by simp
        next
          case (Inr u)
          then have "writev_loop d iov nb al t tmp own nl s2 = Some (r, s')"
            using run S(6) [OF 3] c \<open>q = Inl e\<close> 2 w by auto
          then show ?thesis using again [of s2] C N by simp
        qed
      next
        case e: 3
        then have "r = Inl e" "s' = s1" using run S(5) [OF 3 c [unfolded Inl]] by auto
        then show ?thesis using C sent_none [of s1 s] by simp
      qed
    next
      case (Inr n)
      note C = sys_writev_run(1) [OF c [unfolded Inr]]
      show ?thesis
      proof (cases "n = nl")
        case True
        then have "r = Inr nb" "s' = s1" using run S(7) [OF 3] c Inr by auto
        then show ?thesis using C True less.prems(4) by (auto simp: sent_def)
      next
        case False
        then have nl: "n < nl" using C less.prems(4) by simp
        then have "nb - (nl - n) < iov_total iov" using less.prems(2,3) by linarith
        then obtain k rest where nx: "next_unwritten (nb - (nl - n)) iov = Some (k, rest)"
          using next_unwritten_total by blast
        note X = next_unwritten_spec [OF nx, of "mem s"]
        note step = S(8) [OF 3 c [unfolded Inr] False nx]
        have part: "sent d (gather (mem s) tmp) False s s2"
          if "mem s2 = mem s1" "io_in s2 = io_in s1" "io_out s2 = io_out s1" for s2
          using C that less.prems(4) nl unfolding sent_def by (intro conjI exI [of _ n]) auto
        have tmp': "gather (mem s) (eat k (hd rest) # tl rest) = drop n (gather (mem s) tmp)"
          "iov_total (eat k (hd rest) # tl rest) = nl - n"
          using X less.prems(2,3,5) nl by (simp_all add: add.commute)
        show ?thesis
        proof (cases "own \<and> length rest > LOCAL_MAXIOV \<and> \<not> al")
          case True
          then have "r = Inl ENOMEM" "s' = s1" using run step by auto
          then show ?thesis using part [of s1] by simp
        next
          case alloc: False
          obtain p s2 where w: "st_netfd_poll d POLLOUT t s1 = Some (p, s2)"
            using run step alloc by (cases "st_netfd_poll d POLLOUT t s1") auto
          note N = netfd_poll_run [OF w]
          show ?thesis
          proof (cases p)
            case (Inl e')
            then have "r = Inl e'" "s' = s2" using run step alloc w by auto
            then show ?thesis using part [of s2] N by simp
          next
            case (Inr u)
            then have again: "writev_loop d iov nb al t (eat k (hd rest) # tl rest) False (nl - n) s2 = Some (r, s')"
              using run step alloc w by auto
            have m: "mem s2 = mem s" using C N by simp
            have "?Q s2 (eat k (hd rest) # tl rest)"
            proof (rule less.hyps [OF _ again less.prems(2)])
              show "length (io_script s2) < length (io_script s)" using C N by simp
              show "nl - n \<le> nb" using less.prems(3) by simp
              show "gather (mem s2) (eat k (hd rest) # tl rest) = drop (nb - (nl - n)) (gather (mem s2) iov)"
                using X m by simp
            qed (rule tmp'(2))
            then show ?thesis
              using sent_step [of s2 s d n "gather (mem s) tmp" "\<exists>k. r = Inr k" s'] C N tmp' less.prems(4) nl m by simp
          qed
        qed
      qed
    qed
  qed
qed

lemma write_one_live:
  assumes "io_script s = write_script ts nl @ rest"
  shows "\<exists>s'. st_write d buf nl t s = Some (Inr nl, s') \<and> io_script s' = rest"
proof -
  obtain dn' s' where r: "st_writev_resid d t [] [\<lparr>iov_base = buf, iov_len = nl\<rparr>] s = Some (Inr (), dn', [], s')"
    "io_script s' = rest"
    using write_resid_live [of s ts "\<lparr>iov_base = buf, iov_len = nl\<rparr>" rest d t "[]"] assms by fastforce
  then obtain k where w: "st_write d buf nl t s = Some (Inr k, s')"
    by (auto simp: st_write_def st_write_resid_def)
  have "k = nl" using write_run [OF w] by auto
  then show ?thesis using w r by blast
qed

lemma writev_loop_live:
  assumes "io_script s = write_script ts nl @ rest" "nl \<noteq> 0" "own \<Longrightarrow> al \<or> length iov \<le> LOCAL_MAXIOV"
    and "nb = iov_total iov" "nl \<le> nb" "iov_total tmp = nl"
  shows "\<exists>s'. writev_loop d iov nb al t tmp own nl s = Some (Inr nb, s') \<and> io_script s' = rest"
  using assms
proof (induction "length ts" arbitrary: ts nl s tmp own rule: less_induct)
  case less
  note S = writev_loop_steps [where d = d and iov = iov and nb = nb and al = al and t = t]
  show ?case
  proof (cases "length tmp = 1")
    case True
    then obtain v where tmp: "tmp = [v]" by (cases tmp) auto
    from write_one_live [OF less.prems(1), of d "iov_base v" t] show ?thesis
      using S(2) [OF less.prems(2), of v own s] tmp by auto
  next
    case ne: False
    have fin: "\<exists>s1. sys_writev d tmp s = Some (Inr nl, s1) \<and> io_script s1 = rest"
      if "io_script s = Moved nl # rest" using that less.prems(6) by (simp add: sys_writev_def)
    show ?thesis
    proof (cases ts)
      case Nil
      then show ?thesis using fin less.prems(1) S(7) [OF less.prems(2) ne, of s _ own] by auto
    next
      case (Cons x ts')
      have sh: "length ts' < length ts" using Cons by simp
      show ?thesis
      proof (cases x)
        case Interrupted
        then obtain s1 where c: "sys_writev d tmp s = Some (Inl EINTR, s1)" "io_script s1 = write_script ts' nl @ rest"
          using less.prems(1) Cons by (auto simp: sys_writev_def)
        then show ?thesis
          using less.hyps [OF sh c(2) less.prems(2-6)] S(4) [OF less.prems(2) ne c(1), of own] by auto
      next
        case Not_ready
        then obtain s1 s2 where c: "sys_writev d tmp s = Some (Inl EAGAIN, s1)"
          "st_netfd_poll d POLLOUT t s1 = Some (Inr (), s2)" "io_script s2 = write_script ts' nl @ rest"
          using less.prems(1) Cons by (auto simp: sys_writev_def st_netfd_poll_def)
        then show ?thesis
          using less.hyps [OF sh c(3) less.prems(2-6)] S(6) [OF less.prems(2) ne c(1), of own] by auto
      next
        case (Part k)
        show ?thesis
        proof (cases "k < nl")
          case False
          then show ?thesis
            using fin less.prems(1) Cons Part S(7) [OF less.prems(2) ne, of s _ own] by auto
        next
          case True
          then obtain s1 s2 where c: "sys_writev d tmp s = Some (Inr k, s1)"
            "st_netfd_poll d POLLOUT t s1 = Some (Inr (), s2)" "io_script s2 = write_script ts' (nl - k) @ rest"
            using less.prems(1,6) Cons Part by (auto simp: sys_writev_def st_netfd_poll_def)
          have lt: "nb - (nl - k) < iov_total iov" using less.prems(4,5) True by linarith
          then obtain j rs where nx: "next_unwritten (nb - (nl - k)) iov = Some (j, rs)"
            using next_unwritten_total by blast
          have al: "\<not> (own \<and> length rs > LOCAL_MAXIOV \<and> \<not> al)"
            using next_unwritten_length [OF nx] less.prems(3) by auto
          have tot: "iov_total (eat j (hd rs) # tl rs) = nl - k"
            using next_unwritten_spec [OF nx] less.prems(4,5) True by auto
          have "\<exists>s'. writev_loop d iov nb al t (eat j (hd rs) # tl rs) False (nl - k) s2 = Some (Inr nb, s') \<and>
              io_script s' = rest"
            by (rule less.hyps [OF sh c(3)]) (use True less.prems(4,5) tot in auto)
          then show ?thesis
            using S(8) [OF less.prems(2) ne c(1) _ nx, of own] c(2) al True by auto
        qed
      qed
    qed
  qed
qed

section \<open>One system call\<close>

definition same_data :: "io \<Rightarrow> io \<Rightarrow> bool" where
  "same_data s s' \<longleftrightarrow> mem s' = mem s \<and> io_in s' = io_in s \<and> io_out s' = io_out s"

text \<open>
  The loop ends with what the last call of the system gave; the calls before it, all of which failed,
  and the waits leave the data alone.
\<close>

lemma io_retry_run:
  assumes "io_retry call d how t s = Some (r, s')"
    and call: "\<And>s e s1. call s = Some (Inl e, s1) \<Longrightarrow>
      same_data s s1 \<and> io_polls s1 = io_polls s \<and> length (io_script s1) < length (io_script s)"
  shows "\<exists>s1. same_data s s1 \<and> waited d how t s s1 \<and>
    (case r of Inr x \<Rightarrow> call s1 = Some (Inr x, s') | Inl e \<Rightarrow> s' = s1)"
  using assms(1)
proof (induction "length (io_script s)" arbitrary: s rule: less_induct)
  case less
  note eq = io_retry.simps [of call d how t s] and run = less.prems
  have again: ?case if r: "io_retry call d how t s2 = Some (r, s')" and l: "length (io_script s2) < length (io_script s)"
      and d: "same_data s s2" and p: "\<And>s1. waited d how t s2 s1 \<Longrightarrow> waited d how t s s1" for s2
  proof -
    obtain s1 where "same_data s2 s1" "waited d how t s2 s1"
      "case r of Inr x \<Rightarrow> call s1 = Some (Inr x, s') | Inl e \<Rightarrow> s' = s1" using less.hyps [OF l r] by blast
    then show ?thesis using d p by (intro exI [of _ s1]) (simp add: same_data_def)
  qed
  obtain q s1 where c: "call s = Some (q, s1)" using run by (cases "call s") (auto simp: eq)
  show ?case
  proof (cases q)
    case (Inr x)
    then have "r = Inr x" "s' = s1" using run c by (auto simp: eq)
    then show ?thesis using c Inr by (intro exI [of _ s]) (simp add: same_data_def)
  next
    case (Inl e)
    note C = call [OF c [unfolded Inl]]
    have w1: "waited d how t s s2 \<longleftrightarrow> waited d how t s1 s2" for s2 using C by (simp add: waited_def)
    consider "e = EINTR" | "e = EAGAIN" | "e \<noteq> EINTR" "e \<noteq> EAGAIN" by blast
    then show ?thesis
    proof cases
      case 1
      then have "io_retry call d how t s1 = Some (r, s')" using run c Inl by (auto simp: eq)
      then show ?thesis by (rule again) (use C w1 in simp_all)
    next
      case 2
      obtain p s2 where w: "st_netfd_poll d how t s1 = Some (p, s2)"
        using run c Inl 2 by (cases "st_netfd_poll d how t s1") (auto simp: eq)
      note N = netfd_poll_run [OF w]
      have d2: "same_data s s2" using C N by (simp add: same_data_def)
      have w2: "waited d how t s s'' " if "waited d how t s2 s''" for s''
        by (rule waited_step [OF _ that]) (use C N in simp)
      show ?thesis
      proof (cases p)
        case (Inl e')
        then have "r = Inl e'" "s' = s2" using run c \<open>q = Inl e\<close> 2 w by (auto simp: eq)
        then show ?thesis using d2 w2 [OF waited_refl] by (intro exI [of _ s2]) simp
      next
        case (Inr u)
        then have "io_retry call d how t s2 = Some (r, s')" using run c \<open>q = Inl e\<close> 2 w by (auto simp: eq)
        then show ?thesis by (rule again) (use C N d2 w2 in simp_all)
      qed
    next
      case 3
      then have "r = Inl e" "s' = s1" using run c Inl by (auto simp: eq)
      then show ?thesis using C w1 by (intro exI [of _ s1]) simp
    qed
  qed
qed

section \<open>Reading into one buffer\<close>

lemma store_store: "store bs' (a + length bs) (store bs a m) = store (bs @ bs') a m"
  by (rule ext) (auto simp: store_def nth_append)

lemma sys_read_one:
  assumes "sys_readv d [v] s = Some (Inr n, s1)"
  shows "\<exists>bs. length bs = n \<and> n \<le> iov_len v \<and> mem s1 = store bs (iov_base v) (mem s) \<and> io_out s1 = io_out s \<and>
    io_in s1 = (io_in s)(d := io_in s d @ bs) \<and> io_polls s1 = io_polls s \<and>
    length (io_script s1) < length (io_script s)"
  using sys_readv_run(1) [OF assms] by auto

lemma iov_advance_one:
  "n \<le> iov_len v \<Longrightarrow> iov_advance n dn [v] =
     Some (if n = iov_len v then (0, dn @ [eat n v], []) else (n, dn, [v]))"
  by simp

lemma eat_eat: "eat j (eat k v) = eat (k + j) v"
  by (simp add: eat_def)

lemma readv_resid_steps:
  "st_readv_resid d t dn [] s = Some (Inr (), dn, [], s)"
  "sys_readv d [v] s = None \<Longrightarrow> st_readv_resid d t dn [v] s = None"
  "sys_readv d [v] s = Some (Inl EINTR, s1) \<Longrightarrow> st_readv_resid d t dn [v] s = st_readv_resid d t dn [v] s1"
  "sys_readv d [v] s = Some (Inl e, s1) \<Longrightarrow> e \<noteq> EINTR \<Longrightarrow> e \<noteq> EAGAIN \<Longrightarrow>
     st_readv_resid d t dn [v] s = Some (Inl e, dn, [v], s1)"
  "sys_readv d [v] s = Some (Inl EAGAIN, s1) \<Longrightarrow> st_readv_resid d t dn [v] s =
     Option.bind (st_netfd_poll d POLLIN t s1) (\<lambda>(p, s2).
       case p of Inl e' \<Rightarrow> Some (Inl e', dn, [v], s2) | Inr u \<Rightarrow> st_readv_resid d t dn [v] s2)"
  "sys_readv d [v] s = Some (Inr 0, s1) \<Longrightarrow> st_readv_resid d t dn [v] s = Some (Inr (), dn, [v], s1)"
  "sys_readv d [v] s = Some (Inr n, s1) \<Longrightarrow> n \<noteq> 0 \<Longrightarrow> n = iov_len v \<Longrightarrow>
     st_readv_resid d t dn [v] s = Some (Inr (), dn @ [eat n v], [], s1)"
  "sys_readv d [v] s = Some (Inr n, s1) \<Longrightarrow> n \<noteq> 0 \<Longrightarrow> n < iov_len v \<Longrightarrow>
     st_readv_resid d t dn [v] s =
       Option.bind (st_netfd_poll d POLLIN t s1) (\<lambda>(p, s2).
         case p of Inl e' \<Rightarrow> Some (Inl e', dn, [eat n v], s2)
         | Inr u \<Rightarrow> st_readv_resid d t dn [eat n v] s2)"
  by (subst st_readv_resid.simps; simp)+

text \<open>What has been read so far into a buffer.\<close>

definition received :: "int \<Rightarrow> nat \<Rightarrow> byte list \<Rightarrow> io \<Rightarrow> io \<Rightarrow> bool" where
  "received d buf bs s s' \<longleftrightarrow> mem s' = store bs buf (mem s) \<and> io_out s' = io_out s \<and>
     io_in s' = (io_in s)(d := io_in s d @ bs)"

lemma received_trans:
  "received d buf bs s s1 \<Longrightarrow> received d (buf + length bs) bs' s1 s' \<Longrightarrow> received d buf (bs @ bs') s s'"
  by (simp add: received_def store_store)

lemma received_Nil: "received d buf [] s s' \<longleftrightarrow> same_data s s'"
  by (auto simp: received_def same_data_def)

lemma readv_resid_run:
  assumes "st_readv_resid d t dn [v] s = Some (r, dn', td', s')"
  shows "\<exists>bs. received d (iov_base v) bs s s' \<and> length bs \<le> iov_len v \<and>
    dn' @ td' = dn @ [eat (length bs) v] \<and> waited d POLLIN t s s'"
  using assms
proof (induction "length (io_script s)" arbitrary: s v rule: less_induct)
  case less
  note S = readv_resid_steps and run = less.prems
  have again: ?case if r: "st_readv_resid d t dn [eat (length bs) v] s2 = Some (r, dn', td', s')"
    and l: "length (io_script s2) < length (io_script s)" and d: "received d (iov_base v) bs s s2"
    and n: "length bs \<le> iov_len v" and p: "\<And>s1. waited d POLLIN t s2 s1 \<Longrightarrow> waited d POLLIN t s s1" for s2 bs
  proof -
    obtain bs' where B: "received d (iov_base v + length bs) bs' s2 s'" "length bs' \<le> iov_len v - length bs"
      "dn' @ td' = dn @ [eat (length bs') (eat (length bs) v)]" "waited d POLLIN t s2 s'"
      using less.hyps [OF l r] by auto
    show ?thesis using received_trans [OF d B(1)] B(2-4) n p by (intro exI [of _ "bs @ bs'"]) (simp add: eat_eat)
  qed
  obtain q s1 where c: "sys_readv d [v] s = Some (q, s1)" using run S(2) by (cases "sys_readv d [v] s") auto
  have e0: "eat 0 v = v" by (simp add: eat_def)
  show ?case
  proof (cases q)
    case (Inl e)
    note C = sys_readv_run(2) [OF c [unfolded Inl]]
    have w1: "waited d POLLIN t s s2 \<longleftrightarrow> waited d POLLIN t s1 s2" for s2 using C by (simp add: waited_def)
    have d1: "received d (iov_base v) [] s s1" using C by (simp add: received_Nil same_data_def)
    consider "e = EINTR" | "e = EAGAIN" | "e \<noteq> EINTR" "e \<noteq> EAGAIN" by blast
    then show ?thesis
    proof cases
      case 1
      then have "st_readv_resid d t dn [v] s1 = Some (r, dn', td', s')" using run S(3) c Inl by simp
      then show ?thesis using again [of "[]" s1] C w1 d1 e0 by simp
    next
      case 2
      obtain p s2 where w: "st_netfd_poll d POLLIN t s1 = Some (p, s2)"
        using run S(5) c Inl 2 by (cases "st_netfd_poll d POLLIN t s1") auto
      note N = netfd_poll_run [OF w]
      have d2: "received d (iov_base v) [] s s2" using C N by (simp add: received_Nil same_data_def)
      have w2: "waited d POLLIN t s s''" if "waited d POLLIN t s2 s''" for s''
        by (rule waited_step [OF _ that]) (use C N in simp)
      show ?thesis
      proof (cases p)
        case (Inl e')
        then have "s' = s2" "dn' = dn" "td' = [v]" using run S(5) c \<open>q = Inl e\<close> 2 w by auto
        then show ?thesis using d2 w2 [OF waited_refl] e0 by (intro exI [of _ "[]"]) simp
      next
        case (Inr u)
        then have "st_readv_resid d t dn [v] s2 = Some (r, dn', td', s')" using run S(5) c \<open>q = Inl e\<close> 2 w by simp
        then show ?thesis using again [of "[]" s2] C N d2 w2 e0 by simp
      qed
    next
      case 3
      then have "s' = s1" "dn' = dn" "td' = [v]" using run S(4) [OF c [unfolded Inl]] by auto
      then show ?thesis using d1 w1 e0 by (intro exI [of _ "[]"]) simp
    qed
  next
    case (Inr n)
    obtain bs where B: "length bs = n" "n \<le> iov_len v" "received d (iov_base v) bs s s1" "io_polls s1 = io_polls s"
      "length (io_script s1) < length (io_script s)"
      using sys_read_one [OF c [unfolded Inr]] by (auto simp: received_def)
    have w1: "waited d POLLIN t s s2 \<longleftrightarrow> waited d POLLIN t s1 s2" for s2 using B by (simp add: waited_def)
    consider "n = 0" | "n \<noteq> 0" "n = iov_len v" | "n \<noteq> 0" "n < iov_len v" using B by linarith
    then show ?thesis
    proof cases
      case 1
      then have "s' = s1" "dn' = dn" "td' = [v]" using run S(6) c Inr by auto
      then show ?thesis using B 1 w1 e0 by (intro exI [of _ bs]) simp
    next
      case 2
      then have "s' = s1" "dn' = dn @ [eat n v]" "td' = []" using run S(7) c Inr by auto
      then show ?thesis using B w1 by (intro exI [of _ bs]) simp
    next
      case 3
      note step = S(8) [OF c [unfolded Inr] 3]
      obtain p s2 where w: "st_netfd_poll d POLLIN t s1 = Some (p, s2)"
        using run step by (cases "st_netfd_poll d POLLIN t s1") auto
      note N = netfd_poll_run [OF w]
      have d2: "received d (iov_base v) bs s s2" using B N by (simp add: received_def)
      have w2: "waited d POLLIN t s s''" if "waited d POLLIN t s2 s''" for s''
        by (rule waited_step [OF _ that]) (use B N in simp)
      show ?thesis
      proof (cases p)
        case (Inl e')
        then have "s' = s2" "dn' = dn" "td' = [eat n v]" using run step w by auto
        then show ?thesis using d2 w2 [OF waited_refl] B by (intro exI [of _ bs]) simp
      next
        case (Inr u)
        then have "st_readv_resid d t dn [eat (length bs) v] s2 = Some (r, dn', td', s')" using run step w B by simp
        then show ?thesis using again [of bs s2] B N d2 w2 by simp
      qed
    qed
  qed
qed

text \<open>
  A script in which data keeps coming: it arrives in pieces, until the buffer is full or an empty
  piece, the end of the file, arrives.
\<close>

datatype rturn = R_interrupted | R_not_ready | R_bytes "byte list"

fun read_script :: "rturn list \<Rightarrow> nat \<Rightarrow> io_event list" where
  "read_script [] n = [Bytes []]"
| "read_script (R_interrupted # ts) n = Failed EINTR # read_script ts n"
| "read_script (R_not_ready # ts) n = Failed EAGAIN # Polled (Inr (1, POLLIN)) # read_script ts n"
| "read_script (R_bytes bs # ts) n =
     (if bs = [] then [Bytes []]
      else if length bs < n then Bytes bs # Polled (Inr (1, POLLIN)) # read_script ts (n - length bs)
      else [Bytes (take n bs)])"

fun read_data :: "rturn list \<Rightarrow> nat \<Rightarrow> byte list" where
  "read_data [] n = []"
| "read_data (R_interrupted # ts) n = read_data ts n"
| "read_data (R_not_ready # ts) n = read_data ts n"
| "read_data (R_bytes bs # ts) n =
     (if bs = [] then [] else if length bs < n then bs @ read_data ts (n - length bs) else take n bs)"

lemma read_resid_live:
  "io_script s = read_script ts (iov_len v) @ rest \<Longrightarrow>
     \<exists>dn' td' s'. st_readv_resid d t dn [v] s = Some (Inr (), dn', td', s') \<and> io_script s' = rest \<and>
       io_in s' = (io_in s)(d := io_in s d @ read_data ts (iov_len v))"
proof (induction ts arbitrary: s v)
  case Nil
  then obtain s1 where "sys_readv d [v] s = Some (Inr 0, s1)" "io_script s1 = rest" "io_in s1 = io_in s"
    by (auto simp: sys_readv_def)
  then show ?case using readv_resid_steps(6) [of d v s s1 t dn] by auto
next
  case (Cons x ts)
  show ?case
  proof (cases x)
    case R_interrupted
    then obtain s1 where "sys_readv d [v] s = Some (Inl EINTR, s1)" "io_in s1 = io_in s"
      "io_script s1 = read_script ts (iov_len v) @ rest"
      using Cons.prems by (auto simp: sys_readv_def)
    then show ?thesis using readv_resid_steps(3) [of d v s s1 t dn] Cons.IH [of s1 v] R_interrupted by simp
  next
    case R_not_ready
    then obtain s1 where s1: "sys_readv d [v] s = Some (Inl EAGAIN, s1)" "io_in s1 = io_in s"
        "io_script s1 = Polled (Inr (1, POLLIN)) # read_script ts (iov_len v) @ rest"
      using Cons.prems by (auto simp: sys_readv_def)
    then obtain s2 where "st_netfd_poll d POLLIN t s1 = Some (Inr (), s2)" "io_in s2 = io_in s1"
        "io_script s2 = read_script ts (iov_len v) @ rest"
      using poll_ok [OF s1(3), of d POLLIN t] by auto
    with s1 show ?thesis using readv_resid_steps(5) [of d v s s1 t dn] Cons.IH [of s2 v] R_not_ready by simp
  next
    case (R_bytes bs)
    consider "bs = []" | "bs \<noteq> []" "length bs < iov_len v" | "bs \<noteq> []" "\<not> length bs < iov_len v" by blast
    then show ?thesis
    proof cases
      case 1
      then obtain s1 where "sys_readv d [v] s = Some (Inr 0, s1)" "io_script s1 = rest" "io_in s1 = io_in s"
        using Cons.prems R_bytes by (auto simp: sys_readv_def)
      then show ?thesis using readv_resid_steps(6) [of d v s s1 t dn] R_bytes 1 by auto
    next
      case 2
      then obtain s1 where s1: "sys_readv d [v] s = Some (Inr (length bs), s1)"
          "io_in s1 = (io_in s)(d := io_in s d @ bs)"
          "io_script s1 = Polled (Inr (1, POLLIN)) # read_script ts (iov_len (eat (length bs) v)) @ rest"
        using Cons.prems R_bytes by (auto simp: sys_readv_def)
      then obtain s2 where "st_netfd_poll d POLLIN t s1 = Some (Inr (), s2)" "io_in s2 = io_in s1"
          "io_script s2 = read_script ts (iov_len (eat (length bs) v)) @ rest"
        using poll_ok [OF s1(3), of d POLLIN t] by auto
      with s1 show ?thesis
        using readv_resid_steps(8) [of d v s "length bs" s1 t dn] Cons.IH [of s2 "eat (length bs) v"] R_bytes 2
        by (auto simp: fun_eq_iff)
    next
      case 3
      then obtain s1 where s1: "sys_readv d [v] s = Some (Inr (iov_len v), s1)" "io_script s1 = rest"
        "io_in s1 = (io_in s)(d := io_in s d @ take (iov_len v) bs)"
        using Cons.prems R_bytes by (auto simp: sys_readv_def)
      show ?thesis
      proof (cases "iov_len v = 0")
        case True
        then show ?thesis using readv_resid_steps(6) [of d v s s1 t dn] s1 R_bytes 3 by auto
      next
        case False
        then show ?thesis using readv_resid_steps(7) [of d v s "iov_len v" s1 t dn] s1 R_bytes 3 by auto
      qed
    qed
  qed
qed

section \<open>Properties\<close>

definition demo_io :: "io_event list \<Rightarrow> io" where
  "demo_io es = \<lparr>mem = (\<lambda>a. word_of_nat a), io_script = es, io_in = (\<lambda>_. []), io_out = (\<lambda>_. []), io_polls = []\<rparr>"

text \<open>
  C15: Whatever \<open>st_write\<close> returns, the descriptor has got a prefix of the buffer, once and in order;
  without an error it returns the full count and the whole buffer is out. Memory is not changed, and
  all waits are for writability with the timeout of the caller.
\<close>

theorem st_write_correct:
  assumes "st_write d buf n timeout s = Some (r, s')"
  shows "(\<exists>k \<le> n. io_out s' = (io_out s)(d := io_out s d @ bytes_at (mem s) buf k) \<and> (\<forall>j. r = Inr j \<longrightarrow> j = n \<and> k = n)) \<and>
    mem s' = mem s \<and> (\<exists>m. io_polls s' = io_polls s @ replicate m (d, POLLOUT, timeout))"
  using write_run [OF assms] by (auto simp: waited_def)

text \<open>
  C16: When the system goes on moving data, with any number of interruptions, waits and partial writes
  in between, \<open>st_write\<close> returns the full count with the whole buffer handed over.
\<close>

theorem st_write_progress:
  assumes "io_script s = write_script ts n @ rest"
  shows "\<exists>s'. st_write d buf n timeout s = Some (Inr n, s') \<and> io_script s' = rest \<and>
    io_out s' = (io_out s)(d := io_out s d @ bytes_at (mem s) buf n)"
proof -
  obtain s' where w: "st_write d buf n timeout s = Some (Inr n, s')" "io_script s' = rest"
    using write_one_live [OF assms] by blast
  then show ?thesis using write_run [OF w(1)] by blast
qed

lemma st_write_progress_witness:
  "\<exists>s'. st_write 4 10 3 0 (demo_io [Failed EINTR, Moved 1, Polled (Inr (1, POLLOUT)), Failed EAGAIN,
      Polled (Inr (1, POLLOUT)), Moved 2]) = Some (Inr 3, s') \<and> io_script s' = [] \<and> io_out s' 4 = [10, 11, 12]"
proof -
  have "io_script (demo_io [Failed EINTR, Moved 1, Polled (Inr (1, POLLOUT)), Failed EAGAIN,
      Polled (Inr (1, POLLOUT)), Moved 2]) = write_script [Interrupted, Part 1, Not_ready] 3 @ []"
    by (simp add: demo_io_def)
  from st_write_progress [OF this, of 4 10 0] show ?thesis
    by (auto simp: demo_io_def bytes_at_def numeral_3_eq_3)
qed

lemma st_write_correct_witness:
  "\<exists>s'. st_write 4 10 3 7 (demo_io [Moved 1, Polled (Inl EINTR)]) = Some (Inl EINTR, s') \<and>
     io_out s' 4 = [10] \<and> io_polls s' = [(4, POLLOUT, 7)]"
proof -
  let ?s = "demo_io [Moved 1, Polled (Inl EINTR)]" let ?v = "\<lparr>iov_base = 10, iov_len = 3\<rparr>"
  let ?s1 = "?s\<lparr>io_script := [Polled (Inl EINTR)], io_out := (\<lambda>_. [])(4 := [10])\<rparr>"
  let ?s2 = "?s1\<lparr>io_script := [], io_polls := [(4, POLLOUT, 7)]\<rparr>"
  have "sys_writev 4 [?v] ?s = Some (Inr 1, ?s1)" by (simp add: sys_writev_def demo_io_def bytes_at_def numeral_3_eq_3)
  then have "st_writev_resid 4 7 [] [?v] ?s = Some (Inl EINTR, [], [eat 1 ?v], ?s2)"
    using writev_resid_steps(7) [of "[?v]" 4 ?s 1 ?s1 "[]" 1 "[]" ?v "[]" 7]
    by (simp add: st_netfd_poll_def demo_io_def)
  then have w: "st_write 4 10 3 7 ?s = Some (Inl EINTR, ?s2)" by (simp add: st_write_def st_write_resid_def)
  from st_write_correct [OF this] w show ?thesis by (auto simp: demo_io_def)
qed

text \<open>
  C17: \<open>st_writev\<close>, which rebuilds its array of vectors after every partial write, sends the same
  bytes as one write of the concatenated vectors: a prefix in case of an error, everything otherwise.
\<close>

theorem st_writev_correct:
  assumes "st_writev d iov alloc timeout s = Some (r, s')"
  shows "(\<exists>k \<le> iov_total iov. io_out s' = (io_out s)(d := io_out s d @ take k (gather (mem s) iov)) \<and>
      (\<forall>j. r = Inr j \<longrightarrow> j = iov_total iov \<and> k = iov_total iov)) \<and> mem s' = mem s"
  using writev_loop_run [of d iov "iov_total iov" alloc timeout iov True "iov_total iov" s r s'] assms
  by (auto simp: st_writev_def sent_def)

text \<open>
  C18: When the system goes on moving data, \<open>st_writev\<close> returns the total length of the vectors with all
  of their bytes handed over in order; an allocation is needed only for more than sixteen vectors.
\<close>

theorem st_writev_progress:
  assumes "io_script s = write_script ts (iov_total iov) @ rest" "iov_total iov \<noteq> 0"
    and "alloc \<or> length iov \<le> LOCAL_MAXIOV"
  shows "\<exists>s'. st_writev d iov alloc timeout s = Some (Inr (iov_total iov), s') \<and> io_script s' = rest \<and>
    io_out s' = (io_out s)(d := io_out s d @ gather (mem s) iov)"
proof -
  obtain s' where w: "st_writev d iov alloc timeout s = Some (Inr (iov_total iov), s')" "io_script s' = rest"
    using writev_loop_live [OF assms(1,2) _ refl order.refl refl, of True alloc d timeout] assms(3)
    by (auto simp: st_writev_def)
  moreover have "sent d (gather (mem s) iov) True s s'"
    using writev_loop_run [of d iov "iov_total iov" alloc timeout iov True "iov_total iov" s "Inr (iov_total iov)" s'] w
    by (simp add: st_writev_def)
  ultimately show ?thesis by (auto simp: sent_def)
qed

text \<open>
  C19: \<open>st_read_fully\<close> returns the number of bytes it took from the descriptor; they are in the buffer
  from its start on, and no byte behind them, or outside the buffer, is changed.
\<close>

theorem st_read_fully_correct:
  assumes "st_read_fully d buf n timeout s = Some (r, s')"
  shows "\<exists>bs. length bs \<le> n \<and> io_in s' = (io_in s)(d := io_in s d @ bs) \<and>
    bytes_at (mem s') buf (length bs) = bs \<and> (\<forall>a. a < buf \<or> buf + length bs \<le> a \<longrightarrow> mem s' a = mem s a) \<and>
    (\<forall>k. r = Inr k \<longrightarrow> k = length bs)"
proof -
  let ?v = "\<lparr>iov_base = buf, iov_len = n\<rparr>"
  obtain q dn td where run: "st_readv_resid d timeout [] [?v] s = Some (q, dn, td, s')"
    and r: "r = (case q of Inl e \<Rightarrow> Inl e | Inr u \<Rightarrow> Inr (n - iov_len (hd (dn @ td))))"
    using assms by (auto simp: st_read_fully_def st_read_resid_def)
  obtain bs where bs: "received d buf bs s s'" "length bs \<le> n" "dn @ td = [eat (length bs) ?v]"
    using readv_resid_run [OF run] by auto
  then have "\<forall>k. r = Inr k \<longrightarrow> k = length bs" using r by (cases q) auto
  then show ?thesis using bs by (intro exI [of _ bs]) (auto simp: received_def store_outside)
qed

text \<open>
  C20: When data keeps arriving, \<open>st_read_fully\<close> returns with the buffer full, or with everything up to
  the end of the file.
\<close>

theorem st_read_fully_progress:
  assumes "io_script s = read_script ts n @ rest"
  shows "\<exists>s'. st_read_fully d buf n timeout s = Some (Inr (length (read_data ts n)), s') \<and> io_script s' = rest \<and>
    bytes_at (mem s') buf (length (read_data ts n)) = read_data ts n"
proof -
  obtain dn td s' where run: "st_readv_resid d timeout [] [\<lparr>iov_base = buf, iov_len = n\<rparr>] s = Some (Inr (), dn, td, s')"
    "io_script s' = rest" "io_in s' = (io_in s)(d := io_in s d @ read_data ts n)"
    using read_resid_live [of s ts "\<lparr>iov_base = buf, iov_len = n\<rparr>" rest d timeout "[]"] assms by fastforce
  obtain bs where bs: "received d buf bs s s'" "length bs \<le> n" "dn @ td = [eat (length bs) \<lparr>iov_base = buf, iov_len = n\<rparr>]"
    using readv_resid_run [OF run(1)] by auto
  have "bs = read_data ts n" using bs(1) run(3) by (auto simp: received_def fun_eq_iff split: if_splits)
  then show ?thesis
    using bs run by (auto simp: st_read_fully_def st_read_resid_def received_def)
qed

lemma st_read_fully_progress_witness:
  "\<exists>s'. st_read_fully 4 10 3 0 (demo_io [Bytes [1, 2], Polled (Inr (1, POLLIN)), Failed EAGAIN,
      Polled (Inr (1, POLLIN)), Bytes [3]]) = Some (Inr 3, s') \<and> bytes_at (mem s') 10 3 = [1, 2, 3]"
proof -
  have "io_script (demo_io [Bytes [1, 2], Polled (Inr (1, POLLIN)), Failed EAGAIN,
      Polled (Inr (1, POLLIN)), Bytes [3]]) = read_script [R_bytes [1, 2], R_not_ready, R_bytes [3, 4]] 3 @ []"
    by (simp add: demo_io_def)
  from st_read_fully_progress [OF this, of 4 10 0] show ?thesis by (auto simp: numeral_3_eq_3)
qed

lemma st_writev_correct_witness:
  "\<exists>s'. st_writev 4 [\<lparr>iov_base = 10, iov_len = 1\<rparr>, \<lparr>iov_base = 20, iov_len = 2\<rparr>] True 7
      (demo_io [Moved 2, Polled (Inl EINTR)]) = Some (Inl EINTR, s') \<and>
     (\<exists>k \<le> 3. io_out s' 4 = take k [10, 20, 21])"
proof -
  let ?s = "demo_io [Moved 2, Polled (Inl EINTR)]"
  let ?iov = "[\<lparr>iov_base = 10, iov_len = 1\<rparr>, \<lparr>iov_base = 20, iov_len = 2\<rparr>]"
  let ?s1 = "?s\<lparr>io_script := [Polled (Inl EINTR)], io_out := (\<lambda>_. [])(4 := [10, 20])\<rparr>"
  let ?s2 = "?s1\<lparr>io_script := [], io_polls := [(4, POLLOUT, 7)]\<rparr>"
  have g: "gather (mem ?s) ?iov = [10, 20, 21]"
    by (simp add: demo_io_def bytes_at_def numeral_2_eq_2)
  have c: "sys_writev 4 ?iov ?s = Some (Inr 2, ?s1)"
    by (simp add: sys_writev_def g) (simp add: demo_io_def bytes_at_def numeral_2_eq_2)
  have w: "st_writev 4 ?iov True 7 ?s = Some (Inl EINTR, ?s2)"
    using writev_loop_steps(8) [of 3 ?iov 4 ?s 2 ?s1 3 ?iov 1 "[\<lparr>iov_base = 20, iov_len = 2\<rparr>]" True 7 True] c
    by (simp add: st_writev_def st_netfd_poll_def demo_io_def numeral_3_eq_3)
  obtain k where k: "k \<le> iov_total ?iov" "io_out ?s2 = (io_out ?s)(4 := io_out ?s 4 @ take k [10, 20, 21])"
    using st_writev_correct [OF w] unfolding g by auto
  have "io_out ?s2 4 = take k [10, 20, 21]" using arg_cong [OF k(2), of "\<lambda>f. f 4"] by (simp add: demo_io_def)
  then show ?thesis using w k(1) by (intro exI [of _ ?s2]) (auto intro: exI [of _ k])
qed

lemma st_writev_progress_witness:
  "\<exists>s'. st_writev 4 [\<lparr>iov_base = 10, iov_len = 1\<rparr>, \<lparr>iov_base = 20, iov_len = 2\<rparr>] False 7
      (demo_io [Moved 2, Polled (Inr (1, POLLOUT)), Moved 1]) = Some (Inr 3, s') \<and> io_out s' 4 = [10, 20, 21]"
proof -
  let ?s = "demo_io [Moved 2, Polled (Inr (1, POLLOUT)), Moved 1]"
  let ?iov = "[\<lparr>iov_base = 10, iov_len = 1\<rparr>, \<lparr>iov_base = 20, iov_len = 2\<rparr>]"
  have g: "gather (mem ?s) ?iov = [10, 20, 21]"
    by (simp add: demo_io_def bytes_at_def numeral_2_eq_2)
  have "io_script ?s = write_script [Part 2] (iov_total ?iov) @ []" by (simp add: demo_io_def)
  from st_writev_progress [OF this, of False 4 7] show ?thesis
    unfolding g by (auto simp: demo_io_def LOCAL_MAXIOV_def)
qed

lemma st_read_fully_correct_witness:
  "\<exists>s'. st_read_fully 4 10 3 7 (demo_io [Bytes [1, 2], Polled (Inl ETIME)]) = Some (Inl ETIME, s') \<and>
     (\<exists>bs. length bs \<le> 3 \<and> io_in s' 4 = bs \<and> bytes_at (mem s') 10 (length bs) = bs)"
proof -
  let ?s = "demo_io [Bytes [1, 2], Polled (Inl ETIME)]" let ?v = "\<lparr>iov_base = 10, iov_len = 3\<rparr>"
  let ?s1 = "?s\<lparr>io_script := [Polled (Inl ETIME)], mem := store [1, 2] 10 (mem ?s), io_in := (\<lambda>_. [])(4 := [1, 2])\<rparr>"
  let ?s2 = "?s1\<lparr>io_script := [], io_polls := [(4, POLLIN, 7)]\<rparr>"
  have "sys_readv 4 [?v] ?s = Some (Inr 2, ?s1)" by (simp add: sys_readv_def demo_io_def)
  then have w: "st_read_fully 4 10 3 7 ?s = Some (Inl ETIME, ?s2)"
    using readv_resid_steps(8) [of 4 ?v ?s 2 ?s1 7 "[]"]
    by (simp add: st_read_fully_def st_read_resid_def st_netfd_poll_def demo_io_def)
  obtain bs where bs: "length bs \<le> 3" "io_in ?s2 = (io_in ?s)(4 := io_in ?s 4 @ bs)"
    "bytes_at (mem ?s2) 10 (length bs) = bs"
    using st_read_fully_correct [OF w] by auto
  moreover have "io_in ?s2 4 = bs" using arg_cong [OF bs(2), of "\<lambda>f. f 4"] by (simp add: demo_io_def)
  ultimately show ?thesis using w by (intro exI [of _ ?s2]) blast
qed

end
