(* ===== verification/ST_IoConn.thy ===== *)
theory ST_IoConn
  imports ST_IoLaws
begin

text \<open>
  Correctness of \<open>st_read\<close>, of \<open>st_connect\<close> after an interruption, and of the pipe that serialises
  \<open>st_accept\<close>.
\<close>

section \<open>One read\<close>

lemma sys_read_eq: "sys_read d buf n = sys_readv d [\<lparr>iov_base = buf, iov_len = n\<rparr>]"
  by (simp add: sys_read_def)

lemma read_run:
  assumes "st_read d buf n t s = Some (r, s')"
  shows "waited d POLLIN t s s' \<and>
    (case r of Inl e \<Rightarrow> same_data s s' | Inr k \<Rightarrow> k \<le> n \<and> (\<exists>bs. length bs = k \<and> received d buf bs s s'))"
proof -
  obtain s1 where s1: "same_data s s1" "waited d POLLIN t s s1"
    "case r of Inr x \<Rightarrow> sys_read d buf n s1 = Some (Inr x, s') | Inl e \<Rightarrow> s' = s1"
    using io_retry_run [OF assms [unfolded st_read_def]] sys_readv_run(2)
    by (auto simp: sys_read_def same_data_def)
  show ?thesis
  proof (cases r)
    case (Inl e)
    then show ?thesis using s1 by simp
  next
    case (Inr k)
    obtain bs where bs: "length bs = k" "k \<le> n" "mem s' = store bs buf (mem s1)" "io_out s' = io_out s1"
      "io_in s' = (io_in s1)(d := io_in s1 d @ bs)" "io_polls s' = io_polls s1"
      using sys_read_one [of d "\<lparr>iov_base = buf, iov_len = n\<rparr>" s1 k s'] s1(3) Inr by (auto simp: sys_read_def)
    then have "received d buf bs s s'" "waited d POLLIN t s s'"
      using s1(1,2) by (simp_all add: received_def same_data_def waited_def)
    then show ?thesis using Inr bs by auto
  qed
qed

text \<open>
  \<open>st_read\<close> makes one successful read: what the descriptor delivered is in the buffer, at most the
  count asked for, and nothing else is changed; after an error nothing has been taken from the
  descriptor. It waits only for readability, with the timeout of the caller.
\<close>

theorem st_read_correct:
  assumes "st_read d buf n timeout s = Some (r, s')"
  shows "(case r of
      Inl e \<Rightarrow> mem s' = mem s \<and> io_in s' = io_in s
    | Inr k \<Rightarrow> k \<le> n \<and> (\<exists>bs. length bs = k \<and> io_in s' = (io_in s)(d := io_in s d @ bs) \<and>
        mem s' = store bs buf (mem s))) \<and>
    io_out s' = io_out s \<and> (\<exists>m. io_polls s' = io_polls s @ replicate m (d, POLLIN, timeout))"
  using read_run [OF assms] by (auto simp: received_def same_data_def waited_def split: sum.splits)

lemma st_read_correct_witness:
  "\<exists>s'. st_read 4 10 3 7 (demo_io [Failed EINTR, Bytes [5]]) = Some (Inr 1, s') \<and> io_in s' 4 \<noteq> []"
proof -
  let ?s = "demo_io [Failed EINTR, Bytes [5]]"
  let ?s1 = "demo_io [Bytes [5]]"
  let ?s2 = "?s1\<lparr>io_script := [], mem := store [5] 10 (mem ?s1), io_in := (\<lambda>_. [])(4 := [5])\<rparr>"
  have "sys_read 4 10 3 ?s = Some (Inl EINTR, ?s1)" "sys_read 4 10 3 ?s1 = Some (Inr 1, ?s2)"
    by (simp_all add: sys_read_def sys_readv_def demo_io_def)
  then have w: "st_read 4 10 3 7 ?s = Some (Inr 1, ?s2)"
    unfolding st_read_def by (subst io_retry.simps) (simp, subst io_retry.simps, simp)
  from st_read_correct [OF this] w show ?thesis by (auto simp: demo_io_def)
qed

section \<open>Connecting\<close>

lemma connect_interrupted:
  "io_script s = replicate k (Failed EINTR) @ es \<Longrightarrow>
     \<exists>s'. connect_loop d t b s = connect_loop d t (b \<or> k > 0) s' \<and> io_script s' = es"
proof (induction k arbitrary: s b)
  case (Suc k)
  let ?s1 = "s\<lparr>io_script := replicate k (Failed EINTR) @ es\<rparr>"
  have "connect_loop d t b s = connect_loop d t True ?s1"
    using Suc.prems by (subst connect_loop.simps) (simp add: sys_number_def)
  then show ?case using Suc.IH [of ?s1 True] by auto
qed auto

text \<open>
  C21: The result of \<open>st_connect\<close> after any number of interrupted calls: success; the error of the call,
  where \<open>EADDRINUSE\<close> is an error only if no call was interrupted before; or, when the connection is
  in progress, the error the socket reports after the wait.
\<close>

theorem st_connect_correct:
  assumes "io_script s = replicate k (Failed EINTR) @ es"
  shows "(\<forall>x r. es = Moved x # r \<longrightarrow> (\<exists>s'. st_connect d t s = Some (Inr (), s'))) \<and>
    (\<forall>e r. es = Failed e # r \<longrightarrow> e \<noteq> EINTR \<longrightarrow> e \<noteq> EINPROGRESS \<longrightarrow> (e = EADDRINUSE \<longrightarrow> k = 0) \<longrightarrow>
      (\<exists>s'. st_connect d t s = Some (Inl e, s'))) \<and>
    (\<forall>e x r. es = Failed e # Polled (Inr (1, POLLOUT)) # SoError x # r \<longrightarrow>
      e = EINPROGRESS \<or> e = EADDRINUSE \<and> k > 0 \<longrightarrow>
      (\<exists>s'. st_connect d t s = Some (case x of None \<Rightarrow> Inr () | Some e' \<Rightarrow> Inl e', s')))"
proof -
  obtain s0 where s0: "st_connect d t s = connect_loop d t (k > 0) s0" "io_script s0 = es"
    using connect_interrupted [OF assms, of d t False] by (auto simp: st_connect_def)
  show ?thesis
    unfolding s0(1) connect_loop.simps [of d t _ s0] using s0(2)
    by (auto simp: sys_number_def sys_so_error_def st_netfd_poll_def split: option.splits)
qed

lemma st_connect_correct_witness:
  "\<exists>s'. st_connect 4 7 (demo_io [Failed EINTR, Failed EADDRINUSE, Polled (Inr (1, POLLOUT)), SoError None]) =
     Some (Inr (), s')"
proof -
  have "io_script (demo_io [Failed EINTR, Failed EADDRINUSE, Polled (Inr (1, POLLOUT)), SoError None]) =
    replicate 1 (Failed EINTR) @ [Failed EADDRINUSE, Polled (Inr (1, POLLOUT)), SoError None]"
    by (simp add: demo_io_def)
  from st_connect_correct [OF this, of 4 7] show ?thesis by simp
qed

section \<open>The accept semaphore\<close>

text \<open>
  Bytes taken from the read end and bytes put into the write end of the pipe since the start of a call.
\<close>

definition token_kept :: "int \<times> int \<Rightarrow> io \<Rightarrow> io \<Rightarrow> bool" where
  "token_kept pq s s' \<longleftrightarrow> (\<exists>xs. io_in s' = (io_in s)(fst pq := io_in s (fst pq) @ xs) \<and>
     io_out s' = (io_out s)(snd pq := io_out s (snd pq) @ xs))"

lemma token_kept_trans: "token_kept pq s s1 \<Longrightarrow> token_kept pq s1 s2 \<Longrightarrow> token_kept pq s s2"
  unfolding token_kept_def
proof (elim exE conjE, goal_cases)
  case (1 xs ys)
  then show ?case by (intro exI [of _ "xs @ ys"]) simp
qed

lemma token_kept_same: "io_in s' = io_in s \<Longrightarrow> io_out s' = io_out s \<Longrightarrow> token_kept pq s s'"
  unfolding token_kept_def by (intro exI [of _ "[]"]) simp

lemma sys_number_run:
  "sys_number s = Some (r, s') \<Longrightarrow> same_data s s' \<and> io_polls s' = io_polls s \<and>
     length (io_script s') < length (io_script s)"
  by (auto simp: sys_number_def same_data_def split: list.splits io_event.splits)

text \<open>One round takes the byte and puts the same byte back, whatever \<open>accept\<close> returns.\<close>

lemma accept_round_token:
  assumes "accept_round (Some pq) cbuf t s = Some (q, s')"
  shows "token_kept pq s s'"
proof -
  obtain p0 p1 where pq: "pq = (p0, p1)" by (cases pq)
  obtain n s1 where rd: "st_read p0 cbuf 1 t s = Some (n, s1)"
    using assms by (auto simp: accept_round_def pq split: bind_splits)
  show ?thesis
  proof (cases n)
    case (Inl e)
    then have "s' = s1" using assms rd by (simp add: accept_round_def pq)
    then show ?thesis using read_run [OF rd] Inl by (intro token_kept_same) (simp_all add: same_data_def)
  next
    case (Inr k)
    then obtain r s2 m where k: "k = 1" and num: "sys_number s1 = Some (r, s2)"
      and wr: "st_write p1 cbuf 1 t s2 = Some (m, s')" and m: "m = Inr 1"
      using assms rd by (auto simp: accept_round_def pq split: bind_splits if_splits)
    obtain bs where bs: "length bs = 1" "received p0 cbuf bs s s1" using read_run [OF rd] Inr k by auto
    note N = sys_number_run [OF num]
    have "bytes_at (mem s2) cbuf 1 = bs"
      using bs N bytes_at_store [of bs cbuf "mem s"] by (simp add: received_def same_data_def)
    then have "io_out s' = (io_out s2)(p1 := io_out s2 p1 @ bs)" "io_in s' = io_in s2"
      using write_run [OF wr] m by auto
    then show ?thesis
      using bs N by (auto simp: token_kept_def pq received_def same_data_def intro: exI [of _ bs])
  qed
qed



end
