(* ===== verification/ST_Lru.thy ===== *)
theory ST_Lru
  imports ST_Prelude "HOL-Library.Monad_Syntax"
begin

text \<open>
  The cache with least-recently-used replacement (\<open>extensions/lrucache.c\<close>). An entry is named by its
  address; a freed entry is \<open>None\<close> in \<open>centries\<close> and using it is undefined. The chains of the hash table,
  linked through \<open>next\<close> and \<open>pthis\<close>, and the list of unused entries are lists of entries; \<open>pthis\<close> is
  the number of the chain an entry is on. Keys and data are values of any type; the two functions on
  keys are members of the cache, as in the code. \<open>size_t\<close> and \<open>unsigned long\<close> have 64 bits.
\<close>

type_synonym eid = nat
type_synonym usize = "64 word"

record ('k, 'd) centry =
  ckey :: 'k
  cdata :: 'd
  cweight :: usize
  pthis :: "nat option"
  ref_count :: int
  delete_pending :: bool

record ('k, 'd) cache =
  centries :: "eid \<Rightarrow> ('k, 'd) centry option"
  max_size :: usize
  cur_size :: usize
  max_weight :: usize
  cur_weight :: usize
  hash_size :: nat
  table :: "nat \<Rightarrow> eid list"
  lru_list :: "eid list"
  hits :: usize
  lookups :: usize
  inserts :: usize
  deletes :: usize
  key_hash_fn :: "'k \<Rightarrow> usize"
  key_cmp_fn :: "'k \<Rightarrow> 'k \<Rightarrow> int"
  has_cleanup :: bool
  cleaned :: "('k \<times> 'd) list" \<comment> \<open>the calls of \<open>cleanup_fn\<close>\<close>

section \<open>The cache\<close>

text \<open>\<open>ok\<close> tells whether both calls of \<open>calloc\<close> succeed; the entries are those of the process.\<close>

definition stx_cache_create ::
    "bool \<Rightarrow> (eid \<Rightarrow> ('k, 'd) centry option) \<Rightarrow> usize \<Rightarrow> usize \<Rightarrow> nat \<Rightarrow> ('k \<Rightarrow> usize) \<Rightarrow> ('k \<Rightarrow> 'k \<Rightarrow> int) \<Rightarrow> bool \<Rightarrow>
     ('k, 'd) cache option" where
  "stx_cache_create ok es msize mweight hsize hash cmp cleanup =
     (if \<not> ok then None
      else Some \<lparr>centries = es, max_size = msize, cur_size = 0, max_weight = mweight, cur_weight = 0,
             hash_size = hsize, table = (\<lambda>_. []), lru_list = [], hits = 0, lookups = 0, inserts = 0,
             deletes = 0, key_hash_fn = hash, key_cmp_fn = cmp, has_cleanup = cleanup, cleaned = []\<rparr>)"

definition stx_cache_getsize :: "('k, 'd) cache \<Rightarrow> usize" where
  "stx_cache_getsize c = cur_size c"

definition stx_cache_getweight :: "('k, 'd) cache \<Rightarrow> usize" where
  "stx_cache_getweight c = cur_weight c"

record cache_info =
  i_max_size :: usize
  i_max_weight :: usize
  i_hash_size :: nat
  i_cur_size :: usize
  i_cur_weight :: usize
  i_hits :: usize
  i_lookups :: usize
  i_inserts :: usize
  i_deletes :: usize

definition stx_cache_getinfo :: "('k, 'd) cache \<Rightarrow> cache_info" where
  "stx_cache_getinfo c =
     \<lparr>i_max_size = max_size c, i_max_weight = max_weight c, i_hash_size = hash_size c,
      i_cur_size = cur_size c, i_cur_weight = cur_weight c, i_hits = hits c, i_lookups = lookups c,
      i_inserts = inserts c, i_deletes = deletes c\<rparr>"

section \<open>Entries\<close>

definition stx_cache_entry_create :: "eid option \<Rightarrow> 'k \<Rightarrow> 'd \<Rightarrow> usize \<Rightarrow> ('k, 'd) cache \<Rightarrow> eid option \<times> ('k, 'd) cache" where
  "stx_cache_entry_create object k d w c =
     (case object of
        None \<Rightarrow> (None, c)
      | Some e \<Rightarrow> (Some e, c\<lparr>centries := (centries c)
          (e \<mapsto> \<lparr>ckey = k, cdata = d, cweight = w, pthis = None, ref_count = 0, delete_pending = False\<rparr>)\<rparr>))"

definition upd_entry :: "eid \<Rightarrow> (('k, 'd) centry \<Rightarrow> ('k, 'd) centry) \<Rightarrow> ('k, 'd) cache \<Rightarrow> ('k, 'd) cache" where
  "upd_entry e f c = c\<lparr>centries := (centries c)(e := map_option f (centries c e))\<rparr>"

definition unhash :: "eid \<Rightarrow> ('k, 'd) centry \<Rightarrow> ('k, 'd) cache \<Rightarrow> ('k, 'd) cache" where
  "unhash e x c =
     (case pthis x of
        None \<Rightarrow> c
      | Some b \<Rightarrow> c\<lparr>table := (table c)(b := remove1 e (table c b)), cur_size := cur_size c - 1,
                   cur_weight := cur_weight c - cweight x, deletes := deletes c + 1,
                   lru_list := remove1 e (lru_list c)\<rparr>)"

definition stx_cache_entry_delete :: "eid \<Rightarrow> ('k, 'd) cache \<Rightarrow> ('k, 'd) cache option" where
  "stx_cache_entry_delete e c =
     do {
       x \<leftarrow> centries c e;
       (if ref_count x > 0 then Some (upd_entry e (\<lambda>x. x\<lparr>delete_pending := True\<rparr>) c)
        else
          let c1 = unhash e x c;
              c2 = (if has_cleanup c1 then c1\<lparr>cleaned := cleaned c1 @ [(ckey x, cdata x)]\<rparr> else c1)
          in Some (c2\<lparr>centries := (centries c2)(e := None)\<rparr>))
     }"

text \<open>The search along a chain for an entry with the key that is not waiting to be deleted.\<close>

fun scan :: "('k, 'd) cache \<Rightarrow> 'k \<Rightarrow> eid list \<Rightarrow> eid option option" where
  "scan c k [] = Some None"
| "scan c k (e # es) =
     do {
       x \<leftarrow> centries c e;
       (if \<not> delete_pending x \<and> key_cmp_fn c k (ckey x) = 0 then Some (Some e) else scan c k es)
     }"

definition bucket :: "('k, 'd) cache \<Rightarrow> 'k \<Rightarrow> nat" where
  "bucket c k = unat (key_hash_fn c k) mod hash_size c"

definition stx_cache_entry_lookup :: "'k \<Rightarrow> ('k, 'd) cache \<Rightarrow> (eid option \<times> ('k, 'd) cache) option" where
  "stx_cache_entry_lookup k c =
     (let c1 = c\<lparr>lookups := lookups c + 1\<rparr> in
      do {
        r \<leftarrow> scan c1 k (table c1 (bucket c1 k));
        (case r of
           None \<Rightarrow> Some (None, c1)
         | Some e \<Rightarrow>
            do {
              x \<leftarrow> centries c1 e;
              let c2 = c1\<lparr>hits := hits c1 + 1\<rparr>;
              let c3 = (if ref_count x = 0 then c2\<lparr>lru_list := remove1 e (lru_list c2)\<rparr> else c2);
              Some (Some e, upd_entry e (\<lambda>x. x\<lparr>ref_count := ref_count x + 1\<rparr>) c3)
            })
      })"

definition stx_cache_entry_release :: "eid \<Rightarrow> ('k, 'd) cache \<Rightarrow> ('k, 'd) cache option" where
  "stx_cache_entry_release e c =
     do {
       x \<leftarrow> centries c e;
       (if ref_count x = 0 then Some c
        else
          let c1 = upd_entry e (\<lambda>x. x\<lparr>ref_count := ref_count x - 1\<rparr>) c in
          if ref_count x - 1 = 0
          then (let c2 = c1\<lparr>lru_list := lru_list c1 @ [e]\<rparr> in
                if delete_pending x then stx_cache_entry_delete e c2 else Some c2)
          else Some c1)
     }"

definition stx_cache_entry_getlru :: "('k, 'd) cache \<Rightarrow> eid option" where
  "stx_cache_entry_getlru c = (case lru_list c of [] \<Rightarrow> None | e # _ \<Rightarrow> Some e)"

text \<open>The loop that makes room for the weight of a new entry; \<open>False\<close> when nothing is left to remove.\<close>

partial_function (option) evict_loop :: "usize \<Rightarrow> ('k, 'd) cache \<Rightarrow> (bool \<times> ('k, 'd) cache) option" where
  "evict_loop w c =
     (if cur_weight c + w > max_weight c
      then (case stx_cache_entry_getlru c of
              None \<Rightarrow> Some (False, c)
            | Some old \<Rightarrow> Option.bind (stx_cache_entry_delete old c) (evict_loop w))
      else Some (True, c))"

definition evict_one :: "('k, 'd) cache \<Rightarrow> (bool \<times> ('k, 'd) cache) option" where
  "evict_one c =
     (if cur_size c \<ge> max_size c
      then (case stx_cache_entry_getlru c of
              None \<Rightarrow> Some (False, c)
            | Some old \<Rightarrow> map_option (Pair True) (stx_cache_entry_delete old c))
      else Some (True, c))"

definition hash_entry :: "eid \<Rightarrow> 'k \<Rightarrow> usize \<Rightarrow> ('k, 'd) cache \<Rightarrow> ('k, 'd) cache" where
  "hash_entry e k w c =
     (let b = bucket c k;
          c1 = c\<lparr>table := (table c)(b := e # table c b)\<rparr>;
          c2 = upd_entry e (\<lambda>x. x\<lparr>pthis := Some b, ref_count := ref_count x + 1\<rparr>) c1
      in c2\<lparr>inserts := inserts c2 + 1, cur_size := cur_size c2 + 1, cur_weight := cur_weight c2 + w\<rparr>)"

definition stx_cache_entry_insert :: "eid \<Rightarrow> ('k, 'd) cache \<Rightarrow> (bool \<times> ('k, 'd) cache) option" where
  "stx_cache_entry_insert e c =
     do {
       x \<leftarrow> centries c e;
       (room, c1) \<leftarrow> evict_loop (cweight x) c;
       (if \<not> room then Some (False, c1)
        else do {
          (place, c2) \<leftarrow> evict_one c1;
          (if \<not> place then Some (False, c2)
           else do {
             old \<leftarrow> scan c2 (ckey x) (table c2 (bucket c2 (ckey x)));
             c3 \<leftarrow> (case old of None \<Rightarrow> Some c2 | Some o' \<Rightarrow> stx_cache_entry_delete o' c2);
             Some (True, hash_entry e (ckey x) (cweight x) c3)
           })
        })
     }"

definition stx_cache_entry_getdata :: "eid \<Rightarrow> ('k, 'd) cache \<Rightarrow> 'd option" where
  "stx_cache_entry_getdata e c = map_option cdata (centries c e)"

definition stx_cache_entry_getkey :: "eid \<Rightarrow> ('k, 'd) cache \<Rightarrow> 'k option" where
  "stx_cache_entry_getkey e c = map_option ckey (centries c e)"

definition stx_cache_entry_getweight :: "eid \<Rightarrow> ('k, 'd) cache \<Rightarrow> usize option" where
  "stx_cache_entry_getweight e c = map_option cweight (centries c e)"

section \<open>Going through the cache\<close>

text \<open>One chain of \<open>stx_cache_empty\<close>: the next entry is read before the current one is deleted.\<close>

fun empty_chain :: "eid list \<Rightarrow> ('k, 'd) cache \<Rightarrow> ('k, 'd) cache option" where
  "empty_chain [] c = Some c"
| "empty_chain (e # es) c = do { c1 \<leftarrow> stx_cache_entry_delete e c; empty_chain es c1 }"

fun empty_buckets :: "nat list \<Rightarrow> ('k, 'd) cache \<Rightarrow> ('k, 'd) cache option" where
  "empty_buckets [] c = Some c"
| "empty_buckets (i # is) c = do { c1 \<leftarrow> empty_chain (table c i) c; empty_buckets is c1 }"

definition stx_cache_empty :: "('k, 'd) cache \<Rightarrow> ('k, 'd) cache option" where
  "stx_cache_empty c = empty_buckets [0..<hash_size c] c"

definition live_pair :: "('k, 'd) cache \<Rightarrow> eid \<Rightarrow> ('k \<times> 'd) list" where
  "live_pair c e = (case centries c e of None \<Rightarrow> [] | Some x \<Rightarrow> [(ckey x, cdata x)])"

text \<open>The pairs handed to the callback, in order.\<close>

definition stx_cache_traverse :: "('k, 'd) cache \<Rightarrow> ('k \<times> 'd) list" where
  "stx_cache_traverse c =
     concat (map (\<lambda>i. concat (map (live_pair c)
       (filter (\<lambda>e. \<forall>x \<in> set_option (centries c e). \<not> delete_pending x) (table c i)))) [0..<hash_size c])"

definition stx_cache_traverse_lru :: "nat \<Rightarrow> ('k, 'd) cache \<Rightarrow> ('k \<times> 'd) list" where
  "stx_cache_traverse_lru n c = concat (map (live_pair c) (take n (lru_list c)))"

definition stx_cache_traverse_mru :: "nat \<Rightarrow> ('k, 'd) cache \<Rightarrow> ('k \<times> 'd) list" where
  "stx_cache_traverse_mru n c = concat (map (live_pair c) (take n (rev (lru_list c))))"

end
