(* ===== verification/ST_LruInv.thy ===== *)
theory ST_LruInv
  imports ST_Lru
begin

text \<open>
  The invariant of the cache: the chains of the table hold exactly the entries that are in the cache,
  each on the chain of its key; the list of unused entries holds those without a reference; the size
  and the weight are those of the entries and within their limits; no two valid entries have the
  same key. Every operation keeps it, and none gets stuck.
\<close>

section \<open>The invariant\<close>

definition hashed :: "('k, 'd) cache \<Rightarrow> eid set" where
  "hashed c = {e. \<exists>x b. centries c e = Some x \<and> pthis x = Some b}"

definition ewt :: "('k, 'd) cache \<Rightarrow> eid \<Rightarrow> nat" where
  "ewt c e = (case centries c e of None \<Rightarrow> 0 | Some x \<Rightarrow> unat (cweight x))"

text \<open>The valid entry for a key.\<close>

definition cached :: "('k, 'd) cache \<Rightarrow> 'k \<Rightarrow> eid \<Rightarrow> bool" where
  "cached c k e \<longleftrightarrow> (\<exists>x. centries c e = Some x \<and> pthis x \<noteq> None \<and> \<not> delete_pending x \<and>
     key_cmp_fn c k (ckey x) = 0)"

definition chains_ok :: "('k, 'd) cache \<Rightarrow> bool" where
  "chains_ok c \<longleftrightarrow> hash_size c > 0 \<and> (\<forall>b. distinct (table c b)) \<and>
     (\<forall>b e. e \<in> set (table c b) \<longleftrightarrow> (\<exists>x. centries c e = Some x \<and> pthis x = Some b)) \<and>
     (\<forall>e x b. centries c e = Some x \<longrightarrow> pthis x = Some b \<longrightarrow>
        b = bucket c (ckey x) \<and> ref_count x \<ge> 0 \<and> (delete_pending x \<longrightarrow> ref_count x > 0))"

definition lru_ok :: "('k, 'd) cache \<Rightarrow> bool" where
  "lru_ok c \<longleftrightarrow> distinct (lru_list c) \<and>
     (\<forall>e. e \<in> set (lru_list c) \<longleftrightarrow> (\<exists>x. centries c e = Some x \<and> pthis x \<noteq> None \<and> ref_count x = 0))"

definition unique_ok :: "('k, 'd) cache \<Rightarrow> bool" where
  "unique_ok c \<longleftrightarrow> (\<forall>e e' x. centries c e = Some x \<longrightarrow> pthis x \<noteq> None \<longrightarrow> \<not> delete_pending x \<longrightarrow>
     cached c (ckey x) e' \<longrightarrow> e' = e)"

definition sizes_ok :: "('k, 'd) cache \<Rightarrow> bool" where
  "sizes_ok c \<longleftrightarrow> finite (hashed c) \<and> unat (cur_size c) = card (hashed c) \<and>
     unat (cur_weight c) = sum (ewt c) (hashed c) \<and> cur_size c \<le> max_size c \<and> cur_weight c \<le> max_weight c"

definition cache_ok :: "('k, 'd) cache \<Rightarrow> bool" where
  "cache_ok c \<longleftrightarrow> chains_ok c \<and> lru_ok c \<and> unique_ok c \<and> sizes_ok c"

definition same_conf :: "('k, 'd) cache \<Rightarrow> ('k, 'd) cache \<Rightarrow> bool" where
  "same_conf c c' \<longleftrightarrow> max_size c' = max_size c \<and> max_weight c' = max_weight c \<and> hash_size c' = hash_size c \<and>
     key_hash_fn c' = key_hash_fn c \<and> key_cmp_fn c' = key_cmp_fn c \<and> has_cleanup c' = has_cleanup c"

lemma same_conf_refl [simp]: "same_conf c c"
  by (simp add: same_conf_def)

lemma same_conf_trans: "same_conf c c1 \<Longrightarrow> same_conf c1 c2 \<Longrightarrow> same_conf c c2"
  by (simp add: same_conf_def)

lemma same_confD:
  "same_conf c c' \<Longrightarrow> bucket c' = bucket c" "same_conf c c' \<Longrightarrow> key_cmp_fn c' = key_cmp_fn c"
  by (simp_all add: same_conf_def bucket_def fun_eq_iff)

lemma cache_okD:
  assumes "cache_ok c"
  shows "chains_ok c" "lru_ok c" "unique_ok c" "sizes_ok c"
  using assms by (simp_all add: cache_ok_def)

lemma chains_okD:
  assumes "chains_ok c"
  shows "hash_size c > 0" "distinct (table c b)"
    "e \<in> set (table c b) \<longleftrightarrow> (\<exists>x. centries c e = Some x \<and> pthis x = Some b)"
    "centries c e = Some x \<Longrightarrow> pthis x = Some b \<Longrightarrow> b = bucket c (ckey x) \<and> ref_count x \<ge> 0"
    "centries c e = Some x \<Longrightarrow> pthis x = Some b \<Longrightarrow> delete_pending x \<Longrightarrow> ref_count x > 0"
  using assms unfolding chains_ok_def by blast+

lemma lru_okD:
  assumes "lru_ok c"
  shows "distinct (lru_list c)"
    "e \<in> set (lru_list c) \<longleftrightarrow> (\<exists>x. centries c e = Some x \<and> pthis x \<noteq> None \<and> ref_count x = 0)"
  using assms unfolding lru_ok_def by blast+

lemma unique_okD:
  "unique_ok c \<Longrightarrow> centries c e = Some x \<Longrightarrow> pthis x = Some b \<Longrightarrow> \<not> delete_pending x \<Longrightarrow> cached c (ckey x) e' \<Longrightarrow> e' = e"
  unfolding unique_ok_def by blast

section \<open>Removing an entry\<close>

text \<open>The cache without an unused entry, after \<open>stx_cache_entry_delete\<close>.\<close>

definition without :: "eid \<Rightarrow> ('k, 'd) centry \<Rightarrow> ('k, 'd) cache \<Rightarrow> ('k, 'd) cache" where
  "without e x c =
     (let c1 = unhash e x c;
          c2 = (if has_cleanup c1 then c1\<lparr>cleaned := cleaned c1 @ [(ckey x, cdata x)]\<rparr> else c1)
      in c2\<lparr>centries := (centries c2)(e := None)\<rparr>)"

lemma delete_unused: "centries c e = Some x \<Longrightarrow> ref_count x \<le> 0 \<Longrightarrow> stx_cache_entry_delete e c = Some (without e x c)"
  by (simp add: stx_cache_entry_delete_def without_def Let_def)

lemma delete_used:
  "centries c e = Some x \<Longrightarrow> ref_count x > 0 \<Longrightarrow>
     stx_cache_entry_delete e c = Some (upd_entry e (\<lambda>x. x\<lparr>delete_pending := True\<rparr>) c)"
  by (simp add: stx_cache_entry_delete_def)

lemma without_parts [simp]:
  "centries (without e x c) = (centries c)(e := None)"
  "same_conf c (without e x c)"
  "max_size (without e x c) = max_size c" "max_weight (without e x c) = max_weight c"
  "hash_size (without e x c) = hash_size c" "key_cmp_fn (without e x c) = key_cmp_fn c"
  "key_hash_fn (without e x c) = key_hash_fn c"
  by (auto simp: without_def unhash_def Let_def same_conf_def split: option.split)

lemma without_hashed:
  assumes "pthis x = Some b"
  shows "table (without e x c) = (table c)(b := remove1 e (table c b))" "cur_size (without e x c) = cur_size c - 1"
    "cur_weight (without e x c) = cur_weight c - cweight x" "lru_list (without e x c) = remove1 e (lru_list c)"
  using assms by (simp_all add: without_def unhash_def Let_def)

lemma without_new:
  assumes "pthis x = None"
  shows "table (without e x c) = table c" "cur_size (without e x c) = cur_size c"
    "cur_weight (without e x c) = cur_weight c" "lru_list (without e x c) = lru_list c"
  using assms by (simp_all add: without_def unhash_def Let_def)

lemma bucket_conf: "same_conf c c' \<Longrightarrow> bucket c' k = bucket c k"
  by (simp add: same_conf_def bucket_def)

lemma cached_without: "cached (without e x c) k e' \<longleftrightarrow> e' \<noteq> e \<and> cached c k e'"
  by (simp add: cached_def)

lemma without_ok:
  assumes ok: "cache_ok c" and x: "centries c e = Some x" "pthis x = Some b"
  shows "cache_ok (without e x c)" "hashed (without e x c) = hashed c - {e}"
proof -
  let ?c = "without e x c"
  note C = chains_okD [OF cache_okD(1) [OF ok]] and L = lru_okD [OF cache_okD(2) [OF ok]]
  have bk: "bucket ?c k = bucket c k" for k by (rule bucket_conf) simp
  show H: "hashed ?c = hashed c - {e}" by (auto simp: hashed_def)
  have "chains_ok ?c"
    unfolding chains_ok_def bk without_hashed [OF x(2)] without_parts
    using C x by (auto split: if_splits)
  moreover have "lru_ok ?c"
    unfolding lru_ok_def without_hashed [OF x(2)] without_parts using L by auto
  moreover have "unique_ok ?c"
    using cache_okD(3) [OF ok] unfolding unique_ok_def cached_without by (auto split: if_splits)
  moreover have "sizes_ok ?c"
  proof -
    note S = cache_okD(4) [OF ok, unfolded sizes_ok_def]
    have e: "e \<in> hashed c" using x by (auto simp: hashed_def)
    then have n: "card (hashed c) > 0" using S by (auto simp: card_gt_0_iff)
    then have "(1 :: usize) \<le> cur_size c" using S by (simp add: word_le_nat_alt)
    then have sz: "unat (cur_size c - 1) = card (hashed c) - 1" using S by (simp add: unat_sub)
    have w: "sum (ewt c) (hashed c) = unat (cweight x) + sum (ewt c) (hashed c - {e})"
      using sum.remove [of "hashed c" e "ewt c"] S e x by (simp add: ewt_def)
    then have le: "cweight x \<le> cur_weight c" using S by (simp add: word_le_nat_alt)
    have "sum (ewt ?c) (hashed c - {e}) = sum (ewt c) (hashed c - {e})"
      by (rule sum.cong) (auto simp: ewt_def)
    then have wt: "unat (cur_weight c - cweight x) = sum (ewt ?c) (hashed c - {e})"
      using S w le by (simp add: unat_sub)
    have "cur_size c - 1 \<le> max_size c" "cur_weight c - cweight x \<le> max_weight c"
      using S sz wt w by (simp_all only: word_le_nat_alt unat_sub [OF le]) linarith+
    then show ?thesis
      unfolding sizes_ok_def H without_hashed [OF x(2)] using S sz wt e by simp
  qed
  ultimately show "cache_ok ?c" by (simp add: cache_ok_def)
qed

text \<open>An entry outside the table can be changed or freed without any effect on the cache.\<close>

lemma outside_ok:
  assumes ok: "cache_ok c" and e: "e \<notin> hashed c"
    and f: "\<And>b x. centries c' e = Some x \<Longrightarrow> pthis x \<noteq> Some b" "\<And>g. g \<noteq> e \<Longrightarrow> centries c' g = centries c g"
    and s: "same_conf c c'" "table c' = table c" "lru_list c' = lru_list c" "cur_size c' = cur_size c" "cur_weight c' = cur_weight c"
  shows "cache_ok c'" "hashed c' = hashed c" "cached c' k g \<longleftrightarrow> cached c k g"
proof -
  have *: "(\<exists>x. centries c' g = Some x \<and> P x \<and> pthis x = Some b) \<longleftrightarrow> (\<exists>x. centries c g = Some x \<and> P x \<and> pthis x = Some b)" for g b P
    using e f by (cases "g = e") (auto simp: hashed_def)
  have H: "hashed c' = hashed c" unfolding hashed_def using *[of _ "\<lambda>_. True"] by simp blast
  have ca: "cached c' k g \<longleftrightarrow> cached c k g" for k g
    using e f same_confD(2) [OF s(1)] by (cases "g = e") (auto simp: cached_def hashed_def)
  show "hashed c' = hashed c" "cached c' k g \<longleftrightarrow> cached c k g" by (rule H, rule ca)
  have en: "centries c' g = Some x \<and> pthis x = Some b \<longleftrightarrow> centries c g = Some x \<and> pthis x = Some b" for g x b
    using e f by (cases "g = e") (auto simp: hashed_def)
  note C = chains_okD [OF cache_okD(1) [OF ok]] and L = lru_okD [OF cache_okD(2) [OF ok]]
  have hs: "hash_size c' = hash_size c" using s(1) by (simp add: same_conf_def)
  have "chains_ok c'"
    unfolding chains_ok_def s(2) same_confD [OF s(1)] hs
  proof (intro conjI allI impI)
    fix g b show "g \<in> set (table c b) \<longleftrightarrow> (\<exists>x. centries c' g = Some x \<and> pthis x = Some b)"
      using C(3) [of g b] *[of g "\<lambda>_. True" b] by simp
  next
    fix g x b assume g: "centries c' g = Some x" "pthis x = Some b"
    then have "centries c g = Some x \<and> pthis x = Some b" using en by blast
    then show "b = bucket c (ckey x)" "ref_count x \<ge> 0" "delete_pending x \<Longrightarrow> ref_count x > 0"
      using C(4,5) by blast+
  qed (use C in simp_all)
  moreover have "lru_ok c'"
    unfolding lru_ok_def s(3)
  proof (intro conjI allI)
    fix g show "g \<in> set (lru_list c) \<longleftrightarrow> (\<exists>x. centries c' g = Some x \<and> pthis x \<noteq> None \<and> ref_count x = 0)"
      using L(2) [of g] en [of g] by auto
  qed (use L in simp)
  moreover have "unique_ok c'"
    unfolding unique_ok_def ca
  proof (intro allI impI)
    fix g g' x assume g: "centries c' g = Some x" "pthis x \<noteq> None" "\<not> delete_pending x" "cached c (ckey x) g'"
    then obtain b where "centries c g = Some x" "pthis x = Some b" using en by blast
    then show "g' = g" using unique_okD [OF cache_okD(3) [OF ok]] g by blast
  qed
  moreover have "sum (ewt c') (hashed c) = sum (ewt c) (hashed c)"
  proof (rule sum.cong [OF refl])
    fix g assume "g \<in> hashed c"
    then have "centries c' g = centries c g" using e by (intro f(2)) auto
    then show "ewt c' g = ewt c g" by (simp add: ewt_def)
  qed
  then have "sizes_ok c'"
    using cache_okD(4) [OF ok] s unfolding sizes_ok_def H by (simp add: same_conf_def)
  ultimately show "cache_ok c'" by (simp add: cache_ok_def)
qed

section \<open>References\<close>

text \<open>
  A change of the reference count of an entry of the table, or of its mark for deletion, together with
  the list of unused entries.
\<close>

lemma touch_ok:
  assumes ok: "cache_ok c" and x: "centries c e = Some x" "pthis x = Some b"
    and c': "centries c' = (centries c)(e \<mapsto> x')" "same_conf c c'" "table c' = table c"
      "cur_size c' = cur_size c" "cur_weight c' = cur_weight c"
    and x': "ckey x' = ckey x" "cweight x' = cweight x" "pthis x' = pthis x" "ref_count x' \<ge> 0"
      "delete_pending x' \<Longrightarrow> ref_count x' > 0" "delete_pending x \<Longrightarrow> delete_pending x'"
    and l: "distinct (lru_list c')"
      "set (lru_list c') = (if ref_count x' = 0 then insert e (set (lru_list c)) else set (lru_list c) - {e})"
  shows "cache_ok c'" "hashed c' = hashed c" "cached c' k g \<longleftrightarrow> cached c k g \<and> (g = e \<longrightarrow> \<not> delete_pending x')"
proof -
  note C = chains_okD [OF cache_okD(1) [OF ok]] and L = lru_okD [OF cache_okD(2) [OF ok]]
  show H: "hashed c' = hashed c" using x c'(1) x'(3) by (auto simp: hashed_def)
  have ca: "cached c' k g \<longleftrightarrow> cached c k g \<and> (g = e \<longrightarrow> \<not> delete_pending x')" for k g
    using x c'(1) x' same_confD(2) [OF c'(2)] by (auto simp: cached_def)
  show "cached c' k g \<longleftrightarrow> cached c k g \<and> (g = e \<longrightarrow> \<not> delete_pending x')" by (rule ca)
  have hs: "hash_size c' = hash_size c" using c'(2) by (simp add: same_conf_def)
  have "chains_ok c'"
    unfolding chains_ok_def c'(1,3) same_confD [OF c'(2)] hs
  proof (intro conjI allI impI)
    fix g i show "g \<in> set (table c i) \<longleftrightarrow> (\<exists>y. ((centries c)(e \<mapsto> x')) g = Some y \<and> pthis y = Some i)"
      using C(3) [of g i] x x'(3) by auto
  next
    fix g y i assume g: "((centries c)(e \<mapsto> x')) g = Some y" "pthis y = Some i"
    have i: "i = b" "y = x'" if "g = e" using that g x x'(3) by auto
    note B = C(4) [OF x]
    show "i = bucket c (ckey y)"
      using C(4) [of g y i] B x'(1) g i by (cases "g = e") auto
    show "ref_count y \<ge> 0" using C(4) [of g y i] x'(4) g i by (cases "g = e") auto
    show "delete_pending y \<Longrightarrow> ref_count y > 0" using C(5) [of g y i] x'(5) g i by (cases "g = e") auto
  qed (use C in simp_all)
  moreover have "lru_ok c'"
    unfolding lru_ok_def c'(1) l(2) using l(1) L(2) x x'(3) by auto
  moreover have "unique_ok c'"
    unfolding unique_ok_def ca c'(1)
  proof (intro allI impI)
    fix g g' y
    assume g: "((centries c)(e \<mapsto> x')) g = Some y" "pthis y \<noteq> None" "\<not> delete_pending y"
      "cached c (ckey y) g' \<and> (g' = e \<longrightarrow> \<not> delete_pending x')"
    then obtain z i where "centries c g = Some z" "pthis z = Some i" "\<not> delete_pending z" "ckey z = ckey y"
      using x x' by (cases "g = e") auto
    then show "g' = g" using unique_okD [OF cache_okD(3) [OF ok]] g(4) by metis
  qed
  moreover have "sum (ewt c') (hashed c) = sum (ewt c) (hashed c)"
    by (rule sum.cong) (use c'(1) x x'(2) in \<open>auto simp: ewt_def\<close>)
  then have "sizes_ok c'"
    using cache_okD(4) [OF ok] c' unfolding sizes_ok_def H by (simp add: same_conf_def)
  ultimately show "cache_ok c'" by (simp add: cache_ok_def)
qed

lemma upd_entry_parts [simp]:
  "centries (upd_entry e f c) = (centries c)(e := map_option f (centries c e))" "same_conf c (upd_entry e f c)"
  "table (upd_entry e f c) = table c" "lru_list (upd_entry e f c) = lru_list c" "cur_size (upd_entry e f c) = cur_size c"
  "cur_weight (upd_entry e f c) = cur_weight c" "inserts (upd_entry e f c) = inserts c"
  by (simp_all add: upd_entry_def same_conf_def)

text \<open>\<open>stx_cache_entry_delete\<close> on an entry in the table.\<close>

lemma delete_run:
  assumes ok: "cache_ok c" and x: "centries c e = Some x" "pthis x = Some b"
  shows "\<exists>c'. stx_cache_entry_delete e c = Some c' \<and> cache_ok c' \<and> same_conf c c' \<and>
    (\<forall>k g. cached c' k g \<longleftrightarrow> cached c k g \<and> g \<noteq> e) \<and>
    (if ref_count x = 0
     then centries c' = (centries c)(e := None) \<and> lru_list c' = remove1 e (lru_list c)
     else centries c' = (centries c)(e \<mapsto> x\<lparr>delete_pending := True\<rparr>) \<and> lru_list c' = lru_list c)"
proof (cases "ref_count x = 0")
  case True
  then show ?thesis
    using delete_unused [OF x(1)] without_ok [OF ok x] without_hashed [OF x(2)]
    by (auto simp: cached_without)
next
  case False
  then have pos: "ref_count x > 0" using chains_okD(4) [OF cache_okD(1) [OF ok] x] by simp
  let ?c = "upd_entry e (\<lambda>x. x\<lparr>delete_pending := True\<rparr>) c" let ?x = "x\<lparr>delete_pending := True\<rparr>"
  have nl: "e \<notin> set (lru_list c)" using lru_okD(2) [OF cache_okD(2) [OF ok], of e] x pos by auto
  have T: "cache_ok ?c" "cached ?c k g \<longleftrightarrow> cached c k g \<and> (g = e \<longrightarrow> \<not> delete_pending ?x)" for k g
    by (rule touch_ok [OF ok x, where x' = ?x]; use x pos nl lru_okD(1) [OF cache_okD(2) [OF ok]] in simp)+
  then show ?thesis using delete_used [OF x(1) pos] x False by auto
qed

text \<open>The search finds the valid entry for a key, and nothing when there is none.\<close>

locale cache_keys =
  fixes hash :: "'k \<Rightarrow> usize" and cmp :: "'k \<Rightarrow> 'k \<Rightarrow> int"
  assumes cmp_refl: "cmp k k = 0"
    and cmp_sym: "cmp k k' = 0 \<Longrightarrow> cmp k' k = 0"
    and cmp_trans: "cmp k k' = 0 \<Longrightarrow> cmp k' k'' = 0 \<Longrightarrow> cmp k k'' = 0"
    and hash_cong: "cmp k k' = 0 \<Longrightarrow> hash k = hash k'"
begin

lemma scan_list:
  assumes "\<And>e. e \<in> set es \<Longrightarrow> \<exists>x. centries c e = Some x \<and> pthis x \<noteq> None"
  shows "(\<exists>e. scan c k es = Some (Some e) \<and> e \<in> set es \<and> cached c k e) \<or>
    scan c k es = Some None \<and> (\<forall>e \<in> set es. \<not> cached c k e)"
  using assms
proof (induction es)
  case (Cons e es)
  from Cons.prems [of e] obtain x where "centries c e = Some x" "pthis x \<noteq> None" by auto
  moreover have "(\<exists>e. scan c k es = Some (Some e) \<and> e \<in> set es \<and> cached c k e) \<or>
    scan c k es = Some None \<and> (\<forall>e \<in> set es. \<not> cached c k e)" using Cons by simp
  ultimately show ?case by (auto simp: cached_def)
qed simp

lemma scan_run:
  assumes ok: "cache_ok c" and f: "key_hash_fn c = hash" "key_cmp_fn c = cmp"
  shows "(\<exists>e. scan c k (table c (bucket c k)) = Some (Some e) \<and> cached c k e) \<or>
    scan c k (table c (bucket c k)) = Some None \<and> (\<forall>e. \<not> cached c k e)"
proof -
  note C = chains_okD [OF cache_okD(1) [OF ok]]
  have in_table: "e \<in> set (table c (bucket c k))" if e: "cached c k e" for e
  proof -
    obtain x b where x: "centries c e = Some x" "pthis x = Some b" "cmp k (ckey x) = 0"
      using e f by (auto simp: cached_def)
    then have "bucket c k = bucket c (ckey x)" using hash_cong f by (simp add: bucket_def)
    then show ?thesis using C(3,4) x by auto
  qed
  have "\<exists>x. centries c e = Some x \<and> pthis x \<noteq> None" if "e \<in> set (table c (bucket c k))" for e
    using that C(3) by auto
  from scan_list [of "table c (bucket c k)" c k, OF this] show ?thesis using in_table by blast
qed

lemma cached_unique: 
  assumes ok: "cache_ok c" and f: "key_hash_fn c = hash" "key_cmp_fn c = cmp"
    and e: "cached c k e" "cached c k' e'" "cmp k k' = 0"
  shows "e' = e"
proof -
  obtain x b where x: "centries c e = Some x" "pthis x = Some b" "\<not> delete_pending x" "cmp k (ckey x) = 0"
    using e f by (auto simp: cached_def)
  have "cmp (ckey x) k' = 0" using cmp_sym x(4) e(3) cmp_trans by blast
  then have "cached c (ckey x) e'" using e(2) f cmp_trans by (auto simp: cached_def)
  then show ?thesis using unique_okD [OF cache_okD(3) [OF ok] x(1,2,3)] by simp
qed

end

section \<open>Releasing\<close>

lemma release_run:
  assumes ok: "cache_ok c" and x: "centries c e = Some x" "pthis x = Some b" and r: "ref_count x > 0"
  shows "\<exists>c'. stx_cache_entry_release e c = Some c' \<and> cache_ok c' \<and> same_conf c c' \<and>
    (\<forall>k g. cached c' k g \<longleftrightarrow> cached c k g) \<and>
    (if ref_count x > 1
     then centries c' = (centries c)(e \<mapsto> x\<lparr>ref_count := ref_count x - 1\<rparr>) \<and> lru_list c' = lru_list c
     else if delete_pending x then centries c' = (centries c)(e := None) \<and> lru_list c' = lru_list c
     else centries c' = (centries c)(e \<mapsto> x\<lparr>ref_count := 0\<rparr>) \<and> lru_list c' = lru_list c @ [e])"
proof -
  let ?x = "x\<lparr>ref_count := ref_count x - 1\<rparr>"
  let ?c1 = "upd_entry e (\<lambda>x. x\<lparr>ref_count := ref_count x - 1\<rparr>) c"
  have nl: "e \<notin> set (lru_list c)" using lru_okD(2) [OF cache_okD(2) [OF ok], of e] x r by auto
  note D = lru_okD(1) [OF cache_okD(2) [OF ok]]
  consider "ref_count x > 1" | "ref_count x = 1" "\<not> delete_pending x" | "ref_count x = 1" "delete_pending x"
    using r by linarith
  then show ?thesis
  proof cases
    case 1
    have "cache_ok ?c1" "cached ?c1 k g \<longleftrightarrow> cached c k g \<and> (g = e \<longrightarrow> \<not> delete_pending ?x)" for k g
      by (rule touch_ok [OF ok x, where x' = ?x]; use x r nl D 1 in simp)+
    then show ?thesis using 1 x by (auto simp: stx_cache_entry_release_def cached_def)
  next
    case 2
    let ?c2 = "?c1\<lparr>lru_list := lru_list ?c1 @ [e]\<rparr>"
    have sc: "same_conf c ?c2" by (simp add: upd_entry_def same_conf_def)
    have "cache_ok ?c2" "cached ?c2 k g \<longleftrightarrow> cached c k g \<and> (g = e \<longrightarrow> \<not> delete_pending ?x)" for k g
      by (rule touch_ok [OF ok x, where x' = ?x]; use x r nl D 2 sc in simp)+
    then show ?thesis using 2 x sc by (auto simp: stx_cache_entry_release_def)
  next
    case 3
    let ?c2 = "?c1\<lparr>lru_list := lru_list ?c1 @ [e]\<rparr>" let ?y = "?x\<lparr>delete_pending := False\<rparr>"
    have y: "centries ?c2 e = Some ?x" "ref_count ?x = 0" "pthis ?x = Some b" using x 3 by simp_all
    have del: "stx_cache_entry_release e c = Some (without e ?x ?c2)"
      using delete_unused [OF y(1)] 3 x by (simp add: stx_cache_entry_release_def)
    have eq: "without e ?x ?c2 = without e x c"
      by (rule cache.equality)
        (use nl x in \<open>simp_all add: without_def unhash_def Let_def upd_entry_def remove1_append remove1_idem fun_eq_iff\<close>)
    have "cached c k g \<longrightarrow> g \<noteq> e" for k g using x 3 by (auto simp: cached_def)
    then show ?thesis
      using del without_ok [OF ok x] without_hashed [OF x(2), of e c] nl 3
      unfolding eq by (auto simp: cached_without remove1_idem)
  qed
qed

section \<open>Making room\<close>

text \<open>The entries at the front of the list of unused entries have been removed.\<close>

definition evicted :: "nat \<Rightarrow> ('k, 'd) cache \<Rightarrow> ('k, 'd) cache \<Rightarrow> bool" where
  "evicted n c c' \<longleftrightarrow> n \<le> length (lru_list c) \<and> lru_list c' = drop n (lru_list c) \<and>
     centries c' = (\<lambda>e. if e \<in> set (take n (lru_list c)) then None else centries c e) \<and> same_conf c c'"

lemma evicted_0 [simp]: "evicted 0 c c"
  by (simp add: evicted_def)

lemma evicted_trans:
  assumes "evicted n c c1" "evicted m c1 c2" shows "evicted (n + m) c c2"
proof -
  have t: "take (n + m) (lru_list c) = take n (lru_list c) @ take m (lru_list c1)"
    using assms by (simp add: evicted_def take_add)
  show ?thesis
    using assms t same_conf_trans by (fastforce simp: evicted_def fun_eq_iff add.commute)
qed

lemma delete_lru:
  assumes ok: "cache_ok c" and l: "lru_list c = e # es"
  shows "\<exists>c'. stx_cache_entry_delete e c = Some c' \<and> cache_ok c' \<and> evicted 1 c c' \<and>
    unat (cur_size c') + 1 = unat (cur_size c)"
proof -
  note L = lru_okD [OF cache_okD(2) [OF ok]]
  obtain x b where x: "centries c e = Some x" "pthis x = Some b" "ref_count x = 0"
    using L(2) [of e] l by auto
  have n: "card (hashed c) > 0"
    using cache_okD(4) [OF ok] x by (auto simp: sizes_ok_def card_gt_0_iff hashed_def)
  then have "(1 :: usize) \<le> cur_size c" using cache_okD(4) [OF ok] by (simp add: word_le_nat_alt sizes_ok_def)
  then have "unat (cur_size c - 1) + 1 = unat (cur_size c)"
    using n cache_okD(4) [OF ok] by (simp add: unat_sub sizes_ok_def)
  then show ?thesis
    using delete_unused [OF x(1)] x(3) without_ok(1) [OF ok x(1,2)] without_hashed [OF x(2), of e c] l
    by (auto simp: evicted_def)
qed

lemma evict_loop_run:
  assumes "cache_ok c"
  shows "\<exists>ok n c'. evict_loop w c = Some (ok, c') \<and> cache_ok c' \<and> evicted n c c' \<and>
    (ok \<longleftrightarrow> cur_weight c' + w \<le> max_weight c) \<and> (\<not> ok \<longrightarrow> lru_list c' = [])"
  using assms
proof (induction "lru_list c" arbitrary: c)
  case Nil
  then show ?case
    by (subst evict_loop.simps) (auto simp: stx_cache_entry_getlru_def not_le intro: exI [of _ 0])
next
  case (Cons e es)
  show ?case
  proof (cases "cur_weight c + w > max_weight c")
    case False
    then show ?thesis
      using Cons.prems by (subst evict_loop.simps) (auto simp: not_less intro!: exI [of _ 0])
  next
    case True
    obtain c1 where c1: "stx_cache_entry_delete e c = Some c1" "cache_ok c1" "evicted 1 c c1"
      using delete_lru [OF Cons.prems] Cons.hyps(2) by metis
    have l: "lru_list c = e # es" using Cons.hyps(2) by simp
    then have "es = lru_list c1" "max_weight c1 = max_weight c"
      using c1(3) by (simp_all add: evicted_def same_conf_def)
    then obtain ok n c' where run: "evict_loop w c1 = Some (ok, c')" "cache_ok c'" "evicted n c1 c'"
      "ok \<longleftrightarrow> cur_weight c' + w \<le> max_weight c" "\<not> ok \<longrightarrow> lru_list c' = []"
      using Cons.hyps(1) [OF _ c1(2)] by auto
    moreover have "evict_loop w c = evict_loop w c1"
      using True c1(1) by (subst evict_loop.simps) (simp add: stx_cache_entry_getlru_def l)
    moreover have "evicted (1 + n) c c'" by (rule evicted_trans [OF c1(3) run(3)])
    ultimately show ?thesis by (intro exI [of _ ok] exI [of _ "1 + n"] exI [of _ c']) simp
  qed
qed

lemma evict_one_run:
  assumes ok: "cache_ok c"
  shows "\<exists>ok n c'. evict_one c = Some (ok, c') \<and> cache_ok c' \<and> n \<le> 1 \<and> evicted n c c' \<and>
    (ok \<longrightarrow> cur_size c' < max_size c) \<and> (\<not> ok \<longrightarrow> lru_list c' = []) \<and> unat (cur_size c') \<le> unat (cur_size c)"
proof (cases "cur_size c \<ge> max_size c")
  case False
  then show ?thesis using ok by (auto simp: evict_one_def intro!: exI [of _ 0])
next
  case True
  show ?thesis
  proof (cases "lru_list c")
    case Nil
    then show ?thesis using ok True by (auto simp: evict_one_def stx_cache_entry_getlru_def intro!: exI [of _ 0])
  next
    case (Cons e es)
    obtain c' where c': "stx_cache_entry_delete e c = Some c'" "cache_ok c'" "evicted 1 c c'"
      "unat (cur_size c') + 1 = unat (cur_size c)" using delete_lru [OF ok Cons] by blast
    have "cur_size c \<le> max_size c" using cache_okD(4) [OF ok] by (simp add: sizes_ok_def)
    then have "cur_size c' < max_size c" using c'(4) by (simp add: word_less_nat_alt word_le_nat_alt)
    then show ?thesis
      using c' True Cons by (auto simp: evict_one_def stx_cache_entry_getlru_def intro!: exI [of _ 1])
  qed
qed

section \<open>Putting an entry into the table\<close>

lemma sizes_mono:
  assumes ok: "cache_ok c" "cache_ok c'" and h: "hashed c' \<subseteq> hashed c" "\<And>e. e \<in> hashed c' \<Longrightarrow> ewt c' e = ewt c e"
  shows "unat (cur_size c') \<le> unat (cur_size c)" "unat (cur_weight c') \<le> unat (cur_weight c)"
proof -
  note S = cache_okD(4) [OF ok(1), unfolded sizes_ok_def] cache_okD(4) [OF ok(2), unfolded sizes_ok_def]
  show "unat (cur_size c') \<le> unat (cur_size c)" using S h by (auto intro: card_mono)
  have "sum (ewt c') (hashed c') = sum (ewt c) (hashed c')" by (rule sum.cong) (use h in auto)
  also have "\<dots> \<le> sum (ewt c) (hashed c)" by (rule sum_mono2) (use S h in auto)
  finally show "unat (cur_weight c') \<le> unat (cur_weight c)" using S by simp
qed

lemma hash_entry_parts:
  "centries (hash_entry e k w c) =
     (centries c)(e := map_option (\<lambda>x. x\<lparr>pthis := Some (bucket c k), ref_count := ref_count x + 1\<rparr>) (centries c e))"
  "table (hash_entry e k w c) = (table c)(bucket c k := e # table c (bucket c k))" "lru_list (hash_entry e k w c) = lru_list c"
  "cur_size (hash_entry e k w c) = cur_size c + 1" "cur_weight (hash_entry e k w c) = cur_weight c + w"
  "same_conf c (hash_entry e k w c)"
  by (simp_all add: hash_entry_def Let_def upd_entry_def same_conf_def bucket_def)

text \<open>A new entry: not in the table, without a reference.\<close>

definition fresh :: "('k, 'd) cache \<Rightarrow> eid \<Rightarrow> ('k, 'd) centry \<Rightarrow> bool" where
  "fresh c e x \<longleftrightarrow> centries c e = Some x \<and> pthis x = None \<and> ref_count x = 0 \<and> \<not> delete_pending x"

lemma hash_entry_ok:
  assumes ok: "cache_ok c" and x: "fresh c e x"
    and new: "\<And>g. \<not> cached c (ckey x) g" and sym: "\<And>k k'. key_cmp_fn c k k' = 0 \<Longrightarrow> key_cmp_fn c k' k = 0"
    and sz: "cur_size c < max_size c" "unat (cur_weight c) + unat (cweight x) \<le> unat (max_weight c)"
  shows "cache_ok (hash_entry e (ckey x) (cweight x) c)"
    "cached (hash_entry e (ckey x) (cweight x) c) k g \<longleftrightarrow> cached c k g \<or> g = e \<and> key_cmp_fn c k (ckey x) = 0"
proof -
  let ?c = "hash_entry e (ckey x) (cweight x) c" let ?b = "bucket c (ckey x)"
  note P = hash_entry_parts [where e = e and k = "ckey x" and w = "cweight x" and c = c]
  note C = chains_okD [OF cache_okD(1) [OF ok]] and L = lru_okD [OF cache_okD(2) [OF ok]]
  have e: "centries c e = Some x" "pthis x = None" "ref_count x = 0" "\<not> delete_pending x"
    using x by (simp_all add: fresh_def)
  have en: "e \<notin> hashed c" using e by (auto simp: hashed_def)
  have H: "hashed ?c = insert e (hashed c)" using e P(1) by (auto simp: hashed_def)
  have ca: "cached ?c k g \<longleftrightarrow> cached c k g \<or> g = e \<and> key_cmp_fn c k (ckey x) = 0" for k g
    using e P(1) same_confD(2) [OF P(6)] by (auto simp: cached_def)
  show "cached ?c k g \<longleftrightarrow> cached c k g \<or> g = e \<and> key_cmp_fn c k (ckey x) = 0" by (rule ca)
  have hs: "hash_size ?c = hash_size c" using P(6) by (simp add: same_conf_def)
  have "chains_ok ?c"
    unfolding chains_ok_def P(1,2) same_confD [OF P(6)] hs
    using C e by (auto split: if_splits)
  moreover have "lru_ok ?c"
    unfolding lru_ok_def P(1,3) using L e by (auto split: if_splits)
  moreover have "unique_ok ?c"
    unfolding unique_ok_def ca
  proof (intro allI impI)
    fix g g' y assume g: "centries ?c g = Some y" "pthis y \<noteq> None" "\<not> delete_pending y"
      "cached c (ckey y) g' \<or> g' = e \<and> key_cmp_fn c (ckey y) (ckey x) = 0"
    show "g' = g"
    proof (cases "g = e")
      case True
      then have "ckey y = ckey x" using g(1) P(1) e by auto
      then show ?thesis using g(4) new True by auto
    next
      case False
      then obtain i where y: "centries c g = Some y" "pthis y = Some i" using g(1,2) P(1) by auto
      have "cached c (ckey y) g'"
      proof (rule ccontr)
        assume "\<not> cached c (ckey y) g'"
        then have "key_cmp_fn c (ckey x) (ckey y) = 0" using g(4) sym by blast
        then have "cached c (ckey x) g" using y g(3) by (auto simp: cached_def)
        then show False using new by blast
      qed
      then show ?thesis using unique_okD [OF cache_okD(3) [OF ok] y g(3)] by simp
    qed
  qed
  moreover have "sizes_ok ?c"
  proof -
    note S = cache_okD(4) [OF ok, unfolded sizes_ok_def]
    have "unat (cur_size c) + 1 < 2 ^ 64"
      using sz(1) unsigned_less [of "max_size c", where ?'a = nat] by (simp add: word_less_nat_alt)
    then have n: "unat (cur_size c + 1) = unat (cur_size c) + 1" by (simp add: unat_word_ariths(1))
    have "unat (cur_weight c) + unat (cweight x) < 2 ^ 64"
      using sz(2) unsigned_less [of "max_weight c", where ?'a = nat] by simp
    then have w: "unat (cur_weight c + cweight x) = unat (cur_weight c) + unat (cweight x)"
      by (simp add: unat_word_ariths(1))
    have "sum (ewt ?c) (hashed c) = sum (ewt c) (hashed c)"
      by (rule sum.cong) (use en P(1) in \<open>auto simp: ewt_def\<close>)
    moreover have "ewt ?c e = unat (cweight x)" using e P(1) by (simp add: ewt_def)
    ultimately show ?thesis
      unfolding sizes_ok_def H P(4,5) using S n w en sz P(6)
      by (simp add: word_le_nat_alt word_less_nat_alt same_conf_def)
  qed
  ultimately show "cache_ok ?c" by (simp add: cache_ok_def)
qed

section \<open>Lookup and insertion\<close>

lemma stats_parts:
  "hashed (c\<lparr>lookups := n\<rparr>) = hashed c" "hashed (c\<lparr>hits := n\<rparr>) = hashed c"
  "ewt (c\<lparr>lookups := n\<rparr>) = ewt c" "ewt (c\<lparr>hits := n\<rparr>) = ewt c"
  "cached (c\<lparr>lookups := n\<rparr>) = cached c" "cached (c\<lparr>hits := n\<rparr>) = cached c"
  "bucket (c\<lparr>lookups := n\<rparr>) = bucket c" "bucket (c\<lparr>hits := n\<rparr>) = bucket c"
  by (auto simp: hashed_def ewt_def cached_def bucket_def fun_eq_iff)

lemma stats_ok [simp]:
  "cache_ok (c\<lparr>lookups := n\<rparr>) = cache_ok c" "cache_ok (c\<lparr>hits := n\<rparr>) = cache_ok c"
  by (simp_all add: cache_ok_def chains_ok_def lru_ok_def unique_ok_def sizes_ok_def stats_parts)

lemma cached_hashed: "cached c k e \<Longrightarrow> \<exists>x b. centries c e = Some x \<and> pthis x = Some b"
  by (auto simp: cached_def)

lemma evicted_fresh:
  assumes "cache_ok c" "evicted n c c'" "fresh c e x" shows "fresh c' e x"
proof -
  have "e \<notin> set (lru_list c)" using assms lru_okD(2) [OF cache_okD(2) [OF assms(1)], of e] by (auto simp: fresh_def)
  then have "e \<notin> set (take n (lru_list c))" using set_take_subset by fast
  then show ?thesis using assms by (simp add: fresh_def evicted_def)
qed

context cache_keys
begin

lemma lookup_run:
  assumes ok: "cache_ok c" and f: "key_hash_fn c = hash" "key_cmp_fn c = cmp"
  shows "(\<exists>e x c'. stx_cache_entry_lookup k c = Some (Some e, c') \<and> cached c k e \<and> cache_ok c' \<and> same_conf c c' \<and>
      centries c e = Some x \<and> centries c' = (centries c)(e \<mapsto> x\<lparr>ref_count := ref_count x + 1\<rparr>) \<and>
      lru_list c' = remove1 e (lru_list c) \<and> (\<forall>k g. cached c' k g \<longleftrightarrow> cached c k g)) \<or>
    (\<exists>c'. stx_cache_entry_lookup k c = Some (None, c') \<and> (\<forall>e. \<not> cached c k e) \<and> cache_ok c' \<and> same_conf c c' \<and>
      c' = c\<lparr>lookups := lookups c + 1\<rparr>)"
proof -
  let ?c1 = "c\<lparr>lookups := lookups c + 1\<rparr>"
  have sc: "same_conf c ?c1" by (simp add: same_conf_def)
  have ok1: "cache_ok ?c1" using ok by simp
  consider e where "scan ?c1 k (table ?c1 (bucket ?c1 k)) = Some (Some e)" "cached ?c1 k e"
    | "scan ?c1 k (table ?c1 (bucket ?c1 k)) = Some None" "\<forall>e. \<not> cached ?c1 k e"
    using scan_run [OF ok1, of k] f by auto
  then show ?thesis
  proof cases
    case 1
    obtain x b where x: "centries ?c1 e = Some x" "pthis x = Some b" "\<not> delete_pending x"
      using 1(2) by (auto simp: cached_def)
    note R = chains_okD(4) [OF cache_okD(1) [OF ok1] x(1,2)]
    let ?c2 = "?c1\<lparr>hits := hits ?c1 + 1\<rparr>"
    let ?c3 = "if ref_count x = 0 then ?c2\<lparr>lru_list := remove1 e (lru_list ?c2)\<rparr> else ?c2"
    let ?c4 = "upd_entry e (\<lambda>x. x\<lparr>ref_count := ref_count x + 1\<rparr>) ?c3" let ?x = "x\<lparr>ref_count := ref_count x + 1\<rparr>"
    note L = lru_okD [OF cache_okD(2) [OF ok]]
    have l: "lru_list ?c4 = remove1 e (lru_list c)"
      using L(2) [of e] x by (auto simp: remove1_idem)
    have sc4: "same_conf ?c1 ?c4" by (simp add: upd_entry_def same_conf_def)
    have T: "cache_ok ?c4" "cached ?c4 k g \<longleftrightarrow> cached ?c1 k g \<and> (g = e \<longrightarrow> \<not> delete_pending ?x)" for k g
      by (rule touch_ok [OF ok1 x(1,2) _ sc4, where x' = ?x]; use x R L l in \<open>simp add: if_distrib\<close>)+
    have "stx_cache_entry_lookup k c = Some (Some e, ?c4)"
      using 1(1) x(1) by (simp add: stx_cache_entry_lookup_def Let_def)
    moreover have "same_conf c ?c4" using same_conf_trans [OF sc sc4] .
    moreover have "centries ?c4 = (centries c)(e \<mapsto> ?x)" using x by simp
    ultimately show ?thesis
      using T l x 1(2) by (intro disjI1 exI [of _ e] exI [of _ x] exI [of _ ?c4]) (simp add: stats_parts)
  next
    case 2
    then show ?thesis using ok1 sc by (simp add: stx_cache_entry_lookup_def Let_def stats_parts)
  qed
qed

lemma insert_run:
  assumes ok: "cache_ok c" and f: "key_hash_fn c = hash" "key_cmp_fn c = cmp" and x: "fresh c e x"
    and w: "unat (max_weight c) + unat (cweight x) < 2 ^ 64"
  shows "\<exists>ok n c1 c'. stx_cache_entry_insert e c = Some (ok, c') \<and> cache_ok c' \<and> same_conf c c' \<and>
    cache_ok c1 \<and> evicted n c c1 \<and>
    (if ok then \<forall>k g. cached c' k g \<longleftrightarrow> (if cmp k (ckey x) = 0 then g = e else cached c1 k g)
     else c' = c1 \<and> lru_list c' = [])"
proof -
  obtain room n1 c1 where c1: "evict_loop (cweight x) c = Some (room, c1)" "cache_ok c1" "evicted n1 c c1"
    "room \<longleftrightarrow> cur_weight c1 + cweight x \<le> max_weight c" "\<not> room \<longrightarrow> lru_list c1 = []"
    using evict_loop_run [OF ok] by blast
  have sc1: "same_conf c c1" using c1(3) by (simp add: evicted_def)
  have ex: "centries c e = Some x" using x by (simp add: fresh_def)
  show ?thesis
  proof (cases room)
    case False
    then have "stx_cache_entry_insert e c = Some (False, c1)" using c1 ex by (simp add: stx_cache_entry_insert_def)
    then show ?thesis using c1 False sc1 by (intro exI [of _ False] exI [of _ n1] exI [of _ c1]) simp
  next
    case True
    have le: "cur_weight c1 \<le> max_weight c" "max_weight c1 = max_weight c"
      using cache_okD(4) [OF c1(2)] sc1 by (simp_all add: sizes_ok_def same_conf_def)
    then have "unat (cur_weight c1 + cweight x) = unat (cur_weight c1) + unat (cweight x)"
      using w by (simp add: unat_word_ariths(1) word_le_nat_alt)
    then have fit: "unat (cur_weight c1) + unat (cweight x) \<le> unat (max_weight c)"
      using c1(4) True by (simp add: word_le_nat_alt)
    obtain place n2 c2 where c2: "evict_one c1 = Some (place, c2)" "cache_ok c2" "evicted n2 c1 c2"
      "place \<longrightarrow> cur_size c2 < max_size c1" "\<not> place \<longrightarrow> lru_list c2 = []"
      using evict_one_run [OF c1(2)] by blast
    have ev: "evicted (n1 + n2) c c2" by (rule evicted_trans [OF c1(3) c2(3)])
    then have sc2: "same_conf c c2" by (simp add: evicted_def)
    show ?thesis
    proof (cases place)
      case False
      then have "stx_cache_entry_insert e c = Some (False, c2)"
        using c1 c2 ex True by (simp add: stx_cache_entry_insert_def)
      then show ?thesis using c2 ev False sc2 by (intro exI [of _ False] exI [of _ "n1 + n2"] exI [of _ c2]) simp
    next
      case pl: True
      have f2: "key_hash_fn c2 = hash" "key_cmp_fn c2 = cmp" using sc2 f by (simp_all add: same_conf_def)
      have x2: "fresh c2 e x" by (rule evicted_fresh [OF ok ev x])
      have fit2: "unat (cur_weight c2) \<le> unat (cur_weight c1)"
        by (rule sizes_mono [OF c1(2) c2(2)]) (use c2(3) in \<open>auto simp: hashed_def ewt_def evicted_def split: if_splits\<close>)
      have "\<exists>c3. (case scan c2 (ckey x) (table c2 (bucket c2 (ckey x))) of
            None \<Rightarrow> None | Some None \<Rightarrow> Some c2 | Some (Some o') \<Rightarrow> stx_cache_entry_delete o' c2) = Some c3 \<and>
          cache_ok c3 \<and> same_conf c2 c3 \<and> fresh c3 e x \<and> hashed c3 \<subseteq> hashed c2 \<and> (\<forall>g \<in> hashed c3. ewt c3 g = ewt c2 g) \<and>
          (\<forall>k g. cached c3 k g \<longleftrightarrow> cached c2 k g \<and> cmp k (ckey x) \<noteq> 0)"
        using scan_run [OF c2(2) f2, of "ckey x"]
      proof (elim disjE exE conjE)
        assume s: "scan c2 (ckey x) (table c2 (bucket c2 (ckey x))) = Some None" "\<forall>e. \<not> cached c2 (ckey x) e"
        have "\<not> cached c2 k g" if "cmp k (ckey x) = 0" for k g
        proof
          assume "cached c2 k g"
          then have "cached c2 (ckey x) g" using cmp_sym [OF that] cmp_trans f2 by (auto simp: cached_def)
          then show False using s(2) by blast
        qed
        then show ?thesis using s(1) c2(2) x2 by auto
      next
        fix old assume s: "scan c2 (ckey x) (table c2 (bucket c2 (ckey x))) = Some (Some old)" "cached c2 (ckey x) old"
        obtain y b where y: "centries c2 old = Some y" "pthis y = Some b" using cached_hashed [OF s(2)] by blast
        obtain c3 where c3: "stx_cache_entry_delete old c2 = Some c3" "cache_ok c3" "same_conf c2 c3"
          "\<forall>k g. cached c3 k g \<longleftrightarrow> cached c2 k g \<and> g \<noteq> old"
          "centries c3 = (centries c2)(old := None) \<or> centries c3 = (centries c2)(old \<mapsto> y\<lparr>delete_pending := True\<rparr>)"
          using delete_run [OF c2(2) y] by (auto split: if_splits)
        have "old \<noteq> e" using y x2 by (auto simp: fresh_def)
        then have "fresh c3 e x" using c3(5) x2 by (auto simp: fresh_def)
        moreover have "hashed c3 \<subseteq> hashed c2" "\<forall>g \<in> hashed c3. ewt c3 g = ewt c2 g"
          using c3(5) y by (auto simp: hashed_def ewt_def split: if_splits)
        moreover have "g \<noteq> old \<longleftrightarrow> cmp k (ckey x) \<noteq> 0" if g: "cached c2 k g" for k g
        proof
          assume "g \<noteq> old"
          then show "cmp k (ckey x) \<noteq> 0" using cached_unique [OF c2(2) f2 g s(2)] by auto
        next
          assume n: "cmp k (ckey x) \<noteq> 0"
          show "g \<noteq> old"
          proof
            assume "g = old"
            then have "cmp k (ckey y) = 0" "cmp (ckey x) (ckey y) = 0" using g s(2) y f2 by (auto simp: cached_def)
            then show False using n cmp_sym cmp_trans by blast
          qed
        qed
        ultimately show ?thesis using s(1) c3(1-4) by auto
      qed
      then obtain c3 where c3: "(case scan c2 (ckey x) (table c2 (bucket c2 (ckey x))) of
            None \<Rightarrow> None | Some None \<Rightarrow> Some c2 | Some (Some o') \<Rightarrow> stx_cache_entry_delete o' c2) = Some c3"
          "cache_ok c3" "same_conf c2 c3" "fresh c3 e x" "hashed c3 \<subseteq> hashed c2" "\<forall>g \<in> hashed c3. ewt c3 g = ewt c2 g"
          "\<forall>k g. cached c3 k g \<longleftrightarrow> cached c2 k g \<and> cmp k (ckey x) \<noteq> 0" by blast
      have f3: "key_cmp_fn c3 = cmp" "max_size c3 = max_size c" "max_weight c3 = max_weight c" "max_size c1 = max_size c"
        using c3(3) f2 sc2 sc1 by (simp_all add: same_conf_def)
      have "unat (cur_size c3) \<le> unat (cur_size c2)" "unat (cur_weight c3) \<le> unat (cur_weight c2)"
        using sizes_mono [OF c2(2) c3(2,5)] c3(6) by auto
      then have room3: "cur_size c3 < max_size c3" "unat (cur_weight c3) + unat (cweight x) \<le> unat (max_weight c3)"
        using c2(4) pl fit fit2 f3 by (simp_all add: word_less_nat_alt)
      have new: "\<not> cached c3 (ckey x) g" for g using c3(7) cmp_refl by blast
      let ?c = "hash_entry e (ckey x) (cweight x) c3"
      have "cache_ok ?c" "cached ?c k g \<longleftrightarrow> cached c3 k g \<or> g = e \<and> cmp k (ckey x) = 0" for k g
        using hash_entry_ok [OF c3(2,4) new _ room3] cmp_sym f3(1) by auto
      moreover have "stx_cache_entry_insert e c = Some (True, ?c)"
        using c1 c2 ex True pl c3(1) by (auto simp: stx_cache_entry_insert_def split: option.splits)
      moreover have "same_conf c ?c"
        using same_conf_trans [OF same_conf_trans [OF sc2 c3(3)] hash_entry_parts(6)] .
      ultimately show ?thesis
        using c2(2) ev c3(7) by (intro exI [of _ True] exI [of _ "n1 + n2"] exI [of _ c2] exI [of _ ?c]) auto
    qed
  qed
qed

end

section \<open>Emptying\<close>

lemma empty_chain_run:
  assumes "cache_ok c" "distinct es" "\<And>e. e \<in> set es \<Longrightarrow> e \<in> hashed c"
  shows "\<exists>c'. empty_chain es c = Some c' \<and> cache_ok c' \<and> same_conf c c' \<and>
    (\<forall>g y. centries c' g = Some y \<longrightarrow> \<not> delete_pending y \<longrightarrow> g \<notin> set es \<and> centries c g = Some y)"
  using assms
proof (induction es arbitrary: c)
  case (Cons e es)
  obtain x b where x: "centries c e = Some x" "pthis x = Some b" using Cons.prems(3) [of e] by (auto simp: hashed_def)
  obtain c1 where c1: "stx_cache_entry_delete e c = Some c1" "cache_ok c1" "same_conf c c1"
    "centries c1 = (centries c)(e := None) \<or> centries c1 = (centries c)(e \<mapsto> x\<lparr>delete_pending := True\<rparr>)"
    using delete_run [OF Cons.prems(1) x] by (auto split: if_splits)
  have "g \<in> hashed c1" if "g \<in> set es" for g
    using Cons.prems(2,3) that c1(4) by (auto simp: hashed_def)
  then obtain c' where c': "empty_chain es c1 = Some c'" "cache_ok c'" "same_conf c1 c'"
    "\<forall>g y. centries c' g = Some y \<longrightarrow> \<not> delete_pending y \<longrightarrow> g \<notin> set es \<and> centries c1 g = Some y"
    using Cons.IH [OF c1(2)] Cons.prems(2) by auto
  have "g \<notin> set (e # es) \<and> centries c g = Some y" if "centries c' g = Some y" "\<not> delete_pending y" for g y
  proof -
    have "g \<notin> set es" "centries c1 g = Some y" using c'(4) that by blast+
    then show ?thesis using c1(4) that(2) by (cases "g = e") auto
  qed
  then show ?case using c1 c' same_conf_trans [OF c1(3) c'(3)] by (intro exI [of _ c']) simp
qed auto

lemma empty_buckets_run:
  assumes "cache_ok c"
  shows "\<exists>c'. empty_buckets is c = Some c' \<and> cache_ok c' \<and> same_conf c c' \<and>
    (\<forall>g y b. centries c' g = Some y \<longrightarrow> \<not> delete_pending y \<longrightarrow> pthis y = Some b \<longrightarrow>
       b \<notin> set is \<and> centries c g = Some y)"
  using assms
proof (induction "is" arbitrary: c)
  case (Cons i "is")
  note C = chains_okD [OF cache_okD(1) [OF Cons.prems]]
  have h: "e \<in> hashed c" if "e \<in> set (table c i)" for e using that C(3) by (auto simp: hashed_def)
  obtain c1 where c1: "empty_chain (table c i) c = Some c1" "cache_ok c1" "same_conf c c1"
    "\<forall>g y. centries c1 g = Some y \<longrightarrow> \<not> delete_pending y \<longrightarrow> g \<notin> set (table c i) \<and> centries c g = Some y"
    using empty_chain_run [OF Cons.prems C(2) h] by blast
  obtain c' where c': "empty_buckets is c1 = Some c'" "cache_ok c'" "same_conf c1 c'"
    "\<forall>g y b. centries c' g = Some y \<longrightarrow> \<not> delete_pending y \<longrightarrow> pthis y = Some b \<longrightarrow> b \<notin> set is \<and> centries c1 g = Some y"
    using Cons.IH [OF c1(2)] by blast
  have "b \<notin> set (i # is) \<and> centries c g = Some y"
    if g: "centries c' g = Some y" "\<not> delete_pending y" "pthis y = Some b" for g y b
  proof -
    have b: "b \<notin> set is" "centries c1 g = Some y" using c'(4) g by blast+
    then have "g \<notin> set (table c i)" "centries c g = Some y" using c1(4) g by blast+
    then show ?thesis using b(1) C(3) [of g i] g(3) by auto
  qed
  then show ?case using c1 c' same_conf_trans [OF c1(3) c'(3)] by (intro exI [of _ c']) simp
qed auto

text \<open>After \<open>stx_cache_empty\<close> no key is found, and what is left is in use and marked.\<close>

lemma empty_run:
  assumes ok: "cache_ok c"
  shows "\<exists>c'. stx_cache_empty c = Some c' \<and> cache_ok c' \<and> same_conf c c' \<and> (\<forall>k g. \<not> cached c' k g) \<and> lru_list c' = []"
proof -
  obtain c' where c': "stx_cache_empty c = Some c'" "cache_ok c'" "same_conf c c'"
    "\<forall>g y b. centries c' g = Some y \<longrightarrow> \<not> delete_pending y \<longrightarrow> pthis y = Some b \<longrightarrow> b \<notin> {0..<hash_size c}"
    using empty_buckets_run [OF ok, of "[0..<hash_size c]"] by (auto simp: stx_cache_empty_def)
  have pend: "delete_pending y" if y: "centries c' g = Some y" "pthis y = Some b" for g y b
  proof (rule ccontr)
    assume "\<not> delete_pending y"
    moreover have "b = bucket c' (ckey y)" "hash_size c' = hash_size c" "hash_size c' > 0"
      using chains_okD(1,4) [OF cache_okD(1) [OF c'(2)]] y c'(3) by (auto simp: same_conf_def)
    then have "b < hash_size c" by (simp add: bucket_def)
    ultimately show False using c'(4) y by auto
  qed
  have "e \<notin> set (lru_list c')" for e
    using lru_okD(2) [OF cache_okD(2) [OF c'(2)], of e] chains_okD(5) [OF cache_okD(1) [OF c'(2)]] pend by force
  then have "lru_list c' = []" by (cases "lru_list c'") auto
  then show ?thesis using c'(1-3) pend by (auto simp: cached_def)
qed

text \<open>A new cache.\<close>

lemma create_ok:
  assumes "stx_cache_create ok es ms mw hs hash cmp cl = Some c" "hs > 0" "\<And>e x. es e = Some x \<Longrightarrow> pthis x = None"
  shows "cache_ok c" "\<not> cached c k e"
proof -
  have "hashed c = {}" using assms by (auto simp: stx_cache_create_def hashed_def split: if_splits)
  then show "cache_ok c"
    using assms
    by (auto simp: stx_cache_create_def cache_ok_def chains_ok_def lru_ok_def unique_ok_def sizes_ok_def
        split: if_splits)
  show "\<not> cached c k e" using assms by (auto simp: stx_cache_create_def cached_def split: if_splits)
qed

end
