(* ===== verification/ST_Dns.thy ===== *)
theory ST_Dns
  imports ST_LruInv
begin

text \<open>
  The cache of resolved names (\<open>extensions/dnscache.c\<close>). A name is a \<open>string\<close> without the
  terminating zero, an address a 32-bit word. The cache is the one of \<open>ST_Lru\<close> with names as keys; the
  \<open>stx_dns_data_t\<close> object of an entry is its datum. The resolver (\<open>_stx_dns_getaddrlist\<close>, \<open>ST_DnsRes\<close>)
  and the time are arguments. Access outside an array is \<open>None\<close>.
\<close>

type_synonym addr = "32 word"

record dns_data =
  addrs :: "addr list"
  num_addrs :: int
  cur :: int
  expires :: int

type_synonym dns_cache = "(string, dns_data) cache"

definition MAX_HOST_ADDRS :: int where "MAX_HOST_ADDRS = 1024"

section \<open>Keys\<close>

text \<open>A \<open>char\<close> is signed.\<close>

definition schar :: "char \<Rightarrow> int" where
  "schar ch = (let n = (of_char ch :: int) in if n < 128 then n else n - 256)"

definition hash_step :: "usize \<Rightarrow> char \<Rightarrow> usize" where
  "hash_step h ch = push_bit 4 h - h + word_of_int (schar ch)"

definition hash_hostname :: "string \<Rightarrow> usize" where
  "hash_hostname name = foldl hash_step 0 name"

text \<open>\<open>strcmp\<close> of the C library compares as \<open>unsigned char\<close>.\<close>

fun strcmp :: "string \<Rightarrow> string \<Rightarrow> int" where
  "strcmp [] [] = 0"
| "strcmp [] (b # bs) = - 1"
| "strcmp (a # as) [] = 1"
| "strcmp (a # as) (b # bs) =
     (if a = b then strcmp as bs else if (of_char a :: nat) < of_char b then - 1 else 1)"

lemma strcmp_0: "strcmp a b = 0 \<longleftrightarrow> a = b"
  by (induction a b rule: strcmp.induct) auto

interpretation dns_keys: cache_keys hash_hostname strcmp
  by unfold_locales (auto simp: strcmp_0)

section \<open>Looking a name up\<close>

text \<open>
  The addresses handed out for a valid entry: one, the next in turn when \<open>rotate\<close> is set, or as many
  as are wanted; with the new value of \<open>cur\<close>.
\<close>

definition pick_addrs :: "int \<Rightarrow> bool \<Rightarrow> dns_data \<Rightarrow> (addr list \<times> int) option" where
  "pick_addrs want rot d =
     (if want = 1
      then (if rot
            then (if 0 \<le> cur d \<and> cur d < int (length (addrs d))
                  then Some ([addrs d ! nat (cur d)], if cur d + 1 \<ge> num_addrs d then 0 else cur d + 1)
                  else None)
            else (case addrs d of [] \<Rightarrow> None | a # _ \<Rightarrow> Some ([a], cur d)))
      else (let n = min want (num_addrs d) in
            if 0 \<le> n \<and> n \<le> int (length (addrs d)) then Some (take (nat n) (addrs d), cur d) else None))"

definition set_data :: "eid \<Rightarrow> dns_data \<Rightarrow> dns_cache \<Rightarrow> dns_cache" where
  "set_data e d = upd_entry e (\<lambda>x. x\<lparr>cdata := d\<rparr>)"

definition lookup_entry :: "string \<Rightarrow> int \<Rightarrow> bool \<Rightarrow> int \<Rightarrow> dns_cache \<Rightarrow> (addr list option \<times> dns_cache) option" where
  "lookup_entry host want rot now c =
     do {
       (r, c1) \<leftarrow> stx_cache_entry_lookup host c;
       (case r of
          None \<Rightarrow> Some (None, c1)
        | Some e \<Rightarrow>
           do {
             d \<leftarrow> stx_cache_entry_getdata e c1;
             (if now \<le> expires d
              then do {
                (as, cr) \<leftarrow> pick_addrs want rot d;
                c2 \<leftarrow> stx_cache_entry_release e (set_data e (d\<lparr>cur := cr\<rparr>) c1);
                Some (Some as, c2)
              }
              else do {
                c2 \<leftarrow> stx_cache_entry_release e c1;
                c3 \<leftarrow> stx_cache_entry_delete e c2;
                Some (None, c3)
              })
           })
     }"

section \<open>Entering a name\<close>

record entry_env =
  en_key :: bool \<comment> \<open>\<open>strdup\<close>\<close>
  en_data :: bool
  en_addrs :: bool
  en_entry :: "eid option"
  en_sizes :: usize \<comment> \<open>\<open>sizeof(stx_dns_data_t)\<close> and \<open>sizeof(stx_cache_entry_t)\<close>\<close>

definition entry_weight :: "entry_env \<Rightarrow> string \<Rightarrow> addr list \<Rightarrow> usize" where
  "entry_weight e host as = of_nat (length host + 1 + 4 * length as) + en_sizes e"

definition dns_datum :: "addr list \<Rightarrow> int \<Rightarrow> int \<Rightarrow> dns_data" where
  "dns_datum as now ttl = \<lparr>addrs = as, num_addrs = int (length as), cur = 0, expires = now + ttl\<rparr>"

text \<open>When an allocation fails, what has been allocated is freed again; only the entry is visible here.\<close>

definition insert_entry :: "entry_env \<Rightarrow> string \<Rightarrow> addr list \<Rightarrow> int \<Rightarrow> int \<Rightarrow> dns_cache \<Rightarrow> dns_cache option" where
  "insert_entry en host as now ttl c =
     (if ttl > 0
      then (let (eo, c1) = stx_cache_entry_create (en_entry en) host (dns_datum as now ttl)
                             (entry_weight en host as) c in
            case eo of
              None \<Rightarrow> Some c1
            | Some e \<Rightarrow>
                if en_key en \<and> en_data en \<and> en_addrs en
                then do {
                  (ok, c2) \<leftarrow> stx_cache_entry_insert e c1;
                  (if ok then stx_cache_entry_release e c2 else stx_cache_entry_delete e c2)
                }
                else stx_cache_entry_delete e c1)
      else Some c)"

section \<open>Resolving through the cache\<close>

text \<open>
  \<open>tolower\<close> of the C locale, and the copy of a name into the buffer of 128 bytes, which cuts it off
  after 127 characters.
\<close>

definition tolower :: "char \<Rightarrow> char" where
  "tolower ch = (let n = (of_char ch :: nat) in if 65 \<le> n \<and> n \<le> 90 then char_of (n + 32) else ch)"

definition lower_host :: "string \<Rightarrow> string" where
  "lower_host name = map tolower (take 127 name)"

text \<open>
  What the resolver did: its result, the time to live it left in \<open>_stx_dns_ttl\<close>, and the cache
  afterwards, since other threads run while it waits.
\<close>

record resolved =
  rs_addrs :: "addr list option"
  rs_ttl :: int
  rs_cache :: dns_cache
  rs_now :: int

text \<open>The result is the list of addresses handed out, \<open>None\<close> for \<open>-1\<close>.\<close>

definition stx_dns_cache_getaddrlist ::
    "(string \<Rightarrow> int \<Rightarrow> resolved) \<Rightarrow> entry_env \<Rightarrow> int \<Rightarrow> string \<Rightarrow> int \<Rightarrow> bool \<Rightarrow> dns_cache option \<Rightarrow>
     (addr list option \<times> dns_cache option) option" where
  "stx_dns_cache_getaddrlist resolve en now hostname want rot co =
     (case co of
        None \<Rightarrow> Some (rs_addrs (resolve hostname want), None)
      | Some c \<Rightarrow>
         let host = lower_host hostname in
         do {
           (hit, c1) \<leftarrow> lookup_entry host want rot now c;
           (case hit of
              Some as \<Rightarrow> Some (Some as, Some c1)
            | None \<Rightarrow>
               let q = resolve host MAX_HOST_ADDRS in
               (case rs_addrs q of
                  None \<Rightarrow> Some (None, Some (rs_cache q))
                | Some as \<Rightarrow>
                   do {
                     c2 \<leftarrow> insert_entry en host as (rs_now q) (rs_ttl q) (rs_cache q);
                     Some (Some (take (nat (min want (int (length as)))) as), Some c2)
                   }))
         })"

definition stx_dns_cache_init :: "bool \<Rightarrow> (eid \<Rightarrow> (string, dns_data) centry option) \<Rightarrow> usize \<Rightarrow> usize \<Rightarrow> nat \<Rightarrow> bool \<times> dns_cache option" where
  "stx_dns_cache_init ok es msize mbytes hsize =
     (let c = stx_cache_create ok es msize mbytes hsize hash_hostname strcmp True in (c \<noteq> None, c))"

definition stx_dns_cache_getinfo :: "dns_cache option \<Rightarrow> cache_info" where
  "stx_dns_cache_getinfo co =
     (case co of
        Some c \<Rightarrow> stx_cache_getinfo c
      | None \<Rightarrow> \<lparr>i_max_size = 0, i_max_weight = 0, i_hash_size = 0, i_cur_size = 0, i_cur_weight = 0, i_hits = 0,
                 i_lookups = 0, i_inserts = 0, i_deletes = 0\<rparr>)"

definition stx_dns_getaddrlist ::
    "(string \<Rightarrow> int \<Rightarrow> resolved) \<Rightarrow> entry_env \<Rightarrow> int \<Rightarrow> string \<Rightarrow> int \<Rightarrow> dns_cache option \<Rightarrow>
     (addr list option \<times> dns_cache option) option" where
  "stx_dns_getaddrlist resolve en now hostname want co =
     stx_dns_cache_getaddrlist resolve en now hostname want False co"

text \<open>
  \<open>stx_dns_getaddr\<close> passes the status on and ignores how many addresses there are: the second part is
  the address written, if any.
\<close>

definition stx_dns_getaddr ::
    "(string \<Rightarrow> int \<Rightarrow> resolved) \<Rightarrow> entry_env \<Rightarrow> int \<Rightarrow> string \<Rightarrow> dns_cache option \<Rightarrow>
     (bool \<times> addr option \<times> dns_cache option) option" where
  "stx_dns_getaddr resolve en now hostname co =
     map_option (\<lambda>(r, co'). case r of
         None \<Rightarrow> (False, None, co')
       | Some as \<Rightarrow> (True, case as of [] \<Rightarrow> None | a # _ \<Rightarrow> Some a, co'))
       (stx_dns_cache_getaddrlist resolve en now hostname 1 True co)"

end
