(* ===== verification/ST_DnsLaws.thy ===== *)
theory ST_DnsLaws
  imports ST_Dns
begin

text \<open>
  The properties of the cache and of the name cache built on it. They rest on the laws proved in the
  locale \<open>cache_keys\<close>, interpreted on \<open>hash_hostname\<close> and \<open>strcmp\<close>.
\<close>

section \<open>The cache with names as keys\<close>

definition name_keys :: "(string, 'd) cache \<Rightarrow> bool" where
  "name_keys c \<longleftrightarrow> key_hash_fn c = hash_hostname \<and> key_cmp_fn c = strcmp"

lemma name_keysD: "name_keys c \<Longrightarrow> key_hash_fn c = hash_hostname" "name_keys c \<Longrightarrow> key_cmp_fn c = strcmp"
  by (simp_all add: name_keys_def)

lemma name_keys_conf: "same_conf c c' \<Longrightarrow> name_keys c' \<longleftrightarrow> name_keys c"
  by (simp add: name_keys_def same_conf_def)

lemma cached_names: "name_keys c \<Longrightarrow> cached c k e \<longleftrightarrow>
    (\<exists>x. centries c e = Some x \<and> pthis x \<noteq> None \<and> \<not> delete_pending x \<and> ckey x = k)"
  by (auto simp: cached_def name_keys_def strcmp_0)

text \<open>A small cache for the examples: two names, \<open>a\<close> in use and \<open>b\<close> not.\<close>

definition demo_entry :: "string \<Rightarrow> int \<Rightarrow> nat option \<Rightarrow> (string, dns_data) centry" where
  "demo_entry k r b = \<lparr>ckey = k, cdata = \<lparr>addrs = [1, 2], num_addrs = 2, cur = 0, expires = 100\<rparr>, cweight = 10,
     pthis = b, ref_count = r, delete_pending = False\<rparr>"

definition demo_cache :: dns_cache where
  "demo_cache = \<lparr>centries = [1 \<mapsto> demo_entry ''a'' 1 (Some 0), 2 \<mapsto> demo_entry ''b'' 0 (Some 0), 3 \<mapsto> demo_entry ''c'' 0 None],
     max_size = 2, cur_size = 2, max_weight = 25, cur_weight = 20, hash_size = 1, table = (\<lambda>_. [])(0 := [2, 1]),
     lru_list = [2], hits = 0, lookups = 0, inserts = 2, deletes = 0, key_hash_fn = hash_hostname,
     key_cmp_fn = strcmp, has_cleanup = True, cleaned = []\<rparr>"

lemma demo_hashed: "hashed demo_cache = {1, 2}"
  by (auto simp: hashed_def demo_cache_def demo_entry_def split: if_splits)

lemma demo_cache_ok: "cache_ok demo_cache" "name_keys demo_cache" "fresh demo_cache 3 (demo_entry ''c'' 0 None)"
proof -
  have "chains_ok demo_cache"
    by (auto simp: chains_ok_def demo_cache_def demo_entry_def bucket_def split: if_splits)
  moreover have "lru_ok demo_cache"
    by (auto simp: lru_ok_def demo_cache_def demo_entry_def split: if_splits)
  moreover have "unique_ok demo_cache"
    by (auto simp: unique_ok_def demo_cache_def demo_entry_def cached_def strcmp_0 split: if_splits)
  moreover have "sizes_ok demo_cache"
    unfolding sizes_ok_def demo_hashed by (simp add: ewt_def) (simp add: demo_cache_def demo_entry_def)
  ultimately show "cache_ok demo_cache" by (simp add: cache_ok_def)
qed (simp_all add: demo_cache_def demo_entry_def name_keys_def fresh_def)



text \<open>
  C27: \<open>stx_cache_entry_lookup\<close> finds the valid entry of a key, counts a reference to it and takes it off
  the list of unused entries; without a valid entry it finds nothing and only counts the lookup.
\<close>

theorem cache_lookup_correct:
  assumes "cache_ok c" "name_keys c"
  shows "(\<exists>e x c'. stx_cache_entry_lookup k c = Some (Some e, c') \<and> cached c k e \<and> cache_ok c' \<and>
      centries c e = Some x \<and> centries c' = (centries c)(e \<mapsto> x\<lparr>ref_count := ref_count x + 1\<rparr>) \<and>
      lru_list c' = remove1 e (lru_list c)) \<or>
    (stx_cache_entry_lookup k c = Some (None, c\<lparr>lookups := lookups c + 1\<rparr>) \<and> (\<forall>e. \<not> cached c k e))"
  using dns_keys.lookup_run [OF assms(1) name_keysD [OF assms(2)], of k] by blast

lemma cache_lookup_correct_witness:
  "\<exists>c'. stx_cache_entry_lookup ''b'' demo_cache = Some (Some 2, c') \<and> lru_list c' = []"
proof -
  have c: "cached demo_cache ''b'' e \<longleftrightarrow> e = 2" for e
    unfolding cached_names [OF demo_cache_ok(2)] by (auto simp: demo_cache_def demo_entry_def split: if_splits)
  then have "\<not> (\<forall>e. \<not> cached demo_cache ''b'' e)" by blast
  then obtain e c' where "stx_cache_entry_lookup ''b'' demo_cache = Some (Some e, c')" "cached demo_cache ''b'' e"
    "lru_list c' = remove1 e (lru_list demo_cache)"
    using cache_lookup_correct [OF demo_cache_ok(1,2), of "''b''"] by blast
  then show ?thesis using c by (auto simp: demo_cache_def)
qed

text \<open>
  When the last reference to an entry is released, a valid entry becomes the most recently used of
  the unused entries, and an entry marked for deletion is freed; no other entry is touched and no
  key is found or lost by it.
\<close>

theorem cache_release_correct:
  assumes "cache_ok c" "centries c e = Some x" "pthis x = Some b" "ref_count x = 1"
  shows "\<exists>c'. stx_cache_entry_release e c = Some c' \<and> cache_ok c' \<and> (\<forall>k g. cached c' k g \<longleftrightarrow> cached c k g) \<and>
    (if delete_pending x then centries c' = (centries c)(e := None) \<and> lru_list c' = lru_list c
     else centries c' = (centries c)(e \<mapsto> x\<lparr>ref_count := 0\<rparr>) \<and> lru_list c' = lru_list c @ [e])"
  using release_run [OF assms(1,2,3)] assms(4) by auto

lemma cache_release_correct_witness:
  "\<exists>c'. stx_cache_entry_release 1 demo_cache = Some c' \<and> lru_list c' = [2, 1]"
proof -
  have "centries demo_cache 1 = Some (demo_entry ''a'' 1 (Some 0))" by (simp add: demo_cache_def)
  from cache_release_correct [OF demo_cache_ok(1) this, of 0] show ?thesis
    by (auto simp: demo_entry_def demo_cache_def)
qed

text \<open>
  An entry heavier than the whole cache can hold is refused, but only after every unused entry has
  been removed.
\<close>

theorem cache_insert_oversized:
  assumes "cache_ok c" "name_keys c" "fresh c e x" "unat (max_weight c) + unat (cweight x) < 2 ^ 64"
    and "cweight x > max_weight c"
  shows "\<exists>c'. stx_cache_entry_insert e c = Some (False, c') \<and> cache_ok c' \<and> lru_list c' = [] \<and>
    evicted (length (lru_list c)) c c'"
proof -
  obtain room n c1 where r: "evict_loop (cweight x) c = Some (room, c1)" "cache_ok c1" "evicted n c c1"
    "room \<longleftrightarrow> cur_weight c1 + cweight x \<le> max_weight c" "\<not> room \<longrightarrow> lru_list c1 = []"
    using evict_loop_run [OF assms(1)] by blast
  have "cur_weight c1 \<le> max_weight c" using cache_okD(4) [OF r(2)] r(3) by (simp add: sizes_ok_def evicted_def same_conf_def)
  then have "unat (cur_weight c1 + cweight x) = unat (cur_weight c1) + unat (cweight x)"
    using assms(4) by (simp add: unat_word_ariths(1) word_le_nat_alt)
  then have "\<not> room" using r(4) assms(5) by (simp add: word_le_nat_alt word_less_nat_alt)
  moreover from this have "n = length (lru_list c)" using r(3,5) by (simp add: evicted_def)
  ultimately show ?thesis
    using r assms(3) by (auto simp: stx_cache_entry_insert_def fresh_def)
qed

lemma cache_insert_oversized_witness:
  "\<exists>c'. stx_cache_entry_insert 3 (demo_cache\<lparr>max_weight := 22,
      centries := (centries demo_cache)(3 \<mapsto> (demo_entry ''c'' 0 None)\<lparr>cweight := 30\<rparr>)\<rparr>) = Some (False, c') \<and> lru_list c' = []"
proof -
  let ?x = "(demo_entry ''c'' 0 None)\<lparr>cweight := 30\<rparr>"
  let ?c = "demo_cache\<lparr>max_weight := 22, centries := (centries demo_cache)(3 \<mapsto> ?x)\<rparr>"
  have h: "hashed ?c = {1, 2}"
    by (auto simp: hashed_def demo_cache_def demo_entry_def split: if_splits)
  have "chains_ok ?c" "lru_ok ?c"
    by (auto simp: chains_ok_def lru_ok_def demo_cache_def demo_entry_def bucket_def split: if_splits)
  moreover have "unique_ok ?c"
    by (auto simp: unique_ok_def demo_cache_def demo_entry_def cached_def strcmp_0 split: if_splits)
  moreover have "sizes_ok ?c"
    unfolding sizes_ok_def h by (simp add: ewt_def) (simp add: demo_cache_def demo_entry_def)
  ultimately have ok: "cache_ok ?c" by (simp add: cache_ok_def)
  have "name_keys ?c" "fresh ?c 3 ?x" "unat (max_weight ?c) + unat (cweight ?x) < 2 ^ 64" "cweight ?x > max_weight ?c"
    by (simp_all add: name_keys_def fresh_def demo_cache_def demo_entry_def)
  from cache_insert_oversized [OF ok this] show ?thesis by blast
qed

end
