(* ===== verification/ST_DnsHit.thy ===== *)
theory ST_DnsHit
  imports ST_DnsLaws
begin

text \<open>
  Names answered from the cache: what a lookup hands out and what it does to the entry, the turns that
  \<open>stx_dns_getaddr\<close> takes through the addresses of a name, and the end of an entry that has expired.
\<close>

section \<open>One lookup\<close>

lemma cached_is:
  assumes "cache_ok c" "name_keys c" "cached c k e" "cached c k e'"
  shows "e' = e"
proof -
  obtain x where x: "centries c e = Some x" "pthis x \<noteq> None" "\<not> delete_pending x" "ckey x = k"
    using assms(3) unfolding cached_names [OF assms(2)] by blast
  then show ?thesis
    using cache_okD(3) [OF assms(1)] assms(4) unfolding unique_ok_def by blast
qed

lemma lookup_finds:
  assumes ok: "cache_ok c" and nk: "name_keys c" and h: "cached c k e" "centries c e = Some x"
  shows "\<exists>c1. stx_cache_entry_lookup k c = Some (Some e, c1) \<and> cache_ok c1 \<and> same_conf c c1 \<and>
    centries c1 = (centries c)(e \<mapsto> x\<lparr>ref_count := ref_count x + 1\<rparr>) \<and> lru_list c1 = remove1 e (lru_list c) \<and>
    (\<forall>k g. cached c1 k g \<longleftrightarrow> cached c k g)"
  using dns_keys.lookup_run [OF ok name_keysD [OF nk], of k] cached_is [OF ok nk h(1)] h by fastforce

lemma entry_facts:
  assumes ok: "cache_ok c" and h: "cached c k e" "centries c e = Some x"
  shows "\<exists>b. pthis x = Some b" "\<not> delete_pending x" "ref_count x \<ge> 0" "e \<in> set (lru_list c) \<longleftrightarrow> ref_count x = 0"
proof -
  show b: "\<exists>b. pthis x = Some b" and "\<not> delete_pending x"
    using h by (auto simp: cached_def)
  then show "ref_count x \<ge> 0"
    using chains_okD(4) [OF cache_okD(1) [OF ok] h(2)] by blast
  show "e \<in> set (lru_list c) \<longleftrightarrow> ref_count x = 0"
    using lru_okD(2) [OF cache_okD(2) [OF ok], of e] h(2) b by auto
qed

lemma hit_run:
  assumes ok: "cache_ok c" and nk: "name_keys c" and h: "cached c host e" "centries c e = Some x"
    and t: "now \<le> expires (cdata x)" and p: "pick_addrs want rot (cdata x) = Some (as, cr)"
  shows "\<exists>c'. lookup_entry host want rot now c = Some (Some as, c') \<and> cache_ok c' \<and> name_keys c' \<and>
    (\<forall>k g. cached c' k g \<longleftrightarrow> cached c k g) \<and>
    centries c' = (centries c)(e \<mapsto> x\<lparr>cdata := (cdata x)\<lparr>cur := cr\<rparr>\<rparr>) \<and>
    lru_list c' = (if ref_count x = 0 then remove1 e (lru_list c) @ [e] else lru_list c)"
proof -
  note F = entry_facts [OF ok h]
  obtain b where b: "pthis x = Some b" using F(1) by blast
  let ?d = "(cdata x)\<lparr>cur := cr\<rparr>"
  obtain c1 where c1: "stx_cache_entry_lookup host c = Some (Some e, c1)" "cache_ok c1" "same_conf c c1"
    "centries c1 = (centries c)(e \<mapsto> x\<lparr>ref_count := ref_count x + 1\<rparr>)" "lru_list c1 = remove1 e (lru_list c)"
    "\<forall>k g. cached c1 k g \<longleftrightarrow> cached c k g"
    using lookup_finds [OF ok nk h] by blast
  let ?x1 = "x\<lparr>ref_count := ref_count x + 1\<rparr>" and ?x2 = "x\<lparr>ref_count := ref_count x + 1, cdata := ?d\<rparr>"
  let ?c2 = "set_data e ?d c1"
  have e1: "centries c1 e = Some ?x1" "pthis ?x1 = Some b" using c1(4) b by simp_all
  have nl: "e \<notin> set (lru_list c1)"
    using entry_facts(4) [OF c1(2) _ e1(1)] c1(6) h(1) F(3) by simp
  have T: "cache_ok ?c2" "cached ?c2 k g \<longleftrightarrow> cached c1 k g \<and> (g = e \<longrightarrow> \<not> delete_pending ?x2)" for k g
    by (rule touch_ok [OF c1(2) e1, where x' = ?x2];
        use e1 F nl lru_okD(1) [OF cache_okD(2) [OF c1(2)]] in \<open>simp add: set_data_def\<close>)+
  have e2: "centries ?c2 e = Some ?x2" "pthis ?x2 = Some b" "ref_count ?x2 > 0"
    using e1 b F(3) by (simp_all add: set_data_def)
  from release_run [OF T(1) e2] obtain c' where c': "stx_cache_entry_release e ?c2 = Some c'" "cache_ok c'" "same_conf ?c2 c'"
    "\<forall>k g. cached c' k g \<longleftrightarrow> cached ?c2 k g"
    "if ref_count ?x2 > 1
     then centries c' = (centries ?c2)(e \<mapsto> ?x2\<lparr>ref_count := ref_count ?x2 - 1\<rparr>) \<and> lru_list c' = lru_list ?c2
     else if delete_pending ?x2 then centries c' = (centries ?c2)(e := None) \<and> lru_list c' = lru_list ?c2
     else centries c' = (centries ?c2)(e \<mapsto> ?x2\<lparr>ref_count := 0\<rparr>) \<and> lru_list c' = lru_list ?c2 @ [e]"
    by blast
  have sc: "same_conf c c'"
    using same_conf_trans [OF c1(3) same_conf_trans [OF _ c'(3)]] by (simp add: set_data_def)
  have l: "remove1 e (lru_list c) = lru_list c" if "ref_count x \<noteq> 0"
    using that F(4) by (simp add: remove1_idem)
  have "centries c' = (centries c)(e \<mapsto> x\<lparr>cdata := ?d\<rparr>) \<and>
    lru_list c' = (if ref_count x = 0 then remove1 e (lru_list c) @ [e] else lru_list c)"
    using c'(5) F(2,3) c1(4,5) l by (cases "ref_count x = 0") (auto simp: set_data_def)
  moreover have "lookup_entry host want rot now c = Some (Some as, c')"
    using c1(1) e1(1) t p c'(1) by (simp add: lookup_entry_def stx_cache_entry_getdata_def)
  moreover have "\<forall>k g. cached c' k g \<longleftrightarrow> cached c k g"
    using c'(4) c1(6) T(2) F(2) by simp
  ultimately show ?thesis
    using c'(2) sc name_keys_conf nk by blast
qed

lemma expired_run:
  assumes ok: "cache_ok c" and nk: "name_keys c" and h: "cached c host e" "centries c e = Some x"
    and t: "expires (cdata x) < now"
  shows "\<exists>c'. lookup_entry host want rot now c = Some (None, c') \<and> cache_ok c' \<and> name_keys c' \<and>
    (\<forall>k g. cached c' k g \<longleftrightarrow> cached c k g \<and> k \<noteq> host) \<and> (ref_count x = 0 \<longrightarrow> centries c' e = None)"
proof -
  note F = entry_facts [OF ok h]
  obtain b where b: "pthis x = Some b" using F(1) by blast
  obtain c1 where c1: "stx_cache_entry_lookup host c = Some (Some e, c1)" "cache_ok c1" "same_conf c c1"
    "centries c1 = (centries c)(e \<mapsto> x\<lparr>ref_count := ref_count x + 1\<rparr>)"
    "\<forall>k g. cached c1 k g \<longleftrightarrow> cached c k g"
    using lookup_finds [OF ok nk h] by blast
  let ?x1 = "x\<lparr>ref_count := ref_count x + 1\<rparr>"
  have e1: "centries c1 e = Some ?x1" "pthis ?x1 = Some b" "ref_count ?x1 > 0" using c1(4) b F(3) by simp_all
  obtain c2 where c2: "stx_cache_entry_release e c1 = Some c2" "cache_ok c2" "same_conf c1 c2"
    "\<forall>k g. cached c2 k g \<longleftrightarrow> cached c1 k g"
    "if ref_count ?x1 > 1
     then centries c2 = (centries c1)(e \<mapsto> ?x1\<lparr>ref_count := ref_count ?x1 - 1\<rparr>) \<and> lru_list c2 = lru_list c1
     else if delete_pending ?x1 then centries c2 = (centries c1)(e := None) \<and> lru_list c2 = lru_list c1
     else centries c2 = (centries c1)(e \<mapsto> ?x1\<lparr>ref_count := 0\<rparr>) \<and> lru_list c2 = lru_list c1 @ [e]"
    using release_run [OF c1(2) e1] by blast
  have e2: "centries c2 e = Some x" "pthis x = Some b"
    using c2(5) F(2,3) b by (auto split: if_splits)
  obtain c' where c': "stx_cache_entry_delete e c2 = Some c'" "cache_ok c'" "same_conf c2 c'"
    "\<forall>k g. cached c' k g \<longleftrightarrow> cached c2 k g \<and> g \<noteq> e"
    "if ref_count x = 0
     then centries c' = (centries c2)(e := None) \<and> lru_list c' = remove1 e (lru_list c2)
     else centries c' = (centries c2)(e \<mapsto> x\<lparr>delete_pending := True\<rparr>) \<and> lru_list c' = lru_list c2"
    using delete_run [OF c2(2) e2] by blast
  have "lookup_entry host want rot now c = Some (None, c')"
    using c1(1) e1(1) t c2(1) c'(1) by (simp add: lookup_entry_def stx_cache_entry_getdata_def)
  moreover have "cached c' k g \<longleftrightarrow> cached c k g \<and> k \<noteq> host" for k g
  proof -
    have "k = host" if "cached c k e"
      using that h(1) unfolding cached_names [OF nk] by auto
    moreover have "g = e" if "cached c host g"
      using that cached_is [OF ok nk h(1)] by blast
    ultimately show ?thesis
      using c'(4) c2(4) c1(5) by auto
  qed
  moreover have "name_keys c'"
    using same_conf_trans [OF c1(3) same_conf_trans [OF c2(3) c'(3)]] name_keys_conf nk by blast
  moreover have "ref_count x = 0 \<longrightarrow> centries c' e = None"
    using c'(5) by auto
  ultimately show ?thesis
    using c'(2) by blast
qed

section \<open>Turns\<close>

text \<open>The data of an entry as \<open>insert_entry\<close> stores them.\<close>

definition datum_ok :: "dns_data \<Rightarrow> bool" where
  "datum_ok d \<longleftrightarrow> addrs d \<noteq> [] \<and> num_addrs d = int (length (addrs d)) \<and> 0 \<le> cur d \<and> cur d < num_addrs d"

text \<open>Calls of \<open>stx_dns_getaddr\<close> for one name, at the given times.\<close>

fun getaddr_times ::
    "(string \<Rightarrow> int \<Rightarrow> resolved) \<Rightarrow> entry_env \<Rightarrow> string \<Rightarrow> int list \<Rightarrow> dns_cache option \<Rightarrow>
     ((bool \<times> addr option) list \<times> dns_cache option) option" where
  "getaddr_times resolve en name [] co = Some ([], co)"
| "getaddr_times resolve en name (t # ts) co =
     do {
       (ok, a, co1) \<leftarrow> stx_dns_getaddr resolve en t name co;
       (as, co2) \<leftarrow> getaddr_times resolve en name ts co1;
       Some ((ok, a) # as, co2)
     }"

definition next_cur :: "dns_data \<Rightarrow> int" where
  "next_cur d = (if cur d + 1 \<ge> num_addrs d then 0 else cur d + 1)"

lemma next_cur_mod: "datum_ok d \<Longrightarrow> nat (next_cur d) = Suc (nat (cur d)) mod length (addrs d)"
proof (cases "cur d + 1 \<ge> num_addrs d")
  case True
  assume "datum_ok d"
  then have "Suc (nat (cur d)) = length (addrs d)"
    using True unfolding datum_ok_def by linarith
  then show ?thesis
    using True by (simp add: next_cur_def)
next
  case False
  assume "datum_ok d"
  then have "nat (next_cur d) = Suc (nat (cur d))" "Suc (nat (cur d)) < length (addrs d)"
    using False unfolding datum_ok_def next_cur_def if_not_P [OF False] by linarith+
  then show ?thesis
    by simp
qed

lemma getaddr_hit:
  assumes "cache_ok c" "name_keys c" "cached c (lower_host name) e" "centries c e = Some x"
    and "datum_ok (cdata x)" "now \<le> expires (cdata x)"
  shows "\<exists>c'. stx_dns_getaddr resolve en now name (Some c) = Some (True, Some (addrs (cdata x) ! nat (cur (cdata x))), Some c') \<and>
    cache_ok c' \<and> name_keys c' \<and> cached c' (lower_host name) e \<and>
    centries c' e = Some (x\<lparr>cdata := (cdata x)\<lparr>cur := next_cur (cdata x)\<rparr>\<rparr>)"
proof -
  have "pick_addrs 1 True (cdata x) = Some ([addrs (cdata x) ! nat (cur (cdata x))], next_cur (cdata x))"
    using assms(5) by (simp add: pick_addrs_def datum_ok_def next_cur_def)
  from hit_run [OF assms(1-4,6) this] show ?thesis
    using assms(3) by (auto simp: stx_dns_getaddr_def stx_dns_cache_getaddrlist_def Let_def)
qed

lemma turns_run:
  assumes "cache_ok c" "name_keys c" "cached c (lower_host name) e" "centries c e = Some x"
    and "datum_ok (cdata x)" "\<forall>t \<in> set ts. t \<le> expires (cdata x)"
  shows "\<exists>co. getaddr_times resolve en name ts (Some c) =
    Some (map (\<lambda>i. (True, Some (addrs (cdata x) ! ((nat (cur (cdata x)) + i) mod length (addrs (cdata x)))))) [0..<length ts], co)"
  using assms
proof (induction ts arbitrary: c x)
  case (Cons t ts)
  let ?d = "cdata x" let ?y = "x\<lparr>cdata := ?d\<lparr>cur := next_cur ?d\<rparr>\<rparr>"
  obtain c1 where c1: "stx_dns_getaddr resolve en t name (Some c) = Some (True, Some (addrs ?d ! nat (cur ?d)), Some c1)"
    "cache_ok c1" "name_keys c1" "cached c1 (lower_host name) e" "centries c1 e = Some ?y"
    using getaddr_hit [OF Cons.prems(1-5), of t resolve en] Cons.prems(6) by auto
  have y: "datum_ok (cdata ?y)" "\<forall>t \<in> set ts. t \<le> expires (cdata ?y)"
    using Cons.prems(5,6) by (auto simp: datum_ok_def next_cur_def)
  obtain co where co: "getaddr_times resolve en name ts (Some c1) =
    Some (map (\<lambda>i. (True, Some (addrs ?d ! ((nat (next_cur ?d) + i) mod length (addrs ?d))))) [0..<length ts], co)"
    using Cons.IH [OF c1(2-5) y] by auto
  have turn: "(nat (next_cur ?d) + i) mod length (addrs ?d) = (nat (cur ?d) + Suc i) mod length (addrs ?d)" for i
    unfolding next_cur_mod [OF Cons.prems(5)] by (simp add: mod_simps)
  have first: "nat (cur ?d) mod length (addrs ?d) = nat (cur ?d)"
    using Cons.prems(5) by (simp add: datum_ok_def nat_less_iff)
  have "[0..<Suc (length ts)] = 0 # map Suc [0..<length ts]"
    by (simp only: map_Suc_upt upt_rec [of 0 "Suc (length ts)"]) simp
  then show ?case
    using c1(1) co by (simp add: turn first o_def del: upt_Suc)
qed simp

text \<open>
  C24: Round robin. While the entry of a name is in the cache and has not expired, \<open>stx_dns_getaddr\<close> answers from
  it without asking a server, and successive calls hand out the addresses of the name in turn, starting from the
  one that was due and wrapping round after the last; upper and lower case are the same name.
\<close>

theorem getaddr_round_robin:
  assumes "cache_ok c" "name_keys c" "cached c (lower_host name) e" "centries c e = Some x"
    and "datum_ok (cdata x)" "\<forall>t \<in> set ts. t \<le> expires (cdata x)"
  shows "\<exists>co. getaddr_times resolve en name ts (Some c) =
    Some (map (\<lambda>i. (True, Some (addrs (cdata x) ! ((nat (cur (cdata x)) + i) mod length (addrs (cdata x)))))) [0..<length ts], co)"
  by (rule turns_run [OF assms])

lemma demo_cached:
  "cached demo_cache (lower_host ''B'') 2" "centries demo_cache 2 = Some (demo_entry ''b'' 0 (Some 0))"
proof -
  have "lower_host ''B'' = ''b''"
    by code_simp
  then show "cached demo_cache (lower_host ''B'') 2"
    by (simp add: cached_names [OF demo_cache_ok(2)]) (simp add: demo_cache_def demo_entry_def)
qed (simp add: demo_cache_def)

lemma getaddr_round_robin_witness:
  "\<forall>resolve en. \<exists>co. getaddr_times resolve en ''B'' [50, 60, 100] (Some demo_cache) =
     Some ([(True, Some 1), (True, Some 2), (True, Some 1)], co)"
proof -
  have "datum_ok (cdata (demo_entry ''b'' 0 (Some 0)))" "\<forall>t \<in> set [50, 60, 100]. t \<le> expires (cdata (demo_entry ''b'' 0 (Some 0)))"
    by (simp_all add: datum_ok_def demo_entry_def)
  from getaddr_round_robin [OF demo_cache_ok(1,2) demo_cached this] show ?thesis
    by (simp add: demo_entry_def upt_rec)
qed

text \<open>
  An entry past its time to live is never used again: the lookup drops it, so that the name is not in the cache
  any more (an entry that another thread still refers to goes when it is released), keeps all other names, and
  makes \<open>_stx_dns_cache_getaddrlist\<close> ask the resolver.
\<close>

theorem expired_dropped:
  assumes "cache_ok c" "name_keys c" "cached c (lower_host name) e" "centries c e = Some x" "expires (cdata x) < now"
    and "q = resolve (lower_host name) MAX_HOST_ADDRS"
  shows "\<exists>c'. lookup_entry (lower_host name) want rot now c = Some (None, c') \<and> cache_ok c' \<and>
    (\<forall>k g. cached c' k g \<longleftrightarrow> cached c k g \<and> k \<noteq> lower_host name) \<and> (ref_count x = 0 \<longrightarrow> centries c' e = None) \<and>
    stx_dns_cache_getaddrlist resolve en now name want rot (Some c) =
      (case rs_addrs q of
         None \<Rightarrow> Some (None, Some (rs_cache q))
       | Some as \<Rightarrow> map_option (\<lambda>c2. (Some (take (nat (min want (int (length as)))) as), Some c2))
           (insert_entry en (lower_host name) as (rs_now q) (rs_ttl q) (rs_cache q)))"
proof -
  obtain c' where "lookup_entry (lower_host name) want rot now c = Some (None, c')" "cache_ok c'"
    "\<forall>k g. cached c' k g \<longleftrightarrow> cached c k g \<and> k \<noteq> lower_host name" "ref_count x = 0 \<longrightarrow> centries c' e = None"
    using expired_run [OF assms(1-5)] by blast
  then show ?thesis
    using assms(6)
    by (intro exI [of _ c']) (auto simp: stx_dns_cache_getaddrlist_def Let_def map_option_case split: option.splits bind_split)
qed

lemma expired_dropped_witness:
  "\<exists>c'. lookup_entry (lower_host ''B'') 1 True 101 demo_cache = Some (None, c') \<and> centries c' 2 = None"
proof -
  have "expires (cdata (demo_entry ''b'' 0 (Some 0))) < 101"
    by (simp add: demo_entry_def)
  from expired_dropped [OF demo_cache_ok(1,2) demo_cached this refl, where want = 1 and rot = True] show ?thesis
    by (simp add: demo_entry_def) blast
qed

text \<open>
  \<open>stx_dns_getaddr\<close> reports success whenever the resolver does, also when the reply holds no address (a name
  that has only other records): the address of the caller is then left as it was, and nothing enters the cache.
\<close>

theorem getaddr_unset:
  assumes "cache_ok c" "name_keys c" "\<forall>e. \<not> cached c (lower_host name) e"
    and "rs_addrs (resolve (lower_host name) MAX_HOST_ADDRS) = Some []" "rs_ttl (resolve (lower_host name) MAX_HOST_ADDRS) \<le> 0"
  shows "stx_dns_getaddr resolve en now name (Some c) =
    Some (True, None, Some (rs_cache (resolve (lower_host name) MAX_HOST_ADDRS)))"
proof -
  have "\<exists>c1. stx_cache_entry_lookup (lower_host name) c = Some (None, c1)"
    using dns_keys.lookup_run [OF assms(1) name_keysD [OF assms(2)], of "lower_host name"] assms(3) by blast
  then show ?thesis
    using assms(4,5)
    by (auto simp: stx_dns_getaddr_def stx_dns_cache_getaddrlist_def lookup_entry_def insert_entry_def Let_def)
qed

lemma getaddr_unset_witness:
  "\<forall>en. stx_dns_getaddr (\<lambda>h n. \<lparr>rs_addrs = Some [], rs_ttl = - 1, rs_cache = demo_cache, rs_now = 0\<rparr>) en 0 ''X'' (Some demo_cache) =
     Some (True, None, Some demo_cache)"
proof -
  have "lower_host ''X'' = ''x''"
    by code_simp
  then have "\<not> cached demo_cache (lower_host ''X'') e" for e
    by (auto simp: cached_names [OF demo_cache_ok(2)]) (auto simp: demo_cache_def demo_entry_def split: if_splits)
  then show ?thesis
    using getaddr_unset [OF demo_cache_ok(1,2), of "''X''"] by simp
qed

end
