(* ===== verification/ST_DnsRes.thy ===== *)
theory ST_DnsRes
  imports ST_Prelude "HOL-Library.Monad_Syntax"
begin

text \<open>
  The resolver (\<open>extensions/dnsres.c\<close>): the answer of a name server is taken apart, the servers are asked
  one after the other, and a name is looked up as it is and in the domains of the search list. The
  functions of \<open>libresolv\<close> (\<open>dn_skipname\<close>, \<open>dn_expand\<close>, \<open>res_mkquery\<close>) and what the servers send are
  arguments. A packet is a list of bytes; a read outside the buffer, or a write outside \<open>addrs\<close> or
  \<open>name\<close>, is \<open>None\<close>.
\<close>

type_synonym octet = "8 word"

definition MAXPACKET :: nat where "MAXPACKET = 1024"
definition HFIXEDSZ :: int where "HFIXEDSZ = 12"
definition QFIXEDSZ :: int where "QFIXEDSZ = 4"
definition T_A :: nat where "T_A = 1"
definition MAXDNAME :: int where "MAXDNAME = 1025"

datatype h_errno = NETDB_SUCCESS | HOST_NOT_FOUND | TRY_AGAIN | NO_RECOVERY | NO_DATA | NETDB_INTERNAL

section \<open>Reading the packet\<close>

definition octet_at :: "octet list \<Rightarrow> int \<Rightarrow> nat option" where
  "octet_at buf p = (if 0 \<le> p \<and> p < int (length buf) then Some (unat (buf ! nat p)) else None)"

definition getshort :: "octet list \<Rightarrow> int \<Rightarrow> nat option" where
  "getshort buf p = do { a \<leftarrow> octet_at buf p; b \<leftarrow> octet_at buf (p + 1); Some (256 * a + b) }"

text \<open>The value of \<open>_getlong\<close>, stored in an \<open>int\<close>.\<close>

definition getlong :: "octet list \<Rightarrow> int \<Rightarrow> int option" where
  "getlong buf p =
     do { a \<leftarrow> getshort buf p; b \<leftarrow> getshort buf (p + 2); Some (sint (of_nat (65536 * a + b) :: 32 word)) }"

section \<open>The answer\<close>

text \<open>An address is four bytes; a shorter datum replaces the first ones.\<close>

definition put_addr :: "octet list list \<Rightarrow> int \<Rightarrow> octet list \<Rightarrow> octet list list option" where
  "put_addr as i bs =
     (if 0 \<le> i \<and> i < int (length as)
      then Some (as[nat i := bs @ drop (length bs) (as ! nat i)]) else None)"

definition bytes_from :: "octet list \<Rightarrow> int \<Rightarrow> nat \<Rightarrow> octet list option" where
  "bytes_from buf p n =
     (if 0 \<le> p \<and> p + int n \<le> int (length buf) then Some (take n (drop (nat p) buf)) else None)"

fun skip_questions :: "(int \<Rightarrow> int) \<Rightarrow> nat \<Rightarrow> int \<Rightarrow> int" where
  "skip_questions skipname 0 cp = cp"
| "skip_questions skipname (Suc qd) cp = skip_questions skipname qd (cp + (skipname cp + QFIXEDSZ))"

text \<open>
  The loop over the answers. The result is the number of addresses, \<open>None\<close> for \<open>-1\<close>, with the time to
  live and the array.
\<close>

fun answer_loop ::
    "(int \<Rightarrow> int) \<Rightarrow> octet list \<Rightarrow> int \<Rightarrow> int \<Rightarrow> nat \<Rightarrow> int \<Rightarrow> int \<Rightarrow> int \<Rightarrow> octet list list \<Rightarrow>
     (int option \<times> int \<times> octet list list) option" where
  "answer_loop expand buf eoa num 0 cp i ttl as = Some (Some i, ttl, as)"
| "answer_loop expand buf eoa num (Suc an) cp i ttl as =
     (if \<not> (cp < eoa \<and> i < num) then Some (Some i, ttl, as)
      else
        let n = expand cp in
        if n < 0 then Some (None, ttl, as)
        else let cp1 = cp + n in
          if cp1 + 4 + 4 + 2 \<ge> eoa then Some (None, ttl, as)
          else do {
            ty \<leftarrow> getshort buf cp1;
            let cp2 = cp1 + 4;
            ttl' \<leftarrow> (if ty = T_A then getlong buf cp2 else Some ttl);
            let cp3 = cp2 + 4;
            len \<leftarrow> getshort buf cp3;
            let cp4 = cp3 + 2;
            (if ty = T_A
             then (if len > 4 \<or> cp4 + int len > eoa then Some (None, ttl', as)
                   else do {
                     bs \<leftarrow> bytes_from buf cp4 len;
                     as' \<leftarrow> put_addr as i bs;
                     answer_loop expand buf eoa num an (cp4 + int len) (i + 1) ttl' as'
                   })
             else answer_loop expand buf eoa num an (cp4 + int len) i ttl' as)
          })"

text \<open>\<open>parse_answer\<close>: the result is \<open>0\<close>?, \<open>*num_addrs\<close>, \<open>_stx_dns_ttl\<close> and the array.\<close>

definition parse_answer ::
    "(int \<Rightarrow> int) \<Rightarrow> (int \<Rightarrow> int) \<Rightarrow> octet list \<Rightarrow> int \<Rightarrow> nat \<Rightarrow> nat \<Rightarrow> int \<Rightarrow> octet list list \<Rightarrow>
     (bool \<times> int \<times> int \<times> octet list list) option" where
  "parse_answer skipname expand buf len qd an num as =
     map_option (\<lambda>(r, ttl, as'). case r of None \<Rightarrow> (False, num, ttl, as') | Some i \<Rightarrow> (True, i, ttl, as'))
       (answer_loop expand buf len num an (skip_questions skipname qd HFIXEDSZ) 0 (- 1) as)"

section \<open>Asking the servers\<close>

text \<open>
  What happens with one server: the query made by \<open>res_mkquery\<close> (or its failure), the result of
  \<open>st_sendto\<close> with \<open>errno\<close>, and the results of the calls of \<open>st_recvfrom\<close> in turn.
\<close>

record server_run =
  sr_query :: "octet list option"
  sr_sent :: "errno + int"
  sr_replies :: "(errno + octet list) list"
  sr_skipname :: "int \<Rightarrow> int"
  sr_expand :: "int \<Rightarrow> int"

record query_state =
  qs_herr :: h_errno
  qs_errno :: errno
  qs_num :: int
  qs_addrs :: "octet list list"
  qs_ttl :: int

definition hdr_id :: "octet list \<Rightarrow> nat option" where
  "hdr_id buf = getshort buf 0"

definition hdr_rcode :: "octet list \<Rightarrow> nat option" where
  "hdr_rcode buf = map_option (\<lambda>b. b mod 16) (octet_at buf 3)"

definition hdr_qdcount :: "octet list \<Rightarrow> nat option" where
  "hdr_qdcount buf = getshort buf 4"

definition hdr_ancount :: "octet list \<Rightarrow> nat option" where
  "hdr_ancount buf = getshort buf 6"

text \<open>A packet or query is stored over the beginning of the buffer.\<close>

definition store_packet :: "octet list \<Rightarrow> octet list \<Rightarrow> octet list" where
  "store_packet pk buf = take MAXPACKET pk @ drop (length (take MAXPACKET pk)) buf"

text \<open>The loop that waits for the reply to this query; \<open>None\<close> also when there are no more replies.\<close>

fun wait_reply :: "nat \<Rightarrow> (errno + octet list) list \<Rightarrow> octet list \<Rightarrow> ((errno + int) \<times> octet list) option" where
  "wait_reply i [] buf = None"
| "wait_reply i (Inl e # rs) buf = Some (Inl e, buf)"
| "wait_reply i (Inr pk # rs) buf =
     (let buf' = store_packet pk buf; len = int (length (take MAXPACKET pk)) in
      if len = 0 then Some (Inr len, buf')
      else do {
        j \<leftarrow> hdr_id buf';
        (if i \<noteq> j then wait_reply i rs buf' else Some (Inr len, buf'))
      })"

definition rcode_herr :: "nat \<Rightarrow> h_errno" where
  "rcode_herr r = (if r = 3 then HOST_NOT_FOUND else if r = 2 then TRY_AGAIN else if r = 0 then NO_DATA else NO_RECOVERY)"

text \<open>One round of the loop: \<open>Inl\<close> is \<open>return\<close>, \<open>Inr\<close> is \<open>continue\<close>.\<close>

definition query_round :: "server_run \<Rightarrow> octet list \<Rightarrow> query_state \<Rightarrow> (bool + octet list) option \<times> query_state" where
  "query_round sr buf q =
     (case sr_query sr of
        None \<Rightarrow> (Some (Inl False), q\<lparr>qs_herr := NO_RECOVERY\<rparr>)
      | Some qu \<Rightarrow>
         let buf1 = store_packet qu buf in
         (case hdr_id buf1 of
            None \<Rightarrow> (None, q)
          | Some i \<Rightarrow>
             if sr_sent sr \<noteq> Inr (int (length qu))
             then (let q1 = q\<lparr>qs_herr := NETDB_INTERNAL, qs_errno := (case sr_sent sr of Inl e \<Rightarrow> e | Inr _ \<Rightarrow> qs_errno q)\<rparr>
                   in if qs_errno q1 = EINTR then (Some (Inl False), q1) else (Some (Inr buf1), q1))
             else
               (case wait_reply i (sr_replies sr) buf1 of
                  None \<Rightarrow> (None, q)
                | Some (Inl e, buf2) \<Rightarrow>
                   let q1 = q\<lparr>qs_herr := NETDB_INTERNAL, qs_errno := e\<rparr>
                   in (if e = EINTR then (Some (Inl False), q1) else (Some (Inr buf2), q1))
                | Some (Inr len, buf2) \<Rightarrow>
                   if len < HFIXEDSZ then (Some (Inr buf2), q\<lparr>qs_herr := NETDB_INTERNAL, qs_errno := EMSGSIZE\<rparr>)
                   else
                     (case (hdr_ancount buf2, hdr_qdcount buf2, hdr_rcode buf2) of
                        (Some an, Some qd, Some rc) \<Rightarrow>
                          if rc \<noteq> 0 \<or> an = 0 then (Some (Inr buf2), q\<lparr>qs_herr := rcode_herr rc\<rparr>)
                          else
                            (case parse_answer (sr_skipname sr) (sr_expand sr) buf2 len qd an (qs_num q) (qs_addrs q) of
                               None \<Rightarrow> (None, q)
                             | Some (ok, n, ttl, as) \<Rightarrow>
                                (Some (if ok then Inl True else Inr buf2),
                                 q\<lparr>qs_herr := TRY_AGAIN, qs_num := n, qs_addrs := as, qs_ttl := ttl\<rparr>))
                      | _ \<Rightarrow> (None, q)))))"

fun query_loop :: "server_run list \<Rightarrow> octet list \<Rightarrow> query_state \<Rightarrow> (bool \<times> query_state) option" where
  "query_loop [] buf q = Some (False, q)"
| "query_loop (sr # srs) buf q =
     (case query_round sr buf q of
        (None, _) \<Rightarrow> None
      | (Some (Inl r), q1) \<Rightarrow> Some (r, q1)
      | (Some (Inr buf1), q1) \<Rightarrow> query_loop srs buf1 q1)"

text \<open>The buffer is a local variable; \<open>buf\<close> is what it happens to hold.\<close>

definition query_domain :: "server_run list \<Rightarrow> octet list \<Rightarrow> query_state \<Rightarrow> (bool \<times> query_state) option" where
  "query_domain srs buf q = query_loop srs buf q"

section \<open>Names\<close>

record resolver =
  rv_init_ok :: bool
  rv_usevc :: bool
  rv_defnames :: bool
  rv_dnsrch :: bool
  rv_ndots :: nat
  rv_search :: "string list"
  rv_socket :: "errno + int"
  rv_netfd :: "errno + unit" \<comment> \<open>\<open>st_netfd_open_socket\<close>\<close>
  rv_ask :: "string \<Rightarrow> server_run list"
  rv_stack :: "octet list" \<comment> \<open>the bytes of \<open>qbuf\<close> before it is written\<close>

definition ask :: "resolver \<Rightarrow> string \<Rightarrow> query_state \<Rightarrow> (bool \<times> query_state) option" where
  "ask rv name q = query_domain (rv_ask rv name) (rv_stack rv) q"

definition interrupted :: "query_state \<Rightarrow> bool" where
  "interrupted q \<longleftrightarrow> qs_herr q = NETDB_INTERNAL \<and> qs_errno q = EINTR"

definition maxlen :: int where "maxlen = MAXDNAME - 1"

text \<open>
  The host, a dot and a domain in the buffer \<open>name\<close>. \<open>strncpy\<close> writes \<open>maxlen - n\<close> bytes, with the
  terminating zero among them only if the domain is shorter; for a negative number it writes beyond the
  buffer, and otherwise nothing terminates the name.
\<close>

definition join_name :: "string \<Rightarrow> string \<Rightarrow> string option" where
  "join_name host domain =
     (let h = take (nat maxlen) host; n = int (length h) + 1 in
      if int (length domain) < maxlen - n then Some (h @ ''.'' @ domain) else None)"

fun search_loop :: "resolver \<Rightarrow> string \<Rightarrow> string list \<Rightarrow> query_state \<Rightarrow> (bool option \<times> query_state) option" where
  "search_loop rv host [] q = Some (None, q)"
| "search_loop rv host (d # ds) q =
     do {
       name \<leftarrow> join_name host d;
       (ok, q1) \<leftarrow> ask rv name q;
       (if ok then Some (Some True, q1)
        else if interrupted q1 then Some (Some False, q1)
        else if \<not> rv_dnsrch rv then Some (None, q1)
        else search_loop rv host ds q1)
     }"

definition count_dots :: "string \<Rightarrow> nat" where
  "count_dots host = length (filter (\<lambda>c. c = CHR ''.'') (take (nat maxlen) host))"

definition trailing_dot :: "string \<Rightarrow> bool" where
  "trailing_dot host \<longleftrightarrow> last (take (nat maxlen) host) = CHR ''.''"

text \<open>\<open>errno\<close> survives the closing of the socket, which is not modelled here.\<close>

definition stx_dns_getaddrlist_uncached :: "resolver \<Rightarrow> string \<Rightarrow> query_state \<Rightarrow> (bool \<times> query_state) option" where
  "stx_dns_getaddrlist_uncached rv host q =
     (if \<not> rv_init_ok rv then Some (False, q\<lparr>qs_herr := NETDB_INTERNAL\<rparr>)
      else if rv_usevc rv then Some (False, q\<lparr>qs_herr := NETDB_INTERNAL, qs_errno := ENOSYS\<rparr>)
      else if host = [] then Some (False, q\<lparr>qs_herr := HOST_NOT_FOUND\<rparr>)
      else
        (case rv_socket rv of
           Inl e \<Rightarrow> Some (False, q\<lparr>qs_herr := NETDB_INTERNAL, qs_errno := e\<rparr>)
         | Inr _ \<Rightarrow>
            (case rv_netfd rv of
               Inl e \<Rightarrow> Some (False, q\<lparr>qs_herr := NETDB_INTERNAL, qs_errno := e\<rparr>)
             | Inr _ \<Rightarrow>
                let dots = count_dots host; as_is = dots \<ge> rv_ndots rv in
                do {
                  (r, q1) \<leftarrow> (if as_is
                               then do {
                                 (ok, q') \<leftarrow> ask rv host q;
                                 Some (if ok then Some True else if interrupted q' then Some False else None, q')
                               }
                               else Some (None, q));
                  (case r of
                     Some b \<Rightarrow> Some (b, q1)
                   | None \<Rightarrow>
                      do {
                        (r2, q2) \<leftarrow> (if dots = 0 \<and> rv_defnames rv \<or> dots \<noteq> 0 \<and> \<not> trailing_dot host \<and> rv_dnsrch rv
                                      then search_loop rv host (rv_search rv) q1 else Some (None, q1));
                        (case r2 of
                           Some b \<Rightarrow> Some (b, q2)
                         | None \<Rightarrow> if as_is then Some (False, q2) else ask rv host q2)
                      })
                })))"

end
