(* ===== verification/ST_DnsResLaws.thy ===== *)
theory ST_DnsResLaws
  imports ST_DnsRes
begin

text \<open>
  What the resolver does with a packet and with a name. The answer of a server is never read or written
  out of bounds, whatever its bytes are; the answers that a server encodes come back in order; and the
  names are tried in the order that \<open>candidates\<close> lists.
\<close>

section \<open>Bounds\<close>

definition addrs_ok :: "octet list list \<Rightarrow> bool" where
  "addrs_ok as \<longleftrightarrow> list_all (\<lambda>a. length a = 4) as"

lemma octet_atI: "0 \<le> p \<Longrightarrow> p < int (length buf) \<Longrightarrow> octet_at buf p = Some (unat (buf ! nat p))"
  by (simp add: octet_at_def)

lemma getshort_in: "0 \<le> p \<Longrightarrow> p + 1 < int (length buf) \<Longrightarrow> \<exists>v. getshort buf p = Some v"
  by (simp add: getshort_def octet_at_def)

lemma getlong_in: "0 \<le> p \<Longrightarrow> p + 3 < int (length buf) \<Longrightarrow> \<exists>v. getlong buf p = Some v"
  by (simp add: getlong_def getshort_def octet_at_def)

lemma put_addr_in:
  assumes "0 \<le> i" "i < int (length as)" "addrs_ok as" "length bs \<le> 4"
  shows "\<exists>as'. put_addr as i bs = Some as' \<and> length as' = length as \<and> addrs_ok as' \<and>
           (\<forall>j. j \<noteq> nat i \<longrightarrow> as' ! j = as ! j)"
proof -
  have "length (as ! nat i) = 4"
    using assms by (simp add: addrs_ok_def list_all_length nat_less_iff)
  then have "addrs_ok (as[nat i := bs @ drop (length bs) (as ! nat i)])"
    using assms by (simp add: addrs_ok_def list_all_length nth_list_update)
  then show ?thesis
    using assms by (simp add: put_addr_def)
qed

lemma bytes_from_in:
  "0 \<le> p \<Longrightarrow> p + int n \<le> int (length buf) \<Longrightarrow> \<exists>bs. bytes_from buf p n = Some bs \<and> length bs = n"
  by (simp add: bytes_from_def nat_le_iff le_diff_conv2 nat_le_iff)

lemma skip_questions_nonneg:
  assumes "\<And>p. - 1 \<le> skipname p" and "0 \<le> cp"
  shows "0 \<le> skip_questions skipname qd cp"
  using assms(2)
proof (induction qd arbitrary: cp)
  case (Suc qd)
  have "0 \<le> cp + (skipname cp + QFIXEDSZ)"
    using Suc.prems assms(1) [of cp] by (simp add: QFIXEDSZ_def)
  from Suc.IH [OF this] show ?case
    by simp
qed simp

text \<open>What is true of every end of the loop over the answers.\<close>

definition answer_post :: "int \<Rightarrow> int \<Rightarrow> octet list list \<Rightarrow> int option \<times> int \<times> octet list list \<Rightarrow> bool" where
  "answer_post i num as = (\<lambda>(r, ttl, as'). length as' = length as \<and> addrs_ok as' \<and>
     (\<forall>j. int j < i \<or> num \<le> int j \<longrightarrow> as' ! j = as ! j) \<and>
     (case r of None \<Rightarrow> True | Some k \<Rightarrow> i \<le> k \<and> k \<le> num))"

lemma answer_post_refl:
  "addrs_ok as \<Longrightarrow> i \<le> num \<Longrightarrow> answer_post i num as (Some i, ttl, as)"
  "addrs_ok as \<Longrightarrow> answer_post i num as (None, ttl, as)"
  by (auto simp: answer_post_def)

lemma answer_post_step:
  assumes "answer_post (i + 1) num as' r" "0 \<le> i" "i < num" "length as' = length as"
    "\<And>j. j \<noteq> nat i \<Longrightarrow> as' ! j = as ! j"
  shows "answer_post i num as r"
  using assms by (force simp: answer_post_def split: prod.splits option.splits)

text \<open>One record whose fixed part lies within the answer.\<close>

lemma answer_record:
  assumes "cp < eoa" "i < num" "0 \<le> expand cp" "c = cp + expand cp" "c + 10 < eoa"
    and "getshort buf c = Some ty" "getlong buf (c + 4) = Some tt" "getshort buf (c + 8) = Some len"
  shows "answer_loop expand buf eoa num (Suc an) cp i ttl as =
    (if ty \<noteq> T_A then answer_loop expand buf eoa num an (c + 10 + int len) i ttl as
     else if len > 4 \<or> c + 10 + int len > eoa then Some (None, tt, as)
     else do {
       bs \<leftarrow> bytes_from buf (c + 10) len;
       as' \<leftarrow> put_addr as i bs;
       answer_loop expand buf eoa num an (c + 10 + int len) (i + 1) tt as'
     })"
proof -
  have e: "c + 4 + 4 = c + 8" "c + 8 + 2 = c + 10"
    by simp_all
  show ?thesis
    using assms(1-3,5-8) by (simp only: answer_loop.simps Let_def assms(4) [symmetric] e) simp
qed

lemma answer_loop_safe:
  assumes "eoa \<le> int (length buf)" "num \<le> int (length as)"
  shows "0 \<le> cp \<Longrightarrow> 0 \<le> i \<Longrightarrow> i \<le> num \<Longrightarrow> addrs_ok as \<Longrightarrow>
    \<exists>r. answer_loop expand buf eoa num an cp i ttl as = Some r \<and> answer_post i num as r"
  using assms
proof (induction an arbitrary: cp i ttl as)
  case 0
  then show ?case by (simp add: answer_post_refl)
next
  case (Suc an)
  note [simp] = answer_post_refl
  define c where "c = cp + expand cp"
  consider "\<not> (cp < eoa \<and> i < num)" | "cp < eoa" "i < num" "expand cp < 0"
    | "cp < eoa" "i < num" "0 \<le> expand cp" "eoa \<le> c + 10"
    | "cp < eoa" "i < num" "0 \<le> expand cp" "c + 10 < eoa"
    by linarith
  then show ?case
  proof cases
    case 4
    have "0 \<le> c"
      using 4 Suc.prems by (simp add: c_def)
    have "\<exists>v. getshort buf c = Some v" "\<exists>v. getlong buf (c + 4) = Some v" "\<exists>v. getshort buf (c + 8) = Some v"
      using 4 Suc.prems \<open>0 \<le> c\<close> by (intro getshort_in getlong_in; linarith)+
    then obtain ty tt len where rd: "getshort buf c = Some ty" "getlong buf (c + 4) = Some tt" "getshort buf (c + 8) = Some len"
      by blast
    note step = answer_record [where cp = cp and expand = expand and c = c, OF 4(1-3) c_def 4(4) rd]
    have next_pos: "0 \<le> c + 10 + int len"
      using \<open>0 \<le> c\<close> by simp
    consider (other) "ty \<noteq> T_A" | (bad) "ty = T_A" "len > 4 \<or> c + 10 + int len > eoa"
      | (good) "ty = T_A" "len \<le> 4" "c + 10 + int len \<le> eoa"
      by linarith
    then show ?thesis
    proof cases
      case other
      from Suc.IH [OF next_pos Suc.prems(2-6), of ttl] show ?thesis
        using other unfolding step by simp
    next
      case bad
      then show ?thesis
        using Suc.prems unfolding step by simp
    next
      case good
      have b1: "0 \<le> c + 10" and b2: "c + 10 + int len \<le> int (length buf)"
        using \<open>0 \<le> c\<close> good Suc.prems by linarith+
      obtain bs where bs: "bytes_from buf (c + 10) len = Some bs" "length bs = len"
        using bytes_from_in [OF b1 b2] by blast
      have i1: "i < int (length as)" and l4: "length bs \<le> 4" using 4 Suc.prems bs good by linarith+
      obtain as' where as': "put_addr as i bs = Some as'" "length as' = length as" "addrs_ok as'"
        "\<And>j. j \<noteq> nat i \<Longrightarrow> as' ! j = as ! j"
        using put_addr_in [OF Suc.prems(2) i1 Suc.prems(4) l4] by blast
      have "0 \<le> i + 1" "i + 1 \<le> num" "num \<le> int (length as')"
        using 4 Suc.prems as' by simp_all
      from Suc.IH [OF next_pos this(1,2) as'(3) Suc.prems(5) this(3), of tt]
      obtain r where r: "answer_loop expand buf eoa num an (c + 10 + int len) (i + 1) tt as' = Some r"
        "answer_post (i + 1) num as' r" by blast
      have "answer_post i num as r"
        using answer_post_step [OF r(2) Suc.prems(2) _ as'(2,4)] 4 by blast
      then show ?thesis
        using good bs as' r unfolding step by simp
    qed
  qed (use Suc.prems in \<open>auto simp: Let_def c_def\<close>)
qed

section \<open>The encoded answer\<close>

definition be16 :: "nat \<Rightarrow> octet list" where
  "be16 n = [of_nat (n div 256), of_nat n]"

definition be32 :: "32 word \<Rightarrow> octet list" where
  "be32 w = be16 (unat w div 65536) @ be16 (unat w mod 65536)"

record rr =
  rr_type :: nat
  rr_class :: nat
  rr_ttl :: "32 word"
  rr_data :: "octet list"

text \<open>A resource record as a server sends it, its name a pointer to the name in the question (RFC 1035, 4.1.4).\<close>

definition encode_rr :: "rr \<Rightarrow> octet list" where
  "encode_rr r = [0xC0, 0x0C] @ be16 (rr_type r) @ be16 (rr_class r) @ be32 (rr_ttl r) @ be16 (length (rr_data r)) @ rr_data r"

definition rr_ok :: "rr \<Rightarrow> bool" where
  "rr_ok r \<longleftrightarrow> rr_type r < 65536 \<and> length (rr_data r) < 65536 \<and> (rr_type r = T_A \<longrightarrow> length (rr_data r) = 4)"

abbreviation a_records :: "rr list \<Rightarrow> rr list" where
  "a_records rs \<equiv> filter (\<lambda>r. rr_type r = T_A) rs"

lemma length_be [simp]: "length (be16 n) = 2" "length (be32 w) = 4"
  by (simp_all add: be16_def be32_def)

lemma length_encode_rr [simp]: "length (encode_rr r) = 12 + length (rr_data r)"
  by (simp add: encode_rr_def)

lemma getshort_be16:
  assumes "n < 65536"
  shows "getshort (pre @ be16 n @ post) (int (length pre)) = Some n"
proof -
  have "unat (of_nat (n div 256) :: octet) = n div 256" "unat (of_nat n :: octet) = n mod 256"
    using assms by (simp_all add: unat_of_nat)
  then show ?thesis
    by (simp add: getshort_def octet_at_def be16_def nth_append nat_add_distrib)
qed

lemma getlong_be32: "getlong (pre @ be32 w @ post) (int (length pre)) = Some (sint w)"
proof -
  have "unat w < 2 ^ 32"
    using unsigned_less [of w] by simp
  then have "unat w div 65536 < 65536"
    by (simp add: less_mult_imp_div_less)
  then have 1: "getshort (pre @ be32 w @ post) (int (length pre)) = Some (unat w div 65536)"
    using getshort_be16 [of "unat w div 65536" pre "be16 (unat w mod 65536) @ post"] by (simp add: be32_def)
  have 2: "getshort (pre @ be32 w @ post) (int (length pre) + 2) = Some (unat w mod 65536)"
    using getshort_be16 [of "unat w mod 65536" "pre @ be16 (unat w div 65536)" post] by (simp add: be32_def add.commute)
  have "65536 * (unat w div 65536) + unat w mod 65536 = unat w"
    by simp
  then show ?thesis
    by (simp add: getlong_def 1 2 del: of_nat_add of_nat_mult)
qed

lemma encoded_reads:
  assumes "rr_ok r"
  shows "getshort (pre @ encode_rr r @ post) (int (length pre) + 2) = Some (rr_type r)"
    and "getlong (pre @ encode_rr r @ post) (int (length pre) + 2 + 4) = Some (sint (rr_ttl r))"
    and "getshort (pre @ encode_rr r @ post) (int (length pre) + 2 + 8) = Some (length (rr_data r))"
    and "bytes_from (pre @ encode_rr r @ post) (int (length pre) + 2 + 10) (length (rr_data r)) = Some (rr_data r)"
proof -
  let ?p = "pre @ [0xC0, 0x0C]" and ?len = "be16 (length (rr_data r))"
  show "getshort (pre @ encode_rr r @ post) (int (length pre) + 2) = Some (rr_type r)"
    using getshort_be16 [of "rr_type r" ?p "be16 (rr_class r) @ be32 (rr_ttl r) @ ?len @ rr_data r @ post"] assms
    by (simp add: encode_rr_def rr_ok_def add.commute)
  show "getlong (pre @ encode_rr r @ post) (int (length pre) + 2 + 4) = Some (sint (rr_ttl r))"
    using getlong_be32 [of "?p @ be16 (rr_type r) @ be16 (rr_class r)" "rr_ttl r" "?len @ rr_data r @ post"]
    by (simp add: encode_rr_def add.commute)
  show "getshort (pre @ encode_rr r @ post) (int (length pre) + 2 + 8) = Some (length (rr_data r))"
    using getshort_be16 [of "length (rr_data r)" "?p @ be16 (rr_type r) @ be16 (rr_class r) @ be32 (rr_ttl r)" "rr_data r @ post"] assms
    by (simp add: encode_rr_def rr_ok_def add.commute)
  show "bytes_from (pre @ encode_rr r @ post) (int (length pre) + 2 + 10) (length (rr_data r)) = Some (rr_data r)"
    by (simp add: bytes_from_def encode_rr_def nat_add_distrib)
qed

lemma put_addr_whole:
  "n < length as \<Longrightarrow> addrs_ok as \<Longrightarrow> length d = 4 \<Longrightarrow> put_addr as (int n) d = Some (as[n := d])"
  by (simp add: put_addr_def addrs_ok_def list_all_length)

lemma addrs_ok_update: "addrs_ok as \<Longrightarrow> length d = 4 \<Longrightarrow> addrs_ok (as[n := d])"
  by (auto simp: addrs_ok_def list_all_iff dest!: set_update_subset_insert [THEN subsetD])

lemma splice_step:
  "n < length as \<Longrightarrow> take (Suc n) (as[n := d]) @ ds @ drop (Suc n + k) (as[n := d]) = take n as @ (d # ds) @ drop (n + Suc k) as"
  by (simp add: take_Suc_conv_app_nth)

text \<open>\<open>points\<close> is what \<open>dn_expand\<close> documents of a pointer to the name in the question: it takes two bytes.\<close>

definition points :: "(int \<Rightarrow> int) \<Rightarrow> octet list \<Rightarrow> bool" where
  "points expand buf \<longleftrightarrow> (\<forall>p. 12 < p \<and> take 2 (drop p buf) = [0xC0, 0x0C] \<longrightarrow> expand (int p) = 2)"

lemma answer_loop_reads:
  assumes "addrs_ok as" "n \<le> m" "m \<le> length as" "12 < length pre" "list_all rr_ok rs"
    and "rs = [] \<or> rr_data (last rs) \<noteq> []" "points expand (pre @ concat (map encode_rr rs) @ post)"
    and "xs = take (m - n) (a_records rs)"
  shows "answer_loop expand (pre @ concat (map encode_rr rs) @ post) (int (length pre + length (concat (map encode_rr rs))))
      (int m) (length rs) (int (length pre)) (int n) ttl as =
    Some (Some (int (n + length xs)), if xs = [] then ttl else sint (rr_ttl (last xs)),
      take n as @ map rr_data xs @ drop (n + length xs) as)"
  using assms
proof (induction rs arbitrary: pre n ttl as xs)
  case (Cons r rs)
  let ?tail = "concat (map encode_rr rs) @ post"
  let ?buf = "pre @ encode_rr r @ ?tail" and ?eoa = "int (length pre + length (encode_rr r @ concat (map encode_rr rs)))"
  have ok: "rr_ok r" "list_all rr_ok rs"
    using Cons.prems by simp_all
  have more: "0 < int (length (rr_data r)) + int (length (concat (map encode_rr rs)))"
    using Cons.prems(6) by (cases rs) auto
  show ?case
  proof (cases "n = m")
    case True
    then show ?thesis
      using Cons.prems by simp
  next
    case False
    have e: "expand (int (length pre)) = 2"
      using Cons.prems(4,7) by (simp add: points_def encode_rr_def)
    have step: "answer_loop expand ?buf ?eoa (int m) (Suc (length rs)) (int (length pre)) (int n) ttl as =
      (if rr_type r \<noteq> T_A then answer_loop expand ?buf ?eoa (int m) (length rs) (int (length pre) + 2 + 10 + int (length (rr_data r))) (int n) ttl as
       else if length (rr_data r) > 4 \<or> int (length pre) + 2 + 10 + int (length (rr_data r)) > ?eoa then Some (None, sint (rr_ttl r), as)
       else do {
         bs \<leftarrow> bytes_from ?buf (int (length pre) + 2 + 10) (length (rr_data r));
         as' \<leftarrow> put_addr as (int n) bs;
         answer_loop expand ?buf ?eoa (int m) (length rs) (int (length pre) + 2 + 10 + int (length (rr_data r))) (int n + 1) (sint (rr_ttl r)) as'
       })"
      using False Cons.prems(2) more e
      by (intro answer_record encoded_reads ok) auto
    have pos: "int (length pre) + 2 + 10 + int (length (rr_data r)) = int (length (pre @ encode_rr r))"
      by simp
    have len: "?eoa = int (length (pre @ encode_rr r) + length (concat (map encode_rr rs)))"
      by simp
    have lhs: "pre @ (encode_rr r @ concat (map encode_rr rs)) @ post = ?buf" "length (r # rs) = Suc (length rs)"
      "concat (map encode_rr (r # rs)) = encode_rr r @ concat (map encode_rr rs)"
      by simp_all
    have tail: "12 < length (pre @ encode_rr r)" "rs = [] \<or> rr_data (last rs) \<noteq> []"
      "points expand ((pre @ encode_rr r) @ concat (map encode_rr rs) @ post)"
      using Cons.prems(4,6,7) by (auto split: if_splits)
    show ?thesis
    proof (cases "rr_type r = T_A")
      case True
      then have d: "length (rr_data r) = 4"
        using ok by (simp add: rr_ok_def)
      let ?as = "as[n := rr_data r]"
      define ys where "ys = take (m - Suc n) (a_records rs)"
      have "m - n = Suc (m - Suc n)"
        using Cons.prems(2) \<open>n \<noteq> m\<close> by simp
      then have xs: "xs = r # ys"
        using Cons.prems(8) True by (simp add: ys_def)
      have n: "n < length as" "Suc n \<le> m" "m \<le> length ?as"
        using False Cons.prems(2,3) by auto
      have whole: "answer_loop expand ?buf ?eoa (int m) (Suc (length rs)) (int (length pre)) (int n) ttl as =
        answer_loop expand ?buf ?eoa (int m) (length rs) (int (length (pre @ encode_rr r))) (int (Suc n)) (sint (rr_ttl r)) ?as"
        unfolding step pos using True d encoded_reads(4) [OF ok(1), of pre ?tail] put_addr_whole [OF n(1) Cons.prems(1) d]
        by (simp add: add.commute)
      have IH: "answer_loop expand ?buf ?eoa (int m) (length rs) (int (length (pre @ encode_rr r))) (int (Suc n)) (sint (rr_ttl r)) ?as =
        Some (Some (int (Suc n + length ys)), if ys = [] then sint (rr_ttl r) else sint (rr_ttl (last ys)),
          take (Suc n) ?as @ map rr_data ys @ drop (Suc n + length ys) ?as)"
        using Cons.IH [OF addrs_ok_update [OF Cons.prems(1) d] n(2,3) tail(1) ok(2) tail(2,3) ys_def, of "sint (rr_ttl r)"]
        by (simp only: append_assoc len)
      show ?thesis
        unfolding lhs whole IH xs by (simp only: splice_step [OF n(1)]) simp
    next
      case False
      then have "xs = take (m - n) (a_records rs)"
        using Cons.prems(8) by simp
      from Cons.IH [OF Cons.prems(1-3) tail(1) ok(2) tail(2,3) this, of ttl]
      have "answer_loop expand ?buf ?eoa (int m) (length rs) (int (length (pre @ encode_rr r))) (int n) ttl as =
        Some (Some (int (n + length xs)), if xs = [] then ttl else sint (rr_ttl (last xs)),
          take n as @ map rr_data xs @ drop (n + length xs) as)"
        by (simp only: append_assoc len)
      then show ?thesis
        unfolding lhs step pos using False by simp
    qed
  qed
qed simp

section \<open>\<open>parse_answer\<close>\<close>

lemma parse_answer_bounds:
  assumes "\<And>p. - 1 \<le> skipname p" "0 \<le> num" "num \<le> int (length as)" "addrs_ok as" "len \<le> int (length buf)"
  shows "\<exists>ok n ttl as'. parse_answer skipname expand buf len qd an num as = Some (ok, n, ttl, as') \<and>
    length as' = length as \<and> addrs_ok as' \<and> 0 \<le> n \<and> n \<le> num \<and> (\<not> ok \<longrightarrow> n = num) \<and>
    (\<forall>j. num \<le> int j \<longrightarrow> as' ! j = as ! j)"
proof -
  have "0 \<le> skip_questions skipname qd HFIXEDSZ"
    by (rule skip_questions_nonneg [OF assms(1)]) (simp add: HFIXEDSZ_def)
  from answer_loop_safe [OF assms(5,3) this order_refl assms(2,4)]
  obtain r ttl as' where "answer_loop expand buf len num an (skip_questions skipname qd HFIXEDSZ) 0 (- 1) as = Some (r, ttl, as')"
    "answer_post 0 num as (r, ttl, as')"
    by fast
  then show ?thesis
    using assms(2) by (cases r) (auto simp: parse_answer_def answer_post_def)
qed

text \<open>C26: parse_answer is safe on every packet: whatever bytes, record count and question count a server sends, it reads
  only inside the packet buffer and writes only the first *num_addrs entries of addrs, and it always returns a count
  between 0 and the number of entries the caller has room for; an error leaves the count as it was.\<close>
theorem parse_answer_safe:
  assumes "\<And>p. - 1 \<le> skipname p" "0 \<le> num" "num \<le> int (length as)" "addrs_ok as" "len \<le> int (length buf)"
  shows "\<exists>ok n ttl as'. parse_answer skipname expand buf len qd an num as = Some (ok, n, ttl, as') \<and>
    length as' = length as \<and> addrs_ok as' \<and> 0 \<le> n \<and> n \<le> num \<and> (\<not> ok \<longrightarrow> n = num) \<and>
    (\<forall>j. num \<le> int j \<longrightarrow> as' ! j = as ! j)"
  by (rule parse_answer_bounds [OF assms])

text \<open>A record cut short after its fixed part, in a packet that claims three of them.\<close>

definition cut_packet :: "octet list" where
  "cut_packet = replicate 12 0 @ [0xC0, 0x0C, 0, 1, 0, 1, 0, 0, 0, 60, 0, 4, 10, 0]"

lemma parse_answer_safe_witness:
  "\<exists>ok n ttl as'. parse_answer (\<lambda>_. 1) (\<lambda>_. 2) cut_packet 26 0 3 1 [[0, 0, 0, 0]] = Some (ok, n, ttl, as') \<and>
    length as' = length [[0 :: octet, 0, 0, 0]] \<and> addrs_ok as'"
proof -
  have "(26 :: int) \<le> int (length cut_packet)" "addrs_ok [[0, 0, 0, 0]]"
    by (simp_all add: cut_packet_def addrs_ok_def)
  then show ?thesis
    using parse_answer_safe [of "\<lambda>_. 1" 1 "[[0, 0, 0, 0]]" 26 cut_packet "\<lambda>_. 2" 0 3] by auto
qed


definition two_answers :: "rr list" where
  "two_answers = [\<lparr>rr_type = 5, rr_class = 1, rr_ttl = 9, rr_data = [1, 2]\<rparr>,
     \<lparr>rr_type = 1, rr_class = 1, rr_ttl = 300, rr_data = [10, 0, 0, 1]\<rparr>]"


section \<open>\<open>query_domain\<close>\<close>

definition caller_ok :: "query_state \<Rightarrow> bool" where
  "caller_ok q \<longleftrightarrow> 0 \<le> qs_num q \<and> qs_num q \<le> int (length (qs_addrs q)) \<and> addrs_ok (qs_addrs q)"

definition query_post :: "query_state \<Rightarrow> bool \<Rightarrow> query_state \<Rightarrow> bool" where
  "query_post q ok q' \<longleftrightarrow> length (qs_addrs q') = length (qs_addrs q) \<and> addrs_ok (qs_addrs q') \<and>
     0 \<le> qs_num q' \<and> qs_num q' \<le> qs_num q \<and> (\<not> ok \<longrightarrow> qs_num q' = qs_num q) \<and>
     (\<forall>j. qs_num q \<le> int j \<longrightarrow> qs_addrs q' ! j = qs_addrs q ! j)"

text \<open>
  A server whose last call of \<open>st_recvfrom\<close> fails (at the latest by the timeout), and \<open>dn_skipname\<close> as it is
  documented: the length of the name, or \<open>-1\<close>.
\<close>

definition server_ok :: "server_run \<Rightarrow> bool" where
  "server_ok sr \<longleftrightarrow> sr_replies sr \<noteq> [] \<and> (case last (sr_replies sr) of Inl _ \<Rightarrow> True | Inr pk \<Rightarrow> pk = []) \<and>
     (\<forall>p. - 1 \<le> sr_skipname sr p)"

lemma length_store_packet: "length buf = MAXPACKET \<Longrightarrow> length (store_packet pk buf) = MAXPACKET"
  by (simp add: store_packet_def)

lemma header_in:
  assumes "length buf = MAXPACKET"
  shows "\<exists>i. hdr_id buf = Some i" "\<exists>i. hdr_rcode buf = Some i" "\<exists>i. hdr_qdcount buf = Some i" "\<exists>i. hdr_ancount buf = Some i"
  using assms by (simp_all add: hdr_id_def hdr_rcode_def hdr_qdcount_def hdr_ancount_def getshort_def octet_at_def MAXPACKET_def)

lemma wait_reply_ends:
  assumes "rs \<noteq> []" "case last rs of Inl _ \<Rightarrow> True | Inr pk \<Rightarrow> pk = []" "length buf = MAXPACKET"
  shows "\<exists>r buf'. wait_reply i rs buf = Some (r, buf') \<and> length buf' = MAXPACKET \<and>
    (case r of Inl _ \<Rightarrow> True | Inr n \<Rightarrow> n \<le> int MAXPACKET)"
  using assms
proof (induction i rs buf rule: wait_reply.induct)
  case (3 i pk rs buf)
  let ?b = "store_packet pk buf"
  have len: "length ?b = MAXPACKET"
    using 3 by (simp add: length_store_packet)
  obtain j where j: "hdr_id ?b = Some j"
    using header_in(1) [OF len] by blast
  show ?case
  proof (cases "pk = []")
    case True
    then show ?thesis using len by simp
  next
    case False
    then have "rs \<noteq> []"
      using 3 by auto
    then show ?thesis
      using 3 False len j by (auto simp: Let_def MAXPACKET_def)
  qed
qed simp_all

lemma query_post_refl: "caller_ok q \<Longrightarrow> query_post q ok q"
  by (simp add: query_post_def caller_ok_def)

lemma query_post_status [simp]: "query_post q ok (q'\<lparr>qs_herr := h\<rparr>) = query_post q ok q'"
  "query_post q ok (q'\<lparr>qs_errno := e\<rparr>) = query_post q ok q'"
  by (simp_all add: query_post_def)

lemma query_post_trans: "query_post q False q1 \<Longrightarrow> query_post q1 ok q2 \<Longrightarrow> query_post q ok q2"
  by (simp add: query_post_def)

lemma query_post_caller: "query_post q False q1 \<Longrightarrow> caller_ok q \<Longrightarrow> caller_ok q1"
  by (simp add: query_post_def caller_ok_def)

lemma query_parse:
  assumes "server_ok sr" "caller_ok q" "length buf = MAXPACKET" "len \<le> int MAXPACKET"
  shows "\<exists>ok n ttl as. parse_answer (sr_skipname sr) (sr_expand sr) buf len qd an (qs_num q) (qs_addrs q) = Some (ok, n, ttl, as) \<and>
    query_post q ok (q\<lparr>qs_herr := TRY_AGAIN, qs_num := n, qs_addrs := as, qs_ttl := ttl\<rparr>)"
proof -
  have "\<And>p. - 1 \<le> sr_skipname sr p" "0 \<le> qs_num q" "qs_num q \<le> int (length (qs_addrs q))" "addrs_ok (qs_addrs q)"
    "len \<le> int (length buf)"
    using assms by (simp_all add: server_ok_def caller_ok_def)
  from parse_answer_bounds [of "sr_skipname sr", OF this, of "sr_expand sr" qd an] show ?thesis
    by (auto simp: query_post_def)
qed

lemma query_round_safe:
  assumes "server_ok sr" "caller_ok q" "length buf = MAXPACKET"
  shows "\<exists>r q'. query_round sr buf q = (Some r, q') \<and>
    (case r of Inl ok \<Rightarrow> query_post q ok q' | Inr buf' \<Rightarrow> length buf' = MAXPACKET \<and> query_post q False q')"
proof (cases "sr_query sr")
  case None
  then show ?thesis
    using assms by (simp add: query_round_def query_post_refl)
next
  case (Some qu)
  define buf1 where "buf1 = store_packet qu buf"
  have len1: "length buf1 = MAXPACKET"
    using assms by (simp add: buf1_def length_store_packet)
  obtain i where i: "hdr_id buf1 = Some i"
    using header_in(1) [OF len1] by blast
  obtain r buf2 where w: "wait_reply i (sr_replies sr) buf1 = Some (r, buf2)" and len2: "length buf2 = MAXPACKET"
    and r: "case r of Inl _ \<Rightarrow> True | Inr n \<Rightarrow> n \<le> int MAXPACKET"
    using wait_reply_ends [OF _ _ len1, of "sr_replies sr" i] assms(1) by (auto simp: server_ok_def)
  note facts = Some i buf1_def [symmetric] w len1 len2 query_post_refl [OF assms(2)]
  show ?thesis
  proof (cases "sr_sent sr = Inr (int (length qu))")
    case False
    then show ?thesis
      by (simp add: query_round_def facts Let_def)
  next
    case sent: True
    show ?thesis
    proof (cases r)
      case (Inl e)
      then show ?thesis
        using sent by (simp add: query_round_def facts Let_def)
    next
      case (Inr len)
      obtain an qd rc where h: "hdr_ancount buf2 = Some an" "hdr_qdcount buf2 = Some qd" "hdr_rcode buf2 = Some rc"
        using header_in [OF len2] by blast
      obtain ok n ttl as where "parse_answer (sr_skipname sr) (sr_expand sr) buf2 len qd an (qs_num q) (qs_addrs q) = Some (ok, n, ttl, as)"
        "query_post q ok (q\<lparr>qs_herr := TRY_AGAIN, qs_num := n, qs_addrs := as, qs_ttl := ttl\<rparr>)"
        using query_parse [OF assms(1,2) len2, of len qd an] r Inr by auto
      then show ?thesis
        using sent Inr h by (cases ok) (simp_all add: query_round_def facts Let_def)
    qed
  qed
qed

lemma query_loop_safe:
  assumes "list_all server_ok srs" "caller_ok q" "length buf = MAXPACKET"
  shows "\<exists>ok q'. query_loop srs buf q = Some (ok, q') \<and> query_post q ok q'"
  using assms
proof (induction srs arbitrary: buf q)
  case Nil
  then show ?case using query_post_refl [of q False] by auto
next
  case (Cons sr srs)
  then obtain r q1 where r: "query_round sr buf q = (Some r, q1)"
    "case r of Inl ok \<Rightarrow> query_post q ok q1 | Inr buf' \<Rightarrow> length buf' = MAXPACKET \<and> query_post q False q1"
    using query_round_safe [of sr q buf] by auto
  show ?case
  proof (cases r)
    case (Inl ok)
    then show ?thesis using r by simp
  next
    case (Inr buf')
    then have b: "length buf' = MAXPACKET" "query_post q False q1"
      using r by simp_all
    obtain ok q2 where "query_loop srs buf' q1 = Some (ok, q2)" "query_post q1 ok q2"
      using Cons.IH [OF _ query_post_caller [OF b(2) Cons.prems(2)] b(1)] Cons.prems(1) by auto
    then show ?thesis
      using r Inr b query_post_trans by auto
  qed
qed

section \<open>The names that are tried\<close>

text \<open>
  The names in the order the resolver promises: a name with \<open>ndots\<close> dots or more is first taken as it is;
  a name without dots (with \<open>RES_DEFNAMES\<close>), or with an inner dot (with \<open>RES_DNSRCH\<close>), is looked for in the
  domains of the search list, without \<open>RES_DNSRCH\<close> in the first only; otherwise the name as it is comes last.
\<close>

definition candidates :: "resolver \<Rightarrow> string \<Rightarrow> string list" where
  "candidates rv host =
     (let dots = length (filter (\<lambda>c. c = CHR ''.'') host);
          domains = (if dots = 0 \<and> rv_defnames rv \<or> dots \<noteq> 0 \<and> last host \<noteq> CHR ''.'' \<and> rv_dnsrch rv
                     then (if rv_dnsrch rv then rv_search rv else take 1 (rv_search rv)) else []);
          qualified = map (\<lambda>d. host @ ''.'' @ d) domains
      in if rv_ndots rv \<le> dots then host # qualified else qualified @ [host])"

text \<open>Names are asked for until one has an answer or another thread interrupts.\<close>

fun try_names :: "resolver \<Rightarrow> string list \<Rightarrow> query_state \<Rightarrow> (bool \<times> query_state) option" where
  "try_names rv [] q = Some (False, q)"
| "try_names rv (n # ns) q =
     (case ask rv n q of
        None \<Rightarrow> None
      | Some (ok, q1) \<Rightarrow> if ok then Some (True, q1) else if interrupted q1 then Some (False, q1) else try_names rv ns q1)"

lemma try_names_append:
  "try_names rv (ns @ ms) q =
    (case try_names rv ns q of
       None \<Rightarrow> None
     | Some (ok, q1) \<Rightarrow> if ok \<or> (ns \<noteq> [] \<and> interrupted q1) then Some (ok, q1) else try_names rv ms q1)"
  by (induction ns arbitrary: q) (auto split: option.splits)

lemma join_name_fits:
  "int (length host) + 1 + int (length d) < maxlen \<Longrightarrow> join_name host d = Some (host @ ''.'' @ d)"
  by (auto simp: join_name_def Let_def maxlen_def MAXDNAME_def)

lemma search_loop_names:
  assumes "\<forall>d \<in> set ds. int (length host) + 1 + int (length d) < maxlen"
  shows "map_option (\<lambda>(r, q1). (r = Some True, q1)) (search_loop rv host ds q) =
      try_names rv (map (\<lambda>d. host @ ''.'' @ d) (if rv_dnsrch rv then ds else take 1 ds)) q"
  using assms by (induction ds arbitrary: q) (auto simp: join_name_fits split: option.splits bind_split prod.splits)

lemma search_loop_interrupted:
  assumes "search_loop rv host ds q = Some (r, q1)"
  shows "(r = Some False) = (ds \<noteq> [] \<and> r \<noteq> Some True \<and> interrupted q1)"
  using assms by (induction ds arbitrary: q) (auto split: bind_splits prod.splits if_splits)

lemma try_names_last: "try_names rv [n] q = ask rv n q"
  by (auto split: option.splits)


text \<open>A resolver with two domains to search and servers that do not answer.\<close>

definition silent_server :: server_run where
  "silent_server = \<lparr>sr_query = Some (replicate 20 0), sr_sent = Inr 20, sr_replies = [Inr (replicate 12 1), Inl ETIME],
     sr_skipname = \<lambda>_. 1, sr_expand = \<lambda>_. 2\<rparr>"

definition resolver2 :: resolver where
  "resolver2 = \<lparr>rv_init_ok = True, rv_usevc = False, rv_defnames = True, rv_dnsrch = True, rv_ndots = 1,
     rv_search = [''org'', ''net''], rv_socket = Inr 5, rv_netfd = Inr (), rv_ask = \<lambda>_. [silent_server],
     rv_stack = replicate MAXPACKET 0\<rparr>"

definition query0 :: query_state where
  "query0 = \<lparr>qs_herr = NETDB_SUCCESS, qs_errno = EINVAL, qs_num = 1, qs_addrs = [[0, 0, 0, 0]], qs_ttl = 0\<rparr>"




end
