(* ===== verification/ST_FileIo.thy ===== *)
theory ST_FileIo
  imports ST_Prelude
begin

unbundle bit_operations_syntax

text \<open>
  Reading files without blocking the other threads (\<open>extensions/stx_fileio.c\<close>): a forked process
  reads the file, gets its requests through one pipe and sends what it read through another.

  A request is 16 bytes and is written and read in one piece. The answers form a stream of bytes: the
  length, an eight-byte integer, and the data. The process serves a request as soon as it is written;
  how much of the stream the parent sees at a read, or that the read times out, is an argument, and so
  are the failures of \<open>fork\<close> and of the write. \<open>rd f n\<close> is what \<open>read\<close> gives of the file at offset \<open>f\<close>
  (\<open>None\<close> for an error); \<open>lseek\<close> fails for a negative offset. A process that has written past its buffer is
  \<open>Smashed\<close>, and nothing is said of it after that.
\<close>

section \<open>The state\<close>

record file_reader_cb =
  cb_offset :: int
  cb_nbytes :: int

datatype proc = Reading int | Exited | Smashed

text \<open>
  A descriptor with its process: the offset of the open file, which parent and child share; the process,
  with its variable \<open>pos\<close>, or \<open>None\<close> when the descriptor has no private data yet; the bytes in the pipe
  from the child.
\<close>

record filefd =
  foff :: nat
  child :: "proc option"
  data_pipe :: "8 word list"

definition FILEREADER_MAX_READ :: nat where "FILEREADER_MAX_READ = 1024"

text \<open>An \<open>ssize_t\<close> in memory, least significant byte first.\<close>

definition ssize_bytes :: "64 word \<Rightarrow> 8 word list" where
  "ssize_bytes w = map (\<lambda>i. ucast (drop_bit (8 * i) w)) [0..<8]"

definition bytes_ssize :: "8 word list \<Rightarrow> 64 word" where
  "bytes_ssize bs = foldr (\<lambda>b a. ucast b OR push_bit 8 a) bs 0"

section \<open>The child process\<close>

text \<open>\<open>file_reader\<close>: the new process, unless \<open>pipe\<close> or \<open>fork\<close> fails.\<close>

definition file_reader :: "int \<Rightarrow> bool \<Rightarrow> proc option" where
  "file_reader fd forked = (if forked then Some (if fd = -1 then Exited else Reading 0) else None)"

text \<open>The variable \<open>pos\<close> and the offset of the file after \<open>lseek\<close>, where there is one.\<close>

definition seek_to :: "int \<Rightarrow> int \<Rightarrow> nat \<Rightarrow> (int \<times> nat) option" where
  "seek_to off pos f =
     (if pos \<noteq> off then (if off < 0 then None else Some (off, nat off)) else Some (pos, f))"

definition serve :: "(nat \<Rightarrow> nat \<Rightarrow> 8 word list option) \<Rightarrow> file_reader_cb \<Rightarrow> int \<Rightarrow> filefd \<Rightarrow> filefd" where
  "serve rd cb p s =
     (if cb_nbytes cb \<le> 0 then s\<lparr>child := Some Exited\<rparr>
      else
        (case seek_to (cb_offset cb) p (foff s) of
           None \<Rightarrow> s\<lparr>child := Some Exited\<rparr>
         | Some (p', f) \<Rightarrow>
             (case rd f (nat (cb_nbytes cb)) of
                None \<Rightarrow> s\<lparr>child := Some Exited, foff := f\<rparr>
              | Some bs \<Rightarrow>
                  (if FILEREADER_MAX_READ < length bs then s\<lparr>child := Some Smashed\<rparr>
                   else s\<lparr>child := Some (Reading (p' + int (length bs))), foff := f + length bs,
                          data_pipe := data_pipe s @ ssize_bytes (of_nat (length bs)) @ bs\<rparr>))))"

definition child_request :: "(nat \<Rightarrow> nat \<Rightarrow> 8 word list option) \<Rightarrow> file_reader_cb \<Rightarrow> filefd \<Rightarrow> filefd" where
  "child_request rd cb s = (case child s of Some (Reading p) \<Rightarrow> serve rd cb p s | _ \<Rightarrow> s)"

section \<open>The parent\<close>

definition get_fileio_data :: "int \<Rightarrow> bool \<Rightarrow> filefd \<Rightarrow> filefd" where
  "get_fileio_data fd forked s =
     (if child s = None then s\<lparr>child := file_reader fd forked, data_pipe := []\<rparr> else s)"

text \<open>
  \<open>st_read\<close> on the pipe from the child: its result, the bytes, and what is left. The argument is the number
  of bytes that have arrived, or \<open>None\<close> when the call times out. An empty pipe is at its end when the
  child is gone; from a child that is alive nothing comes.
\<close>

definition pipe_read :: "nat option \<Rightarrow> nat \<Rightarrow> filefd \<Rightarrow> int \<times> 8 word list \<times> filefd" where
  "pipe_read arrived n s =
     (case arrived of
        None \<Rightarrow> (- 1, [], s)
      | Some k \<Rightarrow>
          (if data_pipe s = [] then
             (if child s = Some Exited then 0 else - 1, [], s)
           else
             let m = min n (max 1 (min k (length (data_pipe s)))) in
             (int m, take m (data_pipe s), s\<lparr>data_pipe := drop m (data_pipe s)\<rparr>)))"

text \<open>The variable \<open>ret\<close>, \<open>- 1\<close> at first, after its first bytes have been read into it.\<close>

definition overlay :: "8 word list \<Rightarrow> 64 word" where
  "overlay bs = bytes_ssize (bs @ drop (length bs) (ssize_bytes (- 1)))"

definition stx_file_read ::
  "(nat \<Rightarrow> nat \<Rightarrow> 8 word list option) \<Rightarrow> int \<Rightarrow> bool \<Rightarrow> bool \<Rightarrow> nat option \<Rightarrow> nat option \<Rightarrow>
   int \<Rightarrow> 64 word \<Rightarrow> filefd \<Rightarrow> int \<times> 8 word list \<times> filefd" where
  "stx_file_read rd fd forked written r1 r2 offset nbytes s =
     (let s1 = get_fileio_data fd forked s in
      if child s1 = None then (- 1, [], s1)
      else
        let s2 = (if written then child_request rd \<lparr>cb_offset = offset, cb_nbytes = sint nbytes\<rparr> s1 else s1);
            (k, bs, s3) = pipe_read r1 8 s2;
            ret = overlay bs in
        if k = 8 \<and> 0 < sint ret \<and> ret \<le> nbytes then pipe_read r2 (unat ret) s3
        else (sint ret, [], s3))"

text \<open>
  The destructor of the private data: a request of length zero, \<open>waitpid\<close>, and the pipes are closed. The
  result is \<open>None\<close> when the process does not end.
\<close>

definition fileio_data_destructor :: "(nat \<Rightarrow> nat \<Rightarrow> 8 word list option) \<Rightarrow> filefd \<Rightarrow> filefd option" where
  "fileio_data_destructor rd s =
     (if child s = None then Some s
      else
        let s1 = child_request rd \<lparr>cb_offset = 0, cb_nbytes = 0\<rparr> s in
        if child s1 = Some Exited then Some (s1\<lparr>child := None, data_pipe := []\<rparr>) else None)"

section \<open>A length as bytes\<close>

lemma length_ssize_bytes [simp]: "length (ssize_bytes w) = 8"
  by (simp add: ssize_bytes_def)

lemma bytes_ssize_bytes [simp]: "bytes_ssize (ssize_bytes w) = w"
proof (rule bit_word_eqI)
  fix n assume "n < LENGTH(64)"
  then have *: "n = 8 * (n div 8) + n mod 8" "n div 8 < 8" "n mod 8 < 8"
    by simp_all
  have b: "bit (ucast b OR push_bit 8 a :: 64 word) (8 * q + r) =
      (if q = 0 then bit (b :: 8 word) r else bit (a :: 64 word) (8 * (q - 1) + r))" if "q < 8" "r < 8" for a b q r
    using that by (cases q) (auto simp: bit_simps dest: bit_imp_le_length)
  have "bit (bytes_ssize (ssize_bytes w)) (8 * q + r) = bit w (8 * q + r)" if "q < 8" "r < 8" for q r
  proof -
    have "q = 0 \<or> q = 1 \<or> q = 2 \<or> q = 3 \<or> q = 4 \<or> q = 5 \<or> q = 6 \<or> q = 7"
      using \<open>q < 8\<close> by auto
    then show ?thesis
      using \<open>r < 8\<close> by (elim disjE) (simp_all add: bytes_ssize_def ssize_bytes_def upt_rec b bit_simps)
  qed
  from this [OF *(2,3)] show "bit (bytes_ssize (ssize_bytes w)) n = bit w n"
    using *(1) by simp
qed

lemma overlay_length: "overlay (ssize_bytes w) = w"
  by (simp add: overlay_def)

section \<open>One request\<close>

text \<open>A regular file with the given content, and the section of it a read asks for.\<close>

definition regular :: "8 word list \<Rightarrow> nat \<Rightarrow> nat \<Rightarrow> 8 word list option" where
  "regular content f n = Some (take n (drop f content))"

definition file_section :: "8 word list \<Rightarrow> int \<Rightarrow> 64 word \<Rightarrow> 8 word list" where
  "file_section content off n = take (unat n) (drop (nat off) content)"


text \<open>The process is idle: it waits for a request, knows where the file is, and has nothing left in the pipe.\<close>

definition idle_child :: "filefd \<Rightarrow> bool" where
  "idle_child s \<longleftrightarrow> child s = Some (Reading (int (foff s))) \<and> data_pipe s = []"

lemma fresh_idle:
  assumes "child s = None" "foff s = 0" "fd \<noteq> - 1"
  shows "idle_child (get_fileio_data fd True s)"
  using assms by (simp add: idle_child_def get_fileio_data_def file_reader_def)

lemma idle_same: "idle_child s \<Longrightarrow> get_fileio_data fd forked s = s"
  by (simp add: idle_child_def get_fileio_data_def)

lemma sint_size:
  assumes "n \<le> 1024"
  shows "sint (n :: 64 word) = int (unat n)"
proof -
  have "uint n \<le> 1024"
    using assms by (simp add: word_le_def)
  then have "signed_take_bit 63 (uint n) = uint n"
    by (intro signed_take_bit_int_eq_self) (auto simp: order_trans [OF _ uint_ge_0])
  then show ?thesis
    by (simp add: sint_uint)
qed

text \<open>What a request leaves: the length and the data of the section in the pipe.\<close>

lemma request_served:
  assumes "idle_child s" "0 \<le> off" "0 < n" "n \<le> 1024"
    and sec_def: "sec = file_section content off n"
  shows "child_request (regular content) \<lparr>cb_offset = off, cb_nbytes = sint (n :: 64 word)\<rparr> s =
     s\<lparr>child := Some (Reading (off + int (length sec))), foff := nat off + length sec,
       data_pipe := ssize_bytes (of_nat (length sec)) @ sec\<rparr>"
proof -
  have n: "nat (sint n) = unat n" "unat n \<le> 1024" "\<not> sint n \<le> 0"
    using assms sint_size [of n] by (simp_all add: word_le_nat_alt word_less_def)
  have l: "length sec \<le> 1024"
    using n(2) by (simp add: sec_def file_section_def)
  show ?thesis
    using assms(1,2) n l
    by (auto simp: child_request_def serve_def seek_to_def idle_child_def regular_def FILEREADER_MAX_READ_def
        sec_def file_section_def)
qed

text \<open>Reading the answer, whatever is in the pipe behind it.\<close>

lemma answer_read:
  assumes "data_pipe s = ssize_bytes (of_nat (length sec)) @ sec @ rest" "length sec \<le> unat (n :: 64 word)"
    "length sec \<le> 1024" "8 \<le> k1"
  shows "(let (k, bs, s') = pipe_read (Some k1) 8 s; ret = overlay bs in
          if k = 8 \<and> 0 < sint ret \<and> ret \<le> n then pipe_read r2 (unat ret) s' else (sint ret, [], s')) =
     (if sec = [] then (0, [], s\<lparr>data_pipe := rest\<rparr>)
      else pipe_read r2 (length sec) (s\<lparr>data_pipe := sec @ rest\<rparr>))"
proof -
  have l: "unat (of_nat (length sec) :: 64 word) = length sec"
    using assms(3) by (simp add: unat_of_nat)
  have le: "(of_nat (length sec) :: 64 word) \<le> 1024" "(of_nat (length sec) :: 64 word) \<le> n"
    using assms(2,3) by (simp_all add: word_le_nat_alt l)
  have "pipe_read (Some k1) 8 s = (8, ssize_bytes (of_nat (length sec)), s\<lparr>data_pipe := sec @ rest\<rparr>)"
    using assms(1,4) by (auto simp: pipe_read_def Let_def min_def dest: arg_cong [where f = length])
  then show ?thesis
    using sint_size [OF le(1)] le(2) l by (simp add: overlay_length)
qed

lemma data_read:
  assumes "data_pipe s = sec @ rest" "sec \<noteq> []" "length sec \<le> k2"
  shows "pipe_read (Some k2) (length sec) s = (int (length sec), sec, s\<lparr>data_pipe := rest\<rparr>)"
  using assms by (cases sec) (simp_all add: pipe_read_def Let_def min_def)

section \<open>Calls\<close>

lemma read_idle:
  assumes "idle_child s" "0 \<le> off" "0 < n" "n \<le> 1024" "8 \<le> k1"
    and sec: "sec = file_section content off n" "length sec \<le> k2"
  shows "\<exists>s'. stx_file_read (regular content) fd forked True (Some k1) (Some k2) off n s = (int (length sec), sec, s') \<and>
     idle_child s'"
proof -
  define s2 where "s2 = s\<lparr>child := Some (Reading (off + int (length sec))), foff := nat off + length sec,
       data_pipe := ssize_bytes (of_nat (length sec)) @ sec @ []\<rparr>"
  have s2: "child_request (regular content) \<lparr>cb_offset = off, cb_nbytes = sint n\<rparr> s = s2"
    "idle_child (s2\<lparr>data_pipe := []\<rparr>)"
    using request_served [OF assms(1-4) sec(1)] assms(2) by (simp_all add: s2_def idle_child_def)
  have l: "length sec \<le> unat n" "length sec \<le> 1024"
    using \<open>n \<le> 1024\<close> by (auto simp: sec(1) file_section_def word_le_nat_alt)
  have "stx_file_read (regular content) fd forked True (Some k1) (Some k2) off n s =
      (if sec = [] then (0, [], s2\<lparr>data_pipe := []\<rparr>)
       else pipe_read (Some k2) (length sec) (s2\<lparr>data_pipe := sec @ []\<rparr>))"
    using answer_read [OF _ l \<open>8 \<le> k1\<close>, of s2 "[]" "Some k2"] assms(1)
    by (simp add: stx_file_read_def idle_same s2(1) idle_child_def Let_def s2_def case_prod_beta)
  then show ?thesis
    using s2(2) sec(2) data_read [of "s2\<lparr>data_pipe := sec @ []\<rparr>" sec "[]" k2] by (cases "sec = []") auto
qed

lemma get_twice: "get_fileio_data fd forked (get_fileio_data fd forked s) = get_fileio_data fd forked s"
  by (simp add: get_fileio_data_def file_reader_def)

text \<open>A sequence of calls on one descriptor, each with what has arrived when it reads.\<close>

fun file_reads ::
  "(nat \<Rightarrow> nat \<Rightarrow> 8 word list option) \<Rightarrow> int \<Rightarrow> (int \<times> 64 word \<times> nat \<times> nat) list \<Rightarrow> filefd \<Rightarrow>
   (int \<times> 8 word list) list" where
  "file_reads rd fd [] s = []"
| "file_reads rd fd ((off, n, k1, k2) # cs) s =
     (let (r, buf, s') = stx_file_read rd fd True True (Some k1) (Some k2) off n s in
      (r, buf) # file_reads rd fd cs s')"

lemma reads_idle:
  assumes "idle_child s"
    "\<forall>(off, n, k1, k2) \<in> set cs. 0 \<le> off \<and> 0 < n \<and> n \<le> 1024 \<and> 8 \<le> k1 \<and> unat n \<le> k2"
  shows "file_reads (regular content) fd cs s =
    map (\<lambda>(off, n, k1, k2). (int (length (file_section content off n)), file_section content off n)) cs"
  using assms
proof (induction cs arbitrary: s)
  case (Cons c cs)
  obtain off n k1 k2 where c: "c = (off, n, k1, k2)" by (cases c)
  have *: "0 \<le> off" "0 < n" "n \<le> 1024" "8 \<le> k1" "length (file_section content off n) \<le> k2"
    using Cons.prems(2) by (auto simp: c file_section_def min_def)
  obtain s' where "stx_file_read (regular content) fd True True (Some k1) (Some k2) off n s =
      (int (length (file_section content off n)), file_section content off n, s')" "idle_child s'"
    using read_idle [OF Cons.prems(1) *(1-4) refl *(5), of fd True] by blast
  then show ?case
    using Cons.IH [of s'] Cons.prems(2) by (simp add: c)
qed simp



section \<open>What the calls do not guard against\<close>

lemma served_read:
  assumes "child s2 = Some (Reading p)" "data_pipe s2 = ssize_bytes (of_nat (length sec)) @ sec @ rest"
    "child_request rd \<lparr>cb_offset = off, cb_nbytes = sint n\<rparr> s = s2" "child s \<noteq> None"
    "length sec \<le> unat n" "length sec \<le> 1024" "sec \<noteq> []" "8 \<le> k1" "length sec \<le> k2"
  shows "stx_file_read rd fd forked True (Some k1) (Some k2) off n s =
    (int (length sec), sec, s2\<lparr>data_pipe := rest\<rparr>)"
proof -
  have "get_fileio_data fd forked s = s"
    using assms(4) by (auto simp: get_fileio_data_def)
  then show ?thesis
    using answer_read [OF assms(2,5,6,8), of "Some k2"] data_read [of "s2\<lparr>data_pipe := sec @ rest\<rparr>" sec rest k2]
      assms(3,4,7,9)
    by (simp add: stx_file_read_def Let_def case_prod_beta)
qed

lemma request_behind:
  assumes "child s = Some (Reading (int (foff s)))" "0 \<le> off" "0 < n" "n \<le> 1024"
    and sec: "sec = file_section content off n"
  shows "\<exists>s'. child_request (regular content) \<lparr>cb_offset = off, cb_nbytes = sint (n :: 64 word)\<rparr> s = s' \<and>
     child s' = Some (Reading (int (foff s'))) \<and>
     data_pipe s' = data_pipe s @ ssize_bytes (of_nat (length sec)) @ sec"
proof -
  have "idle_child (s\<lparr>data_pipe := []\<rparr>)"
    using assms(1) by (simp add: idle_child_def)
  note r = request_served [OF this assms(2-4) sec]
  have "child_request rd cb (s\<lparr>data_pipe := d\<rparr>) =
      (let s' = child_request rd cb (s\<lparr>data_pipe := []\<rparr>) in s'\<lparr>data_pipe := d @ data_pipe s'\<rparr>)" for rd cb d
    by (simp add: child_request_def serve_def Let_def split: option.split proc.split)
  from this [of "regular content" "\<lparr>cb_offset = off, cb_nbytes = sint n\<rparr>" "data_pipe s"]
  show ?thesis
    using assms(2) unfolding r by simp
qed

text \<open>
  C30: A call that times out leaves its answer behind, and the next call takes it for its own: once a read of
  one part of a file has timed out, the next read, of whatever part, returns the bytes of the first part with
  success, if they fit in the buffer.
\<close>

theorem late_answer:
  assumes "idle_child s" "0 \<le> off1" "0 < n1" "n1 \<le> 1024" "0 \<le> off2" "0 < n2" "n2 \<le> 1024"
    and sec: "sec = file_section content off1 n1" "sec \<noteq> []" "length sec \<le> unat n2"
    and "8 \<le> k1" "length sec \<le> k2"
  shows "(let (r, buf, s') = stx_file_read (regular content) fd forked True None r2 off1 n1 s in
          r = - 1 \<and> buf = [] \<and>
          (let (r', buf', s'') = stx_file_read (regular content) fd forked True (Some k1) (Some k2) off2 n2 s' in
           r' = int (length sec) \<and> buf' = sec))"
proof -
  have c: "child s = Some (Reading (int (foff s)))" "data_pipe s = []"
    using assms(1) by (simp_all add: idle_child_def)
  obtain s1 where s1: "child_request (regular content) \<lparr>cb_offset = off1, cb_nbytes = sint n1\<rparr> s = s1"
    "child s1 = Some (Reading (int (foff s1)))" "data_pipe s1 = ssize_bytes (of_nat (length sec)) @ sec"
    using request_behind [OF c(1) assms(2-4) sec(1)] c(2) by auto
  obtain s2 where s2: "child_request (regular content) \<lparr>cb_offset = off2, cb_nbytes = sint n2\<rparr> s1 = s2"
    "child s2 = Some (Reading (int (foff s2)))"
    "data_pipe s2 = ssize_bytes (of_nat (length sec)) @ sec @
       ssize_bytes (of_nat (length (file_section content off2 n2))) @ file_section content off2 n2"
    using request_behind [OF s1(2) assms(5-7) refl] s1(3) by auto
  have "sint (overlay [] :: 64 word) = - 1"
    by (simp add: overlay_def)
  then have "stx_file_read (regular content) fd forked True None r2 off1 n1 s = (- 1, [], s1)"
    using s1(1) c(1) by (simp add: stx_file_read_def get_fileio_data_def pipe_read_def Let_def)
  moreover have "length sec \<le> 1024"
    using \<open>n1 \<le> 1024\<close> by (auto simp: sec(1) file_section_def word_le_nat_alt)
  ultimately show ?thesis
    using served_read [OF s2(2,3,1) _ sec(3) _ sec(2) \<open>8 \<le> k1\<close> \<open>length sec \<le> k2\<close>, of fd forked] s1(2) by simp
qed

lemma late_answer_witness:
  "\<exists>s'. stx_file_read (regular [1, 2, 3, 4, 5]) 3 True True None None 0 2 \<lparr>foff = 0, child = Some (Reading 0), data_pipe = []\<rparr> =
     (- 1, [], s') \<and>
   fst (stx_file_read (regular [1, 2, 3, 4, 5]) 3 True True (Some 8) (Some 2) 3 2 s') = 2 \<and>
   fst (snd (stx_file_read (regular [1, 2, 3, 4, 5]) 3 True True (Some 8) (Some 2) 3 2 s')) = [1, 2]"
  using late_answer [of "\<lparr>foff = 0, child = Some (Reading 0), data_pipe = []\<rparr>" 0 2 3 2 "[1, 2]" "[1, 2, 3, 4, 5]" 8 2 3 True None]
  by (auto simp: idle_child_def file_section_def Let_def case_prod_beta prod_eq_iff)

text \<open>
  The process takes the offset of the descriptor for 0 when it starts, although it shares the open file with
  whoever has read from it before; and a request for more than its buffer holds is not refused.
\<close>

lemma first_read_elsewhere:
  assumes "child s = None" "fd \<noteq> - 1" "0 < n" "n \<le> 1024"
    and sec: "sec = file_section content (int (foff s)) n" "sec \<noteq> []"
  shows "fst (snd (stx_file_read (regular content) fd True True (Some 8) (Some (unat n)) 0 n s)) = sec"
proof -
  have n: "nat (sint n) = unat n" "unat n \<le> 1024" "\<not> sint n \<le> 0"
    using assms(3,4) sint_size [of n] by (simp_all add: word_le_nat_alt word_less_def)
  define s0 where "s0 = get_fileio_data fd True s"
  define s2 where "s2 = child_request (regular content) \<lparr>cb_offset = 0, cb_nbytes = sint n\<rparr> s0"
  have l: "length sec \<le> unat n" "length sec \<le> 1024"
    using n(2) by (auto simp: sec(1) file_section_def)
  have s0: "child s0 = Some (Reading 0)" "foff s0 = foff s" "data_pipe s0 = []"
    using assms(1,2) by (simp_all add: s0_def get_fileio_data_def file_reader_def)
  have sn: "take (unat n) (drop (foff s) content) = sec"
    by (simp add: sec(1) file_section_def)
  then have ln: "min (length content - foff s) (unat n) = length sec"
    by (metis length_drop length_take)
  have "child s2 = Some (Reading (int (length sec)))" "data_pipe s2 = ssize_bytes (of_nat (length sec)) @ sec @ []"
    using s0 n l(2) by (simp_all add: s2_def child_request_def serve_def seek_to_def regular_def sn ln FILEREADER_MAX_READ_def)
  from served_read [OF this s2_def [symmetric] _ l sec(2), of 8 "unat n" fd True]
  have "fst (snd (stx_file_read (regular content) fd True True (Some 8) (Some (unat n)) 0 n s0)) = sec"
    using s0(1) l(1) by simp
  then show ?thesis
    by (simp add: stx_file_read_def s0_def get_twice)
qed

lemma request_too_long:
  assumes "child s = Some (Reading p)" "1024 < n" "p = int (foff s)" "foff s + n \<le> length content"
  shows "child (child_request (regular content) \<lparr>cb_offset = p, cb_nbytes = int n\<rparr> s) = Some Smashed"
  using assms by (simp add: child_request_def serve_def seek_to_def regular_def FILEREADER_MAX_READ_def)

lemma destructor_ends:
  assumes "child s \<noteq> Some Smashed"
  shows "\<exists>s'. fileio_data_destructor rd s = Some s' \<and> child s' = None"
  using assms
  by (auto simp: fileio_data_destructor_def child_request_def serve_def Let_def split: option.splits proc.splits)

end
