(* ===== verification/CT_Base64.thy ===== *)
theory CT_Base64
  imports "HOL-Library.Word" "HOL-Library.Monad_Syntax"
begin

unbundle bit_operations_syntax

text \<open>
  The base64 coder of \<open>CommonTools/base64.cpp\<close>. A byte is an 8-bit word; the expressions of the code
  are computed as \<open>int\<close> and stored in a \<open>char\<close>, which for these masks is the same as computing on the byte.
  \<open>Base64decode\<close> first looks for the end of the code, the first byte outside the alphabet; when there is
  none it reads beyond the buffer, and the result here is \<open>None\<close>.
\<close>

type_synonym byte8 = "8 word"

section \<open>Tables\<close>

definition pr2six_rows :: "nat list list" where
  "pr2six_rows =
    [[64, 64, 64, 64, 64, 64, 64, 64, 64, 64, 64, 64, 64, 64, 64, 64],
     [64, 64, 64, 64, 64, 64, 64, 64, 64, 64, 64, 64, 64, 64, 64, 64],
     [64, 64, 64, 64, 64, 64, 64, 64, 64, 64, 64, 62, 64, 64, 64, 63],
     [52, 53, 54, 55, 56, 57, 58, 59, 60, 61, 64, 64, 64, 64, 64, 64],
     [64,  0,  1,  2,  3,  4,  5,  6,  7,  8,  9, 10, 11, 12, 13, 14],
     [15, 16, 17, 18, 19, 20, 21, 22, 23, 24, 25, 64, 64, 64, 64, 64],
     [64, 26, 27, 28, 29, 30, 31, 32, 33, 34, 35, 36, 37, 38, 39, 40],
     [41, 42, 43, 44, 45, 46, 47, 48, 49, 50, 51, 64, 64, 64, 64, 64]]"

text \<open>The table has sixteen entries to a row; the rows of its second half are all 64.\<close>

definition pr2six :: "nat \<Rightarrow> nat" where
  "pr2six n = (if n < 128 then pr2six_rows ! (n div 16) ! (n mod 16) else 64)"

definition basis_64 :: string where
  "basis_64 = ''ABCDEFGHIJKLMNOPQRSTUVWXYZabcdefghijklmnopqrstuvwxyz0123456789+/''"

definition six :: "byte8 \<Rightarrow> byte8" where
  "six b = of_nat (pr2six (unat b))"

definition basis :: "byte8 \<Rightarrow> byte8" where
  "basis i = of_nat (of_char (basis_64 ! unat i))"

definition in_code :: "byte8 \<Rightarrow> bool" where
  "in_code b \<longleftrightarrow> pr2six (unat b) \<le> 63"

section \<open>Encoding\<close>

definition sextet1 :: "byte8 \<Rightarrow> byte8" where
  "sextet1 a = drop_bit 2 a AND 0x3F"

definition sextet2 :: "byte8 \<Rightarrow> byte8 \<Rightarrow> byte8" where
  "sextet2 a b = push_bit 4 (a AND 0x3) OR drop_bit 4 (b AND 0xF0)"

definition sextet3 :: "byte8 \<Rightarrow> byte8 \<Rightarrow> byte8" where
  "sextet3 b c = push_bit 2 (b AND 0xF) OR drop_bit 6 (c AND 0xC0)"

text \<open>The last digits of a group that is not full.\<close>

definition sextet2_end :: "byte8 \<Rightarrow> byte8" where
  "sextet2_end a = push_bit 4 (a AND 0x3)"

definition sextet3_end :: "byte8 \<Rightarrow> byte8" where
  "sextet3_end b = push_bit 2 (b AND 0xF)"

definition sextet4 :: "byte8 \<Rightarrow> byte8" where
  "sextet4 c = c AND 0x3F"

definition EQUALS :: byte8 where "EQUALS = 61"

fun encode_loop :: "byte8 list \<Rightarrow> byte8 list" where
  "encode_loop (a # b # c # rest) =
     basis (sextet1 a) # basis (sextet2 a b) # basis (sextet3 b c) # basis (sextet4 c) # encode_loop rest"
| "encode_loop [a, b] = [basis (sextet1 a), basis (sextet2 a b), basis (sextet3_end b), EQUALS]"
| "encode_loop [a] = [basis (sextet1 a), basis (sextet2_end a), EQUALS, EQUALS]"
| "encode_loop [] = []"

text \<open>What is written to \<open>encoded\<close>, and the result.\<close>

definition Base64encode :: "byte8 list \<Rightarrow> byte8 list \<times> int" where
  "Base64encode s = (let p = encode_loop s @ [0] in (p, int (length p)))"

definition Base64encode_len :: "int \<Rightarrow> int" where
  "Base64encode_len len = (len + 2) div 3 * 4 + 1"

section \<open>Decoding\<close>

text \<open>The loop \<open>while (pr2six[*(bufin++)] <= 63)\<close>: \<open>nprbytes\<close>.\<close>

fun code_length :: "byte8 list \<Rightarrow> nat option" where
  "code_length [] = None"
| "code_length (b # bs) = (if in_code b then map_option Suc (code_length bs) else Some 0)"

definition octet1 :: "byte8 \<Rightarrow> byte8 \<Rightarrow> byte8" where
  "octet1 a b = push_bit 2 (six a) OR drop_bit 4 (six b)"

definition octet2 :: "byte8 \<Rightarrow> byte8 \<Rightarrow> byte8" where
  "octet2 b c = push_bit 4 (six b) OR drop_bit 2 (six c)"

definition octet3 :: "byte8 \<Rightarrow> byte8 \<Rightarrow> byte8" where
  "octet3 c d = push_bit 6 (six c) OR six d"

text \<open>The loop while \<open>nprbytes > 4\<close>, and the rest.\<close>

fun decode_loop :: "byte8 list \<Rightarrow> byte8 list" where
  "decode_loop (a # b # c # d # e # rest) =
     octet1 a b # octet2 b c # octet3 c d # decode_loop (e # rest)"
| "decode_loop bs =
     (if 1 < length bs then [octet1 (bs ! 0) (bs ! 1)] else []) @
     (if 2 < length bs then [octet2 (bs ! 1) (bs ! 2)] else []) @
     (if 3 < length bs then [octet3 (bs ! 2) (bs ! 3)] else [])"

text \<open>The number of bytes left over after the loop.\<close>

definition left_bytes :: "nat \<Rightarrow> nat" where
  "left_bytes n = (if n = 0 then 0 else (n - 1) mod 4 + 1)"

definition Base64decode_len :: "byte8 list \<Rightarrow> int option" where
  "Base64decode_len buf = map_option (\<lambda>n. int ((n + 3) div 4 * 3) + 1) (code_length buf)"

text \<open>What is written to \<open>bufplain\<close>, and the result.\<close>

definition Base64decode :: "byte8 list \<Rightarrow> (byte8 list \<times> int) option" where
  "Base64decode buf =
     map_option (\<lambda>n. (decode_loop (take n buf) @ [0], int ((n + 3) div 4 * 3) - int ((4 - left_bytes n) mod 4)))
       (code_length buf)"

section \<open>The tables are inverse\<close>

lemma alphabet_codes: "map of_char basis_64 = [65..<91] @ [97..<123] @ [48..<58] @ [43, 47 :: nat]"
  by (simp add: basis_64_def upt_rec)

lemma six_codes: "map pr2six ([65..<91] @ [97..<123] @ [48..<58] @ [43, 47]) = [0..<64]"
  by (simp add: pr2six_def pr2six_rows_def upt_rec)

lemma alphabet: "list_all (\<lambda>n. pr2six (of_char (basis_64 ! n)) = n \<and> (of_char (basis_64 ! n) :: nat) < 256) [0..<64]"
proof -
  have "length basis_64 = 64"
    by (simp add: basis_64_def)
  then have "pr2six (of_char (basis_64 ! n)) = n" if "n < 64" for n
    using that arg_cong [OF six_codes [folded alphabet_codes], where f = "\<lambda>xs. xs ! n"] by simp
  then show ?thesis
    by (auto simp: list_all_iff)
qed

lemma basis_code:
  assumes "unat i < 64"
  shows "in_code (basis i)" "six (basis i) = i"
proof -
  have *: "pr2six (of_char (basis_64 ! unat i)) = unat i" "(of_char (basis_64 ! unat i) :: nat) < 256"
    using alphabet assms by (auto simp: list_all_iff)
  have u: "unat (basis i) = of_char (basis_64 ! unat i)"
    using *(2) by (simp add: basis_def unat_of_nat del: of_nat_of_char)
  show "in_code (basis i)"
    using * u assms by (simp add: in_code_def)
  show "six (basis i) = i"
    using * u by (simp add: six_def)
qed

lemma mask_less: "unat (x AND 0x3F :: byte8) < 64"
proof -
  have "(x AND 0x3F :: byte8) \<le> 0x3F"
    by (rule word_and_le1)
  then show ?thesis
    by (simp add: word_le_nat_alt)
qed

lemma byte_eqI:
  fixes a b :: byte8
  assumes "bit a 0 = bit b 0" "bit a 1 = bit b 1" "bit a 2 = bit b 2" "bit a 3 = bit b 3"
    "bit a 4 = bit b 4" "bit a 5 = bit b 5" "bit a 6 = bit b 6" "bit a 7 = bit b 7"
  shows "a = b"
proof (rule bit_word_eqI)
  fix n assume "n < LENGTH(8)"
  then have "n = 0 \<or> n = 1 \<or> n = 2 \<or> n = 3 \<or> n = 4 \<or> n = 5 \<or> n = 6 \<or> n = 7"
    by auto
  then show "bit a n = bit b n"
    using assms by (elim disjE) simp_all
qed

lemma sextet_masked:
  "sextet1 a AND 0x3F = sextet1 a" "sextet2 a b AND 0x3F = sextet2 a b" "sextet3 b c AND 0x3F = sextet3 b c"
  "sextet4 c AND 0x3F = sextet4 c" "sextet3_end b AND 0x3F = sextet3_end b" "sextet2_end a AND 0x3F = sextet2_end a"
  by (rule byte_eqI; simp add: sextet1_def sextet2_def sextet3_def sextet4_def sextet2_end_def sextet3_end_def bit_simps)+

lemma sextet_less:
  "unat (sextet1 a) < 64" "unat (sextet2 a b) < 64" "unat (sextet3 b c) < 64" "unat (sextet4 c) < 64"
  "unat (sextet3_end b) < 64" "unat (sextet2_end a) < 64"
  by (rule mask_less [of "sextet1 a", unfolded sextet_masked] mask_less [of "sextet2 a b", unfolded sextet_masked]
    mask_less [of "sextet3 b c", unfolded sextet_masked] mask_less [of "sextet4 c", unfolded sextet_masked]
    mask_less [of "sextet3_end b", unfolded sextet_masked] mask_less [of "sextet2_end a", unfolded sextet_masked])+

lemmas sextet_code = sextet_less [THEN basis_code(1)] and sextet_back = sextet_less [THEN basis_code(2)]

lemma octets:
  "octet1 (basis (sextet1 a)) (basis (sextet2 a b)) = a"
  "octet1 (basis (sextet1 a)) (basis (sextet2_end a)) = a"
  "octet2 (basis (sextet2 a b)) (basis (sextet3 b c)) = b"
  "octet2 (basis (sextet2 a b)) (basis (sextet3_end b)) = b"
  "octet3 (basis (sextet3 b c)) (basis (sextet4 c)) = c"
  unfolding octet1_def octet2_def octet3_def sextet_back
  by (rule byte_eqI; simp add: sextet1_def sextet2_def sextet3_def sextet4_def sextet2_end_def sextet3_end_def bit_simps)+

section \<open>Round trip\<close>

text \<open>The code without the padding.\<close>

fun code_of :: "byte8 list \<Rightarrow> byte8 list" where
  "code_of (a # b # c # rest) =
     basis (sextet1 a) # basis (sextet2 a b) # basis (sextet3 b c) # basis (sextet4 c) # code_of rest"
| "code_of [a, b] = [basis (sextet1 a), basis (sextet2 a b), basis (sextet3_end b)]"
| "code_of [a] = [basis (sextet1 a), basis (sextet2_end a)]"
| "code_of [] = []"

lemma encode_code: "\<exists>k. encode_loop s = code_of s @ replicate k EQUALS"
proof (induction s rule: code_of.induct)
  case (2 a b)
  have "encode_loop [a, b] = code_of [a, b] @ replicate 1 EQUALS" by simp
  then show ?case by blast
next
  case (3 a)
  have "encode_loop [a] = code_of [a] @ replicate 2 EQUALS" by (simp add: numeral_2_eq_2)
  then show ?case by blast
next
  case 4
  have "encode_loop [] = code_of [] @ replicate 0 EQUALS" by simp
  then show ?case by blast
qed auto

lemma code_in: "list_all in_code (code_of s)"
  by (induction s rule: code_of.induct) (simp_all add: sextet_code)

lemma code_length_end: "list_all in_code xs \<Longrightarrow> \<not> in_code y \<Longrightarrow> code_length (xs @ y # ys) = Some (length xs)"
  by (induction xs) simp_all

lemma ends: "\<not> in_code EQUALS" "\<not> in_code 0"
  by (simp_all add: in_code_def EQUALS_def pr2six_def pr2six_rows_def)

lemma code_of_Nil: "code_of s = [] \<longleftrightarrow> s = []"
  by (cases s rule: code_of.cases) simp_all

lemma decode_code: "decode_loop (code_of s) = s"
proof (induction s rule: code_of.induct)
  case (1 a b c rest)
  show ?case
  proof (cases "code_of rest")
    case Nil
    then show ?thesis by (simp add: code_of_Nil octets)
  next
    case (Cons e es)
    then show ?thesis using 1 by (simp add: octets)
  qed
qed (simp_all add: octets)

lemma length_code: "length (code_of s) = (4 * length s + 2) div 3"
  by (induction s rule: code_of.induct) auto

lemma length_decode: "length (decode_loop bs) = 3 * length bs div 4"
  by (induction bs rule: decode_loop.induct) auto

lemma decoded_bytes: "int ((n + 3) div 4 * 3) - int ((4 - left_bytes n) mod 4) = int (3 * n div 4)"
proof -
  have *: "(n + 3) div 4 * 3 = 3 * n div 4 + (4 - left_bytes n) mod 4"
  proof (cases n)
    case 0
    then show ?thesis by (simp add: left_bytes_def)
  next
    case (Suc m)
    define q r where "q = m div 4" and "r = m mod 4"
    have n: "n = 4 * q + (r + 1)" and "r < 4"
      using Suc by (simp_all add: q_def r_def)
    then have "n + 3 = r + 4 * (q + 1)" "3 * n = 3 * (r + 1) + 4 * (3 * q)" "(4 * q + r) mod 4 = r"
      by simp_all
    then have "(n + 3) div 4 = q + 1" "3 * n div 4 = 3 * q + 3 * (r + 1) div 4" "left_bytes n = r + 1"
      using \<open>r < 4\<close> n by (simp_all only: div_mult_self2 left_bytes_def) simp_all
    moreover have "r = 0 \<or> r = 1 \<or> r = 2 \<or> r = 3"
      using \<open>r < 4\<close> by auto
    ultimately show ?thesis
      by (elim disjE) simp_all
  qed
  then show ?thesis
    by linarith
qed

lemma Base64decode_eq:
  "Base64decode buf = map_option (\<lambda>n. (decode_loop (take n buf) @ [0], int (3 * n div 4))) (code_length buf)"
  by (simp only: Base64decode_def decoded_bytes)


text \<open>
  The buffers that the callers are told to provide suffice: \<open>Base64encode\<close> writes exactly
  \<open>Base64encode_len\<close> bytes and returns that number, and \<open>Base64decode\<close>, given any bytes with an end, writes one
  byte more than it returns and never more than \<open>Base64decode_len\<close>.
\<close>

theorem base64_bounds:
  "snd (Base64encode s) = Base64encode_len (int (length s)) \<and>
   int (length (fst (Base64encode s))) = Base64encode_len (int (length s)) \<and>
   (case Base64decode buf of
      None \<Rightarrow> Base64decode_len buf = None
    | Some (out, n) \<Rightarrow> int (length out) = n + 1 \<and> (\<exists>m. Base64decode_len buf = Some m \<and> int (length out) \<le> m))"
proof -
  have "length (encode_loop s) = (length s + 2) div 3 * 4"
    by (induction s rule: encode_loop.induct) (simp_all, presburger)
  then have enc: "snd (Base64encode s) = Base64encode_len (int (length s))"
    "int (length (fst (Base64encode s))) = Base64encode_len (int (length s))"
    by (simp_all add: Base64encode_def Base64encode_len_def Let_def zdiv_int)
  have "code_length buf = Some n \<Longrightarrow> n \<le> length buf" for n
    by (induction buf arbitrary: n) (auto split: if_splits)
  then show ?thesis
    using enc by (auto simp: Base64decode_eq Base64decode_len_def length_decode min_def split: option.splits)
qed

end
