(* ===== verification/CT_Md5.thy ===== *)
theory CT_Md5
  imports "HOL-Library.Word" "HOL-Library.Monad_Syntax"
begin

unbundle bit_operations_syntax

text \<open>
  The MD5 message digest, which the repository has twice: \<open>our_md5.c\<close> with \<open>our_md5hl.c\<close>, in words of 32 bits,
  and \<open>CommonTools/md5.cpp\<close>, the same text in \<open>unsigned long\<close>, which has 64 bits on the systems the library is
  built for. The definitions are over the type of the words, \<open>'a word\<close>, and the two versions are its instances
  \<open>32 word\<close> and \<open>64 word\<close>.

  An \<open>unsigned int\<close> index is a number, reduced where the code adds to it. Reading beyond the input is \<open>None\<close>.
\<close>

type_synonym byte8 = "8 word"
type_synonym 'w quad = "'w \<times> 'w \<times> 'w \<times> 'w"

record 'w MD5_CTX =
  ctx_state :: "'w quad"
  ctx_count :: "'w \<times> 'w"
  ctx_buffer :: "byte8 list"

section \<open>The transformation of a block\<close>

definition F :: "'a::len word \<Rightarrow> 'a word \<Rightarrow> 'a word \<Rightarrow> 'a word" where
  "F x y z = (x AND y) OR (NOT x AND z)"

definition G :: "'a::len word \<Rightarrow> 'a word \<Rightarrow> 'a word \<Rightarrow> 'a word" where
  "G x y z = (x AND z) OR (y AND NOT z)"

definition H :: "'a::len word \<Rightarrow> 'a word \<Rightarrow> 'a word \<Rightarrow> 'a word" where
  "H x y z = x XOR y XOR z"

definition I :: "'a::len word \<Rightarrow> 'a word \<Rightarrow> 'a word \<Rightarrow> 'a word" where
  "I x y z = y XOR (x OR NOT z)"

definition ROTATE_LEFT :: "'a::len word \<Rightarrow> nat \<Rightarrow> 'a word" where
  "ROTATE_LEFT x n = push_bit n x OR drop_bit (32 - n) x"

text \<open>
  One of the macros \<open>FF\<close>, \<open>GG\<close>, \<open>HH\<close>, \<open>II\<close>, by the function \<open>f\<close> it uses. Every call is made with the variables
  one place further: \<open>(a, b, c, d)\<close>, \<open>(d, a, b, c)\<close> and so on; the result is the variables in the order in which
  the next call names them.
\<close>

definition md5_op ::
  "('a::len word \<Rightarrow> 'a word \<Rightarrow> 'a word \<Rightarrow> 'a word) \<Rightarrow> 'a word list \<Rightarrow> nat \<times> nat \<times> int \<Rightarrow> 'a word quad \<Rightarrow> 'a word quad" where
  "md5_op f x e q =
     (case e of (k, s, ac) \<Rightarrow> case q of (a, b, c, d) \<Rightarrow>
        let a1 = a + (f b c d + x ! k + word_of_int ac);
            a2 = ROTATE_LEFT a1 s;
            a3 = a2 + b in
        (d, a3, b, c))"

text \<open>The calls of each round: the index into \<open>x\<close>, the rotation, the constant.\<close>

definition round1 :: "(nat \<times> nat \<times> int) list" where
  "round1 =
    [(0, 7, 0xd76aa478), (1, 12, 0xe8c7b756), (2, 17, 0x242070db), (3, 22, 0xc1bdceee),
     (4, 7, 0xf57c0faf), (5, 12, 0x4787c62a), (6, 17, 0xa8304613), (7, 22, 0xfd469501),
     (8, 7, 0x698098d8), (9, 12, 0x8b44f7af), (10, 17, 0xffff5bb1), (11, 22, 0x895cd7be),
     (12, 7, 0x6b901122), (13, 12, 0xfd987193), (14, 17, 0xa679438e), (15, 22, 0x49b40821)]"

definition round2 :: "(nat \<times> nat \<times> int) list" where
  "round2 =
    [(1, 5, 0xf61e2562), (6, 9, 0xc040b340), (11, 14, 0x265e5a51), (0, 20, 0xe9b6c7aa),
     (5, 5, 0xd62f105d), (10, 9, 0x2441453), (15, 14, 0xd8a1e681), (4, 20, 0xe7d3fbc8),
     (9, 5, 0x21e1cde6), (14, 9, 0xc33707d6), (3, 14, 0xf4d50d87), (8, 20, 0x455a14ed),
     (13, 5, 0xa9e3e905), (2, 9, 0xfcefa3f8), (7, 14, 0x676f02d9), (12, 20, 0x8d2a4c8a)]"

definition round3 :: "(nat \<times> nat \<times> int) list" where
  "round3 =
    [(5, 4, 0xfffa3942), (8, 11, 0x8771f681), (11, 16, 0x6d9d6122), (14, 23, 0xfde5380c),
     (1, 4, 0xa4beea44), (4, 11, 0x4bdecfa9), (7, 16, 0xf6bb4b60), (10, 23, 0xbebfbc70),
     (13, 4, 0x289b7ec6), (0, 11, 0xeaa127fa), (3, 16, 0xd4ef3085), (6, 23, 0x4881d05),
     (9, 4, 0xd9d4d039), (12, 11, 0xe6db99e5), (15, 16, 0x1fa27cf8), (2, 23, 0xc4ac5665)]"

definition round4 :: "(nat \<times> nat \<times> int) list" where
  "round4 =
    [(0, 6, 0xf4292244), (7, 10, 0x432aff97), (14, 15, 0xab9423a7), (5, 21, 0xfc93a039),
     (12, 6, 0x655b59c3), (3, 10, 0x8f0ccc92), (10, 15, 0xffeff47d), (1, 21, 0x85845dd1),
     (8, 6, 0x6fa87e4f), (15, 10, 0xfe2ce6e0), (6, 15, 0xa3014314), (13, 21, 0x4e0811a1),
     (4, 6, 0xf7537e82), (11, 10, 0xbd3af235), (2, 15, 0x2ad7d2bb), (9, 21, 0xeb86d391)]"

text \<open>\<open>Encode\<close> and \<open>Decode\<close>.\<close>

definition word_bytes :: "'a::len word \<Rightarrow> byte8 list" where
  "word_bytes w =
     [ucast (w AND 0xff), ucast (drop_bit 8 w AND 0xff), ucast (drop_bit 16 w AND 0xff), ucast (drop_bit 24 w AND 0xff)]"

definition Encode :: "'a::len word list \<Rightarrow> byte8 list" where
  "Encode ws = concat (map word_bytes ws)"

fun Decode :: "byte8 list \<Rightarrow> 'a::len word list" where
  "Decode (b0 # b1 # b2 # b3 # bs) =
     (ucast b0 OR push_bit 8 (ucast b1) OR push_bit 16 (ucast b2) OR push_bit 24 (ucast b3)) # Decode bs"
| "Decode _ = []"

definition MD5Transform :: "'a::len word quad \<Rightarrow> byte8 list \<Rightarrow> 'a word quad" where
  "MD5Transform st block =
     (let x = Decode block;
          (a, b, c, d) = fold (md5_op I x) round4 (fold (md5_op H x) round3
             (fold (md5_op G x) round2 (fold (md5_op F x) round1 st)));
          (s0, s1, s2, s3) = st in
      (s0 + a, s1 + b, s2 + c, s3 + d))"

section \<open>The operations\<close>

text \<open>The buffer of a context that has just been declared holds anything.\<close>

definition our_MD5Init :: "byte8 list \<Rightarrow> 'a::len word MD5_CTX" where
  "our_MD5Init junk =
     \<lparr>ctx_state = (0x67452301, 0xefcdab89, 0x98badcfe, 0x10325476), ctx_count = (0, 0), ctx_buffer = junk\<rparr>"

text \<open>\<open>memcpy\<close> to a place in the buffer.\<close>

definition put_bytes :: "nat \<Rightarrow> byte8 list \<Rightarrow> byte8 list \<Rightarrow> byte8 list" where
  "put_bytes i bs buf = take i buf @ bs @ drop (i + length bs) buf"

text \<open>
  The loop over the whole blocks of the input, with its index \<open>i\<close>, an \<open>unsigned int\<close>: the state and the index at
  its end. The sum in the condition may wrap around, and the block is then not within the input.
\<close>

function block_loop :: "'a::len word quad \<Rightarrow> byte8 list \<Rightarrow> 32 word \<Rightarrow> ('a word quad \<times> 32 word) option" where
  "block_loop st input i =
     (let inputLen = of_nat (length input) in
      if i + 63 < inputLen then
        if unat inputLen < unat i + 64 then None
        else block_loop (MD5Transform st (take 64 (drop (unat i) input))) input (i + 64)
      else Some (st, i))"
  by auto
termination
proof (relation "measure (\<lambda>(st, input, i). unat (of_nat (length input) :: 32 word) - unat i)", goal_cases)
  case (2 st input i inputLen)
  have "unat inputLen < 2 ^ 32"
    using unsigned_less [of inputLen] by simp
  then have "unat (i + 64) = unat i + 64"
    using 2 by (subst unat_add_lem [THEN iffD1]) simp_all
  then show ?case
    using 2 by simp
qed simp

declare block_loop.simps [simp del]

definition add_count :: "nat \<Rightarrow> 'a::len word \<times> 'a word \<Rightarrow> 'a word \<times> 'a word" where
  "add_count n c =
     (let l = of_nat n;
          c0 = fst c + push_bit 3 l;
          c1 = (if c0 < push_bit 3 l then snd c + 1 else snd c) in
      (c0, c1 + drop_bit 29 l))"

definition buffer_index :: "'a::len word MD5_CTX \<Rightarrow> nat" where
  "buffer_index context = unat (drop_bit 3 (fst (ctx_count context)) AND 0x3F)"

definition ourMD5Update :: "byte8 list \<Rightarrow> 'a::len word MD5_CTX \<Rightarrow> 'a word MD5_CTX option" where
  "ourMD5Update input context =
     (let index = buffer_index context;
          c1 = context\<lparr>ctx_count := add_count (length input) (ctx_count context)\<rparr>;
          partLen = 64 - index in
      if partLen \<le> length input then
        let buf = put_bytes index (take partLen input) (ctx_buffer c1) in
        do {
          (st, i) \<leftarrow> block_loop (MD5Transform (ctx_state c1) buf) input (of_nat partLen);
          Some (c1\<lparr>ctx_state := st, ctx_buffer := put_bytes 0 (drop (unat i) input) buf\<rparr>)
        }
      else Some (c1\<lparr>ctx_buffer := put_bytes index input (ctx_buffer c1)\<rparr>))"

definition PADDING :: "byte8 list" where
  "PADDING = 0x80 # replicate 63 0"

text \<open>The digest; the context is cleared.\<close>

definition our_MD5Final :: "'a::len word MD5_CTX \<Rightarrow> (byte8 list \<times> 'a word MD5_CTX) option" where
  "our_MD5Final context =
     (let bits = Encode [fst (ctx_count context), snd (ctx_count context)];
          index = buffer_index context;
          padLen = (if index < 56 then 56 - index else 120 - index) in
      do {
        c1 \<leftarrow> ourMD5Update (take padLen PADDING) context;
        c2 \<leftarrow> ourMD5Update bits c1;
        (case ctx_state c2 of (a, b, c, d) \<Rightarrow>
           Some (Encode [a, b, c, d], \<lparr>ctx_state = (0, 0, 0, 0), ctx_count = (0, 0), ctx_buffer = replicate 64 0\<rparr>))
      })"

text \<open>\<open>our_md5hl.c\<close>: the digest in hexadecimal; of data in memory; of a file, by the pieces that \<open>fread\<close> gives.\<close>

definition hex_digit :: "byte8 \<Rightarrow> char" where
  "hex_digit b = ''0123456789abcdef'' ! unat b"

definition our_MD5End :: "'a::len word MD5_CTX \<Rightarrow> string option" where
  "our_MD5End ctx =
     do {
       (digest, ctx') \<leftarrow> our_MD5Final ctx;
       Some (concat (map (\<lambda>b. [hex_digit (drop_bit 4 b), hex_digit (b AND 0x0f)]) digest))
     }"

definition our_MD5Data :: "byte8 list \<Rightarrow> byte8 list \<Rightarrow> string option" where
  "our_MD5Data junk data = do { ctx \<leftarrow> ourMD5Update data (our_MD5Init junk :: 32 word MD5_CTX); our_MD5End ctx }"

fun update_all :: "byte8 list list \<Rightarrow> 'a::len word MD5_CTX \<Rightarrow> 'a word MD5_CTX option" where
  "update_all [] ctx = Some ctx"
| "update_all (c # cs) ctx = do { ctx' \<leftarrow> ourMD5Update c ctx; update_all cs ctx' }"

definition our_MD5File :: "byte8 list \<Rightarrow> byte8 list list \<Rightarrow> string option" where
  "our_MD5File junk pieces = do { ctx \<leftarrow> update_all pieces (our_MD5Init junk :: 32 word MD5_CTX); our_MD5End ctx }"

text \<open>\<open>CommonTools/md5.cpp\<close>: the same with \<open>unsigned long\<close>.\<close>

definition MD5_Init :: "byte8 list \<Rightarrow> 64 word MD5_CTX" where
  "MD5_Init junk = our_MD5Init junk"

definition MD5_Update :: "byte8 list \<Rightarrow> 64 word MD5_CTX \<Rightarrow> 64 word MD5_CTX option" where
  "MD5_Update input context = ourMD5Update input context"

definition MD5_Final :: "64 word MD5_CTX \<Rightarrow> (byte8 list \<times> 64 word MD5_CTX) option" where
  "MD5_Final context = our_MD5Final context"

section \<open>The message in blocks\<close>

text \<open>The state after the whole blocks of a message, and what is left of it.\<close>

function md5_split :: "'a::len word quad \<Rightarrow> byte8 list \<Rightarrow> 'a word quad \<times> byte8 list" where
  "md5_split st bs =
     (if length bs < 64 then (st, bs) else md5_split (MD5Transform st (take 64 bs)) (drop 64 bs))"
  by auto
termination
  by (relation "measure (\<lambda>(st, bs). length bs)") auto

declare md5_split.simps [simp del]

lemma md5_split_short: "length bs < 64 \<Longrightarrow> md5_split st bs = (st, bs)"
  by (simp add: md5_split.simps)

lemma md5_split_block: "length b = 64 \<Longrightarrow> md5_split st (b @ bs) = md5_split (MD5Transform st b) bs"
  by (simp add: md5_split.simps [of st "b @ bs"])

lemma md5_split_append: "md5_split st (a @ b) = (case md5_split st a of (st', r) \<Rightarrow> md5_split st' (r @ b))"
proof (induction st a rule: md5_split.induct)
  case (1 st a)
  show ?case
  proof (cases "length a < 64")
    case False
    have "a @ b = take 64 a @ drop 64 a @ b"
      by simp
    then have "md5_split st (a @ b) = md5_split (MD5Transform st (take 64 a)) (drop 64 a @ b)"
      using False by (metis md5_split_block length_take min.absorb2 not_less)
    then show ?thesis
      using 1 [OF False] False by (simp add: md5_split.simps [of st a])
  qed (simp add: md5_split_short)
qed

lemma md5_split_length: "length (snd (md5_split st bs)) = length bs mod 64"
proof (induction st bs rule: md5_split.induct)
  case (1 st bs)
  then show ?case
    by (cases "length bs < 64") (simp_all add: md5_split.simps [of st bs] le_mod_geq)
qed

lemma block_loop_split:
  "length input \<le> 2 ^ 32 - 64 \<Longrightarrow> unat i \<le> length input \<Longrightarrow>
   \<exists>i'. block_loop st input i = Some (fst (md5_split st (drop (unat i) input)), i') \<and>
     drop (unat i') input = snd (md5_split st (drop (unat i) input))"
proof (induction st input i rule: block_loop.induct)
  case (1 st input i)
  define l :: "32 word" where "l = of_nat (length input)"
  have l: "unat l = length input"
    using 1(2) by (simp add: l_def unat_of_nat)
  have i: "unat (i + 63) = unat i + 63"
    using 1(2,3) by (subst unat_add_lem [THEN iffD1]) simp_all
  show ?case
  proof (cases "i + 63 < l")
    case True
    then have le: "unat i + 64 \<le> length input"
      using i l by (simp add: word_less_nat_alt)
    then have u: "unat (i + 64) = unat i + 64"
      using 1(2) by (subst unat_add_lem [THEN iffD1]) simp_all
    have nl: "\<not> unat l < unat i + 64"
      using le l by simp
    have s: "md5_split st (drop (unat i) input) =
        md5_split (MD5Transform st (take 64 (drop (unat i) input))) (drop (unat (i + 64)) input)"
    proof -
      have "\<not> length input - unat i < 64"
        using le by linarith
      then show ?thesis
        by (simp add: md5_split.simps [of st "drop (unat i) input"] u add.commute)
    qed
    have "block_loop st input i = block_loop (MD5Transform st (take 64 (drop (unat i) input))) input (i + 64)"
      using True nl by (simp add: block_loop.simps [of st input i] Let_def l_def)
    then show ?thesis
      using 1(1) [OF l_def True nl 1(2)] u le s by simp
  next
    case False
    then have "length input < unat i + 64"
      using i l by (simp add: word_less_nat_alt not_less)
    then have "md5_split st (drop (unat i) input) = (st, drop (unat i) input)"
      using 1(3) by (intro md5_split_short) simp
    moreover have "block_loop st input i = Some (st, i)"
      using False by (simp add: block_loop.simps [of st input i] Let_def l_def)
    ultimately show ?thesis
      by simp
  qed
qed

section \<open>The number of bits\<close>

definition bit_count :: "nat \<Rightarrow> 32 word \<times> 32 word" where
  "bit_count n = (of_nat (8 * n), of_nat (8 * n div 2 ^ 32))"

lemma word_carry:
  fixes x y :: "32 word"
  shows "x + y < y \<longleftrightarrow> 2 ^ 32 \<le> unat x + unat y"
proof -
  have "unat x < 2 ^ 32" "unat y < 2 ^ 32"
    using unsigned_less [of x] unsigned_less [of y] by simp_all
  moreover have "unat (x + y) = (unat x + unat y) mod 2 ^ 32"
    by (simp add: unat_word_ariths)
  ultimately show ?thesis
    by (cases "unat x + unat y < 2 ^ 32") (simp_all add: word_less_nat_alt le_mod_geq not_less)
qed

lemma carry_div: "p < m \<Longrightarrow> q < m \<Longrightarrow> (p + q) div m = (if m \<le> p + q then 1 else 0 :: nat)"
  by (auto simp: le_div_geq)

lemma add_count_bits:
  assumes "len < 2 ^ 32"
  shows "add_count len (bit_count n) = bit_count (n + len)"
proof -
  let ?x = "of_nat (8 * n) :: 32 word" and ?y = "of_nat (8 * len) :: 32 word"
  have y: "push_bit 3 (of_nat len) = ?y"
    by (simp add: push_bit_eq_mult)
  have d: "drop_bit 29 (of_nat len) = (of_nat (8 * len div 2 ^ 32) :: 32 word)"
    using assms by (simp add: word_unat_eq_iff unat_of_nat drop_bit_eq_div unat_div_distrib)
  have c: "?x + ?y < ?y \<longleftrightarrow> 2 ^ 32 \<le> 8 * n mod 2 ^ 32 + 8 * len mod 2 ^ 32"
    unfolding word_carry unat_of_nat by simp
  have "8 * (n + len) div 2 ^ 32 = 8 * n div 2 ^ 32 + 8 * len div 2 ^ 32 +
      (if 2 ^ 32 \<le> 8 * n mod 2 ^ 32 + 8 * len mod 2 ^ 32 then 1 else 0)"
    using div_add1_eq [of "8 * n" "8 * len" "2 ^ 32"] carry_div [of "8 * n mod 2 ^ 32" "2 ^ 32" "8 * len mod 2 ^ 32"]
    by (simp add: distrib_left)
  then show ?thesis
    using c by (simp add: add_count_def bit_count_def Let_def y d)
qed

lemma index_bits: "ctx_count ctx = bit_count n \<Longrightarrow> buffer_index (ctx :: 32 word MD5_CTX) = n mod 64"
proof -
  assume "ctx_count ctx = bit_count n"
  moreover have "unat (drop_bit 3 w AND 0x3F) = unat w div 8 mod 64" for w :: "32 word"
  proof -
    have "drop_bit 3 w AND 0x3F = take_bit 6 (drop_bit 3 w)"
      by (simp add: take_bit_eq_mask mask_eq_exp_minus_1)
    then show ?thesis
      by (simp add: take_bit_eq_mod drop_bit_eq_div unat_div_distrib unat_mod_distrib)
  qed
  moreover have "unat (of_nat (8 * n) :: 32 word) div 8 mod 64 = n mod 64"
  proof -
    have "unat (of_nat (8 * n) :: 32 word) = 8 * n mod (8 * 2 ^ 29)"
      by (simp only: unat_of_nat) simp
    also have "\<dots> = 8 * (n mod 2 ^ 29)"
      by (rule mult_mod_right [symmetric])
    finally have "unat (of_nat (8 * n) :: 32 word) div 8 = n mod 2 ^ 29"
      by simp
    then show ?thesis
      using mod_mod_cancel [of 64 "2 ^ 29" n] by simp
  qed
  ultimately show ?thesis
    by (simp add: buffer_index_def bit_count_def)
qed

section \<open>The context after a message\<close>

definition MD5_IV :: "32 word quad" where
  "MD5_IV = (0x67452301, 0xefcdab89, 0x98badcfe, 0x10325476)"

text \<open>The context has taken in the message \<open>s\<close>.\<close>

definition digested :: "byte8 list \<Rightarrow> 32 word MD5_CTX \<Rightarrow> bool" where
  "digested s ctx \<longleftrightarrow>
     (case md5_split MD5_IV s of (st, rest) \<Rightarrow> ctx_state ctx = st \<and> take (length rest) (ctx_buffer ctx) = rest) \<and>
     ctx_count ctx = bit_count (length s) \<and> length (ctx_buffer ctx) = 64"

lemma init_digested: "length junk = 64 \<Longrightarrow> digested [] (our_MD5Init junk)"
  by (simp add: digested_def our_MD5Init_def MD5_IV_def md5_split_short bit_count_def)

lemma length_put_bytes: "i + length bs \<le> length buf \<Longrightarrow> length (put_bytes i bs buf) = length buf"
  by (simp add: put_bytes_def)

lemma update_digested:
  assumes "digested s ctx" "length input \<le> 2 ^ 32 - 64"
  shows "\<exists>ctx'. ourMD5Update input ctx = Some ctx' \<and> digested (s @ input) ctx'"
proof -
  obtain st rest where sr: "md5_split MD5_IV s = (st, rest)"
    by fastforce
  have c: "ctx_state ctx = st" "take (length rest) (ctx_buffer ctx) = rest" "ctx_count ctx = bit_count (length s)"
    "length (ctx_buffer ctx) = 64"
    using assms(1) by (simp_all add: digested_def sr)
  have r: "length rest = length s mod 64" "length rest < 64"
    using md5_split_length [of MD5_IV s] by (simp_all add: sr)
  have ix: "buffer_index ctx = length rest"
    by (simp only: index_bits [OF c(3)] r(1))
  have count: "add_count (length input) (ctx_count ctx) = bit_count (length (s @ input))"
  proof -
    have "length input < 2 ^ 32"
      using assms(2) by simp
    from add_count_bits [OF this, of "length s"] show ?thesis
      by (simp only: c(3) length_append)
  qed
  have split: "md5_split MD5_IV (s @ input) = md5_split st (rest @ input)"
    by (simp only: md5_split_append [of MD5_IV s input] sr prod.case)
  show ?thesis
  proof (cases "64 - length rest \<le> length input")
    case True
    define p where "p = 64 - length rest"
    define buf where "buf = put_bytes (length rest) (take p input) (ctx_buffer ctx)"
    have p: "length rest + p = 64" "p \<le> length input"
      using True r(2) by (simp_all add: p_def)
    have buf: "buf = rest @ take p input"
      using p c(2,4) by (simp add: buf_def put_bytes_def min_def)
    have up: "unat (of_nat p :: 32 word) = p"
      using p by (simp add: unat_of_nat)
    have s1: "md5_split st (rest @ input) = md5_split (MD5Transform st buf) (drop p input)"
      using md5_split_block [of buf st "drop p input"] p by (simp add: buf min_def)
    obtain i' where i': "block_loop (MD5Transform st buf) input (of_nat p) =
        Some (fst (md5_split (MD5Transform st buf) (drop p input)), i')"
      "drop (unat i') input = snd (md5_split (MD5Transform st buf) (drop p input))"
      using block_loop_split [OF assms(2), of "of_nat p" "MD5Transform st buf"] p(2) up by auto
    have l: "length (snd (md5_split (MD5Transform st buf) (drop p input))) < 64" "length buf = 64"
      using p by (simp_all add: md5_split_length buf min_def)
    have "ourMD5Update input ctx = Some (ctx\<lparr>ctx_count := bit_count (length (s @ input)),
        ctx_state := fst (md5_split (MD5Transform st buf) (drop p input)),
        ctx_buffer := put_bytes 0 (drop (unat i') input) buf\<rparr>)"
      using True i'(1) by (simp add: ourMD5Update_def ix Let_def count c(1) flip: p_def buf_def)
    moreover have "digested (s @ input) (ctx\<lparr>ctx_count := bit_count (length (s @ input)),
        ctx_state := fst (md5_split (MD5Transform st buf) (drop p input)),
        ctx_buffer := put_bytes 0 (drop (unat i') input) buf\<rparr>)"
      using l by (simp add: digested_def split s1 i'(2) case_prod_beta length_put_bytes) (simp add: put_bytes_def)
    ultimately show ?thesis
      by blast
  next
    case False
    then have l: "length (rest @ input) < 64"
      by simp
    have "digested (s @ input) (ctx\<lparr>ctx_count := bit_count (length (s @ input)),
        ctx_buffer := put_bytes (length rest) input (ctx_buffer ctx)\<rparr>)"
      using l c by (simp add: digested_def split md5_split_short length_put_bytes) (simp add: put_bytes_def)
    then show ?thesis
      using False by (simp add: ourMD5Update_def ix Let_def count)
  qed
qed

lemma update_all_digested:
  assumes "digested s ctx" "\<forall>c \<in> set cs. length c \<le> 2 ^ 32 - 64"
  shows "\<exists>ctx'. update_all cs ctx = Some ctx' \<and> digested (s @ concat cs) ctx'"
  using assms
proof (induction cs arbitrary: s ctx)
  case (Cons c cs)
  obtain ctx1 where "ourMD5Update c ctx = Some ctx1" "digested (s @ c) ctx1"
    using update_digested [OF Cons.prems(1), of c] Cons.prems(2) by auto
  then show ?case
    using Cons.IH [of "s @ c" ctx1] Cons.prems(2) by auto
qed simp

section \<open>The digest\<close>

text \<open>The message with its padding: a one bit, zeros up to 56 bytes modulo 64, the number of bits in eight bytes.\<close>

definition le64 :: "nat \<Rightarrow> byte8 list" where
  "le64 n = map (\<lambda>i. of_nat (n div 256 ^ i)) [0..<8]"

definition md5_padded :: "byte8 list \<Rightarrow> byte8 list" where
  "md5_padded s = s @ 0x80 # replicate ((119 - length s mod 64) mod 64) 0 @ le64 (8 * length s)"

definition md5_digest :: "byte8 list \<Rightarrow> byte8 list" where
  "md5_digest s = (case fst (md5_split MD5_IV (md5_padded s)) of (a, b, c, d) \<Rightarrow> Encode [a, b, c, d])"

lemma byte_of_word: "ucast (drop_bit k (of_nat n :: 32 word) AND 0xff) = (of_nat (n div 2 ^ k) :: byte8)" if "k \<le> 24"
proof (rule bit_word_eqI)
  fix j assume "j < LENGTH(8)"
  then have "j < 8"
    by simp
  have m: "(0xff :: 32 word) = mask 8"
    by (simp add: mask_eq_exp_minus_1)
  show "bit (ucast (drop_bit k (of_nat n :: 32 word) AND 0xff) :: byte8) j = bit (of_nat (n div 2 ^ k) :: byte8) j"
    unfolding m using that \<open>j < 8\<close> by (simp add: bit_simps flip: drop_bit_eq_div)
qed

lemma word_bytes_of_nat:
  "word_bytes (of_nat n :: 32 word) = [of_nat n, of_nat (n div 256), of_nat (n div 256 ^ 2), of_nat (n div 256 ^ 3)]"
  using byte_of_word [of 0 n] byte_of_word [of 8 n] byte_of_word [of 16 n] byte_of_word [of 24 n]
  by (simp add: word_bytes_def)

lemma le64_list:
  "le64 n = [of_nat n, of_nat (n div 256), of_nat (n div 256 ^ 2), of_nat (n div 256 ^ 3),
     of_nat (n div 2 ^ 32), of_nat (n div 2 ^ 32 div 256), of_nat (n div 2 ^ 32 div 256 ^ 2), of_nat (n div 2 ^ 32 div 256 ^ 3)]"
proof -
  have "[0..<8] = [0, 1, 2, 3, 4, 5, 6, 7 :: nat]"
    by (simp add: upt_rec)
  then show ?thesis
    by (simp add: le64_def flip: div_mult2_eq del: of_nat_mult)
qed

lemma bits_le64: "Encode [fst (bit_count n), snd (bit_count n)] = le64 (8 * n)"
  unfolding Encode_def bit_count_def le64_list fst_conv snd_conv list.map word_bytes_of_nat concat.simps append.simps
  by (rule refl)

lemma final_digest:
  assumes "digested s ctx"
  shows "\<exists>ctx'. our_MD5Final ctx = Some (md5_digest s, ctx')"
proof -
  let ?i = "length s mod 64"
  define z where "z = (119 - ?i) mod 64"
  have c: "ctx_count ctx = bit_count (length s)"
    using assms by (simp add: digested_def)
  have pad: "take (if ?i < 56 then 56 - ?i else 120 - ?i) PADDING = 0x80 # replicate z 0"
  proof -
    have t: "take (Suc k) PADDING = 0x80 # replicate k 0" if "k \<le> 63" for k
      using that by (simp add: PADDING_def min_def)
    have "?i < 64"
      by simp
    then have "(if ?i < 56 then 56 - ?i else 120 - ?i) = Suc z" "z \<le> 63"
      unfolding z_def by (auto simp: le_mod_geq)
    then show ?thesis
      using t by simp
  qed
  have "z < 64"
    by (simp add: z_def)
  then obtain c1 where c1: "ourMD5Update (0x80 # replicate z 0) ctx = Some c1" "digested (s @ 0x80 # replicate z 0) c1"
    using update_digested [OF assms, of "0x80 # replicate z 0"] by auto
  obtain c2 where c2: "ourMD5Update (le64 (8 * length s)) c1 = Some c2" "digested (md5_padded s) c2"
    using update_digested [OF c1(2), of "le64 (8 * length s)"] by (auto simp: md5_padded_def z_def le64_def)
  have "ctx_state c2 = fst (md5_split MD5_IV (md5_padded s))"
    using c2(2) by (auto simp: digested_def split: prod.splits)
  then show ?thesis
    using c1(1) c2(1) by (simp add: our_MD5Final_def Let_def index_bits [OF c] pad bits_le64 c md5_digest_def split: prod.split)
qed



definition hex_string :: "byte8 list \<Rightarrow> string" where
  "hex_string bs = concat (map (\<lambda>b. [hex_digit (drop_bit 4 b), hex_digit (b AND 0x0f)]) bs)"

text \<open>A file and the same bytes in memory have the same digest.\<close>

lemma md5_file_data:
  assumes "length junk = 64" "length junk' = 64" "length (concat pieces) \<le> 2 ^ 32 - 64"
  shows "our_MD5File junk pieces = Some (hex_string (md5_digest (concat pieces)))"
    "our_MD5Data junk' (concat pieces) = Some (hex_string (md5_digest (concat pieces)))"
proof -
  have "length c \<le> length (concat pieces)" if "c \<in> set pieces" for c
    using that member_le_sum_list [of "length c" "map length pieces"] by (simp add: length_concat)
  then have "\<forall>c \<in> set pieces. length c \<le> 2 ^ 32 - 64"
    using assms(3) le_trans by blast
  then obtain ctx where ctx: "update_all pieces (our_MD5Init junk) = Some ctx" "digested (concat pieces) ctx"
    using update_all_digested [OF init_digested [OF assms(1)]] by auto
  have e: "our_MD5End c = Some (hex_string (md5_digest s))" if "digested s c" for s c
    using final_digest [OF that] by (auto simp: our_MD5End_def hex_string_def)
  show "our_MD5File junk pieces = Some (hex_string (md5_digest (concat pieces)))"
    using ctx e [OF ctx(2)] by (simp add: our_MD5File_def)
  show "our_MD5Data junk' (concat pieces) = Some (hex_string (md5_digest (concat pieces)))"
    using update_digested [OF init_digested [OF assms(2)] assms(3)] e by (auto simp: our_MD5Data_def)
qed

section \<open>Test vectors, and the version in \<open>unsigned long\<close>\<close>

text \<open>The digest of the empty message, as RFC 1321 gives it (d41d8cd98f00b204e9800998ecf8427e).\<close>

lemma md5_empty:
  "map_option fst (our_MD5Final (our_MD5Init (replicate 64 0) :: 32 word MD5_CTX)) =
     Some [0xd4, 0x1d, 0x8c, 0xd9, 0x8f, 0x00, 0xb2, 0x04, 0xe9, 0x80, 0x09, 0x98, 0xec, 0xf8, 0x42, 0x7e]"
  by code_simp

text \<open>
  With words of 64 bits the rotation loses the bits it should bring round, and the digest is another one
  (e4c23762ed2823a27e62a64b95c024e7).
\<close>

lemma md5_unsigned_long:
  "map_option fst (MD5_Final (MD5_Init (replicate 64 0))) =
     Some [0xe4, 0xc2, 0x37, 0x62, 0xed, 0x28, 0x23, 0xa2, 0x7e, 0x62, 0xa6, 0x4b, 0x95, 0xc0, 0x24, 0xe7]"
  by code_simp

end
