(* ===== verification/CT_Heap.thy ===== *)
theory CT_Heap
  imports "HOL-Library.Multiset"
begin

text \<open>
  The heap of \<open>CommonTools/OSHeap.cpp\<close>: a binary heap in an array that starts at index 1 and is doubled
  when it is full. An element is a number, its \<open>fValue\<close> is given by \<open>val\<close>, and \<open>fCurrentHeap\<close> tells whether
  the element points back to the heap. The array is a function; its entries from \<open>fFreeIndex\<close> on are never
  read. Indices are natural numbers: an array of \<open>2 ^ 31\<close> pointers does not arise.
\<close>

type_synonym elem = nat

record osheap =
  fHeap :: "nat \<Rightarrow> elem"
  fFreeIndex :: nat
  fArraySize :: nat
  fCurrentHeap :: "elem \<Rightarrow> bool"

section \<open>The code\<close>

definition OSHeap :: "nat \<Rightarrow> osheap" where
  "OSHeap inStartSize =
     \<lparr>fHeap = (\<lambda>_. 0), fFreeIndex = 1, fArraySize = (if inStartSize < 2 then 2 else inStartSize),
      fCurrentHeap = (\<lambda>_. False)\<rparr>"

definition CurrentHeapSize :: "osheap \<Rightarrow> nat" where
  "CurrentHeapSize H = fFreeIndex H - 1"

definition PeekMin :: "osheap \<Rightarrow> elem option" where
  "PeekMin H = (if 0 < CurrentHeapSize H then Some (fHeap H 1) else None)"

definition swap_entries :: "nat \<Rightarrow> nat \<Rightarrow> (nat \<Rightarrow> elem) \<Rightarrow> nat \<Rightarrow> elem" where
  "swap_entries i j h = h(i := h j, j := h i)"

text \<open>The loop of \<open>Insert\<close>.\<close>

fun bubble_up :: "(elem \<Rightarrow> int) \<Rightarrow> (nat \<Rightarrow> elem) \<Rightarrow> nat \<Rightarrow> nat \<Rightarrow> elem" where
  "bubble_up val h swapPos =
     (if 1 < swapPos then
        let nextSwapPos = swapPos div 2 in
        if val (h swapPos) < val (h nextSwapPos)
        then bubble_up val (swap_entries swapPos nextSwapPos h) nextSwapPos
        else h
      else h)"

declare bubble_up.simps [simp del]

definition Insert :: "(elem \<Rightarrow> int) \<Rightarrow> elem \<Rightarrow> osheap \<Rightarrow> osheap" where
  "Insert val e H =
     (let size = (if fFreeIndex H = fArraySize H then 2 * fArraySize H else fArraySize H);
          h = (fHeap H)(fFreeIndex H := e) in
      H\<lparr>fHeap := bubble_up val h (fFreeIndex H), fFreeIndex := fFreeIndex H + 1, fArraySize := size,
        fCurrentHeap := (fCurrentHeap H)(e := True)\<rparr>)"

text \<open>The smallest of an entry and its children, and the loop of \<open>Extract\<close>.\<close>

definition greatest :: "(elem \<Rightarrow> int) \<Rightarrow> nat \<Rightarrow> (nat \<Rightarrow> elem) \<Rightarrow> nat \<Rightarrow> nat" where
  "greatest val free h parent =
     (let leftChild = parent * 2;
          g = (if leftChild < free \<and> val (h leftChild) < val (h parent) then leftChild else parent);
          rightChild = parent * 2 + 1 in
      if rightChild < free \<and> val (h rightChild) < val (h g) then rightChild else g)"

lemma greatest_bounds: "greatest val free h p = p \<or> p < greatest val free h p \<and> greatest val free h p < free"
  by (cases "p = 0") (auto simp: greatest_def Let_def)

function bubble_down :: "(elem \<Rightarrow> int) \<Rightarrow> nat \<Rightarrow> (nat \<Rightarrow> elem) \<Rightarrow> nat \<Rightarrow> nat \<Rightarrow> elem" where
  "bubble_down val free h parent =
     (if parent < free then
        let g = greatest val free h parent in
        if g = parent then h else bubble_down val free (swap_entries parent g h) g
      else h)"
  by auto
termination
proof (relation "measure (\<lambda>(val, free, h, parent). free - parent)", goal_cases)
  case (2 val free h parent g)
  then show ?case
    using greatest_bounds [of val free h parent] by auto
qed simp

declare bubble_down.simps [simp del]

definition Extract :: "(elem \<Rightarrow> int) \<Rightarrow> nat \<Rightarrow> osheap \<Rightarrow> elem option \<times> osheap" where
  "Extract val inIndex H =
     (if fFreeIndex H \<le> inIndex then (None, H)
      else
        let victim = fHeap H inIndex;
            h = (fHeap H)(inIndex := fHeap H (fFreeIndex H - 1));
            free = fFreeIndex H - 1 in
        (Some victim, H\<lparr>fHeap := bubble_down val free h inIndex, fFreeIndex := free,
                        fCurrentHeap := (fCurrentHeap H)(victim := False)\<rparr>))"

definition ExtractMin :: "(elem \<Rightarrow> int) \<Rightarrow> osheap \<Rightarrow> elem option \<times> osheap" where
  "ExtractMin val H = Extract val 1 H"

text \<open>The search in \<open>Remove\<close>: the first index from \<open>i\<close> on with the element, or \<open>fFreeIndex\<close>.\<close>

function find_index :: "(nat \<Rightarrow> elem) \<Rightarrow> nat \<Rightarrow> elem \<Rightarrow> nat \<Rightarrow> nat" where
  "find_index h free e i = (if i < free then if e = h i then i else find_index h free e (i + 1) else i)"
  by auto
termination
  by (relation "measure (\<lambda>(h, free, e, i). free - i)") auto

declare find_index.simps [simp del]

definition Remove :: "(elem \<Rightarrow> int) \<Rightarrow> elem \<Rightarrow> osheap \<Rightarrow> elem option \<times> osheap" where
  "Remove val e H =
     (if fFreeIndex H = 1 then (None, H)
      else
        let theIndex = find_index (fHeap H) (fFreeIndex H) e 1 in
        if theIndex = fFreeIndex H then (None, H) else Extract val theIndex H)"

section \<open>The elements of the array\<close>

definition entries :: "nat \<Rightarrow> (nat \<Rightarrow> elem) \<Rightarrow> elem list" where
  "entries free h = map h [1..<free]"

lemma entries_upd:
  assumes "1 \<le> i" "i < free"
  shows "entries free (h(i := e)) = (entries free h)[i - 1 := e]"
  using assms by (intro nth_equalityI) (auto simp: entries_def nth_list_update)

lemma entries_nth: "1 \<le> i \<Longrightarrow> i < free \<Longrightarrow> entries free h ! (i - 1) = h i"
  by (simp add: entries_def)

lemma length_entries [simp]: "length (entries free h) = free - 1"
  by (simp add: entries_def)

lemma swap_entries_mset [simp]:
  assumes "1 \<le> i" "i < free" "1 \<le> j" "j < free"
  shows "mset (entries free (swap_entries i j h)) = mset (entries free h)"
proof -
  have "i - 1 < free - 1" "j - 1 < free - 1"
    using assms by auto
  then show ?thesis
    using mset_swap [of "j - 1" "entries free h" "i - 1"] entries_nth [OF assms(1,2), of h] entries_nth [OF assms(3,4), of h] assms
    by (simp add: swap_entries_def entries_upd)
qed

lemma bubble_up_mset:
  "1 \<le> p \<Longrightarrow> p < free \<Longrightarrow> mset (entries free (bubble_up val h p)) = mset (entries free h)"
proof (induction val h p rule: bubble_up.induct)
  case (1 val h p)
  show ?case
  proof (cases "1 < p \<and> val (h p) < val (h (p div 2))")
    case True
    then have "1 \<le> p div 2" "p div 2 < free"
      using 1(3) by auto
    then show ?thesis
      using True 1 by (simp add: bubble_up.simps [of val h p] Let_def)
  next
    case False
    then show ?thesis
      by (auto simp: bubble_up.simps [of val h p] Let_def)
  qed
qed

lemma bubble_down_mset:
  "1 \<le> p \<Longrightarrow> mset (entries free (bubble_down val free h p)) = mset (entries free h)"
proof (induction val free h p rule: bubble_down.induct)
  case (1 val free h p)
  have g: "1 \<le> greatest val free h p"
    using greatest_bounds [of val free h p] 1(2) by auto
  show ?case
  proof (cases "p < free \<and> greatest val free h p \<noteq> p")
    case True
    then have "greatest val free h p < free"
      using greatest_bounds [of val free h p] by auto
    then show ?thesis
      using True 1 g by (simp add: bubble_down.simps [of val free h p] Let_def)
  next
    case False
    then show ?thesis
      by (auto simp: bubble_down.simps [of val free h p] Let_def)
  qed
qed

section \<open>The order\<close>

definition heap_ordered :: "(elem \<Rightarrow> int) \<Rightarrow> nat \<Rightarrow> (nat \<Rightarrow> elem) \<Rightarrow> bool" where
  "heap_ordered val free h \<longleftrightarrow> (\<forall>i. 2 \<le> i \<and> i < free \<longrightarrow> val (h (i div 2)) \<le> val (h i))"

text \<open>In order but for entry \<open>p\<close>, which may be smaller than its parent; or larger than its children.\<close>

definition ordered_above :: "(elem \<Rightarrow> int) \<Rightarrow> nat \<Rightarrow> (nat \<Rightarrow> elem) \<Rightarrow> nat \<Rightarrow> bool" where
  "ordered_above val free h p \<longleftrightarrow>
     (\<forall>i. 2 \<le> i \<and> i < free \<and> i \<noteq> p \<longrightarrow> val (h (i div 2)) \<le> val (h i)) \<and>
     (\<forall>i. 2 \<le> p \<and> i < free \<and> i div 2 = p \<longrightarrow> val (h (p div 2)) \<le> val (h i))"

definition ordered_below :: "(elem \<Rightarrow> int) \<Rightarrow> nat \<Rightarrow> (nat \<Rightarrow> elem) \<Rightarrow> nat \<Rightarrow> bool" where
  "ordered_below val free h p \<longleftrightarrow>
     (\<forall>i. 2 \<le> i \<and> i < free \<and> i div 2 \<noteq> p \<longrightarrow> val (h (i div 2)) \<le> val (h i)) \<and>
     (\<forall>i. 2 \<le> p \<and> i < free \<and> i div 2 = p \<longrightarrow> val (h (p div 2)) \<le> val (h i))"

lemma heap_least:
  assumes "heap_ordered val free h" "1 \<le> i" "i < free"
  shows "val (h 1) \<le> val (h i)"
  using assms(2,3)
proof (induction i rule: less_induct)
  case (less i)
  show ?case
  proof (cases "i = 1")
    case False
    then have "val (h 1) \<le> val (h (i div 2))" "val (h (i div 2)) \<le> val (h i)"
      using less assms(1) by (auto simp: heap_ordered_def)
    then show ?thesis by simp
  qed simp
qed

lemma swap_above:
  assumes "ordered_above val free h p" "1 < p" "p < free" "val (h p) < val (h (p div 2))"
  shows "ordered_above val free (swap_entries p (p div 2) h) (p div 2)"
proof -
  have o: "val (h (i div 2)) \<le> val (h i)" if "2 \<le> i" "i < free" "i \<noteq> p" for i
    using assms(1) that by (auto simp: ordered_above_def)
  have c: "val (h (p div 2)) \<le> val (h i)" if "i < free" "i div 2 = p" for i
    using assms(1,2) that by (auto simp: ordered_above_def)
  have q: "p div 2 < p" "1 \<le> p div 2" "p div 2 < free"
    using assms(2,3) by auto
  show ?thesis
    unfolding ordered_above_def
  proof (intro conjI allI impI; elim conjE)
    fix i assume i: "2 \<le> i" "i < free" "i \<noteq> p div 2"
    then show "val (swap_entries p (p div 2) h (i div 2)) \<le> val (swap_entries p (p div 2) h i)"
      using o [of i] c [of i] assms(4) q by (auto simp: swap_entries_def)
  next
    fix i assume i: "2 \<le> p div 2" "i < free" "i div 2 = p div 2"
    then have "val (h (p div 2 div 2)) \<le> val (h (p div 2))"
      using o [of "p div 2"] q by auto
    moreover have "2 \<le> i"
      using i(1,3) by (metis div_le_dividend le_trans)
    ultimately show "val (swap_entries p (p div 2) h (p div 2 div 2)) \<le> val (swap_entries p (p div 2) h i)"
      using o [of i] i q by (auto simp: swap_entries_def)
  qed
qed

lemma bubble_up_ordered:
  "ordered_above val free h p \<Longrightarrow> 1 \<le> p \<Longrightarrow> p < free \<Longrightarrow> heap_ordered val free (bubble_up val h p)"
proof (induction val h p rule: bubble_up.induct)
  case (1 val h p)
  show ?case
  proof (cases "1 < p \<and> val (h p) < val (h (p div 2))")
    case True
    then have "1 \<le> p div 2" "p div 2 < free"
      using 1(4) by auto
    then show ?thesis
      using True 1(1) [OF _ refl] swap_above [OF 1(2)] 1(4) by (simp add: bubble_up.simps [of val h p] Let_def)
  next
    case False
    then have "heap_ordered val free h"
      using 1(2) by (auto simp: ordered_above_def heap_ordered_def not_less)
    then show ?thesis
      using False by (auto simp: bubble_up.simps [of val h p] Let_def)
  qed
qed

lemma greatest_least:
  assumes "c < free" "c div 2 = p" "1 \<le> p"
  shows "val (h (greatest val free h p)) \<le> val (h c)" "val (h (greatest val free h p)) \<le> val (h p)"
proof -
  have "c = p * 2 \<or> c = p * 2 + 1"
    using assms(2) by auto
  then show "val (h (greatest val free h p)) \<le> val (h c)"
    using assms(1) by (auto simp: greatest_def Let_def)
  show "val (h (greatest val free h p)) \<le> val (h p)"
    by (auto simp: greatest_def Let_def)
qed

lemma greatest_child: "greatest val free h p = p \<or> greatest val free h p div 2 = p \<and> val (h (greatest val free h p)) < val (h p)"
  by (auto simp: greatest_def Let_def)

lemma swap_below:
  assumes "ordered_below val free h p" "1 \<le> p" "p < free" "greatest val free h p \<noteq> p"
  shows "ordered_below val free (swap_entries p (greatest val free h p) h) (greatest val free h p)"
proof -
  define g where "g = greatest val free h p"
  have o: "val (h (i div 2)) \<le> val (h i)" if "2 \<le> i" "i < free" "i div 2 \<noteq> p" for i
    using assms(1) that by (auto simp: ordered_below_def)
  have c: "val (h (p div 2)) \<le> val (h i)" if "2 \<le> p" "i < free" "i div 2 = p" for i
    using assms(1) that by (auto simp: ordered_below_def)
  have g: "g div 2 = p" "val (h g) < val (h p)" "p < g" "g < free" "g \<noteq> p"
    using greatest_child [of val free h p] greatest_bounds [of val free h p] assms(4) by (auto simp: g_def)
  have l: "val (h g) \<le> val (h i)" if "i < free" "i div 2 = p" for i
    using greatest_least(1) [OF that assms(2)] by (simp add: g_def)
  show ?thesis
    unfolding ordered_below_def g_def [symmetric]
  proof (intro conjI allI impI; elim conjE)
    fix i assume i: "2 \<le> i" "i < free" "i div 2 \<noteq> g"
    show "val (swap_entries p g h (i div 2)) \<le> val (swap_entries p g h i)"
    proof (cases "i div 2 = p")
      case True
      then have "i \<noteq> p"
        using assms(2) by auto
      then show ?thesis
        using True l [OF i(2)] g by (auto simp: swap_entries_def)
    next
      case False
      then have "i \<noteq> g"
        using g by auto
      then show ?thesis
        using False o [OF i(1,2)] c [of g] g i by (auto simp: swap_entries_def)
    qed
  next
    fix i assume i: "2 \<le> g" "i < free" "i div 2 = g"
    have "2 \<le> i" "i \<noteq> g" "i \<noteq> p"
      using i g by (metis div_le_dividend le_trans, auto)
    then show "val (swap_entries p g h (g div 2)) \<le> val (swap_entries p g h i)"
      using o [of i] i g by (auto simp: swap_entries_def)
  qed
qed

lemma bubble_down_ordered:
  "ordered_below val free h p \<Longrightarrow> 1 \<le> p \<Longrightarrow> heap_ordered val free (bubble_down val free h p)"
proof (induction val free h p rule: bubble_down.induct)
  case (1 val free h p)
  show ?case
  proof (cases "p < free \<and> greatest val free h p \<noteq> p")
    case True
    then show ?thesis
      using 1(1) [OF _ refl] swap_below [OF 1(2,3)] greatest_bounds [of val free h p]
      by (auto simp: bubble_down.simps [of val free h p] Let_def)
  next
    case False
    have "val (h (i div 2)) \<le> val (h i)" if "2 \<le> i" "i < free" for i
    proof (cases "i div 2 = p")
      case True
      then show ?thesis
        using False greatest_least(1) [OF that(2) True 1(3), of val h] that by auto
    next
      case False
      then show ?thesis
        using 1(2) that by (simp add: ordered_below_def)
    qed
    then have "heap_ordered val free h"
      by (simp add: heap_ordered_def)
    then show ?thesis
      using False by (auto simp: bubble_down.simps [of val free h p] Let_def)
  qed
qed

section \<open>The operations\<close>

definition heap_ok :: "(elem \<Rightarrow> int) \<Rightarrow> osheap \<Rightarrow> bool" where
  "heap_ok val H \<longleftrightarrow> heap_ordered val (fFreeIndex H) (fHeap H) \<and> 1 \<le> fFreeIndex H \<and> fFreeIndex H \<le> fArraySize H \<and>
     2 \<le> fArraySize H"

definition contents :: "osheap \<Rightarrow> elem multiset" where
  "contents H = mset (entries (fFreeIndex H) (fHeap H))"

lemma heap_empty: "heap_ok val (OSHeap n)" "contents (OSHeap n) = {#}"
  by (simp_all add: heap_ok_def OSHeap_def heap_ordered_def contents_def entries_def)

lemma Insert_correct:
  assumes "heap_ok val H"
  shows "heap_ok val (Insert val e H)" "contents (Insert val e H) = add_mset e (contents H)"
proof -
  let ?f = "fFreeIndex H" and ?h = "(fHeap H)(fFreeIndex H := e)"
  have f: "1 \<le> ?f"
    using assms by (simp add: heap_ok_def)
  have "i div 2 \<noteq> ?f" if "i < ?f + 1" for i
    using that f by (auto dest: sym)
  then have "ordered_above val (?f + 1) ?h ?f"
    using assms f by (auto simp: ordered_above_def heap_ok_def heap_ordered_def)
  from bubble_up_ordered [OF this f] show "heap_ok val (Insert val e H)"
    using assms by (auto simp: Insert_def heap_ok_def Let_def)
  have "entries (?f + 1) ?h = entries ?f (fHeap H) @ [e]"
    using f by (simp add: entries_def)
  then show "contents (Insert val e H) = add_mset e (contents H)"
    using bubble_up_mset [OF f, of "?f + 1" val ?h] by (simp add: Insert_def contents_def Let_def)
qed

lemma mset_move_last:
  assumes "1 \<le> i" "i < free"
  shows "mset (entries (free - 1) (h(i := h (free - 1)))) = mset (entries free h) - {#h i#}"
proof -
  have e: "entries free h = entries (free - 1) h @ [h (free - 1)]"
    using assms by (cases free) (auto simp: entries_def)
  show ?thesis
  proof (cases "i = free - 1")
    case True
    then have "entries (free - 1) (h(i := h (free - 1))) = entries (free - 1) h"
      by simp
    then show ?thesis
      using True by (simp add: e)
  next
    case False
    then have i: "i < free - 1"
      using assms by simp
    then have l: "i - 1 < length (entries (free - 1) h)"
      using assms by simp
    have n: "entries (free - 1) h ! (i - 1) = h i"
      using entries_nth assms(1) i by blast
    have "h i \<in># mset (entries (free - 1) h)"
      using nth_mem_mset [OF l] by (simp only: n)
    then obtain N where N: "mset (entries (free - 1) h) = add_mset (h i) N"
      by (rule mset_add)
    have "mset ((entries (free - 1) h)[i - 1 := h (free - 1)]) = add_mset (h (free - 1)) N"
      unfolding mset_update [OF l] n N by simp
    moreover have "mset (entries free h) - {#h i#} = add_mset (h (free - 1)) N"
      unfolding e mset_append N by simp
    ultimately show ?thesis
      unfolding entries_upd [OF assms(1) i] by simp
  qed
qed

lemma Extract_correct:
  assumes "heap_ok val H" "1 \<le> i" "i < fFreeIndex H"
  shows "fst (Extract val i H) = Some (fHeap H i)"
    "contents (snd (Extract val i H)) = contents H - {#fHeap H i#}"
    "i = 1 \<or> val (fHeap H (i div 2)) \<le> val (fHeap H (fFreeIndex H - 1)) \<Longrightarrow> heap_ok val (snd (Extract val i H))"
proof -
  let ?n = "fFreeIndex H - 1" and ?h = "(fHeap H)(i := fHeap H (fFreeIndex H - 1))"
  show "fst (Extract val i H) = Some (fHeap H i)"
    using assms by (simp add: Extract_def Let_def)
  show "contents (snd (Extract val i H)) = contents H - {#fHeap H i#}"
    using bubble_down_mset [OF assms(2), of ?n val ?h] mset_move_last [OF assms(2,3), of "fHeap H"] assms(3)
    by (simp add: Extract_def Let_def contents_def)
  assume c: "i = 1 \<or> val (fHeap H (i div 2)) \<le> val (fHeap H (fFreeIndex H - 1))"
  have o: "val (fHeap H (j div 2)) \<le> val (fHeap H j)" if "2 \<le> j" "j < fFreeIndex H" for j
    using assms(1) that by (simp add: heap_ok_def heap_ordered_def)
  have "ordered_below val ?n ?h i"
    unfolding ordered_below_def
  proof (intro conjI allI impI; elim conjE)
    fix j assume "2 \<le> j" "j < ?n" "j div 2 \<noteq> i"
    then show "val (?h (j div 2)) \<le> val (?h j)"
      using o [of j] c by auto
  next
    fix j assume j: "2 \<le> i" "j < ?n" "j div 2 = i"
    then have "2 \<le> j" "j < fFreeIndex H" "j \<noteq> i" "i div 2 \<noteq> i"
      by auto
    then show "val (?h (i div 2)) \<le> val (?h j)"
      using o [of j] o [of i] j assms(3) by auto
  qed
  from bubble_down_ordered [OF this assms(2)] show "heap_ok val (snd (Extract val i H))"
    using assms by (auto simp: Extract_def Let_def heap_ok_def)
qed

lemma entries_Nil: "entries free h = [] \<longleftrightarrow> free \<le> 1"
  by (auto simp: entries_def)

lemma contents_empty: "1 \<le> fFreeIndex H \<Longrightarrow> contents H = {#} \<longleftrightarrow> fFreeIndex H = 1"
  by (auto simp: contents_def entries_Nil)

lemma set_contents: "set_mset (contents H) = fHeap H ` {1..<fFreeIndex H}"
  by (simp add: contents_def entries_def)

lemma ExtractMin_correct:
  assumes "heap_ok val H" "contents H \<noteq> {#}"
  shows "\<exists>e H'. ExtractMin val H = (Some e, H') \<and> heap_ok val H' \<and> e \<in># contents H \<and>
     (\<forall>x \<in># contents H. val e \<le> val x) \<and> contents H' = contents H - {#e#}"
proof -
  have f: "1 < fFreeIndex H"
    using assms contents_empty [of H] by (auto simp: heap_ok_def)
  note E = Extract_correct [OF assms(1) order_refl f]
  obtain e H' where r: "ExtractMin val H = (e, H')"
    by fastforce
  then have "e = Some (fHeap H 1)" "contents H' = contents H - {#fHeap H 1#}" "heap_ok val H'"
    using E by (simp_all add: ExtractMin_def)
  moreover have "fHeap H 1 \<in># contents H"
    using f by (auto simp: set_contents)
  moreover have "val (fHeap H 1) \<le> val x" if "x \<in># contents H" for x
    using that heap_least [of val "fFreeIndex H" "fHeap H"] assms(1) by (auto simp: set_contents heap_ok_def)
  ultimately show ?thesis
    using r by blast
qed

text \<open>
  C38: The heap refines a multiset of elements. \<open>Insert\<close> adds the element, growing the array when it is full;
  \<open>PeekMin\<close> and \<open>ExtractMin\<close> give nothing exactly when it is empty, and otherwise an element whose value is
  least, which \<open>ExtractMin\<close> takes out once; every operation keeps the order of the heap and stays within the
  array.
\<close>

theorem heap_refines_multiset:
  assumes "heap_ok val H"
  shows "heap_ok val (Insert val e H) \<and> contents (Insert val e H) = add_mset e (contents H) \<and>
    CurrentHeapSize H = size (contents H) \<and>
    (case ExtractMin val H of
       (None, H') \<Rightarrow> contents H = {#} \<and> H' = H \<and> PeekMin H = None
     | (Some x, H') \<Rightarrow> PeekMin H = Some x \<and> x \<in># contents H \<and> (\<forall>y \<in># contents H. val x \<le> val y) \<and>
         contents H' = contents H - {#x#} \<and> heap_ok val H')"
proof -
  have f: "1 \<le> fFreeIndex H"
    using assms by (simp add: heap_ok_def)
  have size: "CurrentHeapSize H = size (contents H)"
    by (simp add: CurrentHeapSize_def contents_def)
  show ?thesis
  proof (cases "contents H = {#}")
    case True
    then show ?thesis
      using Insert_correct [OF assms, of e] size contents_empty [OF f]
      by (simp add: ExtractMin_def Extract_def PeekMin_def)
  next
    case False
    obtain x H' where x: "ExtractMin val H = (Some x, H')" "heap_ok val H'" "x \<in># contents H"
      "\<forall>y \<in># contents H. val x \<le> val y" "contents H' = contents H - {#x#}"
      using ExtractMin_correct [OF assms False] by blast
    moreover have "PeekMin H = Some x"
      using x(1) False f contents_empty [OF f]
      by (auto simp: PeekMin_def CurrentHeapSize_def ExtractMin_def Extract_def Let_def split: if_splits)
    ultimately show ?thesis
      using Insert_correct [OF assms, of e] size by simp
  qed
qed

lemma heap_refines_multiset_witness:
  "contents (Insert int 4 (OSHeap 2)) = {#4#}"
  using heap_refines_multiset [OF heap_empty(1), of int 4 2] heap_empty(2) by simp

section \<open>Heaps as priority queues\<close>

text \<open>Taking elements out, at most \<open>k\<close> of them, until nothing is left.\<close>

fun drain :: "('q \<Rightarrow> 'e option \<times> 'q) \<Rightarrow> nat \<Rightarrow> 'q \<Rightarrow> 'e list" where
  "drain take_min 0 q = []"
| "drain take_min (Suc k) q = (case take_min q of (None, _) \<Rightarrow> [] | (Some x, q') \<Rightarrow> x # drain take_min k q')"

text \<open>What a client of the heap relies on.\<close>

locale priority_queue =
  fixes insert :: "'e \<Rightarrow> 'q \<Rightarrow> 'q"
    and take_min :: "'q \<Rightarrow> 'e option \<times> 'q"
    and key :: "'e \<Rightarrow> 'k::linorder"
    and ok :: "'q \<Rightarrow> bool"
    and bag :: "'q \<Rightarrow> 'e multiset"
  assumes insert_ok: "ok q \<Longrightarrow> ok (insert e q)"
    and insert_bag: "ok q \<Longrightarrow> bag (insert e q) = add_mset e (bag q)"
    and take_none: "ok q \<Longrightarrow> bag q = {#} \<Longrightarrow> fst (take_min q) = None"
    and take_some: "ok q \<Longrightarrow> bag q \<noteq> {#} \<Longrightarrow>
      \<exists>e q'. take_min q = (Some e, q') \<and> ok q' \<and> e \<in># bag q \<and> (\<forall>x \<in># bag q. key e \<le> key x) \<and> bag q' = bag q - {#e#}"
begin

lemma inserted: "ok q \<Longrightarrow> ok (fold insert xs q) \<and> bag (fold insert xs q) = bag q + mset xs"
  by (induction xs arbitrary: q) (simp_all add: insert_ok insert_bag)

lemma drained:
  "ok q \<Longrightarrow> size (bag q) \<le> k \<Longrightarrow> mset (drain take_min k q) = bag q \<and> sorted (map key (drain take_min k q))"
proof (induction k arbitrary: q)
  case (Suc k)
  show ?case
  proof (cases "bag q = {#}")
    case True
    then show ?thesis
      using take_none [OF Suc.prems(1)] by (cases "take_min q") simp
  next
    case False
    then obtain x q' where x: "take_min q = (Some x, q')" "ok q'" "x \<in># bag q"
      "\<forall>y \<in># bag q. key x \<le> key y" "bag q' = bag q - {#x#}"
      using take_some [OF Suc.prems(1)] by blast
    have "size (bag q') \<le> k"
      using Suc.prems(2) x(3,5) by (simp add: size_Diff_singleton)
    from Suc.IH [OF x(2) this] have r: "mset (drain take_min k q') = bag q - {#x#}" "sorted (map key (drain take_min k q'))"
      using x(5) by simp_all
    have "key x \<le> key y" if "y \<in> set (drain take_min k q')" for y
      using that x(4) r(1) by (metis in_diffD set_mset_mset)
    then show ?thesis
      using r x(1,3) by simp
  qed
qed simp

lemma sorts:
  assumes "ok q" "bag q = {#}"
  shows "mset (drain take_min (length xs) (fold insert xs q)) = mset xs \<and>
    sorted (map key (drain take_min (length xs) (fold insert xs q)))"
  using inserted [OF assms(1), of xs] drained [of "fold insert xs q" "length xs"] assms(2) by simp

end

lemma ExtractMin_empty: "heap_ok val H \<Longrightarrow> contents H = {#} \<Longrightarrow> fst (ExtractMin val H) = None"
  using contents_empty [of H] by (simp add: heap_ok_def ExtractMin_def Extract_def)

interpretation pq: priority_queue "Insert val" "ExtractMin val" val "heap_ok val" contents
  by unfold_locales (fact Insert_correct ExtractMin_empty ExtractMin_correct)+

text \<open>
  Inserting elements into a new heap, however small its first array, and taking the least one out until the
  heap is empty gives all the elements, in the order of their values.
\<close>

theorem heap_sorts:
  "let ys = drain (ExtractMin val) (length xs) (fold (Insert val) xs (OSHeap n)) in
   mset ys = mset xs \<and> sorted (map val ys)"
  using pq.sorts [OF heap_empty(1,2), of val xs n] by simp

section \<open>Removal from the middle\<close>

lemma find_index_correct:
  "i \<le> free \<Longrightarrow> find_index h free e i = j \<Longrightarrow>
   i \<le> j \<and> j \<le> free \<and> (j < free \<longrightarrow> h j = e) \<and> (\<forall>k. i \<le> k \<and> k < j \<longrightarrow> h k \<noteq> e)"
proof (induction h free e i rule: find_index.induct)
  case (1 h free e i)
  show ?case
  proof (cases "i < free \<and> e \<noteq> h i")
    case True
    then have "find_index h free e (i + 1) = j"
      using 1(3) by (simp add: find_index.simps [of h free e i])
    then show ?thesis
      using 1(1) True by (metis Suc_eq_plus1 Suc_leD Suc_leI le_neq_implies_less less_or_eq_imp_le)
  next
    case False
    then show ?thesis
      using 1(2,3) by (auto simp: find_index.simps [of h free e i] split: if_splits)
  qed
qed

text \<open>
  C39: \<open>Remove\<close> takes exactly the given element out, and does nothing when it is not in the heap. The heap stays in
  order when the last element is not less than the parent of the one removed; otherwise, as it only sinks the
  last element, the order is lost (\<open>Remove_disorder\<close>).
\<close>

theorem Remove_correct:
  assumes "heap_ok val H"
  shows "(if e \<in># contents H
     then fst (Remove val e H) = Some e \<and> contents (snd (Remove val e H)) = contents H - {#e#}
     else Remove val e H = (None, H)) \<and>
    ((\<forall>i. 2 \<le> i \<and> i < fFreeIndex H \<and> fHeap H i = e \<longrightarrow> val (fHeap H (i div 2)) \<le> val (fHeap H (fFreeIndex H - 1))) \<longrightarrow>
     heap_ok val (snd (Remove val e H)))"
proof -
  have f: "1 \<le> fFreeIndex H"
    using assms by (simp add: heap_ok_def)
  define j where "j = find_index (fHeap H) (fFreeIndex H) e 1"
  have j: "1 \<le> j" "j \<le> fFreeIndex H" "j < fFreeIndex H \<Longrightarrow> fHeap H j = e"
    "\<And>k. 1 \<le> k \<Longrightarrow> k < j \<Longrightarrow> fHeap H k \<noteq> e"
    using find_index_correct [OF f, of "fHeap H" e j] by (auto simp: j_def)
  show ?thesis
  proof (cases "j < fFreeIndex H")
    case True
    then have "Remove val e H = Extract val j H" "e \<in># contents H"
      using j by (auto simp: Remove_def Let_def j_def [symmetric] set_contents simp del: One_nat_def)
    moreover have "j = 1 \<or> 2 \<le> j"
      using j(1) by auto
    ultimately show ?thesis
      using Extract_correct [OF assms j(1) True] j(3) True by auto
  next
    case False
    then have jn: "j = fFreeIndex H"
      using j(2) by simp
    then have "Remove val e H = (None, H)"
      using j_def by (simp add: Remove_def Let_def)
    moreover have "e \<notin># contents H"
      using j(4) jn by (force simp: set_contents)
    ultimately have "Remove val e H = (None, H)" "e \<notin># contents H"
      by simp_all
    then show ?thesis
      using assms by simp
  qed
qed

lemma Remove_correct_witness:
  "contents (snd (Remove int 7 (Insert int 7 (OSHeap 2)))) = {#}"
  using Remove_correct [OF Insert_correct(1) [OF heap_empty(1)], where val = int and e = 7, of 7 2]
  by (simp add: Insert_correct(2) [OF heap_empty(1)] heap_empty(2))

lemma Remove_disorder:
  "drain (ExtractMin int) 6 (snd (Remove int 6 (fold (Insert int) [5, 6, 7, 3, 4, 1, 2] (OSHeap 2)))) = [1, 2, 4, 3, 5, 7]"
  by code_simp

end
