(* ===== verification/CT_Queue.thy ===== *)
theory CT_Queue
  imports ST_CList
begin

text \<open>
  The queues of \<open>CommonTools/OSQueue.cpp\<close>: circular lists through a sentinel. New elements go in behind the
  sentinel, old ones are taken from in front of it; every element knows the queue it is in. The cells are those
  of \<open>ST_CList\<close>, a queue is named by its sentinel \<open>fSentinel\<close>, and the state holds all queues and elements, since
  an operation on one may reach the cells of another. \<open>NULL\<close> is \<open>None\<close>; lengths do not wrap around.
\<close>

record 'a osqueues =
  cells :: "'a clinks"
  fQueue :: "'a \<Rightarrow> 'a option"
  fLength :: "'a \<Rightarrow> nat"

section \<open>The code\<close>

definition OSQueue :: "'a \<Rightarrow> 'a osqueues \<Rightarrow> 'a osqueues" where
  "OSQueue q s = s\<lparr>fLength := (fLength s)(q := 0), cells := set_prev q q (set_next q q (cells s))\<rparr>"

definition EnQueue :: "'a \<Rightarrow> 'a \<Rightarrow> 'a osqueues \<Rightarrow> 'a osqueues" where
  "EnQueue q e s =
     (if fQueue s e = Some q then s
      else
        let c1 = set_next e (nxt (cells s) q) (cells s);
            c2 = set_prev e q c1;
            c3 = set_prev (nxt c2 q) e c2;
            c4 = set_next q e c3 in
        s\<lparr>cells := c4, fQueue := (fQueue s)(e := Some q), fLength := (fLength s)(q := fLength s q + 1)\<rparr>)"

definition DeQueue :: "'a \<Rightarrow> 'a osqueues \<Rightarrow> 'a option \<times> 'a osqueues" where
  "DeQueue q s =
     (if 0 < fLength s q then
        let e = prv (cells s) q;
            c1 = set_next (prv (cells s) e) q (cells s);
            c2 = set_prev q (prv c1 e) c1 in
        (Some e, s\<lparr>cells := c2, fQueue := (fQueue s)(e := None), fLength := (fLength s)(q := fLength s q - 1)\<rparr>)
      else (None, s))"

definition Remove_elem :: "'a \<Rightarrow> 'a \<Rightarrow> 'a osqueues \<Rightarrow> 'a osqueues" where
  "Remove_elem q e s =
     (if fQueue s e = Some q then
        let c1 = set_prev (nxt (cells s) e) (prv (cells s) e) (cells s);
            c2 = set_next (prv c1 e) (nxt c1 e) c1 in
        s\<lparr>cells := c2, fQueue := (fQueue s)(e := None), fLength := (fLength s)(q := fLength s q - 1)\<rparr>
      else s)"

definition Elem_Remove :: "'a \<Rightarrow> 'a osqueues \<Rightarrow> 'a osqueues" where
  "Elem_Remove e s = (case fQueue s e of None \<Rightarrow> s | Some q \<Rightarrow> Remove_elem q e s)"

definition GetHead :: "'a \<Rightarrow> 'a osqueues \<Rightarrow> 'a option" where
  "GetHead q s = (if 0 < fLength s q then Some (prv (cells s) q) else None)"

definition GetTail :: "'a \<Rightarrow> 'a osqueues \<Rightarrow> 'a option" where
  "GetTail q s = (if 0 < fLength s q then Some (nxt (cells s) q) else None)"

text \<open>\<open>OSQueueIter::Next\<close>, and the elements an iterator passes in at most \<open>n\<close> steps.\<close>

definition Iter_Next :: "'a \<Rightarrow> 'a option \<Rightarrow> 'a osqueues \<Rightarrow> 'a option" where
  "Iter_Next q cur s =
     (if cur = GetTail q s then None else map_option (prv (cells s)) cur)"

fun iterate :: "nat \<Rightarrow> 'a \<Rightarrow> 'a option \<Rightarrow> 'a osqueues \<Rightarrow> 'a list" where
  "iterate (Suc n) q (Some e) s = e # iterate n q (Iter_Next q (Some e) s) s"
| "iterate _ q _ s = []"

section \<open>Queues as sequences\<close>

text \<open>
  \<open>queues s Q m\<close>: the queue \<open>q\<close> of \<open>Q\<close> holds the elements of \<open>m q\<close>, the newest first; exactly those point to it.
\<close>

definition queues :: "'a osqueues \<Rightarrow> 'a set \<Rightarrow> ('a \<Rightarrow> 'a list) \<Rightarrow> bool" where
  "queues s Q m \<longleftrightarrow>
     (\<forall>q \<in> Q. clist (cells s) q (m q) \<and> fLength s q = length (m q) \<and>
        (\<forall>e. fQueue s e = Some q \<longleftrightarrow> e \<in> set (m q)) \<and> set (m q) \<inter> Q = {})"

lemma queuesD:
  assumes "queues s Q m" "q \<in> Q"
  shows "clist (cells s) q (m q)" "fLength s q = length (m q)" "fQueue s e = Some q \<longleftrightarrow> e \<in> set (m q)"
    "set (m q) \<inter> Q = {}"
  using assms by (simp_all add: queues_def)

lemma clist_cong:
  assumes "clist s l xs" "\<And>a. a \<in> set (l # xs) \<Longrightarrow> nxt t a = nxt s a \<and> prv t a = prv s a"
  shows "clist t l xs"
proof -
  have "chain s (l # xs @ [l])" "distinct (l # xs)"
    using assms(1) by (simp_all add: clist_def)
  moreover have "chain t (l # xs @ [l])"
    by (rule chain_cong [OF calculation(1)]) (use assms(2) in \<open>auto simp: butlast_append dest: set_tlD\<close>)
  ultimately show ?thesis
    by (simp add: clist_def)
qed

lemma EnQueue_cells:
  "fQueue s e \<noteq> Some q \<Longrightarrow> cells (EnQueue q e s) = ST_INSERT_LINK e q (cells s)"
  by (simp add: EnQueue_def ST_INSERT_LINK_def ST_INSERT_AFTER_def Let_def)

lemma neighbours:
  assumes "clist s l (as @ e # bs)"
  shows "prv s e = last (l # as)" "nxt s e = (case bs of [] \<Rightarrow> l | b # _ \<Rightarrow> b)" "prv s e \<noteq> e"
proof -
  have c: "chain s ((l # as) @ e # bs @ [l])" and d: "distinct (l # as @ e # bs)"
    using assms by (simp_all add: clist_def)
  have "chain s ((l # as) @ [e])"
    using c chain_append [of s "l # as" e "bs @ [l]"] by blast
  then show p: "prv s e = last (l # as)"
    using chain_last [of s l as e] by simp
  have "last (l # as) \<in> set (l # as)"
    by (rule last_in_set) simp
  then show "prv s e \<noteq> e"
    using d p by auto
  have "chain s (e # bs @ [l])"
    using c chain_append [of s "l # as" e "bs @ [l]"] by blast
  then show "nxt s e = (case bs of [] \<Rightarrow> l | b # _ \<Rightarrow> b)"
    by (cases bs) simp_all
qed

lemma clinks_eqI: "nxt s = nxt t \<Longrightarrow> prv s = prv t \<Longrightarrow> (s :: 'a clinks) = t"
  by simp

lemma Remove_cells:
  assumes "fQueue s e = Some q" "prv (cells s) e \<noteq> e"
  shows "cells (Remove_elem q e s) = ST_REMOVE_LINK e (cells s)"
  using assms by (auto simp: Remove_elem_def ST_REMOVE_LINK_def Let_def intro!: clinks_eqI)

lemma queues_disjoint:
  assumes "queues s Q m" "p \<in> Q" "q \<in> Q" "p \<noteq> q"
  shows "set (p # m p) \<inter> set (q # m q) = {}"
proof -
  have "e \<notin> set (m q)" if "e \<in> set (m p)" for e
    using assms that unfolding queues_def by (metis option.inject)
  moreover have "p \<notin> set (m q)" "q \<notin> set (m p)"
    using assms by (auto simp: queues_def)
  ultimately show ?thesis
    using assms(4) by auto
qed

text \<open>The operation changed queue \<open>q\<close> to \<open>xs\<close>; the others are left alone.\<close>

lemma queues_update:
  assumes "queues s Q m" "q \<in> Q"
    and "clist (cells s') q xs" "fLength s' = (fLength s)(q := length xs)" "set xs \<inter> Q = {}"
    and "\<And>e. fQueue s' e = Some q \<longleftrightarrow> e \<in> set xs"
    and "\<And>p e. p \<in> Q \<Longrightarrow> p \<noteq> q \<Longrightarrow> fQueue s' e = Some p \<longleftrightarrow> fQueue s e = Some p"
    and "\<And>p. p \<in> Q \<Longrightarrow> p \<noteq> q \<Longrightarrow> clist (cells s') p (m p)"
  shows "queues s' Q (m(q := xs))"
  using assms unfolding queues_def by simp

lemma EnQueue_queues:
  assumes Q: "queues s Q m" "q \<in> Q" and e: "fQueue s e = None" "e \<notin> Q"
  shows "queues (EnQueue q e s) Q (m(q := e # m q))"
proof (rule queues_update [OF Q])
  have c: "clist (cells s) q (m q)" "e \<notin> set (q # m q)"
    using queuesD(1) [OF Q] queuesD(3) [OF Q, of e] Q(2) e by auto
  have cells: "cells (EnQueue q e s) = ST_INSERT_LINK e q (cells s)"
    using e by (simp add: EnQueue_cells)
  show "clist (cells (EnQueue q e s)) q (e # m q)"
    unfolding cells using c by (rule clist_INSERT_LINK)
  show "fLength (EnQueue q e s) = (fLength s)(q := length (e # m q))"
    "set (e # m q) \<inter> Q = {}"
    using queuesD [OF Q] e by (simp_all add: EnQueue_def Let_def)
  show "fQueue (EnQueue q e s) x = Some q \<longleftrightarrow> x \<in> set (e # m q)" for x
    using queuesD(3) [OF Q] e by (auto simp: EnQueue_def Let_def)
  fix p assume p: "p \<in> Q" "p \<noteq> q"
  show "fQueue (EnQueue q e s) x = Some p \<longleftrightarrow> fQueue s x = Some p" for x
    using p e by (auto simp: EnQueue_def Let_def)
  have y: "nxt (cells s) q \<in> set (q # m q)"
    using c(1) by (cases "m q") (simp_all add: clist_def)
  have pc: "clist (cells s) p (m p)" "e \<notin> set (p # m p)"
    using queuesD(1) [OF Q(1) p(1)] queuesD(3) [OF Q(1) p(1), of e] p(1) e by auto
  have ne: "e \<noteq> q" "e \<noteq> nxt (cells s) q"
    using c(2) y by auto
  show "clist (cells (EnQueue q e s)) p (m p)"
    unfolding cells ST_INSERT_LINK_def
  proof (rule clist_cong [OF pc(1)])
    fix a assume "a \<in> set (p # m p)"
    then have "a \<noteq> q" "a \<noteq> e" "a \<noteq> nxt (cells s) q"
      using queues_disjoint [OF Q(1) p(1) Q(2) p(2)] pc(2) y by auto
    then show "nxt (ST_INSERT_AFTER e q (cells s)) a = nxt (cells s) a \<and>
        prv (ST_INSERT_AFTER e q (cells s)) a = prv (cells s) a"
      by (simp add: INSERT_AFTER_links [OF refl ne])
  qed
qed

lemma unlink_queues:
  assumes Q: "queues s Q m" "q \<in> Q" and m: "m q = as @ e # bs"
    and t: "cells t = ST_REMOVE_LINK e (cells s)" "fQueue t = (fQueue s)(e := None)"
      "fLength t = (fLength s)(q := fLength s q - 1)"
  shows "queues t Q (m(q := as @ bs))"
proof (rule queues_update [OF Q])
  have c: "clist (cells s) q (as @ e # bs)" and d: "distinct (as @ e # bs)"
    using queuesD(1) [OF Q] by (simp_all add: m clist_def)
  show "clist (cells t) q (as @ bs)"
    unfolding t by (rule clist_REMOVE [OF c])
  show "fLength t = (fLength s)(q := length (as @ bs))" "set (as @ bs) \<inter> Q = {}"
    using queuesD(2,4) [OF Q] by (auto simp: t m)
  have "fQueue s x = Some q \<longleftrightarrow> x \<in> set (as @ e # bs)" for x
    using queuesD(3) [OF Q] by (simp add: m)
  then show "fQueue t x = Some q \<longleftrightarrow> x \<in> set (as @ bs)" for x
    using d by (auto simp: t)
  fix p assume p: "p \<in> Q" "p \<noteq> q"
  have "fQueue s e = Some q"
    using queuesD(3) [OF Q, of e] m by simp
  then show "fQueue t x = Some p \<longleftrightarrow> fQueue s x = Some p" for x
    using p by (auto simp: t)
  have "clist (cells s) p (m p)"
    using Q p by (simp add: queues_def)
  moreover have "set (q # as @ e # bs) \<inter> set (p # m p) = {}"
    using queues_disjoint [OF Q(1) Q(2) p(1)] p(2) by (metis m)
  ultimately show "clist (cells t) p (m p)"
    unfolding t using clist_frame_REMOVE [OF c] by blast
qed

lemma Remove_queues:
  assumes Q: "queues s Q m" "q \<in> Q" and e: "e \<in> set (m q)"
  shows "queues (Remove_elem q e s) Q (m(q := remove1 e (m q)))"
proof -
  obtain as bs where m: "m q = as @ e # bs" "e \<notin> set as"
    using split_list_first [OF e] by blast
  have c: "clist (cells s) q (as @ e # bs)" and f: "fQueue s e = Some q"
    using queuesD(1,3) [OF Q] m by auto
  have "queues (Remove_elem q e s) Q (m(q := as @ bs))"
    by (rule unlink_queues [OF Q m(1) Remove_cells [OF f neighbours(3) [OF c]]])
      (simp_all add: Remove_elem_def f Let_def)
  then show ?thesis
    using m by (simp add: remove1_append)
qed

lemma DeQueue_queues:
  assumes Q: "queues s Q m" "q \<in> Q" and m: "m q = xs @ [e]"
  shows "\<exists>s'. DeQueue q s = (Some e, s') \<and> queues s' Q (m(q := xs))"
proof -
  have c: "clist (cells s) q (xs @ e # [])" and f: "fLength s q = Suc (length xs)"
    using queuesD(1,2) [OF Q] m by auto
  have e: "prv (cells s) q = e"
    using clist_TAIL [OF c] by (simp add: ST_LIST_TAIL_def)
  have "nxt (cells s) e = q" "prv (cells s) e \<noteq> e"
    using neighbours(2,3) [OF c] by simp_all
  then have "DeQueue q s = (Some e, s\<lparr>cells := ST_REMOVE_LINK e (cells s), fQueue := (fQueue s)(e := None),
      fLength := (fLength s)(q := fLength s q - 1)\<rparr>)"
    by (simp add: DeQueue_def f e Let_def ST_REMOVE_LINK_def)
  moreover have "queues (s\<lparr>cells := ST_REMOVE_LINK e (cells s), fQueue := (fQueue s)(e := None),
      fLength := (fLength s)(q := fLength s q - 1)\<rparr>) Q (m(q := xs @ []))"
    by (rule unlink_queues [OF Q m]) simp_all
  ultimately show ?thesis
    by simp
qed

text \<open>
  C40: The queues refine independent first-in first-out sequences (written here with the newest element first).
  A new queue is empty; \<open>EnQueue\<close> adds an element that is in no queue, and leaves everything as it is when
  the element is in this queue already; \<open>DeQueue\<close> gives nothing from an empty queue and otherwise the oldest
  element; \<open>Remove\<close> takes exactly the given element out of the queue it is in, wherever it stands. None of them
  affects any other queue.
\<close>

theorem queue_operations:
  assumes "queues s Q m" "q \<in> Q" "e \<notin> Q"
  shows "(fQueue s e = None \<longrightarrow> queues (EnQueue q e s) Q (m(q := e # m q))) \<and>
    (fQueue s e = Some q \<longrightarrow> EnQueue q e s = s) \<and>
    (case DeQueue q s of
       (None, s') \<Rightarrow> m q = [] \<and> s' = s
     | (Some x, s') \<Rightarrow> m q \<noteq> [] \<and> x = last (m q) \<and> queues s' Q (m(q := butlast (m q)))) \<and>
    (\<forall>p \<in> Q. fQueue s e = Some p \<longrightarrow>
       queues (Elem_Remove e s) Q (m(p := remove1 e (m p))) \<and> fQueue (Elem_Remove e s) e = None)"
proof (intro conjI impI ballI)
  show "queues (EnQueue q e s) Q (m(q := e # m q))" if "fQueue s e = None"
    using EnQueue_queues [OF assms(1,2) that assms(3)] .
  show "EnQueue q e s = s" if "fQueue s e = Some q"
    using that by (simp add: EnQueue_def)
  show "case DeQueue q s of
       (None, s') \<Rightarrow> m q = [] \<and> s' = s
     | (Some x, s') \<Rightarrow> m q \<noteq> [] \<and> x = last (m q) \<and> queues s' Q (m(q := butlast (m q)))"
  proof (cases "m q" rule: rev_cases)
    case Nil
    then show ?thesis
      using assms(1,2) by (simp add: DeQueue_def queues_def)
  next
    case (snoc xs x)
    then show ?thesis
      using DeQueue_queues [OF assms(1,2) snoc] by auto
  qed
  fix p assume p: "p \<in> Q" "fQueue s e = Some p"
  then have "e \<in> set (m p)"
    using assms(1) by (simp add: queues_def)
  then show "queues (Elem_Remove e s) Q (m(p := remove1 e (m p)))"
    using Remove_queues [OF assms(1) p(1)] p(2) by (simp add: Elem_Remove_def)
  show "fQueue (Elem_Remove e s) e = None"
    using p(2) by (simp add: Elem_Remove_def Remove_elem_def Let_def)
qed

text \<open>Two queues, and an element that changes from one to the other.\<close>

definition two_queues :: "nat osqueues" where
  "two_queues =
     OSQueue 1 (OSQueue 0 \<lparr>cells = \<lparr>nxt = (\<lambda>_. 0), prv = (\<lambda>_. 0)\<rparr>, fQueue = (\<lambda>_. None), fLength = (\<lambda>_. 0)\<rparr>)"

lemma two_queues_empty: "queues two_queues {0, 1} (\<lambda>_. [])"
  by (simp add: queues_def two_queues_def OSQueue_def clist_def)

lemma queue_operations_witness:
  "queues (EnQueue 1 7 two_queues) {0, 1} ((\<lambda>_. [])(1 := [7])) \<and> fst (DeQueue 0 two_queues) = None"
  using queue_operations [OF two_queues_empty, of 1 7] queue_operations [OF two_queues_empty, of 0 7]
  by (auto simp: two_queues_def OSQueue_def split: option.splits prod.splits)

text \<open>
  An iterator passes the elements from the oldest to the newest: each element once.
\<close>

lemma GetHead_seq:
  assumes "queues s Q m" "q \<in> Q"
  shows "GetHead q s = (if m q = [] then None else Some (last (m q)))"
proof (cases "m q" rule: rev_cases)
  case (snoc xs e)
  then show ?thesis
    using queuesD(1,2) [OF assms] clist_TAIL [of "cells s" q xs e] by (simp add: GetHead_def ST_LIST_TAIL_def)
qed (use queuesD(2) [OF assms] in \<open>simp add: GetHead_def\<close>)

lemma Iter_Next_seq:
  assumes "queues s Q m" "q \<in> Q" "m q = as @ e # bs"
  shows "Iter_Next q (Some e) s = (if as = [] then None else Some (last as))"
proof -
  have t: "GetTail q s = Some (hd (as @ [e]))"
    using queuesD(1,2) [OF assms(1,2)] assms(3) by (cases as) (simp_all add: GetTail_def clist_def)
  show ?thesis
  proof (cases as rule: rev_cases)
    case Nil
    then show ?thesis
      using t by (simp add: Iter_Next_def)
  next
    case (snoc xs a)
    have c: "clist (cells s) q (as @ e # bs)" "distinct (as @ e # bs)"
      using queuesD(1) [OF assms(1,2)] assms(3) by (simp_all add: clist_def)
    have "hd as \<in> set as" "hd (as @ [e]) = hd as"
      using snoc by (auto intro: hd_in_set simp: hd_append)
    then have "GetTail q s \<noteq> Some e"
      using t c(2) by auto
    then show ?thesis
      using neighbours(1) [OF c(1)] snoc by (auto simp: Iter_Next_def)
  qed
qed

lemma iterate_from:
  assumes "queues s Q m" "q \<in> Q" "m q = as @ e # bs"
  shows "iterate (Suc (length as + k)) q (Some e) s = e # rev as"
  using assms(3)
proof (induction as arbitrary: e bs k rule: rev_induct)
  case Nil
  then show ?case
    using Iter_Next_seq [OF assms(1,2), of "[]"] by (cases k) simp_all
next
  case (snoc a as)
  then show ?case
    using Iter_Next_seq [OF assms(1,2) snoc.prems] snoc.IH [of a "e # bs"] by simp
qed

text \<open>
  An iterator over a queue passes its elements in the order in which \<open>DeQueue\<close> would take them, each once, and
  comes to its end.
\<close>

theorem iterator_order:
  assumes "queues s Q m" "q \<in> Q" "length (m q) \<le> n"
  shows "iterate n q (GetHead q s) s = rev (m q)"
proof (cases "m q" rule: rev_cases)
  case Nil
  then show ?thesis
    by (cases n) (simp_all add: GetHead_seq [OF assms(1,2)])
next
  case (snoc xs e)
  moreover have "n = Suc (length xs + (n - Suc (length xs)))"
    using assms(3) snoc by simp
  ultimately show ?thesis
    using iterate_from [OF assms(1,2) snoc, of "n - Suc (length xs)"] by (simp add: GetHead_seq [OF assms(1,2)])
qed

lemma iterator_order_witness: "iterate 3 1 (GetHead 1 (EnQueue 1 7 two_queues)) (EnQueue 1 7 two_queues) = [7]"
  using iterator_order [OF EnQueue_queues [OF two_queues_empty, of 1 7], of 1 3] by (simp add: two_queues_def OSQueue_def)

text \<open>
  \<open>EnQueue\<close> does not take an element out of another queue: the other one keeps its length and still gives the
  element, which then is in neither, while the cells of the second queue lead back to it.
\<close>

lemma EnQueue_steals:
  "(let s = EnQueue 1 7 (EnQueue 0 7 two_queues) in
    fLength s 0 = 1 \<and> fLength s 1 = 1 \<and> GetHead 0 s = Some 7 \<and>
    (let s' = snd (DeQueue 0 s) in fQueue s' 7 = None \<and> fLength s' 1 = 1 \<and> GetHead 1 s' = Some 7))"
  by (simp add: two_queues_def OSQueue_def EnQueue_def DeQueue_def GetHead_def Let_def set_next_def set_prev_def)

end
