(* ===== verification/FW_Engine.thy ===== *)
theory FW_Engine
  imports CT_Queue "HOL-Library.Word" "HOL-Library.Monad_Syntax"
begin

text \<open>
  The event engine of \<open>FrameWork/SimpleFrameWork\<close>: \<open>TimeManager.cpp\<close>, \<open>TimeoutJob.cpp\<close> and \<open>Engine.cpp\<close>. A job is named by
  its \<open>jobElem\<close>, the cell that is in a queue; the queues of \<open>ObjectQueue.cpp\<close> are word for word those of
  \<open>OSQueue.cpp\<close>, which \<open>CT_Queue\<close> models. Times are in microseconds, \<open>unsigned long long\<close>.

  What a job does when it is run (\<open>Processor\<close>, a virtual function) is the argument \<open>proc\<close>: its result, and
  the engine after it, since it may call the engine. The answers of \<open>gettimeofday\<close> and \<open>select\<close> are arguments.
  The jobs that have been run and deleted are kept for the statements. A descriptor that does not fit in an
  \<open>fd_set\<close> is \<open>None\<close>.
\<close>

type_synonym usec = "64 word"

record engine =
  jobs :: "nat osqueues"
  timeout :: "nat \<Rightarrow> usec"
  currentTimeout :: "nat \<Rightarrow> usec"
  fLastSyncTime :: usec
  delJob :: bool
  sock :: "nat \<Rightarrow> int"
  fReadSet :: "int set"
  fWriteSet :: "int set"
  fExceptionSet :: "int set"
  fMaxNumSockets :: int
  runFlags :: bool
  was_run :: "nat list"
  deleted :: "nat list"

text \<open>The sentinels of \<open>timeoutQueue\<close> and \<open>eventQueue\<close>.\<close>

definition timeoutQueue :: nat where "timeoutQueue = 0"
definition eventQueue :: nat where "eventQueue = 1"

definition call :: "(nat \<Rightarrow> engine \<Rightarrow> int \<times> engine) \<Rightarrow> nat \<Rightarrow> engine \<Rightarrow> int \<times> engine" where
  "call proc e s = proc e (s\<lparr>was_run := was_run s @ [e]\<rparr>)"

definition delete_job :: "nat \<Rightarrow> engine \<Rightarrow> engine" where
  "delete_job e s = s\<lparr>deleted := deleted s @ [e]\<rparr>"

section \<open>Timeouts\<close>

definition TimeoutJob :: "nat \<Rightarrow> usec \<Rightarrow> engine \<Rightarrow> engine" where
  "TimeoutJob e mSec s =
     s\<lparr>timeout := (timeout s)(e := mSec * 1000), currentTimeout := (currentTimeout s)(e := 0)\<rparr>"

definition setScheduleTime :: "nat \<Rightarrow> usec \<Rightarrow> engine \<Rightarrow> engine" where
  "setScheduleTime e mSec s = s\<lparr>timeout := (timeout s)(e := mSec * 1000)\<rparr>"

definition addCurrentScheduleTime :: "nat \<Rightarrow> usec \<Rightarrow> engine \<Rightarrow> engine" where
  "addCurrentScheduleTime e t s = s\<lparr>currentTimeout := (currentTimeout s)(e := currentTimeout s e + t)\<rparr>"

definition refreshCurrentScheduleTime :: "nat \<Rightarrow> engine \<Rightarrow> engine" where
  "refreshCurrentScheduleTime e s = s\<lparr>currentTimeout := (currentTimeout s)(e := 0)\<rparr>"

definition addElem :: "nat \<Rightarrow> engine \<Rightarrow> engine" where
  "addElem e s = s\<lparr>jobs := EnQueue timeoutQueue e (jobs s)\<rparr>"

definition delElem :: "nat \<Rightarrow> engine \<Rightarrow> engine" where
  "delElem e s = s\<lparr>jobs := Remove_elem timeoutQueue e (jobs s)\<rparr>"

text \<open>The calls through the engine and \<open>Signal\<close> of a timeout job.\<close>

definition addElemToTimeoutQueue :: "nat \<Rightarrow> engine \<Rightarrow> int \<times> engine" where
  "addElemToTimeoutQueue e s = (1, addElem e s)"

definition delElemFromTimeoutQueue :: "nat \<Rightarrow> engine \<Rightarrow> int \<times> engine" where
  "delElemFromTimeoutQueue e s = (1, delElem e s)"

definition TimeoutJob_Signal :: "nat \<Rightarrow> engine \<Rightarrow> int \<times> engine" where
  "TimeoutJob_Signal e s = (1, snd (addElemToTimeoutQueue e s))"

text \<open>The loop of \<open>synchronizeAndHandle\<close> over the queue, from the iterator \<open>cur\<close> on.\<close>

partial_function (option) sync_loop ::
  "(nat \<Rightarrow> engine \<Rightarrow> int \<times> engine) \<Rightarrow> usec \<Rightarrow> nat option \<Rightarrow> engine \<Rightarrow> engine option" where
  "sync_loop proc dt cur s =
     (case cur of
        None \<Rightarrow> Some s
      | Some e \<Rightarrow>
          let s1 = addCurrentScheduleTime e dt s in
          if timeout s1 e \<le> currentTimeout s1 e then
            let (r, s2) = call proc e s1 in
            if r = 0 then Some ((delete_job e (s2\<lparr>jobs := Remove_elem timeoutQueue e (jobs s2)\<rparr>))\<lparr>delJob := True\<rparr>)
            else
              let s3 = refreshCurrentScheduleTime e s2 in
              sync_loop proc dt (Iter_Next timeoutQueue (Some e) (jobs s3)) s3
          else sync_loop proc dt (Iter_Next timeoutQueue (Some e) (jobs s1)) s1)"

definition synchronizeAndHandle :: "(nat \<Rightarrow> engine \<Rightarrow> int \<times> engine) \<Rightarrow> usec \<Rightarrow> engine \<Rightarrow> engine option" where
  "synchronizeAndHandle proc timeNow s =
     (if timeNow < fLastSyncTime s then Some (s\<lparr>fLastSyncTime := timeNow\<rparr>)
      else
        let timeSinceLastSync = timeNow - fLastSyncTime s;
            s1 = s\<lparr>fLastSyncTime := timeNow\<rparr> in
        sync_loop proc timeSinceLastSync (GetHead timeoutQueue (jobs s1)) s1)"

text \<open>\<open>TimeManager::Processor\<close>, with the times that the clock gives, one for each turn of its loop.\<close>

fun time_processor :: "(nat \<Rightarrow> engine \<Rightarrow> int \<times> engine) \<Rightarrow> usec list \<Rightarrow> engine \<Rightarrow> engine option" where
  "time_processor proc [] s = None"
| "time_processor proc (t # ts) s =
     do {
       s1 \<leftarrow> synchronizeAndHandle proc t s;
       if delJob s1 then time_processor proc ts (s1\<lparr>delJob := False\<rparr>) else Some s1
     }"

section \<open>Events\<close>

definition FD_SET_BITS :: int where "FD_SET_BITS = 1024"

definition Engine :: "engine \<Rightarrow> engine" where
  "Engine s =
     s\<lparr>fMaxNumSockets := 0, runFlags := False, fReadSet := {}, fWriteSet := {}, fExceptionSet := {},
       fLastSyncTime := 0, delJob := False, jobs := OSQueue timeoutQueue (OSQueue eventQueue (jobs s))\<rparr>"

definition addEvent :: "nat \<Rightarrow> 32 word \<Rightarrow> engine \<Rightarrow> (int \<times> engine) option" where
  "addEvent e conditionSet s =
     (let sockFd = sock s e in
      if sockFd < 0 then Some (0, s)
      else if FD_SET_BITS \<le> sockFd then None
      else
        let put = (\<lambda>k X. if bit conditionSet k then insert sockFd (X - {sockFd}) else X - {sockFd}) in
        Some (1, s\<lparr>fReadSet := put 1 (fReadSet s), fWriteSet := put 2 (fWriteSet s),
                   fExceptionSet := put 3 (fExceptionSet s),
                   fMaxNumSockets := (if fMaxNumSockets s \<le> sockFd + 1 then sockFd + 1 else fMaxNumSockets s),
                   jobs := EnQueue eventQueue e (jobs s)\<rparr>))"

definition delEvent :: "nat \<Rightarrow> engine \<Rightarrow> int \<times> engine" where
  "delEvent e s =
     (let sockFd = sock s e in
      if sockFd < 0 then (0, s)
      else
        (1, delete_job e (s\<lparr>fReadSet := fReadSet s - {sockFd}, fWriteSet := fWriteSet s - {sockFd},
               fExceptionSet := fExceptionSet s - {sockFd},
               fMaxNumSockets := (if sockFd + 1 = fMaxNumSockets s then fMaxNumSockets s - 1 else fMaxNumSockets s),
               jobs := Remove_elem eventQueue e (jobs s)\<rparr>)))"

definition EventJob_Signal :: "nat \<Rightarrow> 32 word \<Rightarrow> engine \<Rightarrow> (int \<times> engine) option" where
  "EventJob_Signal e conditionSet s = map_option (\<lambda>(r, s'). (1, s')) (addEvent e conditionSet s)"

text \<open>
  One of the three tests in the loop over the events: the job is run when its descriptor is in the set that \<open>select\<close>
  returned and in the engine's own; the loop is left when the result says that the job goes.
\<close>

definition event_check ::
  "(nat \<Rightarrow> engine \<Rightarrow> int \<times> engine) \<Rightarrow> nat \<Rightarrow> int \<Rightarrow> int set \<Rightarrow> (engine \<Rightarrow> int set) \<Rightarrow> (int \<Rightarrow> bool) \<Rightarrow> engine \<Rightarrow> bool \<times> engine" where
  "event_check proc e fd ready own goes s =
     (if fd \<in> ready \<and> fd \<in> own s then
        let (r, s1) = call proc e s in
        if goes r then (True, snd (delEvent e s1)) else (False, s1)
      else (False, s))"

partial_function (option) event_loop ::
  "(nat \<Rightarrow> engine \<Rightarrow> int \<times> engine) \<Rightarrow> int set \<Rightarrow> int set \<Rightarrow> int set \<Rightarrow> nat option \<Rightarrow> engine \<Rightarrow> engine option" where
  "event_loop proc readSet writeSet exceptionSet cur s =
     (case cur of
        None \<Rightarrow> Some s
      | Some e \<Rightarrow>
          let fd = sock s e;
              (stop1, s1) = event_check proc e fd readSet fReadSet (\<lambda>r. r = 0) s in
          if stop1 then Some s1
          else
            let (stop2, s2) = event_check proc e fd writeSet fWriteSet (\<lambda>r. r \<noteq> 0) s1 in
            if stop2 then Some s2
            else
              let (stop3, s3) = event_check proc e fd exceptionSet fExceptionSet (\<lambda>r. r \<noteq> 0) s2 in
              if stop3 then Some s3
              else event_loop proc readSet writeSet exceptionSet (Iter_Next eventQueue (Some e) (jobs s3)) s3)"

text \<open>
  A turn of \<open>dispatch\<close>, with the times for the time manager and the sets that \<open>select\<close> returns (\<open>None\<close> when it
  reports nothing or fails); and the loop.
\<close>

definition dispatch_turn ::
  "(nat \<Rightarrow> engine \<Rightarrow> int \<times> engine) \<Rightarrow> usec list \<times> (int set \<times> int set \<times> int set) option \<Rightarrow> engine \<Rightarrow> engine option" where
  "dispatch_turn proc w s =
     do {
       s1 \<leftarrow> time_processor proc (fst w) s;
       (case snd w of
          None \<Rightarrow> Some s1
        | Some (rs, ws, xs) \<Rightarrow> event_loop proc rs ws xs (GetHead eventQueue (jobs s1)) s1)
     }"

fun dispatch ::
  "(nat \<Rightarrow> engine \<Rightarrow> int \<times> engine) \<Rightarrow> (usec list \<times> (int set \<times> int set \<times> int set) option) list \<Rightarrow> engine \<Rightarrow> engine option" where
  "dispatch proc ws s =
     (if \<not> runFlags s then Some s
      else (case ws of [] \<Rightarrow> None | w # ws' \<Rightarrow> do { s1 \<leftarrow> dispatch_turn proc w s; dispatch proc ws' s1 }))"

definition start :: "(nat \<Rightarrow> engine \<Rightarrow> int \<times> engine) \<Rightarrow> (usec list \<times> (int set \<times> int set \<times> int set) option) list \<Rightarrow> engine \<Rightarrow> engine option" where
  "start proc ws s = dispatch proc ws (s\<lparr>runFlags := True\<rparr>)"

definition end_engine :: "engine \<Rightarrow> engine" where
  "end_engine s = s\<lparr>runFlags := False\<rparr>"

section \<open>A pass over the timeouts\<close>

text \<open>
  Jobs that do their work without calling the engine: \<open>ret\<close> gives their results. The theorems are about such jobs.
\<close>

definition works :: "(nat \<Rightarrow> int) \<Rightarrow> nat \<Rightarrow> engine \<Rightarrow> int \<times> engine" where
  "works ret e s = (ret e, s)"

text \<open>The two queues hold the jobs of \<open>ts\<close> and \<open>es\<close>, the oldest first.\<close>

definition engine_queues :: "engine \<Rightarrow> nat list \<Rightarrow> nat list \<Rightarrow> bool" where
  "engine_queues s ts es \<longleftrightarrow>
     queues (jobs s) {timeoutQueue, eventQueue} (\<lambda>q. if q = timeoutQueue then rev ts else rev es)"

lemma sentinels: "timeoutQueue \<noteq> eventQueue"
  by (simp add: timeoutQueue_def eventQueue_def)

lemma engine_queuesD:
  assumes "engine_queues s ts es"
  shows "distinct ts" "distinct es" "GetHead timeoutQueue (jobs s) = (if ts = [] then None else Some (hd ts))"
    "GetHead eventQueue (jobs s) = (if es = [] then None else Some (hd es))"
  using queuesD(1) [OF assms [unfolded engine_queues_def], of timeoutQueue]
    queuesD(1) [OF assms [unfolded engine_queues_def], of eventQueue]
    GetHead_seq [OF assms [unfolded engine_queues_def], of timeoutQueue]
    GetHead_seq [OF assms [unfolded engine_queues_def], of eventQueue] sentinels
  by (auto simp: clist_def last_rev)

lemma next_timeout:
  assumes "engine_queues s (bs @ e # as) es"
  shows "Iter_Next timeoutQueue (Some e) (jobs s) = (if as = [] then None else Some (hd as))"
  using Iter_Next_seq [OF assms [unfolded engine_queues_def], of timeoutQueue "rev as" e "rev bs"] by (simp add: last_rev)

lemma remove_timeout:
  assumes "engine_queues s ts es" "e \<in> set ts"
  shows "engine_queues (s\<lparr>jobs := Remove_elem timeoutQueue e (jobs s)\<rparr>) (remove1 e ts) es"
proof -
  have "queues (Remove_elem timeoutQueue e (jobs s)) {timeoutQueue, eventQueue}
      ((\<lambda>q. if q = timeoutQueue then rev ts else rev es)(timeoutQueue := remove1 e (rev ts)))"
    using Remove_queues [OF assms(1) [unfolded engine_queues_def], of timeoutQueue e] assms(2) by simp
  moreover have "remove1 e (rev ts) = rev (remove1 e ts)"
    using engine_queuesD(1) [OF assms(1)] by (simp add: distinct_remove1_removeAll removeAll_filter_not_eq rev_filter)
  moreover have "(\<lambda>q. if q = timeoutQueue then rev ts else rev es)(timeoutQueue := rev (remove1 e ts)) =
      (\<lambda>q. if q = timeoutQueue then rev (remove1 e ts) else rev es)"
    by auto
  ultimately show ?thesis
    by (simp add: engine_queues_def)
qed

text \<open>A job is due after \<open>dt\<close> more microseconds; a pass goes on over the jobs that are not due or stay.\<close>

definition due :: "engine \<Rightarrow> usec \<Rightarrow> nat \<Rightarrow> bool" where
  "due s dt e \<longleftrightarrow> timeout s e \<le> currentTimeout s e + dt"

definition stays_on :: "(nat \<Rightarrow> int) \<Rightarrow> engine \<Rightarrow> usec \<Rightarrow> nat \<Rightarrow> bool" where
  "stays_on ret s dt e \<longleftrightarrow> \<not> due s dt e \<or> ret e \<noteq> 0"

text \<open>What a pass over \<open>xs\<close> does: \<open>as\<close> is credited with the time, \<open>gone\<close> is the job that ended it, if any.\<close>

definition passed :: "usec \<Rightarrow> engine \<Rightarrow> nat list \<Rightarrow> nat list \<Rightarrow> engine \<Rightarrow> bool" where
  "passed dt s as gone s' \<longleftrightarrow>
     (\<forall>e. e \<notin> set gone \<longrightarrow> currentTimeout s' e =
        (if e \<in> set as then if due s dt e then 0 else currentTimeout s e + dt else currentTimeout s e)) \<and>
     was_run s' = was_run s @ filter (due s dt) as @ gone \<and> deleted s' = deleted s @ gone \<and>
     delJob s' = (delJob s \<or> gone \<noteq> []) \<and> timeout s' = timeout s \<and> fLastSyncTime s' = fLastSyncTime s"

lemma due_other: "x \<noteq> e \<Longrightarrow> currentTimeout s' x = currentTimeout s x \<Longrightarrow> timeout s' = timeout s \<Longrightarrow> due s' dt x = due s dt x"
  by (simp add: due_def)

lemma sync_loop_passes:
  assumes "engine_queues s (bs @ xs) es"
  shows "\<exists>s'. sync_loop (works ret) dt (if xs = [] then None else Some (hd xs)) s = Some s' \<and>
    passed dt s (takeWhile (stays_on ret s dt) xs) (take 1 (dropWhile (stays_on ret s dt) xs)) s' \<and>
    engine_queues s' (bs @ takeWhile (stays_on ret s dt) xs @ drop 1 (dropWhile (stays_on ret s dt) xs)) es"
  using assms
proof (induction xs arbitrary: s bs)
  case Nil
  then show ?case
    by (simp add: sync_loop.simps passed_def)
next
  case (Cons x xs)
  let ?s1 = "addCurrentScheduleTime x dt s"
  have d: "distinct (bs @ x # xs)"
    using engine_queuesD(1) [OF Cons.prems] .
  have due1: "timeout ?s1 x \<le> currentTimeout ?s1 x \<longleftrightarrow> due s dt x"
    by (simp add: addCurrentScheduleTime_def due_def)
  show ?case
  proof (cases "due s dt x \<and> ret x = 0")
    case True
    then have st: "\<not> stays_on ret s dt x"
      by (simp add: stays_on_def)
    let ?s' = "(delete_job x ((?s1\<lparr>was_run := was_run s @ [x]\<rparr>)\<lparr>jobs := Remove_elem timeoutQueue x (jobs s)\<rparr>))\<lparr>delJob := True\<rparr>"
    have "sync_loop (works ret) dt (Some x) s = Some ?s'"
      using True due1 by (simp add: sync_loop.simps [of _ _ "Some x"] call_def works_def Let_def)
        (simp add: addCurrentScheduleTime_def)
    moreover have "passed dt s [] [x] ?s'"
      by (simp add: passed_def delete_job_def addCurrentScheduleTime_def)
    moreover have "engine_queues ?s' (bs @ xs) es"
    proof -
      have "remove1 x (bs @ x # xs) = bs @ xs"
        using d by (simp add: remove1_append)
      then show ?thesis
        using remove_timeout [OF Cons.prems, of x] by (simp add: engine_queues_def delete_job_def)
    qed
    ultimately show ?thesis
      using st by simp
  next
    case False
    then have st: "stays_on ret s dt x"
      by (auto simp: stays_on_def)
    define s3 where "s3 = (if due s dt x then refreshCurrentScheduleTime x (?s1\<lparr>was_run := was_run s @ [x]\<rparr>) else ?s1)"
    have s3: "engine_queues s3 ((bs @ [x]) @ xs) es" "\<And>e. e \<noteq> x \<Longrightarrow> currentTimeout s3 e = currentTimeout s e"
      "timeout s3 = timeout s" "jobs s3 = jobs s"
      using Cons.prems by (auto simp: s3_def engine_queues_def refreshCurrentScheduleTime_def addCurrentScheduleTime_def)
    have cong: "stays_on ret s3 dt e = stays_on ret s dt e" "due s3 dt e = due s dt e" if "e \<in> set xs" for e
    proof -
      have "e \<noteq> x"
        using d that by auto
      then show "due s3 dt e = due s dt e"
        using due_other s3(2,3) by blast
      then show "stays_on ret s3 dt e = stays_on ret s dt e"
        by (simp add: stays_on_def)
    qed
    have tw: "takeWhile (stays_on ret s3 dt) xs = takeWhile (stays_on ret s dt) xs"
      "dropWhile (stays_on ret s3 dt) xs = dropWhile (stays_on ret s dt) xs"
      using cong(1) by (auto cong: takeWhile_cong dropWhile_cong)
    have nx: "Iter_Next timeoutQueue (Some x) (jobs s) = (if xs = [] then None else Some (hd xs))"
      using next_timeout [OF Cons.prems] .
    have step: "sync_loop (works ret) dt (Some x) s = sync_loop (works ret) dt (if xs = [] then None else Some (hd xs)) s3"
    proof (cases "due s dt x")
      case True
      then show ?thesis
        using False nx due1 unfolding s3_def
        by (subst sync_loop.simps) (simp add: call_def works_def Let_def s3(4) refreshCurrentScheduleTime_def,
          simp add: addCurrentScheduleTime_def)
    next
      case not_due: False
      then show ?thesis
        using nx due1 unfolding s3_def
        by (subst sync_loop.simps) (simp add: Let_def, simp add: addCurrentScheduleTime_def)
    qed
    obtain s' where s': "sync_loop (works ret) dt (if xs = [] then None else Some (hd xs)) s3 = Some s'"
      "passed dt s3 (takeWhile (stays_on ret s dt) xs) (take 1 (dropWhile (stays_on ret s dt) xs)) s'"
      "engine_queues s' ((bs @ [x]) @ takeWhile (stays_on ret s dt) xs @ drop 1 (dropWhile (stays_on ret s dt) xs)) es"
      using Cons.IH [OF s3(1)] unfolding tw by blast
    have x3: "currentTimeout s3 x = (if due s dt x then 0 else currentTimeout s x + dt)"
      "was_run s3 = was_run s @ (if due s dt x then [x] else [])" "deleted s3 = deleted s" "delJob s3 = delJob s"
      "fLastSyncTime s3 = fLastSyncTime s"
      by (simp_all add: s3_def refreshCurrentScheduleTime_def addCurrentScheduleTime_def)
    have "passed dt s (x # takeWhile (stays_on ret s dt) xs) (take 1 (dropWhile (stays_on ret s dt) xs)) s'"
    proof -
      have f: "filter (due s3 dt) (takeWhile (stays_on ret s dt) xs) = filter (due s dt) (takeWhile (stays_on ret s dt) xs)"
        using cong(2) set_takeWhileD by (metis filter_cong)
      have xn: "x \<notin> set (takeWhile (stays_on ret s dt) xs)"
        using d by (auto dest: set_takeWhileD)
      have "due s3 dt e = due s dt e" "e \<noteq> x" if "e \<in> set (takeWhile (stays_on ret s dt) xs)" for e
        using cong(2) set_takeWhileD [OF that] d by auto
      then show ?thesis
        using s'(2) x3 s3(2,3) f xn unfolding passed_def by auto
    qed
    then show ?thesis
      using step s' st by simp
  qed
qed


lemma add_timeout:
  assumes "engine_queues s ts es" "fQueue (jobs s) e = None" "e \<noteq> timeoutQueue" "e \<noteq> eventQueue"
  shows "engine_queues (addElem e s) (ts @ [e]) es"
proof -
  have "(\<lambda>q. if q = timeoutQueue then rev ts else rev es)(timeoutQueue := e # rev ts) =
      (\<lambda>q. if q = timeoutQueue then rev (ts @ [e]) else rev es)"
    by auto
  then show ?thesis
    using EnQueue_queues [OF assms(1) [unfolded engine_queues_def], of timeoutQueue e] assms(2-4)
    by (simp add: engine_queues_def addElem_def)
qed

text \<open>A new engine with three jobs of 1, 2 and 3 milliseconds, and nothing for the events.\<close>

definition new_engine :: engine where
  "new_engine = Engine
     \<lparr>jobs = \<lparr>cells = \<lparr>nxt = (\<lambda>_. 0), prv = (\<lambda>_. 0)\<rparr>, fQueue = (\<lambda>_. None), fLength = (\<lambda>_. 0)\<rparr>,
      timeout = (\<lambda>_. 0), currentTimeout = (\<lambda>_. 0), fLastSyncTime = 0, delJob = False, sock = (\<lambda>e. int e),
      fReadSet = {}, fWriteSet = {}, fExceptionSet = {}, fMaxNumSockets = 0, runFlags = False,
      was_run = [], deleted = []\<rparr>"

definition three_jobs :: engine where
  "three_jobs = addElem 4 (addElem 3 (addElem 2 (TimeoutJob 4 3 (TimeoutJob 3 2 (TimeoutJob 2 1 new_engine)))))"

lemma new_engine_queues: "engine_queues new_engine [] []"
  by (auto simp: engine_queues_def queues_def new_engine_def Engine_def OSQueue_def clist_def timeoutQueue_def
      eventQueue_def)

lemma TimeoutJob_queues: "engine_queues s ts es \<Longrightarrow> engine_queues (TimeoutJob e t s) ts es"
  by (simp add: engine_queues_def TimeoutJob_def)

lemma three_jobs_queues: "engine_queues three_jobs [2, 3, 4] []"
proof -
  have none: "fQueue (jobs (TimeoutJob a x (TimeoutJob b y (TimeoutJob c z new_engine)))) e = None" for a b c x y z e
    by (simp add: TimeoutJob_def new_engine_def Engine_def OSQueue_def)
  have q: "engine_queues (TimeoutJob 4 3 (TimeoutJob 3 2 (TimeoutJob 2 1 new_engine))) [] []"
    by (intro TimeoutJob_queues new_engine_queues)
  have add: "fQueue (jobs (addElem e s)) x = (if x = e then Some timeoutQueue else fQueue (jobs s) x)"
    if "fQueue (jobs s) e = None" for e x s
    using that by (simp add: addElem_def EnQueue_def Let_def)
  show ?thesis
    unfolding three_jobs_def
    using add_timeout [OF add_timeout [OF add_timeout [OF q, of 2], of 3], of 4]
    by (simp add: none add timeoutQueue_def eventQueue_def)
qed




section \<open>The events\<close>

text \<open>
  The sets hold the descriptors of jobs in the event queue only; these are different from each other, fit in the sets, and
  are below the bound that \<open>select\<close> is given.
\<close>

definition events_ok :: "engine \<Rightarrow> nat list \<Rightarrow> bool" where
  "events_ok s es \<longleftrightarrow>
     fReadSet s \<union> fWriteSet s \<union> fExceptionSet s \<subseteq> sock s ` set es \<and> inj_on (sock s) (set es) \<and>
     (\<forall>e \<in> set es. 0 \<le> sock s e \<and> sock s e < fMaxNumSockets s \<and> sock s e < FD_SET_BITS)"

lemma queue_event:
  assumes "engine_queues s ts es" "fQueue (jobs s) e = None" "e \<noteq> timeoutQueue" "e \<noteq> eventQueue"
    "jobs s' = EnQueue eventQueue e (jobs s)"
  shows "engine_queues s' ts (es @ [e])"
proof -
  have "(\<lambda>q. if q = timeoutQueue then rev ts else rev es)(eventQueue := e # rev es) =
      (\<lambda>q. if q = timeoutQueue then rev ts else if q = eventQueue then e # rev es else rev es)"
    using sentinels by auto
  then have "queues (jobs s') {timeoutQueue, eventQueue}
      (\<lambda>q. if q = timeoutQueue then rev ts else if q = eventQueue then e # rev es else rev es)"
    using EnQueue_queues [OF assms(1) [unfolded engine_queues_def], of eventQueue e] assms(2-5) sentinels
    by (simp del: fun_upd_apply)
  then show ?thesis
    using sentinels by (simp add: engine_queues_def queues_def)
qed

lemma unqueue_event:
  assumes "engine_queues s ts es" "e \<in> set es" "jobs s' = Remove_elem eventQueue e (jobs s)"
  shows "engine_queues s' ts (remove1 e es)"
proof -
  have "queues (jobs s') {timeoutQueue, eventQueue}
      ((\<lambda>q. if q = timeoutQueue then rev ts else rev es)(eventQueue := remove1 e (rev es)))"
    using Remove_queues [OF assms(1) [unfolded engine_queues_def], of eventQueue e] assms(2,3) sentinels
    by (simp del: fun_upd_apply)
  moreover have "remove1 e (rev es) = rev (remove1 e es)"
    using engine_queuesD(2) [OF assms(1)] by (simp add: distinct_remove1_removeAll removeAll_filter_not_eq rev_filter)
  ultimately show ?thesis
    using sentinels by (simp add: engine_queues_def queues_def)
qed

lemma addEvent_books:
  assumes "engine_queues s ts es" "events_ok s es"
    and "fQueue (jobs s) e = None" "e \<notin> {timeoutQueue, eventQueue}" "0 \<le> sock s e" "sock s e < FD_SET_BITS"
      "sock s e \<notin> sock s ` set es"
  shows "\<exists>s'. addEvent e c s = Some (1, s') \<and> engine_queues s' ts (es @ [e]) \<and> events_ok s' (es @ [e]) \<and>
    (sock s e \<in> fReadSet s' \<longleftrightarrow> bit c 1) \<and> (sock s e \<in> fWriteSet s' \<longleftrightarrow> bit c 2) \<and>
    (sock s e \<in> fExceptionSet s' \<longleftrightarrow> bit c 3)"
proof -
  note e = assms(3-7)
  have ok: "fReadSet s \<union> fWriteSet s \<union> fExceptionSet s \<subseteq> sock s ` set es" "inj_on (sock s) (set es)"
    "\<forall>x \<in> set es. 0 \<le> sock s x \<and> sock s x < fMaxNumSockets s \<and> sock s x < FD_SET_BITS"
    using assms(2) by (simp_all add: events_ok_def)
  obtain s' where s': "addEvent e c s = Some (1, s')"
    by (auto simp: addEvent_def Let_def e(3,4) not_less not_le)
  have f: "jobs s' = EnQueue eventQueue e (jobs s)" "sock s' = sock s"
    "fMaxNumSockets s' = (if fMaxNumSockets s \<le> sock s e + 1 then sock s e + 1 else fMaxNumSockets s)"
    "fReadSet s' = (if bit c 1 then insert (sock s e) (fReadSet s - {sock s e}) else fReadSet s - {sock s e})"
    "fWriteSet s' = (if bit c 2 then insert (sock s e) (fWriteSet s - {sock s e}) else fWriteSet s - {sock s e})"
    "fExceptionSet s' = (if bit c 3 then insert (sock s e) (fExceptionSet s - {sock s e}) else fExceptionSet s - {sock s e})"
    using s' e(3,4) by (auto simp: addEvent_def Let_def)
  have "events_ok s' (es @ [e])"
    unfolding events_ok_def
  proof (intro conjI)
    show "fReadSet s' \<union> fWriteSet s' \<union> fExceptionSet s' \<subseteq> sock s' ` set (es @ [e])"
      using ok(1) by (auto simp: f)
    show "inj_on (sock s') (set (es @ [e]))"
      using ok(2) e(5) by (auto simp: f(2))
    show "\<forall>x \<in> set (es @ [e]). 0 \<le> sock s' x \<and> sock s' x < fMaxNumSockets s' \<and> sock s' x < FD_SET_BITS"
      using ok(3) e(3,4) by (auto simp: f(2,3))
  qed
  moreover have "engine_queues s' ts (es @ [e])"
    using queue_event [OF assms(1) e(1) _ _ f(1)] e(2) by simp
  ultimately show "\<exists>s'. addEvent e c s = Some (1, s') \<and> engine_queues s' ts (es @ [e]) \<and> events_ok s' (es @ [e]) \<and>
      (sock s e \<in> fReadSet s' \<longleftrightarrow> bit c 1) \<and> (sock s e \<in> fWriteSet s' \<longleftrightarrow> bit c 2) \<and>
      (sock s e \<in> fExceptionSet s' \<longleftrightarrow> bit c 3)"
    using s' f(4-6) by auto
qed

lemma delEvent_books:
  assumes "engine_queues s ts es" "events_ok s es" "e \<in> set es"
  shows "\<exists>s'. delEvent e s = (1, s') \<and> engine_queues s' ts (remove1 e es) \<and> events_ok s' (remove1 e es) \<and>
    sock s e \<notin> fReadSet s' \<union> fWriteSet s' \<union> fExceptionSet s' \<and> deleted s' = deleted s @ [e]"
proof -
  note e = assms(3)
  have ok: "fReadSet s \<union> fWriteSet s \<union> fExceptionSet s \<subseteq> sock s ` set es" "inj_on (sock s) (set es)"
    "\<forall>x \<in> set es. 0 \<le> sock s x \<and> sock s x < fMaxNumSockets s \<and> sock s x < FD_SET_BITS"
    using assms(2) by (simp_all add: events_ok_def)
  from e have n: "\<not> sock s e < 0"
    using ok(3) by auto
  obtain s' where s': "delEvent e s = (1, s')"
    using n by (simp add: delEvent_def Let_def)
  have f: "jobs s' = Remove_elem eventQueue e (jobs s)" "sock s' = sock s" "deleted s' = deleted s @ [e]"
    "fMaxNumSockets s' = (if sock s e + 1 = fMaxNumSockets s then fMaxNumSockets s - 1 else fMaxNumSockets s)"
    "fReadSet s' = fReadSet s - {sock s e}" "fWriteSet s' = fWriteSet s - {sock s e}"
    "fExceptionSet s' = fExceptionSet s - {sock s e}"
    using s' n by (auto simp: delEvent_def Let_def delete_job_def)
  have r: "set (remove1 e es) = set es - {e}"
    using engine_queuesD(2) [OF assms(1)] by (rule set_remove1_eq)
  have ne: "sock s x \<noteq> sock s e" if "x \<in> set es - {e}" for x
    using that ok(2) e by (auto dest: inj_onD)
  have "events_ok s' (remove1 e es)"
    unfolding events_ok_def r
  proof (intro conjI)
    show "fReadSet s' \<union> fWriteSet s' \<union> fExceptionSet s' \<subseteq> sock s' ` (set es - {e})"
      using ok(1) by (auto simp: f)
    show "inj_on (sock s') (set es - {e})"
      using ok(2) by (simp add: f(2) inj_on_diff)
    show "\<forall>x \<in> set es - {e}. 0 \<le> sock s' x \<and> sock s' x < fMaxNumSockets s' \<and> sock s' x < FD_SET_BITS"
    proof
      fix x assume x: "x \<in> set es - {e}"
      then have "0 \<le> sock s x \<and> sock s x < fMaxNumSockets s \<and> sock s x < FD_SET_BITS"
        using ok(3) by blast
      then show "0 \<le> sock s' x \<and> sock s' x < fMaxNumSockets s' \<and> sock s' x < FD_SET_BITS"
        using ne [OF x] by (simp add: f(2,4))
    qed
  qed
  then show "\<exists>s'. delEvent e s = (1, s') \<and> engine_queues s' ts (remove1 e es) \<and> events_ok s' (remove1 e es) \<and>
      sock s e \<notin> fReadSet s' \<union> fWriteSet s' \<union> fExceptionSet s' \<and> deleted s' = deleted s @ [e]"
    using s' unqueue_event [OF assms(1) e f(1)] f by auto
qed

text \<open>
  C37: Adding and deleting events keeps the books. \<open>addEvent\<close> of a job that is in no queue, with a descriptor of its own
  that fits in an \<open>fd_set\<close>, puts it at the end of the queue with its descriptor in exactly the sets that were asked
  for; \<open>delEvent\<close> takes a job out and its descriptor out of all sets. In between, the sets hold only descriptors of
  queued jobs, all below the bound for \<open>select\<close>.
\<close>

theorem event_books:
  assumes "engine_queues s ts es" "events_ok s es"
  shows "(fQueue (jobs s) e = None \<and> e \<notin> {timeoutQueue, eventQueue} \<and> 0 \<le> sock s e \<and> sock s e < FD_SET_BITS \<and>
       sock s e \<notin> sock s ` set es \<longrightarrow>
      (\<exists>s'. addEvent e c s = Some (1, s') \<and> engine_queues s' ts (es @ [e]) \<and> events_ok s' (es @ [e]) \<and>
        (sock s e \<in> fReadSet s' \<longleftrightarrow> bit c 1) \<and> (sock s e \<in> fWriteSet s' \<longleftrightarrow> bit c 2) \<and>
        (sock s e \<in> fExceptionSet s' \<longleftrightarrow> bit c 3))) \<and>
    (e \<in> set es \<longrightarrow>
      (\<exists>s'. delEvent e s = (1, s') \<and> engine_queues s' ts (remove1 e es) \<and> events_ok s' (remove1 e es) \<and>
        sock s e \<notin> fReadSet s' \<union> fWriteSet s' \<union> fExceptionSet s' \<and> deleted s' = deleted s @ [e]))"
  using addEvent_books [OF assms] delEvent_books [OF assms] by blast

lemma event_books_witness:
  "\<exists>s'. addEvent 7 0b110 new_engine = Some (1, s') \<and> engine_queues s' [] [7] \<and> events_ok s' [7] \<and>
    7 \<in> fReadSet s' \<and> 7 \<in> fWriteSet s' \<and> 7 \<notin> fExceptionSet s'"
proof -
  have ok: "events_ok new_engine []" "fQueue (jobs new_engine) 7 = None" "sock new_engine 7 = 7"
    by (simp_all add: events_ok_def new_engine_def Engine_def OSQueue_def)
  have b: "bit (0b110 :: 32 word) 1" "bit (0b110 :: 32 word) 2" "\<not> bit (0b110 :: 32 word) 3"
    by (simp_all add: bit_numeral_rec numeral_eq_Suc)
  show ?thesis
    using event_books [OF new_engine_queues ok(1), of 7 "0b110"] ok(2,3) b
    by (simp add: timeoutQueue_def eventQueue_def FD_SET_BITS_def)
qed

text \<open>
  What \<open>Processor\<close> returns means opposite things for the three sets: a job whose descriptor is ready for writing is
  deleted when its work returns other than 0, where the comment in \<open>Job.h\<close> says that this keeps it.
\<close>

lemma write_event_deleted:
  assumes "sock s e \<in> ws" "sock s e \<in> fWriteSet s" "sock s e \<notin> rs" "0 \<le> sock s e" "ret e \<noteq> 0"
  shows "\<exists>s'. event_loop (works ret) rs ws xs (Some e) s = Some s' \<and> deleted s' = deleted s @ [e]"
  using assms
  by (simp add: event_loop.simps [of _ _ _ _ "Some e"] event_check_def call_def works_def delEvent_def delete_job_def Let_def)

lemma read_event_kept:
  assumes "sock s e \<in> rs" "sock s e \<in> fReadSet s" "ret e \<noteq> 0"
  shows "event_check (works ret) e (sock s e) rs fReadSet (\<lambda>r. r = 0) s = (False, s\<lparr>was_run := was_run s @ [e]\<rparr>)"
  using assms by (simp add: event_check_def call_def works_def)

end
